(* ===== verification/Prelude.thy ===== *)
theory Prelude imports Main "HOL-Library.Word" begin

text \<open>
  Shared vocabulary of the development: the integer types of ServerCore/Types.h, the fault values
  that stand for CRASH, ASSERT_CRASH and undefined behaviour, byte-array helpers, reachability
  over step relations, and the rule collections \<open>machine_simps\<close> and \<open>fault_simps\<close> the component
  theories share.
\<close>

unbundle bit_operations_syntax

named_theorems machine_simps \<open>machine integers whose value is known to be in range\<close>
named_theorems fault_simps \<open>evaluation of the fault monad\<close>

section \<open>Machine integers\<close>

text \<open>
  Signed integers are kept as \<open>int\<close> with the wrap-around written out by \<open>to_int32\<close> and
  \<open>to_int64\<close>; unsigned ones are words.
\<close>

type_synonym BYTE = "8 word"
type_synonym int32 = int
type_synonym int64 = int
type_synonym uint16 = "16 word"
type_synonym uint32 = "32 word"
type_synonym uint64 = "64 word"

definition to_int32 :: "int \<Rightarrow> int32" where
  "to_int32 k = signed_take_bit 31 k"

definition to_int64 :: "int \<Rightarrow> int64" where
  "to_int64 k = signed_take_bit 63 k"

text \<open>The value of an int converted to size_t (64-bit unsigned).\<close>

definition to_size_t :: "int \<Rightarrow> int" where
  "to_size_t k = take_bit 64 k"

lemma to_int32_id [machine_simps]: "- 2147483648 \<le> k \<Longrightarrow> k < 2147483648 \<Longrightarrow> to_int32 k = k"
  by (simp add: to_int32_def signed_take_bit_int_eq_self)

lemma to_int32_range: "- 2147483648 \<le> to_int32 k \<and> to_int32 k < 2147483648"
  using signed_take_bit_int_greater_eq_minus_exp [of 31 k] signed_take_bit_int_less_exp [of 31 k]
  by (simp add: to_int32_def)

lemma to_int64_id [machine_simps]:
  "- 9223372036854775808 \<le> k \<Longrightarrow> k < 9223372036854775808 \<Longrightarrow> to_int64 k = k"
  by (simp add: to_int64_def signed_take_bit_int_eq_self)

lemma to_size_t_id [machine_simps]: "0 \<le> k \<Longrightarrow> k < 18446744073709551616 \<Longrightarrow> to_size_t k = k"
  by (simp add: to_size_t_def take_bit_int_eq_self)

lemma unat_less_8: "unat (w :: 8 word) < 256"
  using unsigned_less [of w, where ?'a = nat] by simp

lemma unat_less_16: "unat (w :: 16 word) < 65536"
  using unsigned_less [of w, where ?'a = nat] by simp

lemma unat_less_32: "unat (w :: 32 word) < 4294967296"
  using unsigned_less [of w, where ?'a = nat] by simp

lemma unat_less_64: "unat (w :: 64 word) < 18446744073709551616"
  using unsigned_less [of w, where ?'a = nat] by simp

lemma unat_of_nat_16: "n < 65536 \<Longrightarrow> unat (word_of_nat n :: 16 word) = n"
  by (simp add: unat_of_nat take_bit_nat_eq_self)

lemma uint_of_nat_16: "n < 65536 \<Longrightarrow> uint (word_of_nat n :: 16 word) = int n"
  using unat_of_nat_16 [of n] by (metis of_nat_unat)

lemma unat_ucast_16_32 [simp]: "unat (ucast (w :: 16 word) :: 32 word) = unat w"
  using unat_less_16 [of w] by (simp add: unsigned_ucast_eq take_bit_nat_eq_self)

section \<open>Faults\<close>

text \<open>
  The ways an operation of the code can fail to return normally. \<open>Crash\<close> is the CRASH macro
  (a write through a null pointer) with its cause.
\<close>

datatype fault =
    Crash string
  | NullPointer
  | OutOfBounds
  | UndefinedBehaviour string
  | CppException string

type_synonym 'a result = "fault + 'a"

definition CRASH :: "string \<Rightarrow> 'a result" where
  "CRASH cause = Inl (Crash cause)"

definition ASSERT_CRASH :: "bool \<Rightarrow> 'a result \<Rightarrow> 'a result" where
  "ASSERT_CRASH expr k = (if expr = False then CRASH ''ASSERT_CRASH'' else k)"

primrec bind_result :: "'a result \<Rightarrow> ('a \<Rightarrow> 'b result) \<Rightarrow> 'b result" where
  "bind_result (Inl e) f = Inl e"
| "bind_result (Inr x) f = f x"

lemma ASSERT_CRASH_simps [simp, fault_simps]:
  "ASSERT_CRASH True k = k"
  "ASSERT_CRASH False k = Inl (Crash ''ASSERT_CRASH'')"
  by (simp_all add: ASSERT_CRASH_def CRASH_def)

lemma ASSERT_CRASH_Inr_iff [fault_simps]: "ASSERT_CRASH b k = Inr r \<longleftrightarrow> b \<and> k = Inr r"
  by (cases b) simp_all

lemma bind_result_Inl_iff: "bind_result m f = Inl e \<longleftrightarrow> m = Inl e \<or> (\<exists>x. m = Inr x \<and> f x = Inl e)"
  by (cases m) simp_all

lemma bind_result_Inr_iff [fault_simps]:
  "bind_result m f = Inr r \<longleftrightarrow> (\<exists>x. m = Inr x \<and> f x = Inr r)"
  by (cases m) auto

lemma bind_result_assoc: "bind_result (bind_result m f) g = bind_result m (\<lambda>x. bind_result (f x) g)"
  by (cases m) simp_all

section \<open>Byte arrays\<close>

text \<open>Storing a run of bytes into an array at an offset.\<close>

definition write_bytes :: "'a list \<Rightarrow> nat \<Rightarrow> 'a list \<Rightarrow> 'a list" where
  "write_bytes buf off bs = take off buf @ bs @ drop (off + length bs) buf"

definition read_bytes :: "'a list \<Rightarrow> nat \<Rightarrow> nat \<Rightarrow> 'a list" where
  "read_bytes buf off n = take n (drop off buf)"

text \<open>
  memcpy inside one array: outside the array it is out of bounds, and with overlapping source
  and destination its behaviour is undefined (C11 7.24.2.1).
\<close>

definition memcpy_within :: "'a list \<Rightarrow> nat \<Rightarrow> nat \<Rightarrow> nat \<Rightarrow> 'a list result" where
  "memcpy_within buf dst src n =
     (if length buf < dst + n \<or> length buf < src + n then Inl OutOfBounds
      else if 0 < n \<and> dst < src + n \<and> src < dst + n then Inl (UndefinedBehaviour ''memcpy overlap'')
      else Inr (write_bytes buf dst (read_bytes buf src n)))"

lemma length_write_bytes [simp]:
  "off + length bs \<le> length buf \<Longrightarrow> length (write_bytes buf off bs) = length buf"
  by (simp add: write_bytes_def)

lemma length_read_bytes [simp]: "off + n \<le> length buf \<Longrightarrow> length (read_bytes buf off n) = n"
  by (simp add: read_bytes_def)

lemma read_write_same [simp]:
  "off + length bs \<le> length buf \<Longrightarrow> read_bytes (write_bytes buf off bs) off (length bs) = bs"
  by (simp add: read_bytes_def write_bytes_def)

lemma read_write_before:
  "p + n \<le> off \<Longrightarrow> off \<le> length buf \<Longrightarrow> read_bytes (write_bytes buf off bs) p n = read_bytes buf p n"
  by (simp add: read_bytes_def write_bytes_def take_drop min_absorb1)

lemma read_write_after:
  assumes "off + length bs \<le> p" and "off + length bs \<le> length buf"
  shows "read_bytes (write_bytes buf off bs) p n = read_bytes buf p n"
proof -
  have "drop p (write_bytes buf off bs) = drop p buf"
    using assms by (simp add: write_bytes_def)
  then show ?thesis by (simp add: read_bytes_def)
qed

lemma read_bytes_append:
  "read_bytes buf off (m + n) = read_bytes buf off m @ read_bytes buf (off + m) n"
  by (simp add: read_bytes_def take_add add.commute)

section \<open>Reachability\<close>

inductive reaches :: "('s \<Rightarrow> 's \<Rightarrow> bool) \<Rightarrow> 's \<Rightarrow> 's \<Rightarrow> bool" for step where
  reaches_refl: "reaches step s s"
| reaches_step: "reaches step s t \<Longrightarrow> step t u \<Longrightarrow> reaches step s u"

lemma reaches_trans: "reaches step t u \<Longrightarrow> reaches step s t \<Longrightarrow> reaches step s u"
  by (induction rule: reaches.induct) (auto intro: reaches.intros)

lemma reaches_invariant:
  assumes "reaches step s t" and "I s" and "\<And>x y. I x \<Longrightarrow> step x y \<Longrightarrow> I y"
  shows "I t"
  using assms(1,2) by (induction rule: reaches.induct) (auto intro: assms(3))

end
