(* ===== verification/RecvBuffer.thy ===== *)
theory RecvBuffer imports Prelude begin

text \<open>
  ServerCore/RecvBuffer.h and RecvBuffer.cpp: the linear byte buffer a session receives into
  (and, under the name RIOSendBuffer, sends from). Positions are int32; the bytes are a list
  of length \<open>capacity\<close>.
\<close>

section \<open>State and operations\<close>

record recv_buffer =
  rb_capacity :: int32
  rb_bufferSize :: int32
  rb_readPos :: int32
  rb_writePos :: int32
  rb_buffer :: "BYTE list"

definition BUFFER_COUNT :: int where
  "BUFFER_COUNT = 2"

text \<open>std::vector::resize with a negative int32 converts it to a huge size_t and throws.\<close>

definition new_RecvBuffer :: "int32 \<Rightarrow> recv_buffer result" where
  "new_RecvBuffer bufferSize =
     (let capacity = to_int32 (bufferSize * BUFFER_COUNT)
      in if capacity < 0 then Inl (CppException ''length_error'')
         else Inr \<lparr>rb_capacity = capacity, rb_bufferSize = bufferSize, rb_readPos = 0,
                   rb_writePos = 0, rb_buffer = replicate (nat capacity) 0\<rparr>)"

definition DataSize :: "recv_buffer \<Rightarrow> int32" where
  "DataSize b = to_int32 (rb_writePos b - rb_readPos b)"

definition FreeSize :: "recv_buffer \<Rightarrow> int32" where
  "FreeSize b = to_int32 (rb_capacity b - rb_writePos b)"

definition WriteOffset :: "recv_buffer \<Rightarrow> int32" where
  "WriteOffset b = rb_writePos b"

text \<open>ReadPos() and WritePos() are pointers into the buffer: here, offsets.\<close>

definition ReadPos :: "recv_buffer \<Rightarrow> nat" where
  "ReadPos b = nat (rb_readPos b)"

definition WritePos :: "recv_buffer \<Rightarrow> nat" where
  "WritePos b = nat (rb_writePos b)"

definition Clean :: "recv_buffer \<Rightarrow> recv_buffer result" where
  "Clean b =
     (let dataSize = DataSize b
      in if dataSize = 0 then Inr (b\<lparr>rb_readPos := 0, rb_writePos := 0\<rparr>)
         else if FreeSize b < rb_bufferSize b then
           bind_result (memcpy_within (rb_buffer b) 0 (ReadPos b) (nat dataSize))
             (\<lambda>buf. Inr (b\<lparr>rb_buffer := buf, rb_readPos := 0, rb_writePos := dataSize\<rparr>))
         else Inr b)"

definition OnRead :: "recv_buffer \<Rightarrow> int32 \<Rightarrow> bool \<times> recv_buffer" where
  "OnRead b numOfBytes =
     (if numOfBytes > DataSize b then (False, b)
      else (True, b\<lparr>rb_readPos := to_int32 (rb_readPos b + numOfBytes)\<rparr>))"

definition OnWrite :: "recv_buffer \<Rightarrow> int32 \<Rightarrow> bool \<times> recv_buffer" where
  "OnWrite b numOfBytes =
     (if numOfBytes > FreeSize b then (False, b)
      else (True, b\<lparr>rb_writePos := to_int32 (rb_writePos b + numOfBytes)\<rparr>))"

text \<open>Bytes stored at WritePos() by the receive call or by memcpy_s, before OnWrite counts them.\<close>

definition store_at_WritePos :: "recv_buffer \<Rightarrow> BYTE list \<Rightarrow> recv_buffer" where
  "store_at_WritePos b bs = b\<lparr>rb_buffer := write_bytes (rb_buffer b) (WritePos b) bs\<rparr>"

section \<open>Invariant and abstraction\<close>

definition rb_inv :: "recv_buffer \<Rightarrow> bool" where
  "rb_inv b \<longleftrightarrow> 0 \<le> rb_readPos b \<and> rb_readPos b \<le> rb_writePos b \<and> rb_writePos b \<le> rb_capacity b
     \<and> rb_capacity b = 2 * rb_bufferSize b \<and> 0 < rb_bufferSize b \<and> rb_capacity b < 2 ^ 31
     \<and> length (rb_buffer b) = nat (rb_capacity b)"

text \<open>The bytes received and not yet consumed.\<close>

definition unread :: "recv_buffer \<Rightarrow> BYTE list" where
  "unread b = read_bytes (rb_buffer b) (ReadPos b) (nat (DataSize b))"

lemma rb_sizes:
  assumes "rb_inv b"
  shows "DataSize b = rb_writePos b - rb_readPos b" "FreeSize b = rb_capacity b - rb_writePos b"
    "0 \<le> DataSize b" "0 \<le> FreeSize b" "DataSize b + FreeSize b \<le> rb_capacity b"
  using assms by (auto simp: rb_inv_def DataSize_def FreeSize_def to_int32_id)

lemma length_unread: "rb_inv b \<Longrightarrow> length (unread b) = nat (DataSize b)"
  using rb_sizes [of b] by (auto simp: unread_def rb_inv_def ReadPos_def)

lemma rb_inv_new:
  assumes "0 < n" and "n < 2 ^ 30"
  shows "\<exists>b. new_RecvBuffer n = Inr b \<and> rb_inv b \<and> unread b = [] \<and> FreeSize b = 2 * n \<and> rb_bufferSize b = n"
  using assms
  by (simp add: new_RecvBuffer_def BUFFER_COUNT_def to_int32_id rb_inv_def unread_def DataSize_def
      FreeSize_def read_bytes_def Let_def)

lemma store_OnWrite:
  assumes inv: "rb_inv b" and fits: "int (length bs) \<le> FreeSize b"
  shows "fst (OnWrite (store_at_WritePos b bs) (int (length bs)))"
    and "rb_inv (snd (OnWrite (store_at_WritePos b bs) (int (length bs))))"
    and "unread (snd (OnWrite (store_at_WritePos b bs) (int (length bs)))) = unread b @ bs"
proof -
  let ?s = "store_at_WritePos b bs" and ?n = "int (length bs)"
  let ?b = "snd (OnWrite ?s ?n)"
  note sz = rb_sizes [OF inv]
  have free: "FreeSize ?s = FreeSize b"
    by (simp add: FreeSize_def store_at_WritePos_def)
  then show "fst (OnWrite ?s ?n)"
    using fits by (simp add: OnWrite_def)
  have wp: "rb_writePos ?b = rb_writePos b + ?n"
    using fits free sz inv by (simp add: OnWrite_def store_at_WritePos_def rb_inv_def to_int32_id)
  have fields: "rb_readPos ?b = rb_readPos b" "rb_capacity ?b = rb_capacity b"
    "rb_bufferSize ?b = rb_bufferSize b" "rb_buffer ?b = write_bytes (rb_buffer b) (WritePos b) bs"
    by (simp_all add: OnWrite_def store_at_WritePos_def)
  have len: "WritePos b + length bs \<le> length (rb_buffer b)"
    using inv fits sz by (simp add: rb_inv_def WritePos_def)
  show inv': "rb_inv ?b"
    using inv fits sz len by (simp add: rb_inv_def wp fields)
  have "nat (DataSize ?b) = nat (DataSize b) + length bs"
    using rb_sizes [OF inv'] sz by (simp add: wp fields)
  moreover have "ReadPos b + nat (DataSize b) = WritePos b"
    using inv sz by (simp add: rb_inv_def ReadPos_def WritePos_def)
  moreover have "ReadPos ?b = ReadPos b" by (simp add: ReadPos_def fields)
  ultimately show "unread ?b = unread b @ bs"
    using len by (simp add: unread_def fields read_bytes_append read_write_before)
qed

lemma OnRead_ok:
  assumes inv: "rb_inv b" and n: "0 \<le> n" "n \<le> DataSize b"
  shows "fst (OnRead b n)" and "rb_inv (snd (OnRead b n))"
    and "unread (snd (OnRead b n)) = drop (nat n) (unread b)"
    and "FreeSize (snd (OnRead b n)) = FreeSize b"
proof -
  let ?b = "snd (OnRead b n)"
  note sz = rb_sizes [OF inv]
  show "fst (OnRead b n)" using n by (simp add: OnRead_def)
  have rp: "rb_readPos ?b = rb_readPos b + n"
    using n sz inv by (simp add: OnRead_def rb_inv_def to_int32_id)
  have fields: "rb_writePos ?b = rb_writePos b" "rb_capacity ?b = rb_capacity b"
    "rb_bufferSize ?b = rb_bufferSize b" "rb_buffer ?b = rb_buffer b"
    by (simp_all add: OnRead_def)
  show inv': "rb_inv ?b" using inv n sz by (simp add: rb_inv_def rp fields)
  show "FreeSize ?b = FreeSize b" by (simp add: FreeSize_def fields)
  have d: "nat (DataSize ?b) = nat (DataSize b) - nat n" "nat (rb_readPos b + n) = nat n + ReadPos b"
    using n sz inv rb_sizes [OF inv'] by (auto simp: rp fields ReadPos_def rb_inv_def)
  show "unread ?b = drop (nat n) (unread b)"
    by (simp add: unread_def read_bytes_def d fields ReadPos_def [of ?b] rp drop_take)
qed

lemma OnWrite_overflow: "FreeSize b < n \<Longrightarrow> OnWrite b n = (False, b)"
  by (simp add: OnWrite_def)

lemma OnRead_overflow: "DataSize b < n \<Longrightarrow> OnRead b n = (False, b)"
  by (simp add: OnRead_def)

text \<open>
  Clean moves the unread bytes to the front when less than one buffer size is left. The move is
  a memcpy, so it is defined exactly when the two ranges do not overlap.
\<close>

definition clean_safe :: "recv_buffer \<Rightarrow> bool" where
  "clean_safe b \<longleftrightarrow> DataSize b = 0 \<or> rb_bufferSize b \<le> FreeSize b \<or> DataSize b \<le> rb_readPos b"

lemma Clean_ok:
  assumes inv: "rb_inv b" and safe: "clean_safe b"
  shows "\<exists>b'. Clean b = Inr b' \<and> rb_inv b' \<and> unread b' = unread b \<and> FreeSize b \<le> FreeSize b'
    \<and> rb_bufferSize b' = rb_bufferSize b \<and> rb_capacity b' = rb_capacity b
    \<and> (rb_bufferSize b \<le> FreeSize b' \<or> FreeSize b' = rb_capacity b - DataSize b)"
proof -
  note sz = rb_sizes [OF inv]
  consider (empty) "DataSize b = 0" | (keep) "DataSize b \<noteq> 0" "rb_bufferSize b \<le> FreeSize b"
    | (move) "DataSize b \<noteq> 0" "FreeSize b < rb_bufferSize b" "DataSize b \<le> rb_readPos b"
    using safe unfolding clean_safe_def by (meson not_le)
  then show ?thesis
  proof cases
    case empty
    then show ?thesis
      using inv sz by (auto simp: Clean_def rb_inv_def unread_def DataSize_def FreeSize_def
          to_int32_id read_bytes_def)
  next
    case keep
    then show ?thesis using inv by (simp add: Clean_def)
  next
    case move
    let ?n = "nat (DataSize b)"
    let ?buf = "write_bytes (rb_buffer b) 0 (read_bytes (rb_buffer b) (ReadPos b) ?n)"
    let ?b = "b\<lparr>rb_buffer := ?buf, rb_readPos := 0, rb_writePos := DataSize b\<rparr>"
    have bounds: "?n \<le> ReadPos b" "ReadPos b + ?n \<le> length (rb_buffer b)"
      using inv sz move by (auto simp: rb_inv_def ReadPos_def)
    then have m: "memcpy_within (rb_buffer b) 0 (ReadPos b) ?n = Inr ?buf"
      by (simp add: memcpy_within_def)
    have clean: "Clean b = Inr ?b"
      using move by (simp add: Clean_def Let_def m)
    have len: "length ?buf = length (rb_buffer b)"
      using bounds by simp
    have inv': "rb_inv ?b"
      using inv sz move len by (simp add: rb_inv_def)
    have "unread ?b = unread b"
      using rb_sizes [OF inv'] bounds read_write_same [of 0 "read_bytes (rb_buffer b) (ReadPos b) ?n" "rb_buffer b"]
      by (simp add: unread_def ReadPos_def [of ?b])
    moreover have "FreeSize ?b = rb_capacity b - DataSize b"
      using rb_sizes [OF inv'] by simp
    ultimately show ?thesis
      using clean inv' sz by auto
  qed
qed

lemma Clean_overlap:
  assumes inv: "rb_inv b" and "\<not> clean_safe b"
  shows "Clean b = Inl (UndefinedBehaviour ''memcpy overlap'')"
proof -
  note sz = rb_sizes [OF inv]
  have "DataSize b \<noteq> 0" "FreeSize b < rb_bufferSize b" "rb_readPos b < DataSize b"
    using assms(2) by (auto simp: clean_safe_def)
  moreover from this have
    "memcpy_within (rb_buffer b) 0 (ReadPos b) (nat (DataSize b)) = Inl (UndefinedBehaviour ''memcpy overlap'')"
    using inv sz by (auto simp: memcpy_within_def rb_inv_def ReadPos_def)
  ultimately show ?thesis by (simp add: Clean_def Let_def)
qed

end
