(* ===== verification/PacketFraming.thy ===== *)
theory PacketFraming imports Prelude begin

text \<open>
  The packet framing of ServerCore/Session.h and Session.cpp: the PacketHeader struct as it lies
  in memory on a little-endian machine, and the loop of PacketSession::OnRecv that cuts the
  received bytes into packets. The loop may run forever, so its result is an option.
\<close>

section \<open>Header and loop\<close>

record PacketHeader =
  ph_size :: uint16
  ph_id :: uint16

definition sizeof_PacketHeader :: nat where
  "sizeof_PacketHeader = 4"

definition read_u16 :: "BYTE list \<Rightarrow> nat \<Rightarrow> uint16" where
  "read_u16 bs off = word_of_nat (unat (bs ! off) + 256 * unat (bs ! (off + 1)))"

definition u16_bytes :: "uint16 \<Rightarrow> BYTE list" where
  "u16_bytes w = [word_of_nat (unat w mod 256), word_of_nat (unat w div 256)]"

text \<open>reinterpret_cast of the bytes at an offset.\<close>

definition read_header :: "BYTE list \<Rightarrow> nat \<Rightarrow> PacketHeader" where
  "read_header bs off = \<lparr>ph_size = read_u16 bs off, ph_id = read_u16 bs (off + 2)\<rparr>"

definition header_bytes :: "PacketHeader \<Rightarrow> BYTE list" where
  "header_bytes h = u16_bytes (ph_size h) @ u16_bytes (ph_id h)"

text \<open>
  The loop body: \<open>dataSize < sizeof(PacketHeader)\<close> compares an int32 with a size_t, so the
  int32 is converted first. Each OnRecvPacket call is recorded by the bytes it gets.
\<close>

partial_function (option) OnRecv_loop ::
  "BYTE list \<Rightarrow> int32 \<Rightarrow> int32 \<Rightarrow> BYTE list list \<Rightarrow> (int32 \<times> BYTE list list) option" where
  "OnRecv_loop buffer len processLen calls =
     (let dataSize = to_int32 (len - processLen)
      in if to_size_t dataSize < int sizeof_PacketHeader then Some (processLen, calls)
         else let header = read_header buffer (nat processLen)
              in if dataSize < uint (ph_size header) then Some (processLen, calls)
                 else OnRecv_loop buffer len (to_int32 (processLen + uint (ph_size header)))
                        (calls @ [read_bytes buffer (nat processLen) (unat (ph_size header))]))"

definition OnRecv :: "BYTE list \<Rightarrow> int32 \<Rightarrow> (int32 \<times> BYTE list list) option" where
  "OnRecv buffer len = OnRecv_loop buffer len 0 []"

section \<open>The header as bytes\<close>

lemma length_u16_bytes [simp]: "length (u16_bytes w) = 2"
  by (simp add: u16_bytes_def)

lemma length_header_bytes [simp]: "length (header_bytes h) = sizeof_PacketHeader"
  by (simp add: header_bytes_def sizeof_PacketHeader_def)

lemma unat_word16_split:
  "unat (word_of_nat (unat (w :: uint16) mod 256) :: BYTE) + 256 * unat (word_of_nat (unat w div 256) :: BYTE)
    = unat w"
proof -
  have "unat w div 256 < 256" using unat_less_16 [of w] by (simp add: div_less_iff_less_mult)
  then show ?thesis by (simp add: unat_of_nat take_bit_eq_mod)
qed

lemma read_u16_at: "length p = off \<Longrightarrow> read_u16 (p @ u16_bytes w @ r) off = w"
  using unat_word16_split [of w]
  by (simp add: read_u16_def u16_bytes_def nth_append word_unat_eq_iff)

lemma read_header_bytes: "read_header (header_bytes h @ r) 0 = h"
proof -
  have "read_u16 (header_bytes h @ r) 0 = ph_size h"
    using read_u16_at [of "[]" 0] by (simp add: header_bytes_def)
  moreover have "read_u16 (header_bytes h @ r) 2 = ph_id h"
    using read_u16_at [of "u16_bytes (ph_size h)" 2 "ph_id h" r] by (simp add: header_bytes_def)
  ultimately show ?thesis unfolding read_header_def by (simp only: add_0) simp
qed

lemma read_header_shift: "read_header bs off = read_header (drop off bs) 0" if "off + 4 \<le> length bs"
  using that by (simp add: read_header_def read_u16_def add.commute add.left_commute)

lemma read_header_prefix: "4 \<le> length p \<Longrightarrow> read_header (p @ r) 0 = read_header p 0"
  by (auto simp: read_header_def read_u16_def nth_append)

lemma read_header_take: "4 \<le> n \<Longrightarrow> 4 \<le> length p \<Longrightarrow> read_header (take n p) 0 = read_header p 0"
  by (simp add: read_header_def read_u16_def)

section \<open>Frames\<close>

definition frame_size :: "BYTE list \<Rightarrow> nat" where
  "frame_size s = unat (ph_size (read_header s 0))"

text \<open>No complete frame at the front: the loop stops here.\<close>

definition partial_frame :: "BYTE list \<Rightarrow> bool" where
  "partial_frame s \<longleftrightarrow> length s < sizeof_PacketHeader \<or> length s < frame_size s"

text \<open>A packet as the sending side builds it: the size field counts the whole packet.\<close>

definition well_framed :: "BYTE list \<Rightarrow> bool" where
  "well_framed p \<longleftrightarrow> sizeof_PacketHeader \<le> length p \<and> frame_size p = length p"

text \<open>How the loop cuts a byte string, independently of its counters.\<close>

inductive cuts :: "BYTE list \<Rightarrow> BYTE list list \<Rightarrow> BYTE list \<Rightarrow> bool" where
  cuts_stop: "partial_frame s \<Longrightarrow> cuts s [] s"
| cuts_frame: "\<not> partial_frame s \<Longrightarrow> 0 < frame_size s \<Longrightarrow> cuts (drop (frame_size s) s) ps r
    \<Longrightarrow> cuts s (take (frame_size s) s # ps) r"

text \<open>A frame boundary at which a complete header announces size 0.\<close>

inductive zero_header_reached :: "BYTE list \<Rightarrow> bool" where
  zero_here: "\<not> partial_frame s \<Longrightarrow> frame_size s = 0 \<Longrightarrow> zero_header_reached s"
| zero_later: "\<not> partial_frame s \<Longrightarrow> 0 < frame_size s \<Longrightarrow> zero_header_reached (drop (frame_size s) s)
    \<Longrightarrow> zero_header_reached s"

inductive_cases zero_header_reachedE: "zero_header_reached s"

code_pred cuts .

lemma frame_size_less: "frame_size s < 65536"
  by (simp add: frame_size_def unat_less_16)

lemma cuts_or_zero: "(\<exists>ps r. cuts s ps r) \<or> zero_header_reached s"
proof (induction s rule: length_induct)
  case (1 s)
  show ?case
  proof (cases "partial_frame s \<or> frame_size s = 0")
    case True
    then show ?thesis by (auto intro: cuts_stop zero_here)
  next
    case False
    then have "length (drop (frame_size s) s) < length s"
      by (auto simp: partial_frame_def sizeof_PacketHeader_def)
    with 1 False show ?thesis by (meson cuts_frame zero_later not_gr_zero)
  qed
qed

lemma not_cuts_zero: "cuts s ps r \<Longrightarrow> \<not> zero_header_reached s"
  by (induction rule: cuts.induct) (auto elim: zero_header_reachedE)

lemma cuts_length: "cuts s ps r \<Longrightarrow> s = concat ps @ r"
  by (induction rule: cuts.induct) (simp_all, metis append_take_drop_id append.assoc)

lemma cuts_concat:
  "list_all well_framed ps \<Longrightarrow> partial_frame r \<Longrightarrow> cuts (concat ps @ r) ps r"
proof (induction ps)
  case Nil
  then show ?case by (simp add: cuts_stop)
next
  case (Cons p ps)
  let ?s = "p @ concat ps @ r"
  have p: "4 \<le> length p" "frame_size p = length p"
    using Cons.prems by (simp_all add: well_framed_def sizeof_PacketHeader_def)
  then have "frame_size ?s = length p"
    by (simp add: frame_size_def read_header_prefix)
  moreover from this have "\<not> partial_frame ?s" using p by (simp add: partial_frame_def sizeof_PacketHeader_def)
  moreover have "cuts (concat ps @ r) ps r" using Cons by simp
  ultimately show ?case
    using cuts_frame [of ?s ps r] p by (cases "p = []") simp_all
qed

lemma cuts_functional: "cuts s ps r \<Longrightarrow> cuts s ps' r' \<Longrightarrow> ps = ps' \<and> r = r'"
proof (induction arbitrary: ps' r' rule: cuts.induct)
  case (cuts_stop s)
  then show ?case by (auto elim: cuts.cases)
next
  case (cuts_frame s ps r)
  from cuts_frame.prems cuts_frame.hyps(1) obtain ps'' where "ps' = take (frame_size s) s # ps''"
    and "cuts (drop (frame_size s) s) ps'' r'"
    by (auto elim: cuts.cases)
  with cuts_frame.IH show ?case by blast
qed

lemma cuts_partial: "cuts s ps r \<Longrightarrow> partial_frame r"
  by (induction rule: cuts.induct) simp_all

text \<open>A prefix of a stream of packets cuts into the first packets and a rest that is still partial.\<close>

lemma partial_frame_prefix:
  assumes "partial_frame (s @ t) \<or> (well_framed (s @ t) \<and> t \<noteq> [])"
  shows "partial_frame s"
proof (cases "length s < 4")
  case False
  then have "frame_size (s @ t) = frame_size s" by (simp add: frame_size_def read_header_prefix)
  then show ?thesis using assms False by (auto simp: partial_frame_def well_framed_def sizeof_PacketHeader_def)
qed (simp add: partial_frame_def sizeof_PacketHeader_def)

lemma cuts_well_framed:
  assumes "well_framed p" and "cuts s ps r"
  shows "cuts (p @ s) (p # ps) r"
proof -
  have p: "4 \<le> length p" "frame_size p = length p"
    using assms by (simp_all add: well_framed_def sizeof_PacketHeader_def)
  then have "frame_size (p @ s) = length p" by (simp add: frame_size_def read_header_prefix)
  then show ?thesis
    using cuts_frame [of "p @ s" ps r] assms(2) p by (cases "p = []") (simp_all add: partial_frame_def sizeof_PacketHeader_def)
qed

lemma cuts_prefix:
  assumes "list_all well_framed ps" and "partial_frame r" and "list_all (\<lambda>p. length p \<le> Suc m) ps"
    and "length r \<le> m" and "s @ s' = concat ps @ r"
  shows "\<exists>ps1 ps2 q. ps = ps1 @ ps2 \<and> cuts s ps1 q \<and> length q \<le> m \<and> q @ s' = concat ps2 @ r"
  using assms
proof (induction ps arbitrary: s)
  case Nil
  then have "partial_frame s" using partial_frame_prefix [of s s'] by simp
  moreover have "length s \<le> m" using Nil.prems(4,5) by (metis append_Nil concat.simps(1) le_add1 le_trans length_append)
  ultimately show ?case using Nil.prems by (auto intro: cuts_stop)
next
  case (Cons p ps)
  show ?case
  proof (cases "length s < length p")
    case True
    then obtain t where t: "p = s @ t" "t \<noteq> []"
      using Cons.prems(5) by (auto simp: append_eq_append_conv2)
    then have "partial_frame s" using partial_frame_prefix [of s t] Cons.prems(1) by simp
    then have "p # ps = [] @ (p # ps) \<and> cuts s [] s \<and> length s \<le> m \<and> s @ s' = concat (p # ps) @ r"
      using True Cons.prems(3,5) by (auto intro: cuts_stop)
    then show ?thesis by blast
  next
    case False
    define s1 where "s1 = drop (length p) s"
    have "take (length p) s = p" and s1': "s1 @ s' = concat ps @ r"
      using False arg_cong [OF Cons.prems(5), of "take (length p)"] arg_cong [OF Cons.prems(5), of "drop (length p)"]
      by (simp_all add: s1_def)
    then have s1: "s = p @ s1" "s1 @ s' = concat ps @ r" by (metis append_take_drop_id s1_def) (rule s1')
    from Cons.IH [OF _ Cons.prems(2) _ Cons.prems(4) s1(2)] Cons.prems(1,3)
    obtain ps1 ps2 q where "ps = ps1 @ ps2" "cuts s1 ps1 q" "length q \<le> m" "q @ s' = concat ps2 @ r"
      by auto
    then show ?thesis
      using cuts_well_framed [of p s1 ps1 q] Cons.prems(1) s1(1)
      by (intro exI [of _ "p # ps1"] exI [of _ ps2] exI [of _ q]) simp
  qed
qed

section \<open>The loop follows the cuts\<close>

text \<open>One round of the loop at position \<open>k\<close>, in terms of the bytes that are left.\<close>

lemma OnRecv_round:
  assumes "length buf < 2 ^ 31" and "k \<le> length buf"
  shows "partial_frame (drop k buf) \<Longrightarrow> OnRecv_loop buf (int (length buf)) (int k) acc = Some (int k, acc)"
    and "\<not> partial_frame (drop k buf) \<Longrightarrow>
      OnRecv_loop buf (int (length buf)) (int k) acc =
      OnRecv_loop buf (int (length buf)) (int (k + frame_size (drop k buf)))
        (acc @ [take (frame_size (drop k buf)) (drop k buf)])"
proof -
  have ds: "to_int32 (int (length buf) - int k) = int (length buf - k)"
    "to_size_t (int (length buf - k)) = int (length buf - k)"
    using assms by (simp_all add: to_int32_id to_size_t_id of_nat_diff)
  have hd: "4 \<le> length buf - k \<Longrightarrow> ph_size (read_header buf k) = ph_size (read_header (drop k buf) 0)"
    using assms(2) by (subst read_header_shift) simp_all
  have uf: "4 \<le> length buf - k \<Longrightarrow> uint (ph_size (read_header buf k)) = int (frame_size (drop k buf))"
    using hd by (simp add: frame_size_def)
  note unf = OnRecv_loop.simps [of buf "int (length buf)" "int k" acc]
  show "OnRecv_loop buf (int (length buf)) (int k) acc = Some (int k, acc)" if "partial_frame (drop k buf)"
    using that uf by (subst unf) (auto simp: ds partial_frame_def sizeof_PacketHeader_def Let_def)
  assume full: "\<not> partial_frame (drop k buf)"
  then have len: "4 \<le> length buf - k" "frame_size (drop k buf) \<le> length buf - k"
    by (simp_all add: partial_frame_def sizeof_PacketHeader_def)
  have u: "uint (ph_size (read_header buf k)) = int (frame_size (drop k buf))"
    "unat (ph_size (read_header buf k)) = frame_size (drop k buf)"
    using hd len by (simp_all add: frame_size_def)
  have nx: "to_int32 (int k + int (frame_size (drop k buf))) = int (k + frame_size (drop k buf))"
    using len assms by (simp add: to_int32_id)
  show "OnRecv_loop buf (int (length buf)) (int k) acc =
      OnRecv_loop buf (int (length buf)) (int (k + frame_size (drop k buf)))
        (acc @ [take (frame_size (drop k buf)) (drop k buf)])"
    using len by (subst unf) (simp add: ds u nx sizeof_PacketHeader_def read_bytes_def Let_def del: of_nat_add of_nat_diff)
qed

lemma OnRecv_loop_cuts:
  "cuts s ps r \<Longrightarrow> length buf < 2 ^ 31 \<Longrightarrow> k \<le> length buf \<Longrightarrow> s = drop k buf \<Longrightarrow>
    OnRecv_loop buf (int (length buf)) (int k) acc = Some (int (length buf - length r), acc @ ps)"
proof (induction arbitrary: k acc rule: cuts.induct)
  case (cuts_stop s)
  then show ?case using OnRecv_round(1) [of buf k acc] by simp
next
  case (cuts_frame s ps r)
  let ?k = "k + frame_size s"
  have le: "?k \<le> length buf"
    using cuts_frame.hyps(1) cuts_frame.prems by (auto simp: partial_frame_def)
  have "drop (frame_size s) s = drop ?k buf"
    using cuts_frame.prems by (simp add: add.commute)
  from cuts_frame.IH [OF cuts_frame.prems(1) le this, of "acc @ [take (frame_size s) s]"]
    OnRecv_round(2) [of buf k acc] cuts_frame.hyps(1) cuts_frame.prems
  show ?case by simp
qed

lemma OnRecv_loop_zero:
  assumes "OnRecv_loop buf len k acc = Some res"
  shows "len = int (length buf) \<longrightarrow> length buf < 2 ^ 31 \<longrightarrow> 0 \<le> k \<longrightarrow> k \<le> len \<longrightarrow>
    \<not> zero_header_reached (drop (nat k) buf)"
proof (rule OnRecv_loop.raw_induct [where P = "\<lambda>buf len k acc res. len = int (length buf) \<longrightarrow>
      length buf < 2 ^ 31 \<longrightarrow> 0 \<le> k \<longrightarrow> k \<le> len \<longrightarrow> \<not> zero_header_reached (drop (nat k) buf)", OF _ assms],
    intro impI notI)
  fix f :: "BYTE list \<Rightarrow> int \<Rightarrow> int \<Rightarrow> BYTE list list \<Rightarrow> (int \<times> BYTE list list) option"
  fix buf len k acc res
  assume IH: "\<And>buf len k acc res. f buf len k acc = Some res \<Longrightarrow> len = int (length buf) \<longrightarrow>
      length buf < 2 ^ 31 \<longrightarrow> 0 \<le> k \<longrightarrow> k \<le> len \<longrightarrow> \<not> zero_header_reached (drop (nat k) buf)"
  assume eq: "(let dataSize = to_int32 (len - k)
      in if to_size_t dataSize < int sizeof_PacketHeader then Some (k, acc)
         else let header = read_header buf (nat k)
              in if dataSize < uint (ph_size header) then Some (k, acc)
                 else f buf len (to_int32 (k + uint (ph_size header)))
                        (acc @ [read_bytes buf (nat k) (unat (ph_size header))])) = Some res"
  assume len: "len = int (length buf)" "length buf < 2 ^ 31" "0 \<le> k" "k \<le> len"
    and zero: "zero_header_reached (drop (nat k) buf)"
  let ?s = "drop (nat k) buf"
  from zero have full: "\<not> partial_frame ?s" by (auto elim: zero_header_reachedE)
  then have sz: "4 \<le> length buf - nat k" "frame_size ?s \<le> length buf - nat k"
    by (simp_all add: partial_frame_def sizeof_PacketHeader_def)
  have ds: "to_int32 (len - k) = int (length buf - nat k)"
    "to_size_t (int (length buf - nat k)) = int (length buf - nat k)"
    using len by (simp_all add: to_int32_id to_size_t_id of_nat_diff)
  have "nat k + 4 \<le> length buf" using sz by linarith
  then have u: "uint (ph_size (read_header buf (nat k))) = int (frame_size ?s)"
    by (subst read_header_shift) (simp_all add: frame_size_def)
  have nx: "to_int32 (k + int (frame_size ?s)) = k + int (frame_size ?s)"
  proof (rule to_int32_id)
    have "nat k + frame_size ?s \<le> length buf" "k = int (nat k)" "length buf < 2147483648"
      using sz len by simp_all
    then show "k + int (frame_size ?s) < 2147483648" by linarith
  qed (use len in simp)
  from eq sz have "f buf len (k + int (frame_size ?s))
      (acc @ [read_bytes buf (nat k) (unat (ph_size (read_header buf (nat k))))]) = Some res"
    by (simp add: Let_def ds u nx sizeof_PacketHeader_def split: if_splits del: of_nat_diff)
  from IH [OF this] len sz have "\<not> zero_header_reached (drop (nat (k + int (frame_size ?s))) buf)"
    by force
  moreover have "drop (nat (k + int (frame_size ?s))) buf = drop (frame_size ?s) ?s"
    using len by (simp add: nat_add_distrib add.commute)
  ultimately have "\<not> zero_header_reached (drop (frame_size ?s) ?s)" by simp
  moreover have "frame_size ?s = 0 \<or> zero_header_reached (drop (frame_size ?s) ?s)"
    using zero by (auto elim: zero_header_reachedE)
  ultimately show False using zero full by auto
qed

lemma OnRecv_Some_iff:
  assumes "length buf < 2 ^ 31"
  shows "OnRecv buf (int (length buf)) = Some (n, ps) \<longleftrightarrow>
    (\<exists>r. cuts buf ps r \<and> n = int (length (concat ps)))"
proof -
  have loop: "cuts buf ps' r \<Longrightarrow> OnRecv buf (int (length buf)) = Some (int (length (concat ps')), ps')" for ps' r
    using OnRecv_loop_cuts [of buf ps' r buf 0 "[]"] assms cuts_length [of buf ps' r]
    by (simp add: OnRecv_def)
  show ?thesis
  proof
    assume some: "OnRecv buf (int (length buf)) = Some (n, ps)"
    then have "\<not> zero_header_reached buf"
      using OnRecv_loop_zero [of buf "int (length buf)" 0 "[]"] assms by (simp add: OnRecv_def)
    then obtain ps' r where "cuts buf ps' r" using cuts_or_zero by blast
    with loop some show "\<exists>r. cuts buf ps r \<and> n = int (length (concat ps))" by fastforce
  next
    assume "\<exists>r. cuts buf ps r \<and> n = int (length (concat ps))"
    then show "OnRecv buf (int (length buf)) = Some (n, ps)" using loop by blast
  qed
qed

lemma OnRecv_frames:
  assumes "list_all well_framed ps" and "partial_frame r" and "length (concat ps @ r) < 2 ^ 31"
  shows "OnRecv (concat ps @ r) (int (length (concat ps @ r))) = Some (int (length (concat ps)), ps)"
  using OnRecv_Some_iff [OF assms(3)] cuts_concat [OF assms(1,2)] by blast

end
