(* ===== verification/Service.thy ===== *)
theory Service imports Prelude begin

text \<open>
  ServerCore/Service.h and Service.cpp: the service's own state, the set of connected sessions
  with its counter, and the completion queue table. Sessions are named by \<open>nat\<close>, a set of
  shared_ptr by the names it holds. The parts of Service that run sessions are in Network.
\<close>

datatype ServiceType = Server | Client

record service =
  sv_type :: ServiceType
  sv_hasFactory :: bool
  sv_sessions :: "nat set"
  sv_sessionCount :: int32
  sv_maxSessionCount :: int32
  sv_rioCQEventList :: "int list"

definition new_Service :: "ServiceType \<Rightarrow> bool \<Rightarrow> int32 \<Rightarrow> service" where
  "new_Service ty factory maxSessionCount = \<lparr>sv_type = ty, sv_hasFactory = factory, sv_sessions = {},
     sv_sessionCount = 0, sv_maxSessionCount = maxSessionCount, sv_rioCQEventList = []\<rparr>"

definition CanStart :: "service \<Rightarrow> bool" where
  "CanStart s \<longleftrightarrow> sv_hasFactory s"

definition AddSession :: "nat \<Rightarrow> service \<Rightarrow> service" where
  "AddSession session s = s\<lparr>sv_sessions := insert session (sv_sessions s),
     sv_sessionCount := to_int32 (sv_sessionCount s + 1)\<rparr>"

definition ReleaseSession :: "nat \<Rightarrow> service \<Rightarrow> service result" where
  "ReleaseSession session s =
     ASSERT_CRASH (session \<in> sv_sessions s)
       (Inr (s\<lparr>sv_sessions := sv_sessions s - {session}, sv_sessionCount := to_int32 (sv_sessionCount s - 1)\<rparr>))"

text \<open>\<open>index % size()\<close> converts the int32 index to size_t; a modulus of zero is undefined.\<close>

definition GetRIOCQ :: "int32 \<Rightarrow> service \<Rightarrow> int result" where
  "GetRIOCQ index s =
     (let n = length (sv_rioCQEventList s)
      in if n = 0 then Inl (UndefinedBehaviour ''modulo zero'')
         else Inr (sv_rioCQEventList s ! nat (to_size_t index mod int n)))"

section \<open>The counter is the size of the set\<close>

definition service_inv :: "service \<Rightarrow> bool" where
  "service_inv s \<longleftrightarrow> finite (sv_sessions s) \<and> card (sv_sessions s) < 2 ^ 31 \<and> sv_sessionCount s = int (card (sv_sessions s))"

lemma service_inv_new: "service_inv (new_Service ty f m)"
  by (simp add: service_inv_def new_Service_def)

lemma AddSession_ok:
  assumes "service_inv s" and "session \<notin> sv_sessions s" and "card (sv_sessions s) + 1 < 2 ^ 31"
  shows "service_inv (AddSession session s)"
  using assms by (simp add: service_inv_def AddSession_def to_int32_id)

lemma ReleaseSession_ok:
  assumes inv: "service_inv s" and mem: "session \<in> sv_sessions s"
  shows "\<exists>s'. ReleaseSession session s = Inr s' \<and> service_inv s' \<and> sv_sessions s' = sv_sessions s - {session}"
proof -
  have "card (sv_sessions s - {session}) = card (sv_sessions s) - 1" and "0 < card (sv_sessions s)"
    using inv mem card_gt_0_iff by (auto simp: service_inv_def)
  moreover have "card (sv_sessions s) - 1 < 2147483648" using inv by (simp add: service_inv_def less_imp_diff_less)
  ultimately show ?thesis
    using inv mem by (simp add: service_inv_def ReleaseSession_def to_int32_id of_nat_diff)
qed

lemma ReleaseSession_twice:
  assumes "ReleaseSession session s = Inr s'"
  shows "ReleaseSession session s' = CRASH ''ASSERT_CRASH''"
  using assms by (auto simp: ReleaseSession_def ASSERT_CRASH_Inr_iff CRASH_def)

text \<open>Adding a connected session again counts it twice.\<close>

lemma AddSession_again:
  assumes "service_inv s" and "session \<in> sv_sessions s" and "card (sv_sessions s) + 1 < 2 ^ 31"
  shows "sv_sessionCount (AddSession session s) = int (card (sv_sessions (AddSession session s))) + 1"
  using assms by (simp add: service_inv_def AddSession_def to_int32_id insert_absorb)

lemma GetRIOCQ_ok:
  assumes "sv_rioCQEventList s \<noteq> []"
  shows "\<exists>cq. GetRIOCQ index s = Inr cq \<and> cq \<in> set (sv_rioCQEventList s)"
proof -
  let ?n = "length (sv_rioCQEventList s)"
  have "nat (to_size_t index mod int ?n) < ?n"
    using assms by (simp add: nat_less_iff)
  then show ?thesis using assms by (simp add: GetRIOCQ_def Let_def)
qed

end
