(* ===== verification/Monitor.thy ===== *)
theory Monitor imports Prelude begin

text \<open>
  ServerCore/Monitor.h and Monitor.cpp: the counters of the server, as the atomics keep them
  (std::atomic arithmetic wraps silently), and the once-a-minute report. CPU and memory usage
  come from the operating system and are not modelled.
\<close>

record monitor =
  mo_lastCountingTick :: int64
  mo_acceptCount :: int32
  mo_connectCount :: int32
  mo_recvCount :: int64
  mo_sendCount :: int64
  mo_recvSize :: int64
  mo_sendSize :: int64
  mo_processingCount :: int32
  mo_processCount :: int32

definition new_monitor :: monitor where
  "new_monitor = \<lparr>mo_lastCountingTick = 0, mo_acceptCount = 0, mo_connectCount = 0, mo_recvCount = 0,
     mo_sendCount = 0, mo_recvSize = 0, mo_sendSize = 0, mo_processingCount = 0, mo_processCount = 0\<rparr>"

definition IncAcceptCount :: "monitor \<Rightarrow> monitor" where
  "IncAcceptCount m = m\<lparr>mo_acceptCount := to_int32 (mo_acceptCount m + 1),
     mo_connectCount := to_int32 (mo_connectCount m + 1)\<rparr>"

definition DecDisconnectCount :: "monitor \<Rightarrow> monitor" where
  "DecDisconnectCount m = m\<lparr>mo_connectCount := to_int32 (mo_connectCount m + - 1)\<rparr>"

text \<open>The parameters are int32: a caller's int64 sum is converted when it is passed.\<close>

definition AddRecvCount :: "int32 \<Rightarrow> int32 \<Rightarrow> monitor \<Rightarrow> monitor" where
  "AddRecvCount recvCount sz m = m\<lparr>mo_recvCount := to_int64 (mo_recvCount m + recvCount),
     mo_recvSize := to_int64 (mo_recvSize m + sz)\<rparr>"

definition AddSendCount :: "int32 \<Rightarrow> int32 \<Rightarrow> monitor \<Rightarrow> monitor" where
  "AddSendCount sendCount sz m = m\<lparr>mo_sendCount := to_int64 (mo_sendCount m + sendCount),
     mo_sendSize := to_int64 (mo_sendSize m + sz)\<rparr>"

definition IncProcessCount :: "monitor \<Rightarrow> monitor" where
  "IncProcessCount m = m\<lparr>mo_processingCount := to_int32 (mo_processingCount m + 1)\<rparr>"

definition DecProcessCount :: "monitor \<Rightarrow> monitor" where
  "DecProcessCount m = m\<lparr>mo_processingCount := to_int32 (mo_processingCount m + - 1)\<rparr>"

definition AddProcessCount :: "monitor \<Rightarrow> monitor" where
  "AddProcessCount m = m\<lparr>mo_processCount := to_int32 (mo_processCount m + 1)\<rparr>"

text \<open>C++ integer division truncates towards zero.\<close>

definition cdiv :: "int \<Rightarrow> int \<Rightarrow> int" where
  "cdiv a b = (if (a < 0) = (b < 0) then \<bar>a\<bar> div \<bar>b\<bar> else - (\<bar>a\<bar> div \<bar>b\<bar>))"

record report =
  rp_accept :: int32
  rp_connect :: int32
  rp_recvCount :: int64
  rp_recvSize :: int64
  rp_sendCount :: int64
  rp_sendSize :: int64
  rp_dbCount :: int32
  rp_dbRemain :: int32

text \<open>At most one report per minute; the counters but the live ones start again.\<close>

definition PrintServerCounting :: "int64 \<Rightarrow> monitor \<Rightarrow> report option \<times> monitor" where
  "PrintServerCounting now m =
     (if mo_lastCountingTick m + 1000 * 60 > now then (None, m)
      else (Some \<lparr>rp_accept = mo_acceptCount m, rp_connect = mo_connectCount m,
                  rp_recvCount = mo_recvCount m,
                  rp_recvSize = cdiv (mo_recvSize m) (if mo_recvCount m = 0 then 1 else mo_recvCount m),
                  rp_sendCount = mo_sendCount m,
                  rp_sendSize = cdiv (mo_sendSize m) (if mo_sendCount m = 0 then 1 else mo_sendCount m),
                  rp_dbCount = mo_processCount m, rp_dbRemain = mo_processingCount m\<rparr>,
            m\<lparr>mo_acceptCount := 0, mo_sendCount := 0, mo_sendSize := 0, mo_recvCount := 0,
              mo_recvSize := 0, mo_processCount := 0, mo_lastCountingTick := now\<rparr>))"

text \<open>TimeMonitor logs a function that took 100 ms or more; ticks are uint64.\<close>

definition TimeMonitor_report :: "uint64 \<Rightarrow> uint64 \<Rightarrow> uint64 option" where
  "TimeMonitor_report start now = (let tick = now - start in if tick < 100 then None else Some tick)"

section \<open>What the counters mean\<close>

text \<open>The events the network code reports, and their effect.\<close>

datatype count_event = Accepted | Disconnected | Received int32 | Sent int32

primrec count_one :: "count_event \<Rightarrow> monitor \<Rightarrow> monitor" where
  "count_one Accepted m = IncAcceptCount m"
| "count_one Disconnected m = DecDisconnectCount m"
| "count_one (Received n) m = AddRecvCount 1 n m"
| "count_one (Sent n) m = AddSendCount 1 n m"

text \<open>The number of clients shown is the accepted ones less the disconnected ones, through any reports.\<close>

lemma connectCount_tracks:
  "to_int32 (mo_connectCount (fold count_one es m))
    = to_int32 (mo_connectCount m + int (count_list es Accepted) - int (count_list es Disconnected))"
proof (induction es arbitrary: m)
  case (Cons e es)
  have shift: "to_int32 (to_int32 a + b) = to_int32 (a + b)" for a b
    unfolding to_int32_def by (metis signed_take_bit_add signed_take_bit_signed_take_bit min.idem)
  show ?case
    using Cons [of "count_one e m"] shift [of "mo_connectCount m + 1" "int (count_list es Accepted) - int (count_list es Disconnected)"]
      shift [of "mo_connectCount m - 1" "int (count_list es Accepted) - int (count_list es Disconnected)"]
    by (cases e) (simp_all add: IncAcceptCount_def DecDisconnectCount_def AddRecvCount_def AddSendCount_def algebra_simps)
qed simp

lemma report_keeps_connectCount: "mo_connectCount (snd (PrintServerCounting now m)) = mo_connectCount m"
  by (simp add: PrintServerCounting_def)

lemma report_rate:
  assumes "PrintServerCounting now m = (Some r, m')" and "PrintServerCounting now' m' = (Some r', m'')"
  shows "now + 60000 \<le> now'"
  using assms by (auto simp: PrintServerCounting_def split: if_splits)

end
