(* ===== verification/Session.thy ===== *)
theory Session imports RecvBuffer PacketFraming Service Monitor begin

text \<open>
  ServerCore/Session.h and Session.cpp: a session, its handlers, and PacketSession's receiving.
  A handler works on a \<open>world\<close>: the session it runs on, the service, the monitor, the static
  SWorkId and the trace (newest first) of everything the session asked of the operating system,
  the application or the log. What the operating system answers is a parameter \<open>sys\<close>, a function
  of that trace. A SendBuffer in a queue stands for its bytes, which do not change once closed.
\<close>

section \<open>State\<close>

definition WARN_SENDQUEUE_SIZE :: nat where "WARN_SENDQUEUE_SIZE = 500"
definition KICK_SENDQUEUE_SIZE :: nat where "KICK_SENDQUEUE_SIZE = 1000"
definition RECV_BUFFER_SIZE :: int where "RECV_BUFFER_SIZE = 0x2000"
definition SEND_BUFFER_SIZE :: int where "SEND_BUFFER_SIZE = 0x4000"

datatype EventType = EvConnect | EvDisconnect | EvAccept | EvRecv | EvSend | EvNotify

text \<open>RIO_BUF with the owner of the event it is part of.\<close>

record RIOEvent =
  rio_BufferId :: int
  rio_Offset :: uint32
  rio_Length :: uint32
  rio_owner :: bool

definition RIOEvent_Init :: "RIOEvent \<Rightarrow> RIOEvent" where
  "RIOEvent_Init e = e\<lparr>rio_BufferId := 0, rio_Offset := 0, rio_Length := 0\<rparr>"

definition new_RIOEvent :: RIOEvent where
  "new_RIOEvent = \<lparr>rio_BufferId = 0, rio_Offset = 0, rio_Length = 0, rio_owner = False\<rparr>"

text \<open>An IocpEvent's state is its owner, and for SendEvent its buffers.\<close>

record session =
  se_self :: nat
  se_hasService :: bool
  se_connected :: bool
  se_workId :: int32
  se_sendBuffer :: recv_buffer
  se_recvBuffer :: recv_buffer
  se_sendQueue :: "BYTE list list"
  se_sendRegistered :: bool
  se_connectOwner :: bool
  se_disconnectOwner :: bool
  se_recvOwner :: bool
  se_sendOwner :: bool
  se_SendBuffers :: "BYTE list list"
  se_rioRecvBufferId :: int
  se_rioSendBufferId :: int
  se_rioRQ :: int
  se_rioRecvEvent :: RIOEvent
  se_rioSendEvent :: RIOEvent

datatype io_call =
    Sys_SetReuseAddress
  | Sys_BindAnyAddress
  | Sys_ConnectEx
  | Sys_DisconnectEx
  | Sys_WSARecv nat int32
  | Sys_WSASend "BYTE list list"
  | Sys_RIOReceive int uint32 uint32
  | Sys_RIOSend int uint32 uint32
  | Sys_RIORegisterBuffer nat int32
  | Sys_RIOCreateRequestQueue int
  | Cb_OnConnected
  | Cb_OnDisconnected
  | Cb_OnSend int32
  | Cb_OnRecvPacket "BYTE list"
  | Log_Warning string
  | Log_Error string

text \<open>The operating system: did the call succeed, the error code it left, the handle it returned.\<close>

record system =
  sy_ok :: "io_call list \<Rightarrow> bool"
  sy_error :: "io_call list \<Rightarrow> int32"
  sy_handle :: "io_call list \<Rightarrow> int"

record world =
  wd_self :: session
  wd_service :: service
  wd_monitor :: monitor
  wd_SWorkId :: int32
  wd_useRIO :: bool
  wd_trace :: "io_call list"

definition upd_self :: "(session \<Rightarrow> session) \<Rightarrow> world \<Rightarrow> world" where
  "upd_self f w = w\<lparr>wd_self := f (wd_self w)\<rparr>"

definition emit :: "io_call \<Rightarrow> world \<Rightarrow> world" where
  "emit c w = w\<lparr>wd_trace := c # wd_trace w\<rparr>"

text \<open>The result of the newest call.\<close>

definition call_ok :: "system \<Rightarrow> world \<Rightarrow> bool" where "call_ok sys w = sy_ok sys (wd_trace w)"
definition call_error :: "system \<Rightarrow> world \<Rightarrow> int32" where "call_error sys w = sy_error sys (wd_trace w)"
definition call_handle :: "system \<Rightarrow> world \<Rightarrow> int" where "call_handle sys w = sy_handle sys (wd_trace w)"

text \<open>winsock2.h and mswsockdef.h.\<close>

definition WSA_IO_PENDING :: int32 where "WSA_IO_PENDING = 997"
definition WSAEFAULT :: int32 where "WSAEFAULT = 10014"
definition WSAEINVAL :: int32 where "WSAEINVAL = 10022"
definition WSAECONNABORTED :: int32 where "WSAECONNABORTED = 10053"
definition WSAECONNRESET :: int32 where "WSAECONNRESET = 10054"
definition WSAENOBUFS :: int32 where "WSAENOBUFS = 10055"
definition RIO_INVALID_BUFFERID :: int where "RIO_INVALID_BUFFERID = 0xFFFFFFFF"
definition RIO_INVALID_RQ :: int where "RIO_INVALID_RQ = 0"

definition new_Session :: "nat \<Rightarrow> session result" where
  "new_Session self =
     bind_result (new_RecvBuffer SEND_BUFFER_SIZE) (\<lambda>sendBuffer.
     bind_result (new_RecvBuffer RECV_BUFFER_SIZE) (\<lambda>recvBuffer.
       Inr \<lparr>se_self = self, se_hasService = False, se_connected = False, se_workId = 0,
            se_sendBuffer = sendBuffer, se_recvBuffer = recvBuffer, se_sendQueue = [],
            se_sendRegistered = False, se_connectOwner = False, se_disconnectOwner = False,
            se_recvOwner = False, se_sendOwner = False, se_SendBuffers = [],
            se_rioRecvBufferId = 0, se_rioSendBufferId = 0, se_rioRQ = 0,
            se_rioRecvEvent = new_RIOEvent, se_rioSendEvent = new_RIOEvent\<rparr>))"

section \<open>Connecting and disconnecting\<close>

definition RegisterDisconnect :: "system \<Rightarrow> world \<Rightarrow> bool \<times> world" where
  "RegisterDisconnect sys w =
     (let w1 = emit Sys_DisconnectEx (upd_self (\<lambda>s. s\<lparr>se_disconnectOwner := True\<rparr>) w)
      in if \<not> call_ok sys w1 \<and> call_error sys w1 \<noteq> WSA_IO_PENDING
         then (False, upd_self (\<lambda>s. s\<lparr>se_disconnectOwner := False\<rparr>) w1)
         else (True, w1))"

text \<open>\<open>_connected.exchange(false)\<close> lets only one caller through.\<close>

definition Disconnect :: "system \<Rightarrow> string \<Rightarrow> world \<Rightarrow> world" where
  "Disconnect sys cause w =
     (if \<not> se_connected (wd_self w) then w
      else snd (RegisterDisconnect sys (emit (Log_Warning cause) (upd_self (\<lambda>s. s\<lparr>se_connected := False\<rparr>) w))))"

definition HandleError :: "system \<Rightarrow> int32 \<Rightarrow> world \<Rightarrow> world" where
  "HandleError sys errorCode w =
     (if errorCode = WSAECONNRESET \<or> errorCode = WSAECONNABORTED then Disconnect sys ''HandleError'' w
      else if errorCode = WSAEFAULT \<or> errorCode = WSAEINVAL then Disconnect sys ''INVALID REQ'' w
      else if errorCode = WSAENOBUFS then Disconnect sys ''MEMORY FULL'' w
      else emit (Log_Error ''Handle Error'') w)"

text \<open>\<open>GetService()->\<close> on a service that is gone.\<close>

definition with_service :: "world \<Rightarrow> 'a result \<Rightarrow> 'a result" where
  "with_service w k = (if se_hasService (wd_self w) then k else Inl NullPointer)"

definition RegisterConnect :: "system \<Rightarrow> world \<Rightarrow> (bool \<times> world) result" where
  "RegisterConnect sys w =
     (if se_connected (wd_self w) then Inr (False, w)
      else with_service w (
        if sv_type (wd_service w) \<noteq> Client then Inr (False, w)
        else let w1 = emit Sys_SetReuseAddress w
             in if \<not> call_ok sys w1 then Inr (False, w1)
                else let w2 = emit Sys_BindAnyAddress w1
                     in if \<not> call_ok sys w2 then Inr (False, w2)
                        else let w3 = emit Sys_ConnectEx (upd_self (\<lambda>s. s\<lparr>se_connectOwner := True\<rparr>) w2)
                             in if \<not> call_ok sys w3 \<and> call_error sys w3 \<noteq> WSA_IO_PENDING
                                then Inr (False, upd_self (\<lambda>s. s\<lparr>se_connectOwner := False\<rparr>) w3)
                                else Inr (True, w3)))"

definition Connect :: "system \<Rightarrow> world \<Rightarrow> (bool \<times> world) result" where
  "Connect sys w = RegisterConnect sys w"

section \<open>Posting receives and sends\<close>

definition RegisterRecv :: "system \<Rightarrow> world \<Rightarrow> world" where
  "RegisterRecv sys w =
     (if \<not> se_connected (wd_self w) then w
      else let rb = se_recvBuffer (wd_self w)
           in if wd_useRIO w then
                let w1 = upd_self (\<lambda>s. s\<lparr>se_rioRecvEvent :=
                             (RIOEvent_Init (se_rioRecvEvent s))\<lparr>rio_owner := True, rio_BufferId := se_rioRecvBufferId s,
                               rio_Length := word_of_int (FreeSize rb), rio_Offset := word_of_int (WriteOffset rb)\<rparr>\<rparr>) w;
                    e = se_rioRecvEvent (wd_self w1);
                    w2 = emit (Sys_RIOReceive (rio_BufferId e) (rio_Offset e) (rio_Length e)) w1
                in if \<not> call_ok sys w2 then
                     upd_self (\<lambda>s. s\<lparr>se_rioRecvEvent := (se_rioRecvEvent s)\<lparr>rio_owner := False\<rparr>\<rparr>)
                       (HandleError sys (call_error sys w2) w2)
                   else w2
              else
                let w1 = emit (Sys_WSARecv (WritePos rb) (FreeSize rb)) (upd_self (\<lambda>s. s\<lparr>se_recvOwner := True\<rparr>) w)
                in if \<not> call_ok sys w1 \<and> call_error sys w1 \<noteq> WSA_IO_PENDING then
                     upd_self (\<lambda>s. s\<lparr>se_recvOwner := False\<rparr>) (HandleError sys (call_error sys w1) w1)
                   else w1)"

text \<open>
  The loop that copies the swapped-out queue into the RIO send buffer. False: a buffer did not
  fit, and RegisterSend returns after disconnecting; what is left of the local queue is lost.
\<close>

primrec rio_fill :: "system \<Rightarrow> BYTE list list \<Rightarrow> world \<Rightarrow> bool \<times> world" where
  "rio_fill sys [] w = (True, w)"
| "rio_fill sys (b # queue) w =
     (let writeSize = int (length b)
      in if FreeSize (se_sendBuffer (wd_self w)) < writeSize then
           (False, Disconnect sys ''SendBuffer Over'' (emit (Log_Error ''There's no FreeSize'') w))
         else rio_fill sys queue (upd_self (\<lambda>s. s\<lparr>
                se_sendBuffer := snd (OnWrite (store_at_WritePos (se_sendBuffer s) b) writeSize),
                se_rioSendEvent := (se_rioSendEvent s)\<lparr>rio_Length := rio_Length (se_rioSendEvent s) + word_of_int writeSize\<rparr>\<rparr>) w))"

definition RegisterSend_RIO :: "system \<Rightarrow> world \<Rightarrow> world" where
  "RegisterSend_RIO sys w =
     (let queue = se_sendQueue (wd_self w);
          w1 = upd_self (\<lambda>s. s\<lparr>se_sendQueue := [], se_rioSendEvent :=
                  (RIOEvent_Init (se_rioSendEvent s))\<lparr>rio_owner := True, rio_BufferId := se_rioSendBufferId s,
                     rio_Offset := word_of_int (WriteOffset (se_sendBuffer s))\<rparr>\<rparr>) w;
          (fits, w2) = rio_fill sys queue w1
      in if \<not> fits then w2
         else let e = se_rioSendEvent (wd_self w2);
                  w3 = emit (Sys_RIOSend (rio_BufferId e) (rio_Offset e) (rio_Length e)) w2
              in if \<not> call_ok sys w3 \<and> call_error sys w3 \<noteq> WSA_IO_PENDING then
                   upd_self (\<lambda>s. s\<lparr>se_rioSendEvent := (se_rioSendEvent s)\<lparr>rio_owner := False\<rparr>, se_sendRegistered := False\<rparr>)
                     (HandleError sys (call_error sys w3) w3)
                 else w3)"

definition RegisterSend :: "system \<Rightarrow> world \<Rightarrow> world" where
  "RegisterSend sys w =
     (if \<not> se_connected (wd_self w) then w
      else if wd_useRIO w then RegisterSend_RIO sys w
      else let w1 = upd_self (\<lambda>s. s\<lparr>se_sendOwner := True, se_SendBuffers := se_SendBuffers s @ se_sendQueue s,
                                   se_sendQueue := []\<rparr>) w;
               w2 = emit (Sys_WSASend (se_SendBuffers (wd_self w1))) w1
           in if \<not> call_ok sys w2 \<and> call_error sys w2 \<noteq> WSA_IO_PENDING then
                upd_self (\<lambda>s. s\<lparr>se_sendOwner := False, se_SendBuffers := [], se_sendRegistered := False\<rparr>)
                  (HandleError sys (call_error sys w2) w2)
              else w2)"

definition Send :: "system \<Rightarrow> BYTE list \<Rightarrow> world \<Rightarrow> world" where
  "Send sys buffer w =
     (if \<not> se_connected (wd_self w) then w
      else let registerSend = (se_sendRegistered (wd_self w) = False);
               w1 = upd_self (\<lambda>s. s\<lparr>se_sendQueue := se_sendQueue s @ [buffer], se_sendRegistered := True\<rparr>) w
           in if registerSend then RegisterSend sys w1 else w1)"

section \<open>Registered I/O\<close>

definition RegisterRIOBuffer :: "system \<Rightarrow> world \<Rightarrow> bool \<times> world" where
  "RegisterRIOBuffer sys w =
     (let rb = se_recvBuffer (wd_self w);
          w1 = emit (Sys_RIORegisterBuffer (WritePos rb) (FreeSize rb)) w;
          w2 = upd_self (\<lambda>s. s\<lparr>se_rioRecvBufferId := call_handle sys w1\<rparr>) w1
      in if se_rioRecvBufferId (wd_self w2) = RIO_INVALID_BUFFERID then (False, w2)
         else let sb = se_sendBuffer (wd_self w2);
                  w3 = emit (Sys_RIORegisterBuffer (WritePos sb) (FreeSize sb)) w2;
                  w4 = upd_self (\<lambda>s. s\<lparr>se_rioSendBufferId := call_handle sys w3\<rparr>) w3
              in (se_rioSendBufferId (wd_self w4) \<noteq> RIO_INVALID_BUFFERID, w4))"

definition CreateRIORQ :: "system \<Rightarrow> world \<Rightarrow> (bool \<times> world) result" where
  "CreateRIORQ sys w =
     with_service w (bind_result (GetRIOCQ (se_workId (wd_self w)) (wd_service w)) (\<lambda>cq.
       let w1 = emit (Sys_RIOCreateRequestQueue cq) w;
           w2 = upd_self (\<lambda>s. s\<lparr>se_rioRQ := call_handle sys w1\<rparr>) w1
       in if se_rioRQ (wd_self w2) = RIO_INVALID_RQ then
            Inr (False, Disconnect sys ''Request Queue Create Fail'' (HandleError sys (call_error sys w2) w2))
          else Inr (True, w2)))"

definition SetWorkId :: "world \<Rightarrow> world" where
  "SetWorkId w = upd_self (\<lambda>s. s\<lparr>se_workId := wd_SWorkId w\<rparr>) (w\<lparr>wd_SWorkId := to_int32 (wd_SWorkId w + 1)\<rparr>)"

section \<open>Completions\<close>

definition ProcessConnect :: "system \<Rightarrow> world \<Rightarrow> world result" where
  "ProcessConnect sys w =
     (let w1 = upd_self (\<lambda>s. s\<lparr>se_connected := True\<rparr>) w
      in with_service w1 (
           let w2 = w1\<lparr>wd_service := AddSession (se_self (wd_self w1)) (wd_service w1)\<rparr>
           in bind_result (if wd_useRIO w2 then bind_result (CreateRIORQ sys (snd (RegisterRIOBuffer sys w2))) (\<lambda>(ok, w3). Inr w3)
                           else Inr w2) (\<lambda>w3.
                Inr (RegisterRecv sys (emit Cb_OnConnected (SetWorkId w3))))))"

definition ProcessDisconnect :: "world \<Rightarrow> world result" where
  "ProcessDisconnect w =
     (let w1 = emit Cb_OnDisconnected (upd_self (\<lambda>s. s\<lparr>se_disconnectOwner := False\<rparr>) w)
      in with_service w1 (bind_result (ReleaseSession (se_self (wd_self w1)) (wd_service w1)) (\<lambda>sv.
           Inr (w1\<lparr>wd_service := sv, wd_monitor := DecDisconnectCount (wd_monitor w1)\<rparr>))))"

text \<open>
  The bytes OnRecv is given start at ReadPos(); None: PacketSession::OnRecv does not return.
\<close>

definition ProcessRecv :: "system \<Rightarrow> int32 \<Rightarrow> world \<Rightarrow> world result option" where
  "ProcessRecv sys numOfBytes w =
     (let w1 = upd_self (\<lambda>s. if wd_useRIO w then s\<lparr>se_rioRecvEvent := (se_rioRecvEvent s)\<lparr>rio_owner := False\<rparr>\<rparr>
                             else s\<lparr>se_recvOwner := False\<rparr>) w
      in if numOfBytes = 0 then Some (Inr (Disconnect sys ''0 Bytes Recv'' w1))
         else let (fits, rb) = OnWrite (se_recvBuffer (wd_self w1)) numOfBytes
              in if \<not> fits then Some (Inr (Disconnect sys ''OnWrite Overflow'' w1))
                 else let dataSize = DataSize rb;
                          w2 = upd_self (\<lambda>s. s\<lparr>se_recvBuffer := rb\<rparr>) w1
                      in case OnRecv (read_bytes (rb_buffer rb) (ReadPos rb) (nat dataSize)) dataSize of
                           None \<Rightarrow> None
                         | Some (processLen, packets) \<Rightarrow>
                             let w3 = fold (\<lambda>p. emit (Cb_OnRecvPacket p)) packets w2;
                                 (consumed, rb2) = OnRead rb processLen
                             in if processLen < 0 \<or> dataSize < processLen \<or> \<not> consumed then
                                  Some (Inr (Disconnect sys ''OnRead Overflow'' w3))
                                else Some (bind_result (Clean rb2) (\<lambda>rb3.
                                       Inr (RegisterRecv sys (upd_self (\<lambda>s. s\<lparr>se_recvBuffer := rb3\<rparr>) w3)))))"

definition ProcessSend :: "system \<Rightarrow> int32 \<Rightarrow> world \<Rightarrow> world result" where
  "ProcessSend sys numOfBytes w =
     bind_result
       (if wd_useRIO w then
          bind_result (Clean (snd (OnRead (se_sendBuffer (wd_self w)) numOfBytes))) (\<lambda>sb.
            Inr (upd_self (\<lambda>s. s\<lparr>se_sendBuffer := sb, se_rioSendEvent := (se_rioSendEvent s)\<lparr>rio_owner := False\<rparr>\<rparr>) w))
        else Inr (upd_self (\<lambda>s. s\<lparr>se_sendOwner := False, se_SendBuffers := []\<rparr>) w))
       (\<lambda>w1. if numOfBytes = 0 then Inr (Disconnect sys ''0 Bytes Send'' w1)
             else let w2 = emit (Cb_OnSend numOfBytes) w1;
                      n = length (se_sendQueue (wd_self w2));
                      w3 = (if n \<ge> WARN_SENDQUEUE_SIZE then emit (Log_Warning ''SendQueueSize Over'') w2 else w2)
                  in if n \<ge> WARN_SENDQUEUE_SIZE then
                       Inr (Disconnect sys ''SendQueue Size Over'' (emit (Log_Warning ''Kick By SendQueueSize Over'') w3))
                     else if se_sendQueue (wd_self w3) = [] then Inr (upd_self (\<lambda>s. s\<lparr>se_sendRegistered := False\<rparr>) w3)
                     else Inr (RegisterSend sys w3))"

section \<open>Dispatch\<close>

definition Dispatch_iocp :: "system \<Rightarrow> EventType \<Rightarrow> int32 \<Rightarrow> world \<Rightarrow> world result option" where
  "Dispatch_iocp sys eventType numOfBytes w =
     (case eventType of
        EvConnect \<Rightarrow> Some (ProcessConnect sys w)
      | EvDisconnect \<Rightarrow> Some (ProcessDisconnect w)
      | EvRecv \<Rightarrow>
          if wd_useRIO w then Some (Inr w)
          else map_option (\<lambda>r. bind_result r (\<lambda>w1.
                 Inr (w1\<lparr>wd_monitor := AddRecvCount 1 numOfBytes (wd_monitor w1)\<rparr>))) (ProcessRecv sys numOfBytes w)
      | EvSend \<Rightarrow>
          if wd_useRIO w then Some (Inr w)
          else Some (bind_result (ProcessSend sys numOfBytes w) (\<lambda>w1.
                 Inr (w1\<lparr>wd_monitor := AddSendCount 1 numOfBytes (wd_monitor w1)\<rparr>)))
      | _ \<Rightarrow> Some (Inr w))"

definition Dispatch_rio :: "system \<Rightarrow> EventType \<Rightarrow> int32 \<Rightarrow> world \<Rightarrow> world result option" where
  "Dispatch_rio sys eventType numOfBytes w =
     (case eventType of
        EvRecv \<Rightarrow> ProcessRecv sys numOfBytes w
      | EvSend \<Rightarrow> Some (ProcessSend sys numOfBytes w)
      | _ \<Rightarrow> Some (Inr w))"

section \<open>What every handler keeps\<close>

text \<open>The world with only its trace and its session's flags changed by an error or a disconnect.\<close>

lemma world_simps [simp]:
  "wd_self (upd_self f w) = f (wd_self w)" "wd_service (upd_self f w) = wd_service w"
  "wd_monitor (upd_self f w) = wd_monitor w" "wd_SWorkId (upd_self f w) = wd_SWorkId w"
  "wd_useRIO (upd_self f w) = wd_useRIO w" "wd_trace (upd_self f w) = wd_trace w"
  "wd_self (emit c w) = wd_self w" "wd_service (emit c w) = wd_service w"
  "wd_monitor (emit c w) = wd_monitor w" "wd_SWorkId (emit c w) = wd_SWorkId w"
  "wd_useRIO (emit c w) = wd_useRIO w" "wd_trace (emit c w) = c # wd_trace w"
  by (simp_all add: upd_self_def emit_def)

text \<open>What Disconnect (and so HandleError) may change.\<close>

definition same_but_flags :: "session \<Rightarrow> session \<Rightarrow> bool" where
  "same_but_flags s s' \<longleftrightarrow> s' = s\<lparr>se_connected := se_connected s', se_disconnectOwner := se_disconnectOwner s'\<rparr>
     \<and> (se_connected s' \<longrightarrow> se_connected s)"

lemma Disconnect_frame:
  "wd_useRIO (Disconnect sys c w) = wd_useRIO w" "wd_service (Disconnect sys c w) = wd_service w"
  "wd_monitor (Disconnect sys c w) = wd_monitor w" "wd_SWorkId (Disconnect sys c w) = wd_SWorkId w"
  "same_but_flags (wd_self w) (wd_self (Disconnect sys c w))"
  "\<not> se_connected (wd_self (Disconnect sys c w))"
  by (simp_all add: Disconnect_def RegisterDisconnect_def Let_def same_but_flags_def)

lemma HandleError_frame:
  "wd_useRIO (HandleError sys e w) = wd_useRIO w" "wd_service (HandleError sys e w) = wd_service w"
  "wd_monitor (HandleError sys e w) = wd_monitor w" "wd_SWorkId (HandleError sys e w) = wd_SWorkId w"
  "same_but_flags (wd_self w) (wd_self (HandleError sys e w))"
  by (simp_all add: HandleError_def Disconnect_frame, simp_all add: same_but_flags_def)

end
