(* ===== verification/StreamBuffer.thy ===== *)
theory StreamBuffer imports RecvBuffer begin

text \<open>
  The contract a session relies on when it receives into a buffer, lets the framing consume a
  prefix and tidies up, stated as a locale and discharged for RecvBuffer.
\<close>

locale stream_buffer =
  fixes inv :: "'b \<Rightarrow> bool" and contents :: "'b \<Rightarrow> BYTE list" and room :: "'b \<Rightarrow> int" and share :: "'b \<Rightarrow> int"
    and put :: "'b \<Rightarrow> BYTE list \<Rightarrow> bool \<times> 'b" and get :: "'b \<Rightarrow> int \<Rightarrow> bool \<times> 'b" and tidy :: "'b \<Rightarrow> 'b result"
  assumes share_pos: "inv b \<Longrightarrow> 0 < share b"
    and put_fits: "inv b \<Longrightarrow> int (length bs) \<le> room b \<Longrightarrow>
      \<exists>b'. put b bs = (True, b') \<and> inv b' \<and> contents b' = contents b @ bs \<and> share b' = share b
        \<and> room b' = room b - int (length bs)"
    and put_full: "inv b \<Longrightarrow> room b < int (length bs) \<Longrightarrow> \<not> fst (put b bs)"
    and get_ok: "inv b \<Longrightarrow> 0 \<le> n \<Longrightarrow> n \<le> int (length (contents b)) \<Longrightarrow>
      \<exists>b'. get b n = (True, b') \<and> inv b' \<and> contents b' = drop (nat n) (contents b) \<and> share b' = share b"
    and tidy_ok: "inv b \<Longrightarrow> 2 * int (length (contents b)) \<le> share b \<Longrightarrow>
      \<exists>b'. tidy b = Inr b' \<and> inv b' \<and> contents b' = contents b \<and> share b' = share b \<and> share b \<le> room b'"
    and tidy_only: "inv b \<Longrightarrow> tidy b = Inr b' \<Longrightarrow> inv b' \<and> contents b' = contents b \<and> share b' = share b"
begin

text \<open>One round: receive, consume \<open>n\<close> bytes, tidy. At least a share is free again afterwards.\<close>

lemma round:
  assumes "inv b" and "int (length bs) \<le> room b" and "0 \<le> n" and "n \<le> int (length (contents b @ bs))"
  shows "\<exists>b1 b2. put b bs = (True, b1) \<and> inv b1 \<and> contents b1 = contents b @ bs \<and> share b1 = share b
    \<and> get b1 n = (True, b2) \<and> inv b2 \<and> contents b2 = drop (nat n) (contents b @ bs) \<and> share b2 = share b
    \<and> (2 * int (length (contents b2)) \<le> share b \<longrightarrow>
        (\<exists>b3. tidy b2 = Inr b3 \<and> inv b3 \<and> contents b3 = contents b2 \<and> share b3 = share b \<and> share b \<le> room b3))"
  using put_fits [OF assms(1,2)] get_ok [where n = n] tidy_ok assms(3,4) by metis

text \<open>Everything that was put is taken out: the buffer is as good as new.\<close>

lemma drain:
  assumes "inv b"
  shows "\<exists>b1 b2. get b (int (length (contents b))) = (True, b1) \<and> tidy b1 = Inr b2 \<and> inv b2
    \<and> contents b2 = [] \<and> share b2 = share b \<and> share b \<le> room b2"
proof -
  obtain b1 where b1: "get b (int (length (contents b))) = (True, b1)" "inv b1" "contents b1 = []" "share b1 = share b"
    using get_ok [OF assms, of "int (length (contents b))"] by auto
  then show ?thesis using tidy_ok [OF b1(2)] share_pos [OF assms] by auto
qed

end

lemma OnWrite_room:
  assumes "rb_inv b" and "int (length bs) \<le> FreeSize b"
  shows "FreeSize (snd (OnWrite (store_at_WritePos b bs) (int (length bs)))) = FreeSize b - int (length bs)"
    and "rb_bufferSize (snd (OnWrite (store_at_WritePos b bs) (int (length bs)))) = rb_bufferSize b"
proof -
  let ?b = "snd (OnWrite (store_at_WritePos b bs) (int (length bs)))"
  have "rb_writePos ?b = rb_writePos b + int (length bs)"
    using assms rb_sizes [OF assms(1)] by (simp add: OnWrite_def store_at_WritePos_def FreeSize_def rb_inv_def to_int32_id)
  moreover have "rb_capacity ?b = rb_capacity b" by (simp add: OnWrite_def store_at_WritePos_def)
  ultimately show "FreeSize ?b = FreeSize b - int (length bs)"
    using rb_sizes(2) [OF store_OnWrite(2) [OF assms]] rb_sizes(2) [OF assms(1)] by simp
  show "rb_bufferSize ?b = rb_bufferSize b" by (simp add: OnWrite_def store_at_WritePos_def)
qed

lemma clean_safe_half:
  assumes "rb_inv b" and "2 * DataSize b \<le> rb_bufferSize b"
  shows "clean_safe b"
  using assms rb_sizes [OF assms(1)] by (auto simp: clean_safe_def rb_inv_def)

lemma Clean_room:
  assumes inv: "rb_inv b" and half: "2 * DataSize b \<le> rb_bufferSize b"
  shows "\<exists>b'. Clean b = Inr b' \<and> rb_inv b' \<and> unread b' = unread b \<and> rb_bufferSize b' = rb_bufferSize b
    \<and> rb_bufferSize b \<le> FreeSize b'"
proof -
  note Clean_ok [OF inv clean_safe_half [OF assms]]
  moreover have "rb_bufferSize b \<le> rb_capacity b - DataSize b"
    using half inv rb_sizes [OF inv] by (simp add: rb_inv_def)
  ultimately show ?thesis by auto
qed

lemma Clean_cases: "rb_inv b \<Longrightarrow> Clean b = Inr b' \<Longrightarrow> rb_inv b' \<and> unread b' = unread b \<and> rb_bufferSize b' = rb_bufferSize b"
  using Clean_ok [of b] Clean_overlap [of b] by (cases "clean_safe b") auto

interpretation rb: stream_buffer rb_inv unread FreeSize rb_bufferSize
  "\<lambda>b bs. OnWrite (store_at_WritePos b bs) (int (length bs))" OnRead Clean
proof unfold_locales
  fix b bs n b'
  assume inv: "rb_inv b"
  show "0 < rb_bufferSize b" using inv by (simp add: rb_inv_def)
  show "int (length bs) \<le> FreeSize b \<Longrightarrow> \<exists>b'. OnWrite (store_at_WritePos b bs) (int (length bs)) = (True, b') \<and> rb_inv b'
      \<and> unread b' = unread b @ bs \<and> rb_bufferSize b' = rb_bufferSize b \<and> FreeSize b' = FreeSize b - int (length bs)"
    using store_OnWrite [OF inv] OnWrite_room [OF inv] by (metis prod.collapse)
  show "FreeSize b < int (length bs) \<Longrightarrow> \<not> fst (OnWrite (store_at_WritePos b bs) (int (length bs)))"
    by (simp add: OnWrite_def store_at_WritePos_def FreeSize_def)
  show "0 \<le> n \<Longrightarrow> n \<le> int (length (unread b)) \<Longrightarrow> \<exists>b'. OnRead b n = (True, b') \<and> rb_inv b'
      \<and> unread b' = drop (nat n) (unread b) \<and> rb_bufferSize b' = rb_bufferSize b"
    using OnRead_ok [OF inv, of n] length_unread [OF inv] rb_sizes [OF inv]
    by (auto simp: OnRead_def split: if_splits)
  show "2 * int (length (unread b)) \<le> rb_bufferSize b \<Longrightarrow> \<exists>b'. Clean b = Inr b' \<and> rb_inv b'
      \<and> unread b' = unread b \<and> rb_bufferSize b' = rb_bufferSize b \<and> rb_bufferSize b \<le> FreeSize b'"
    using Clean_room [OF inv] length_unread [OF inv] rb_sizes [OF inv] by simp
  show "Clean b = Inr b' \<Longrightarrow> rb_inv b' \<and> unread b' = unread b \<and> rb_bufferSize b' = rb_bufferSize b"
    by (rule Clean_cases [OF inv])
qed

end
