(* ===== verification/SessionRun.thy ===== *)
theory SessionRun imports Session StreamBuffer begin

text \<open>
  A session over its life, with overlapped I/O (not RIO): the events that reach it, the invariant
  its handlers keep, what it hands to WSASend and to the application, and the faults it can hit.
  Each handler runs as one step; completions arrive only for calls that are outstanding.
\<close>

section \<open>Events\<close>

datatype session_event =
    EvtConnected
  | EvtSend "BYTE list"
  | EvtDisconnect string
  | EvtReceived "BYTE list"
  | EvtSent int32
  | EvtDisconnected

definition enabled :: "session_event \<Rightarrow> world \<Rightarrow> bool" where
  "enabled ev w =
     (let s = wd_self w
      in case ev of
           EvtConnected \<Rightarrow> se_hasService s \<and> Cb_OnConnected \<notin> set (wd_trace w)
         | EvtSend b \<Rightarrow> True
         | EvtDisconnect c \<Rightarrow> True
         | EvtReceived bs \<Rightarrow> se_recvOwner s \<and> int (length bs) \<le> FreeSize (se_recvBuffer s)
         | EvtSent n \<Rightarrow> se_sendOwner s
         | EvtDisconnected \<Rightarrow> se_disconnectOwner s)"

definition handle :: "system \<Rightarrow> session_event \<Rightarrow> world \<Rightarrow> world result option" where
  "handle sys ev w =
     (case ev of
        EvtConnected \<Rightarrow> Dispatch_iocp sys EvConnect 0 w
      | EvtSend b \<Rightarrow> Some (Inr (Send sys b w))
      | EvtDisconnect c \<Rightarrow> Some (Inr (Disconnect sys c w))
      | EvtReceived bs \<Rightarrow> Dispatch_iocp sys EvRecv (int (length bs))
          (upd_self (\<lambda>s. s\<lparr>se_recvBuffer := store_at_WritePos (se_recvBuffer s) bs\<rparr>) w)
      | EvtSent n \<Rightarrow> Dispatch_iocp sys EvSend n w
      | EvtDisconnected \<Rightarrow> Dispatch_iocp sys EvDisconnect 0 w)"

text \<open>Events that are not enabled do not arrive.\<close>

primrec run :: "system \<Rightarrow> session_event list \<Rightarrow> world \<Rightarrow> world result option" where
  "run sys [] w = Some (Inr w)"
| "run sys (ev # evs) w =
     (if enabled ev w then
        (case handle sys ev w of
           None \<Rightarrow> None
         | Some (Inl e) \<Rightarrow> Some (Inl e)
         | Some (Inr w') \<Rightarrow> run sys evs w')
      else run sys evs w)"

section \<open>Reading the trace\<close>

primrec submitted :: "io_call list \<Rightarrow> BYTE list list" where
  "submitted [] = []"
| "submitted (c # tr) = submitted tr @ (case c of Sys_WSASend bufs \<Rightarrow> bufs | _ \<Rightarrow> [])"

primrec deliveries :: "io_call list \<Rightarrow> BYTE list list" where
  "deliveries [] = []"
| "deliveries (c # tr) = deliveries tr @ (case c of Cb_OnRecvPacket p \<Rightarrow> [p] | _ \<Rightarrow> [])"

text \<open>Sends the system took, and the completions the application heard of.\<close>

primrec posts :: "system \<Rightarrow> io_call list \<Rightarrow> nat" where
  "posts sys [] = 0"
| "posts sys (c # tr) = posts sys tr +
     (case c of Sys_WSASend bufs \<Rightarrow> if sy_ok sys (c # tr) \<or> sy_error sys (c # tr) = WSA_IO_PENDING then 1 else 0 | _ \<Rightarrow> 0)"

primrec onsends :: "io_call list \<Rightarrow> nat" where
  "onsends [] = 0"
| "onsends (c # tr) = onsends tr + (case c of Cb_OnSend n \<Rightarrow> 1 | _ \<Rightarrow> 0)"

abbreviation connects :: "io_call list \<Rightarrow> nat" where "connects tr \<equiv> count_list tr Cb_OnConnected"
abbreviation disconnects :: "io_call list \<Rightarrow> nat" where "disconnects tr \<equiv> count_list tr Sys_DisconnectEx"

lemma submitted_append: "submitted (a @ b) = submitted b @ submitted a"
  by (induction a) simp_all

text \<open>Calls that are none of these.\<close>

definition quiet :: "io_call \<Rightarrow> bool" where
  "quiet c \<longleftrightarrow> (case c of Sys_WSASend bufs \<Rightarrow> False | Cb_OnRecvPacket p \<Rightarrow> False | Cb_OnSend n \<Rightarrow> False
     | Cb_OnConnected \<Rightarrow> False | Sys_DisconnectEx \<Rightarrow> False | _ \<Rightarrow> True)"

section \<open>The invariant\<close>

definition flags_inv :: "session \<Rightarrow> bool" where
  "flags_inv s \<longleftrightarrow> (se_sendOwner s \<longrightarrow> se_sendRegistered s)
     \<and> (\<not> se_sendOwner s \<longrightarrow> se_SendBuffers s = [])
     \<and> (\<not> se_sendRegistered s \<longrightarrow> se_sendQueue s = [])
     \<and> (se_connected s \<and> se_sendRegistered s \<longrightarrow> se_sendOwner s)"

definition recv_inv :: "session \<Rightarrow> bool" where
  "recv_inv s \<longleftrightarrow> rb_inv (se_recvBuffer s) \<and> rb_bufferSize (se_recvBuffer s) = RECV_BUFFER_SIZE"

definition member_inv :: "world \<Rightarrow> bool" where
  "member_inv w \<longleftrightarrow> (let s = wd_self w
     in se_connected s \<or> se_disconnectOwner s \<longrightarrow> se_hasService s \<and> se_self s \<in> sv_sessions (wd_service w))"

definition trace_inv :: "system \<Rightarrow> world \<Rightarrow> bool" where
  "trace_inv sys w \<longleftrightarrow> (let s = wd_self w; tr = wd_trace w
     in connects tr \<le> 1 \<and> disconnects tr + (if se_connected s then 1 else 0) = connects tr
        \<and> posts sys tr \<le> onsends tr + 1
        \<and> (se_connected s \<longrightarrow> posts sys tr = onsends tr + (if se_sendOwner s then 1 else 0))
        \<and> (connects tr = 0 \<longrightarrow> posts sys tr = 0 \<and> onsends tr = 0 \<and> \<not> se_sendRegistered s)
        \<and> (se_disconnectOwner s \<longrightarrow> 0 < disconnects tr))"

definition session_inv :: "system \<Rightarrow> world \<Rightarrow> bool" where
  "session_inv sys w \<longleftrightarrow> \<not> wd_useRIO w \<and> flags_inv (wd_self w) \<and> recv_inv (wd_self w) \<and> member_inv w \<and> trace_inv sys w"

lemmas session_inv_defs = session_inv_def flags_inv_def recv_inv_def member_inv_def trace_inv_def Let_def

lemmas disconnect_defs = Disconnect_def RegisterDisconnect_def Let_def

lemma Disconnect_inv:
  assumes "session_inv sys w"
  shows "session_inv sys (Disconnect sys c w)"
proof (cases "se_connected (wd_self w)")
  case True
  then show ?thesis
    using assms by (auto simp: session_inv_defs disconnect_defs split: if_splits)
qed (use assms in \<open>simp add: Disconnect_def\<close>)

lemma Disconnect_trace [simp]:
  "submitted (wd_trace (Disconnect sys c w)) = submitted (wd_trace w)"
  "deliveries (wd_trace (Disconnect sys c w)) = deliveries (wd_trace w)"
  "posts sys (wd_trace (Disconnect sys c w)) = posts sys (wd_trace w)"
  by (simp_all add: disconnect_defs)

lemma HandleError_inv: "session_inv sys w \<Longrightarrow> session_inv sys (HandleError sys e w)"
  by (auto simp: HandleError_def Disconnect_inv) (simp add: session_inv_defs)

lemma HandleError_trace [simp]:
  "submitted (wd_trace (HandleError sys e w)) = submitted (wd_trace w)"
  "deliveries (wd_trace (HandleError sys e w)) = deliveries (wd_trace w)"
  "posts sys (wd_trace (HandleError sys e w)) = posts sys (wd_trace w)"
  by (simp_all add: HandleError_def)

lemma set_recvOwner_inv: "session_inv sys (upd_self (\<lambda>s. s\<lparr>se_recvOwner := b\<rparr>) w) = session_inv sys w"
  by (simp add: session_inv_defs)

lemma emit_quiet_inv: "quiet c \<Longrightarrow> session_inv sys (emit c w) = session_inv sys w"
  by (cases c) (simp_all add: session_inv_defs quiet_def)

lemma RegisterRecv_inv:
  assumes "session_inv sys w"
  shows "session_inv sys (RegisterRecv sys w)"
proof (cases "se_connected (wd_self w)")
  case True
  have "session_inv sys (emit (Sys_WSARecv (WritePos (se_recvBuffer (wd_self w))) (FreeSize (se_recvBuffer (wd_self w))))
      (upd_self (\<lambda>s. s\<lparr>se_recvOwner := True\<rparr>) w))"
    using assms by (simp add: emit_quiet_inv quiet_def set_recvOwner_inv)
  then show ?thesis
    using assms True by (simp add: RegisterRecv_def Let_def session_inv_def [of sys w] set_recvOwner_inv HandleError_inv)
qed (use assms in \<open>simp add: RegisterRecv_def\<close>)

section \<open>The send path\<close>

lemma Disconnect_upd_send:
  "upd_self (\<lambda>s. s\<lparr>se_sendOwner := a, se_SendBuffers := b, se_sendRegistered := c\<rparr>) (Disconnect sys cause w)
    = Disconnect sys cause (upd_self (\<lambda>s. s\<lparr>se_sendOwner := a, se_SendBuffers := b, se_sendRegistered := c\<rparr>) w)"
  by (simp add: disconnect_defs upd_self_def emit_def call_ok_def call_error_def)

lemma HandleError_upd_send:
  "upd_self (\<lambda>s. s\<lparr>se_sendOwner := a, se_SendBuffers := b, se_sendRegistered := c\<rparr>) (HandleError sys e w)
    = HandleError sys e (upd_self (\<lambda>s. s\<lparr>se_sendOwner := a, se_SendBuffers := b, se_sendRegistered := c\<rparr>) w)"
  unfolding HandleError_def
  by (simp only: if_distrib [where f = "upd_self (\<lambda>s. s\<lparr>se_sendOwner := a, se_SendBuffers := b, se_sendRegistered := c\<rparr>)"]
      Disconnect_upd_send) (simp add: upd_self_def emit_def)

text \<open>The state in which RegisterSend is entered: a send is claimed, none is outstanding.\<close>

definition send_claimed :: "system \<Rightarrow> world \<Rightarrow> bool" where
  "send_claimed sys w \<longleftrightarrow> (let s = wd_self w
     in \<not> wd_useRIO w \<and> recv_inv s \<and> member_inv w \<and> trace_inv sys w
        \<and> se_connected s \<and> se_sendRegistered s \<and> \<not> se_sendOwner s \<and> se_SendBuffers s = [])"

lemma Disconnect_queue [simp]:
  "se_sendQueue (wd_self (Disconnect sys c w)) = se_sendQueue (wd_self w)"
  "se_recvBuffer (wd_self (Disconnect sys c w)) = se_recvBuffer (wd_self w)"
  "se_recvOwner (wd_self (Disconnect sys c w)) = se_recvOwner (wd_self w)"
  by (simp_all add: disconnect_defs)

lemma HandleError_queue [simp]:
  "se_sendQueue (wd_self (HandleError sys e w)) = se_sendQueue (wd_self w)"
  "se_recvBuffer (wd_self (HandleError sys e w)) = se_recvBuffer (wd_self w)"
  "se_recvOwner (wd_self (HandleError sys e w)) = se_recvOwner (wd_self w)"
  by (simp_all add: HandleError_def)

lemma RegisterSend_ok:
  assumes "send_claimed sys w"
  shows "session_inv sys (RegisterSend sys w)"
    and "submitted (wd_trace (RegisterSend sys w)) = submitted (wd_trace w) @ se_sendQueue (wd_self w)"
    and "se_sendQueue (wd_self (RegisterSend sys w)) = []"
    and "deliveries (wd_trace (RegisterSend sys w)) = deliveries (wd_trace w)"
proof -
  let ?q = "se_sendQueue (wd_self w)"
  define w2 where "w2 = emit (Sys_WSASend ?q) (upd_self (\<lambda>s. s\<lparr>se_sendOwner := True, se_SendBuffers := ?q, se_sendQueue := []\<rparr>) w)"
  define w3 where "w3 = upd_self (\<lambda>s. s\<lparr>se_sendOwner := False, se_SendBuffers := [], se_sendRegistered := False\<rparr>) w2"
  have pre: "se_connected (wd_self w)" "\<not> wd_useRIO w" "se_SendBuffers (wd_self w) = []"
    using assms by (simp_all add: send_claimed_def Let_def)
  have "wd_self (upd_self (\<lambda>s. s\<lparr>se_sendOwner := True, se_SendBuffers := se_SendBuffers s @ se_sendQueue s, se_sendQueue := []\<rparr>) w)
      = (wd_self w)\<lparr>se_sendOwner := True, se_SendBuffers := ?q, se_sendQueue := []\<rparr>"
    using pre by simp
  then have eq: "RegisterSend sys w = (if \<not> call_ok sys w2 \<and> call_error sys w2 \<noteq> WSA_IO_PENDING
      then HandleError sys (call_error sys w2) w3 else w2)"
    using pre by (simp add: RegisterSend_def Let_def w3_def HandleError_upd_send [symmetric]) (simp add: w2_def upd_self_def)
  have ok: "call_ok sys w2 \<or> call_error sys w2 = WSA_IO_PENDING \<Longrightarrow> session_inv sys w2"
    using assms by (auto simp: send_claimed_def session_inv_defs w2_def call_ok_def call_error_def)
  have bad: "\<not> call_ok sys w2 \<Longrightarrow> call_error sys w2 \<noteq> WSA_IO_PENDING \<Longrightarrow> session_inv sys w3"
    using assms by (auto simp: send_claimed_def session_inv_defs w2_def w3_def call_ok_def call_error_def)
  show "session_inv sys (RegisterSend sys w)"
    using ok bad by (simp add: eq HandleError_inv)
  show "submitted (wd_trace (RegisterSend sys w)) = submitted (wd_trace w) @ ?q"
    "se_sendQueue (wd_self (RegisterSend sys w)) = []"
    "deliveries (wd_trace (RegisterSend sys w)) = deliveries (wd_trace w)"
    by (simp_all add: eq) (simp_all add: w2_def w3_def)
qed

lemma RegisterSend_closed: "\<not> se_connected (wd_self w) \<Longrightarrow> RegisterSend sys w = w"
  by (simp add: RegisterSend_def)

text \<open>Everything accepted so far, in order: what WSASend was given and what waits in the queue.\<close>

definition history :: "world \<Rightarrow> BYTE list list" where
  "history w = submitted (wd_trace w) @ se_sendQueue (wd_self w)"

lemma Send_ok:
  assumes inv: "session_inv sys w"
  shows "session_inv sys (Send sys b w)"
    and "history (Send sys b w) = history w @ (if se_connected (wd_self w) then [b] else [])"
    and "deliveries (wd_trace (Send sys b w)) = deliveries (wd_trace w)"
proof -
  define w1 where "w1 = upd_self (\<lambda>s. s\<lparr>se_sendQueue := se_sendQueue s @ [b], se_sendRegistered := True\<rparr>) w"
  have "session_inv sys (Send sys b w) \<and> history (Send sys b w) = history w @ (if se_connected (wd_self w) then [b] else [])
    \<and> deliveries (wd_trace (Send sys b w)) = deliveries (wd_trace w)"
  proof (cases "se_connected (wd_self w) \<and> \<not> se_sendRegistered (wd_self w)")
    case True
    then have "send_claimed sys w1"
      using inv by (auto simp: session_inv_defs send_claimed_def w1_def)
    from RegisterSend_ok [OF this] True show ?thesis
      by (simp add: Send_def history_def Let_def w1_def [symmetric]) (simp add: w1_def)
  next
    case False
    moreover have "session_inv sys w1" if "se_connected (wd_self w)"
      using that False inv by (auto simp: session_inv_defs w1_def)
    ultimately show ?thesis
      using inv by (auto simp: Send_def Let_def history_def w1_def)
  qed
  then show "session_inv sys (Send sys b w)" "history (Send sys b w) = history w @ (if se_connected (wd_self w) then [b] else [])"
    "deliveries (wd_trace (Send sys b w)) = deliveries (wd_trace w)" by blast+
qed

lemma Disconnect_history [simp]: "history (Disconnect sys c w) = history w"
  by (simp add: history_def)

lemma history_emit: "quiet c \<or> (\<exists>n. c = Cb_OnSend n) \<Longrightarrow> history (emit c w) = history w"
  by (cases c) (auto simp: history_def quiet_def)

text \<open>A send has just completed; the next is not claimed yet.\<close>

definition send_over :: "system \<Rightarrow> world \<Rightarrow> bool" where
  "send_over sys w \<longleftrightarrow> (let s = wd_self w; tr = wd_trace w
     in \<not> wd_useRIO w \<and> recv_inv s \<and> member_inv w \<and> se_sendRegistered s \<and> \<not> se_sendOwner s \<and> se_SendBuffers s = []
        \<and> 0 < connects tr \<and> connects tr \<le> 1 \<and> disconnects tr + (if se_connected s then 1 else 0) = connects tr
        \<and> posts sys tr \<le> onsends tr + 1)"

lemma send_over_log: "send_over sys w \<Longrightarrow> send_over sys (emit (Log_Warning c) w)"
  by (simp add: send_over_def member_inv_def Let_def)

lemma Disconnect_over:
  assumes "send_over sys w"
  shows "session_inv sys (Disconnect sys c w)"
  using assms by (cases "se_connected (wd_self w)") (auto simp: send_over_def session_inv_defs disconnect_defs split: if_splits)

text \<open>A completion of the outstanding send.\<close>

lemma ProcessSend_ok:
  assumes inv: "session_inv sys w" and out: "se_sendOwner (wd_self w)"
  shows "\<exists>w'. ProcessSend sys n w = Inr w' \<and> session_inv sys w' \<and> history w' = history w
    \<and> deliveries (wd_trace w') = deliveries (wd_trace w)"
proof -
  let ?n = "length (se_sendQueue (wd_self w))"
  define w1 where "w1 = upd_self (\<lambda>s. s\<lparr>se_sendOwner := False, se_SendBuffers := []\<rparr>) w"
  define w2 where "w2 = emit (Cb_OnSend n) w1"
  have reg: "se_sendRegistered (wd_self w)" and rio: "\<not> wd_useRIO w" using inv out by (simp_all add: session_inv_defs)
  have P: "ProcessSend sys n w =
     (if n = 0 then Inr (Disconnect sys ''0 Bytes Send'' w1)
      else if ?n \<ge> WARN_SENDQUEUE_SIZE then Inr (Disconnect sys ''SendQueue Size Over''
             (emit (Log_Warning ''Kick By SendQueueSize Over'') (emit (Log_Warning ''SendQueueSize Over'') w2)))
      else if se_sendQueue (wd_self w) = [] then Inr (upd_self (\<lambda>s. s\<lparr>se_sendRegistered := False\<rparr>) w2)
      else Inr (RegisterSend sys w2))"
    using rio by (simp add: ProcessSend_def Let_def w2_def w1_def)
  have h: "history w1 = history w" "history w2 = history w" "deliveries (wd_trace w1) = deliveries (wd_trace w)"
    "deliveries (wd_trace w2) = deliveries (wd_trace w)"
    by (simp_all add: history_def w1_def w2_def)
  show ?thesis
  proof (cases "se_connected (wd_self w)")
    case True
    then have claimed: "send_claimed sys w2" and done1: "send_over sys w1" and done2: "send_over sys w2"
      using inv out by (auto simp: session_inv_defs send_claimed_def send_over_def w2_def w1_def)
    have quiet: "quiet (Log_Warning c)" for c by (simp add: quiet_def)
    have idle: "se_sendQueue (wd_self w) = [] \<Longrightarrow> session_inv sys (upd_self (\<lambda>s. s\<lparr>se_sendRegistered := False\<rparr>) w2)"
      using inv out by (auto simp: session_inv_defs w2_def w1_def)
    have "history (RegisterSend sys w2) = history w2" using RegisterSend_ok [OF claimed] by (simp add: history_def)
    then show ?thesis
      using RegisterSend_ok [OF claimed] Disconnect_over [OF done1] Disconnect_over [OF send_over_log [OF send_over_log [OF done2]]] idle h
      by (auto simp: P history_emit [OF disjI1 [OF quiet]]) (simp_all add: history_def)
  next
    case False
    then have "session_inv sys w1" "session_inv sys w2"
      "se_sendQueue (wd_self w) = [] \<Longrightarrow> session_inv sys (upd_self (\<lambda>s. s\<lparr>se_sendRegistered := False\<rparr>) w2)"
      using inv out by (auto simp: session_inv_defs w2_def w1_def)
    moreover have "\<not> se_connected (wd_self w2)" using False by (simp add: w2_def w1_def)
    ultimately show ?thesis
      using h by (auto simp: P RegisterSend_closed Disconnect_inv emit_quiet_inv quiet_def history_emit) (simp_all add: history_def)
  qed
qed

section \<open>The receive path\<close>

definition store_received :: "BYTE list \<Rightarrow> world \<Rightarrow> world" where
  "store_received bs w = upd_self (\<lambda>s. s\<lparr>se_recvBuffer := store_at_WritePos (se_recvBuffer s) bs\<rparr>) w"

lemma fold_packets [simp]:
  "wd_self (fold (\<lambda>p. emit (Cb_OnRecvPacket p)) ps w) = wd_self w"
  "wd_service (fold (\<lambda>p. emit (Cb_OnRecvPacket p)) ps w) = wd_service w"
  "wd_useRIO (fold (\<lambda>p. emit (Cb_OnRecvPacket p)) ps w) = wd_useRIO w"
  "submitted (wd_trace (fold (\<lambda>p. emit (Cb_OnRecvPacket p)) ps w)) = submitted (wd_trace w)"
  "deliveries (wd_trace (fold (\<lambda>p. emit (Cb_OnRecvPacket p)) ps w)) = deliveries (wd_trace w) @ ps"
  "posts sys (wd_trace (fold (\<lambda>p. emit (Cb_OnRecvPacket p)) ps w)) = posts sys (wd_trace w)"
  "onsends (wd_trace (fold (\<lambda>p. emit (Cb_OnRecvPacket p)) ps w)) = onsends (wd_trace w)"
  "connects (wd_trace (fold (\<lambda>p. emit (Cb_OnRecvPacket p)) ps w)) = connects (wd_trace w)"
  "disconnects (wd_trace (fold (\<lambda>p. emit (Cb_OnRecvPacket p)) ps w)) = disconnects (wd_trace w)"
  by (induction ps arbitrary: w) simp_all

lemma fold_packets_eq:
  "fold (\<lambda>p. emit (Cb_OnRecvPacket p)) ps w = w\<lparr>wd_trace := rev (map Cb_OnRecvPacket ps) @ wd_trace w\<rparr>"
  by (induction ps arbitrary: w) (simp_all add: emit_def)

lemma fold_packets_inv: "session_inv sys (fold (\<lambda>p. emit (Cb_OnRecvPacket p)) ps w) = session_inv sys w"
  by (simp add: session_inv_def member_inv_def trace_inv_def Let_def)

lemma set_recvBuffer_inv:
  "session_inv sys w \<Longrightarrow> rb_inv b \<Longrightarrow> rb_bufferSize b = RECV_BUFFER_SIZE
    \<Longrightarrow> session_inv sys (upd_self (\<lambda>s. s\<lparr>se_recvBuffer := b\<rparr>) w)"
  by (simp add: session_inv_defs)

text \<open>The system takes every call, at once or later.\<close>

definition io_accepts :: "system \<Rightarrow> bool" where
  "io_accepts sys \<longleftrightarrow> (\<forall>tr. sy_ok sys tr \<or> sy_error sys tr = WSA_IO_PENDING)"

lemma RegisterRecv_frame:
  assumes "\<not> wd_useRIO w"
  shows "se_recvBuffer (wd_self (RegisterRecv sys w)) = se_recvBuffer (wd_self w)"
    and "history (RegisterRecv sys w) = history w"
    and "deliveries (wd_trace (RegisterRecv sys w)) = deliveries (wd_trace w)"
    and "io_accepts sys \<Longrightarrow> se_connected (wd_self w) \<Longrightarrow>
      se_connected (wd_self (RegisterRecv sys w)) \<and> se_recvOwner (wd_self (RegisterRecv sys w))"
  using assms by (auto simp: RegisterRecv_def Let_def history_def io_accepts_def call_ok_def call_error_def)

text \<open>One receive completion: the packets it completes are delivered, the rest waits.\<close>

lemma ProcessRecv_cuts:
  assumes inv: "session_inv sys w" and fits: "int (length bs) \<le> FreeSize (se_recvBuffer (wd_self w))"
    and bs: "bs \<noteq> []" and cuts: "cuts (unread (se_recvBuffer (wd_self w)) @ bs) ps r"
  shows "\<exists>b2. unread b2 = r \<and> rb_inv b2 \<and> rb_bufferSize b2 = RECV_BUFFER_SIZE
    \<and> ProcessRecv sys (int (length bs)) (store_received bs w) =
        Some (bind_result (Clean b2) (\<lambda>b3. Inr (RegisterRecv sys (upd_self (\<lambda>s. s\<lparr>se_recvOwner := False, se_recvBuffer := b3\<rparr>)
          (fold (\<lambda>p. emit (Cb_OnRecvPacket p)) ps w)))))"
proof -
  let ?rb = "se_recvBuffer (wd_self w)" and ?n = "int (length (concat ps))"
  have rio: "\<not> wd_useRIO w" and rb: "rb_inv ?rb" "rb_bufferSize ?rb = RECV_BUFFER_SIZE"
    using inv by (simp_all add: session_inv_def recv_inv_def)
  have split: "unread ?rb @ bs = concat ps @ r" by (rule cuts_length [OF cuts])
  then have n: "0 \<le> ?n" "?n \<le> int (length (unread ?rb @ bs))" by simp_all
  from rb.round [OF rb(1) fits n] obtain b1 b2 where
    b1: "OnWrite (store_at_WritePos ?rb bs) (int (length bs)) = (True, b1)" "rb_inv b1" "unread b1 = unread ?rb @ bs"
    and b2: "OnRead b1 ?n = (True, b2)" "rb_inv b2" "unread b2 = drop (nat ?n) (unread ?rb @ bs)" "rb_bufferSize b2 = rb_bufferSize ?rb"
    by blast
  have len: "DataSize b1 = int (length (unread ?rb @ bs))"
    using length_unread [OF b1(2)] rb_sizes(3) [OF b1(2)] b1(3) by simp
  have "length (unread b1) \<le> nat (rb_capacity b1)" "rb_capacity b1 < 2 ^ 31"
    using length_unread [OF b1(2)] rb_sizes [OF b1(2)] b1(2) by (auto simp: rb_inv_def)
  then have small: "length (unread ?rb @ bs) < 2 ^ 31" using b1(3) by simp
  have recv: "OnRecv (read_bytes (rb_buffer b1) (ReadPos b1) (nat (DataSize b1))) (DataSize b1) = Some (?n, ps)"
    using OnRecv_Some_iff [OF small, of ?n ps] cuts
    by (subst unread_def [symmetric]) (auto simp: len b1(3) simp del: length_append)
  have r: "unread b2 = r" using b2(3) split by simp
  have upd: "upd_self (\<lambda>s. s\<lparr>se_recvBuffer := b3\<rparr>) (fold (\<lambda>p. emit (Cb_OnRecvPacket p)) ps
      (upd_self (\<lambda>s. s\<lparr>se_recvOwner := False, se_recvBuffer := x\<rparr>) w))
      = upd_self (\<lambda>s. s\<lparr>se_recvOwner := False, se_recvBuffer := b3\<rparr>) (fold (\<lambda>p. emit (Cb_OnRecvPacket p)) ps w)" for b3 x
    by (simp add: fold_packets_eq upd_self_def)
  have "ProcessRecv sys (int (length bs)) (store_received bs w) =
        Some (bind_result (Clean b2) (\<lambda>b3. Inr (RegisterRecv sys (upd_self (\<lambda>s. s\<lparr>se_recvBuffer := b3\<rparr>)
          (fold (\<lambda>p. emit (Cb_OnRecvPacket p)) ps (upd_self (\<lambda>s. s\<lparr>se_recvOwner := False, se_recvBuffer := b1\<rparr>) w))))))"
    using bs rio n len b1(1) b2(1) recv
    by (simp add: ProcessRecv_def store_received_def Let_def) (simp add: upd_self_def)
  then show ?thesis using r b2 rb by (auto simp: upd)
qed

lemma ProcessRecv_zero_header:
  assumes inv: "session_inv sys w" and fits: "int (length bs) \<le> FreeSize (se_recvBuffer (wd_self w))"
    and zero: "zero_header_reached (unread (se_recvBuffer (wd_self w)) @ bs)" and bs: "bs \<noteq> []"
  shows "ProcessRecv sys (int (length bs)) (store_received bs w) = None"
proof -
  let ?rb = "se_recvBuffer (wd_self w)"
  have rio: "\<not> wd_useRIO w" and rb: "rb_inv ?rb" using inv by (simp_all add: session_inv_def recv_inv_def)
  obtain b1 where b1: "OnWrite (store_at_WritePos ?rb bs) (int (length bs)) = (True, b1)" "rb_inv b1" "unread b1 = unread ?rb @ bs"
    using rb.put_fits [OF rb fits] by blast
  have len: "DataSize b1 = int (length (unread ?rb @ bs))"
    using length_unread [OF b1(2)] rb_sizes(3) [OF b1(2)] b1(3) by simp
  have "length (unread b1) \<le> nat (rb_capacity b1)" "rb_capacity b1 < 2 ^ 31"
    using length_unread [OF b1(2)] rb_sizes [OF b1(2)] b1(2) by (auto simp: rb_inv_def)
  then have small: "length (unread ?rb @ bs) < 2 ^ 31" using b1(3) by simp
  have "OnRecv (unread b1) (DataSize b1) = None"
  proof (cases "OnRecv (unread b1) (DataSize b1)")
    case (Some res)
    then obtain ps r where "cuts (unread ?rb @ bs) ps r"
      using OnRecv_Some_iff [OF small, of "fst res" "snd res"] by (auto simp: len b1(3) simp del: length_append)
    then show ?thesis using not_cuts_zero zero by blast
  qed
  then have "OnRecv (read_bytes (rb_buffer b1) (ReadPos b1) (nat (DataSize b1))) (DataSize b1) = None"
    by (simp add: unread_def)
  then show ?thesis
    using bs rio b1(1) by (simp add: ProcessRecv_def store_received_def Let_def)
qed

lemma set_monitor_inv [simp]:
  "session_inv sys (w\<lparr>wd_monitor := m\<rparr>) = session_inv sys w" "history (w\<lparr>wd_monitor := m\<rparr>) = history w"
  by (simp_all add: session_inv_defs history_def)

lemma ProcessConnect_ok:
  assumes inv: "session_inv sys w" and en: "enabled EvtConnected w"
  shows "\<exists>w'. ProcessConnect sys w = Inr w' \<and> session_inv sys w' \<and> history w' = history w
    \<and> deliveries (wd_trace w') = deliveries (wd_trace w) \<and> se_recvBuffer (wd_self w') = se_recvBuffer (wd_self w)
    \<and> (io_accepts sys \<longrightarrow> se_connected (wd_self w') \<and> se_recvOwner (wd_self w'))"
proof -
  define w3 where "w3 = emit Cb_OnConnected (SetWorkId
    ((upd_self (\<lambda>s. s\<lparr>se_connected := True\<rparr>) w)\<lparr>wd_service := AddSession (se_self (wd_self w)) (wd_service w)\<rparr>))"
  have rio: "\<not> wd_useRIO w" and svc: "se_hasService (wd_self w)" and fresh: "connects (wd_trace w) = 0"
    using inv en by (simp_all add: session_inv_def enabled_def Let_def count_list_0_iff)
  have P: "ProcessConnect sys w = Inr (RegisterRecv sys w3)"
    using rio svc by (simp add: ProcessConnect_def with_service_def Let_def w3_def SetWorkId_def)
  have inv3: "session_inv sys w3"
    using inv svc fresh by (auto simp: session_inv_defs w3_def SetWorkId_def AddSession_def)
  have "history w3 = history w" "deliveries (wd_trace w3) = deliveries (wd_trace w)"
    "se_recvBuffer (wd_self w3) = se_recvBuffer (wd_self w)" "se_connected (wd_self w3)"
    by (simp_all add: w3_def history_def SetWorkId_def)
  moreover have "\<not> wd_useRIO w3" using inv3 by (simp add: session_inv_def)
  ultimately show ?thesis using P RegisterRecv_frame [of w3 sys] RegisterRecv_inv [OF inv3] by simp
qed

lemma ProcessDisconnect_ok:
  assumes inv: "session_inv sys w" and en: "enabled EvtDisconnected w"
  shows "\<exists>w'. ProcessDisconnect w = Inr w' \<and> session_inv sys w' \<and> history w' = history w
    \<and> se_self (wd_self w) \<notin> sv_sessions (wd_service w')"
proof -
  have "se_disconnectOwner (wd_self w)" using en by (simp add: enabled_def Let_def)
  moreover from this have "\<not> se_connected (wd_self w)" using inv by (auto simp: session_inv_defs)
  ultimately show ?thesis
    using inv by (auto simp: ProcessDisconnect_def session_inv_defs with_service_def ReleaseSession_def history_def)
qed

section \<open>Every handler keeps the invariant\<close>

definition accepted_by :: "session_event \<Rightarrow> world \<Rightarrow> BYTE list list" where
  "accepted_by ev w = (case ev of EvtSend b \<Rightarrow> if se_connected (wd_self w) then [b] else [] | _ \<Rightarrow> [])"

text \<open>What can go wrong in a handler: the endless framing loop, and the overlapping memcpy of Clean
  when more than half of the receive buffer's size stays unconsumed.\<close>

definition handler_fault :: "session_event \<Rightarrow> world \<Rightarrow> world result option \<Rightarrow> bool" where
  "handler_fault ev w r \<longleftrightarrow> (\<exists>bs. ev = EvtReceived bs \<and>
     (let stream = unread (se_recvBuffer (wd_self w)) @ bs
      in (r = None \<and> zero_header_reached stream)
         \<or> (r = Some (Inl (UndefinedBehaviour ''memcpy overlap'')) \<and> (\<exists>ps rest. cuts stream ps rest \<and> 4096 < length rest))))"

definition good_step :: "system \<Rightarrow> session_event \<Rightarrow> world \<Rightarrow> world \<Rightarrow> bool" where
  "good_step sys ev w w' \<longleftrightarrow> session_inv sys w' \<and> history w' = history w @ accepted_by ev w"

lemma received_ok:
  assumes inv: "session_inv sys w" and en: "enabled (EvtReceived bs) w"
  shows "(\<exists>w'. handle sys (EvtReceived bs) w = Some (Inr w') \<and> good_step sys (EvtReceived bs) w w')
    \<or> handler_fault (EvtReceived bs) w (handle sys (EvtReceived bs) w)"
proof -
  let ?rb = "se_recvBuffer (wd_self w)"
  have rio: "\<not> wd_useRIO w" and rb: "rb_inv ?rb" "rb_bufferSize ?rb = RECV_BUFFER_SIZE"
    using inv by (simp_all add: session_inv_def recv_inv_def)
  have fits: "int (length bs) \<le> FreeSize ?rb" using en by (simp add: enabled_def Let_def)
  have H: "handle sys (EvtReceived bs) w = map_option (\<lambda>r. bind_result r (\<lambda>w1.
      Inr (w1\<lparr>wd_monitor := AddRecvCount 1 (int (length bs)) (wd_monitor w1)\<rparr>)))
      (ProcessRecv sys (int (length bs)) (store_received bs w))"
    using rio by (simp add: handle_def Dispatch_iocp_def store_received_def)
  consider (none) "bs = []" | (zero) "bs \<noteq> []" "zero_header_reached (unread ?rb @ bs)"
    | (cut) ps r where "bs \<noteq> []" "cuts (unread ?rb @ bs) ps r"
    using cuts_or_zero by blast
  then show ?thesis
  proof cases
    case none
    have "rb_inv (store_at_WritePos ?rb bs)" "rb_bufferSize (store_at_WritePos ?rb bs) = RECV_BUFFER_SIZE"
      using rb none by (simp_all add: store_at_WritePos_def rb_inv_def write_bytes_def)
    then have "session_inv sys (upd_self (\<lambda>s. s\<lparr>se_recvOwner := False\<rparr>) (store_received bs w))"
      using set_recvBuffer_inv [OF inv] by (simp add: set_recvOwner_inv) (simp add: store_received_def upd_self_def)
    note inv' = Disconnect_inv [OF this, of "''0 Bytes Recv''"]
    have "ProcessRecv sys (int (length bs)) (store_received bs w)
        = Some (Inr (Disconnect sys ''0 Bytes Recv'' (upd_self (\<lambda>s. s\<lparr>se_recvOwner := False\<rparr>) (store_received bs w))))"
      using none rio by (simp add: ProcessRecv_def store_received_def)
    with inv' show ?thesis
      by (simp add: H good_step_def accepted_by_def history_def) (simp add: store_received_def)
  next
    case zero
    then show ?thesis
      using ProcessRecv_zero_header [OF inv fits zero(2,1)] by (simp add: H handler_fault_def Let_def)
  next
    case cut
    from ProcessRecv_cuts [OF inv fits cut] obtain b2 where b2: "unread b2 = r" "rb_inv b2" "rb_bufferSize b2 = RECV_BUFFER_SIZE"
      and P: "ProcessRecv sys (int (length bs)) (store_received bs w) =
        Some (bind_result (Clean b2) (\<lambda>b3. Inr (RegisterRecv sys (upd_self (\<lambda>s. s\<lparr>se_recvOwner := False, se_recvBuffer := b3\<rparr>)
          (fold (\<lambda>p. emit (Cb_OnRecvPacket p)) ps w)))))" by blast
    show ?thesis
    proof (cases "Clean b2")
      case (Inr b3)
      let ?w = "upd_self (\<lambda>s. s\<lparr>se_recvOwner := False, se_recvBuffer := b3\<rparr>) (fold (\<lambda>p. emit (Cb_OnRecvPacket p)) ps w)"
      have "rb_inv b3" "rb_bufferSize b3 = RECV_BUFFER_SIZE" using rb.tidy_only [OF b2(2) Inr] b2(3) by simp_all
      then have "session_inv sys ?w"
        using inv fold_packets_inv [of sys ps w] by (simp add: session_inv_defs)
      moreover have "\<not> wd_useRIO ?w" "history ?w = history w" using rio by (simp_all add: history_def)
      ultimately show ?thesis
        using Inr P RegisterRecv_inv RegisterRecv_frame(2) [of ?w sys]
        by (auto simp: H good_step_def accepted_by_def)
    next
      case (Inl e)
      then have "\<not> clean_safe b2" using Clean_ok [OF b2(2)] by auto
      moreover from this have "\<not> DataSize b2 \<le> 4096" using clean_safe_half [OF b2(2)] b2(3) by (auto simp: RECV_BUFFER_SIZE_def)
      ultimately have "4096 < length r" "e = UndefinedBehaviour ''memcpy overlap''"
        using Clean_overlap [OF b2(2)] Inl b2(1) length_unread [OF b2(2)] by simp_all
      then show ?thesis using cut P Inl by (auto simp: H handler_fault_def Let_def)
    qed
  qed
qed

lemma handle_ok:
  assumes inv: "session_inv sys w" and en: "enabled ev w"
  shows "(\<exists>w'. handle sys ev w = Some (Inr w') \<and> good_step sys ev w w') \<or> handler_fault ev w (handle sys ev w)"
proof (cases ev)
  case (EvtReceived bs)
  then show ?thesis using received_ok inv en by simp
next
  case (EvtSent n)
  then have "se_sendOwner (wd_self w)" "\<not> wd_useRIO w" using inv en by (simp_all add: enabled_def Let_def session_inv_def)
  then show ?thesis
    using ProcessSend_ok [OF inv, of n] EvtSent by (auto simp: handle_def Dispatch_iocp_def good_step_def accepted_by_def)
qed (use ProcessConnect_ok [OF inv] ProcessDisconnect_ok [OF inv] Send_ok [OF inv] Disconnect_inv [OF inv] en
  in \<open>auto simp: handle_def Dispatch_iocp_def good_step_def accepted_by_def\<close>)

primrec accepted :: "system \<Rightarrow> session_event list \<Rightarrow> world \<Rightarrow> BYTE list list" where
  "accepted sys [] w = []"
| "accepted sys (ev # evs) w =
     (if enabled ev w then
        accepted_by ev w @ (case handle sys ev w of Some (Inr w') \<Rightarrow> accepted sys evs w' | _ \<Rightarrow> [])
      else accepted sys evs w)"

lemma run_ok:
  assumes "session_inv sys w" and "run sys evs w = Some (Inr w')"
  shows "session_inv sys w' \<and> history w' = history w @ accepted sys evs w"
  using assms
proof (induction evs arbitrary: w)
  case (Cons ev evs)
  show ?case
  proof (cases "enabled ev w")
    case True
    then obtain w1 where w1: "handle sys ev w = Some (Inr w1)" "run sys evs w1 = Some (Inr w')"
      using Cons.prems(2) by (auto split: option.splits sum.splits)
    then have "good_step sys ev w w1" using handle_ok [OF Cons.prems(1) True] by (auto simp: handler_fault_def Let_def)
    then show ?thesis using Cons.IH [of w1] w1 True by (simp add: good_step_def)
  qed (use Cons in simp)
qed simp

lemma run_append:
  "run sys (e1 @ e2) w = (case run sys e1 w of None \<Rightarrow> None | Some (Inl e) \<Rightarrow> Some (Inl e) | Some (Inr w') \<Rightarrow> run sys e2 w')"
proof (induction e1 arbitrary: w)
  case (Cons ev evs)
  then show ?case by (simp split: option.splits sum.splits)
qed simp

section \<open>A stream arrives in pieces\<close>

text \<open>Connected, with a receive outstanding that has at least the nominal buffer size to fill.\<close>

definition listening :: "system \<Rightarrow> world \<Rightarrow> bool" where
  "listening sys w \<longleftrightarrow> session_inv sys w \<and> se_connected (wd_self w) \<and> se_recvOwner (wd_self w)
     \<and> RECV_BUFFER_SIZE \<le> FreeSize (se_recvBuffer (wd_self w))"

lemma received_chunk:
  assumes acc: "io_accepts sys" and lis: "listening sys w" and c: "c \<noteq> []" "length c \<le> 8192"
    and cuts: "cuts (unread (se_recvBuffer (wd_self w)) @ c) ps r" and r: "length r \<le> 4096"
  shows "\<exists>w'. enabled (EvtReceived c) w \<and> handle sys (EvtReceived c) w = Some (Inr w') \<and> listening sys w'
    \<and> unread (se_recvBuffer (wd_self w')) = r \<and> deliveries (wd_trace w') = deliveries (wd_trace w) @ ps"
proof -
  have inv: "session_inv sys w" and rio: "\<not> wd_useRIO w"
    and fits: "int (length c) \<le> FreeSize (se_recvBuffer (wd_self w))"
    using lis c by (simp_all add: listening_def session_inv_def RECV_BUFFER_SIZE_def)
  from ProcessRecv_cuts [OF inv fits c(1) cuts] obtain b2 where b2: "unread b2 = r" "rb_inv b2" "rb_bufferSize b2 = RECV_BUFFER_SIZE"
    and P: "ProcessRecv sys (int (length c)) (store_received c w) =
      Some (bind_result (Clean b2) (\<lambda>b3. Inr (RegisterRecv sys (upd_self (\<lambda>s. s\<lparr>se_recvOwner := False, se_recvBuffer := b3\<rparr>)
        (fold (\<lambda>p. emit (Cb_OnRecvPacket p)) ps w)))))" by blast
  obtain b3 where b3: "Clean b2 = Inr b3" "rb_inv b3" "unread b3 = r" "rb_bufferSize b3 = RECV_BUFFER_SIZE" "RECV_BUFFER_SIZE \<le> FreeSize b3"
    using rb.tidy_ok [OF b2(2)] b2 r by (auto simp: RECV_BUFFER_SIZE_def)
  let ?w = "upd_self (\<lambda>s. s\<lparr>se_recvOwner := False, se_recvBuffer := b3\<rparr>) (fold (\<lambda>p. emit (Cb_OnRecvPacket p)) ps w)"
  have inv2: "session_inv sys ?w"
    using inv fold_packets_inv [of sys ps w] b3 by (simp add: session_inv_defs)
  have w: "\<not> wd_useRIO ?w" "se_connected (wd_self ?w)" using rio lis by (simp_all add: listening_def)
  have "handle sys (EvtReceived c) w = Some (Inr ((RegisterRecv sys ?w)\<lparr>wd_monitor :=
      AddRecvCount 1 (int (length c)) (wd_monitor (RegisterRecv sys ?w))\<rparr>))"
    using rio P b3(1) by (simp add: handle_def Dispatch_iocp_def store_received_def)
  moreover have "enabled (EvtReceived c) w" using fits lis by (simp add: enabled_def listening_def Let_def)
  ultimately show ?thesis
    using RegisterRecv_inv [OF inv2] RegisterRecv_frame [OF w(1), of sys] acc w(2) b3
    by (simp add: listening_def)
qed

lemma stream_delivery:
  assumes "io_accepts sys" and "listening sys w" and "partial_frame (unread (se_recvBuffer (wd_self w)))"
    and "unread (se_recvBuffer (wd_self w)) @ concat chunks = concat ps @ r"
    and "list_all (\<lambda>c. c \<noteq> [] \<and> length c \<le> 8192) chunks"
    and "list_all well_framed ps" and "list_all (\<lambda>p. length p \<le> 4097) ps" and "partial_frame r" and "length r \<le> 4096"
  shows "\<exists>w'. run sys (map EvtReceived chunks) w = Some (Inr w') \<and> listening sys w'
    \<and> unread (se_recvBuffer (wd_self w')) = r \<and> deliveries (wd_trace w') = deliveries (wd_trace w) @ ps"
  using assms(2-7)
proof (induction chunks arbitrary: w ps)
  case Nil
  let ?u = "unread (se_recvBuffer (wd_self w))"
  have "cuts ?u [] ?u" using Nil by (auto intro: cuts_stop)
  moreover have "cuts ?u ps r" using cuts_concat [of ps r] Nil assms(8) by simp
  ultimately have "ps = []" "r = ?u" using cuts_functional by blast+
  then show ?case using Nil by simp
next
  case (Cons c chunks)
  let ?u = "unread (se_recvBuffer (wd_self w))"
  have "(?u @ c) @ concat chunks = concat ps @ r" using Cons.prems(3) by simp
  from cuts_prefix [OF Cons.prems(5) assms(8) _ assms(9) this] Cons.prems(6)
  obtain ps1 ps2 q where split: "ps = ps1 @ ps2" "cuts (?u @ c) ps1 q" "length q \<le> 4096" "q @ concat chunks = concat ps2 @ r"
    by auto
  from received_chunk [OF assms(1) Cons.prems(1) _ _ split(2,3)] Cons.prems(4)
  obtain w1 where w1: "enabled (EvtReceived c) w" "handle sys (EvtReceived c) w = Some (Inr w1)" "listening sys w1"
    "unread (se_recvBuffer (wd_self w1)) = q" "deliveries (wd_trace w1) = deliveries (wd_trace w) @ ps1" by auto
  have "partial_frame q" using cuts_partial [OF split(2)] .
  then show ?case
    using Cons.IH [of w1 ps2] w1 split Cons.prems(4-6) by simp
qed

end
