(* ===== verification/SessionRIO.thy ===== *)
theory SessionRIO imports SessionRun begin

text \<open>
  New sessions, and the registered-I/O variants of the session's operations: the completion queue
  a session gets, the bytes one RIOSend covers, and what happens when they do not fit.
\<close>

section \<open>A new session\<close>

definition new_world :: "nat \<Rightarrow> bool \<Rightarrow> service \<Rightarrow> world result" where
  "new_world self useRIO sv =
     bind_result (new_Session self) (\<lambda>s. Inr \<lparr>wd_self = s\<lparr>se_hasService := True\<rparr>, wd_service = sv,
       wd_monitor = new_monitor, wd_SWorkId = 1, wd_useRIO = useRIO, wd_trace = []\<rparr>)"

lemma new_Session_ok:
  "\<exists>s. new_Session self = Inr s \<and> recv_inv s \<and> flags_inv s \<and> rb_inv (se_sendBuffer s) \<and> unread (se_recvBuffer s) = []
    \<and> unread (se_sendBuffer s) = [] \<and> FreeSize (se_recvBuffer s) = 2 * RECV_BUFFER_SIZE \<and> \<not> se_connected s
    \<and> \<not> se_disconnectOwner s \<and> \<not> se_sendRegistered s \<and> se_workId s = 0 \<and> se_sendQueue s = []"
  using rb_inv_new [of SEND_BUFFER_SIZE] rb_inv_new [of RECV_BUFFER_SIZE]
  by (auto simp: new_Session_def SEND_BUFFER_SIZE_def RECV_BUFFER_SIZE_def recv_inv_def flags_inv_def)

lemma new_Session_send:
  "\<exists>s. new_Session self = Inr s \<and> rb_inv (se_sendBuffer s) \<and> unread (se_sendBuffer s) = []
    \<and> FreeSize (se_sendBuffer s) = 2 * SEND_BUFFER_SIZE"
  using rb_inv_new [of SEND_BUFFER_SIZE] rb_inv_new [of RECV_BUFFER_SIZE]
  by (auto simp: new_Session_def SEND_BUFFER_SIZE_def RECV_BUFFER_SIZE_def)

lemma new_world_ok:
  "\<exists>w. new_world self False sv = Inr w \<and> session_inv sys w \<and> enabled EvtConnected w
    \<and> unread (se_recvBuffer (wd_self w)) = [] \<and> RECV_BUFFER_SIZE \<le> FreeSize (se_recvBuffer (wd_self w))
    \<and> history w = [] \<and> deliveries (wd_trace w) = []"
proof -
  obtain s where "new_Session self = Inr s" "recv_inv s" "flags_inv s" "unread (se_recvBuffer s) = []"
    "FreeSize (se_recvBuffer s) = 2 * RECV_BUFFER_SIZE" "\<not> se_connected s" "\<not> se_disconnectOwner s"
    "\<not> se_sendRegistered s" "se_sendQueue s = []"
    using new_Session_ok [of self] by blast
  then show ?thesis
    by (simp add: new_world_def session_inv_defs enabled_def history_def RECV_BUFFER_SIZE_def)
qed

text \<open>Sending on a connection: the first buffer is posted at once, the next ones wait.\<close>

lemma connect_idle:
  assumes "io_accepts sys" and "session_inv sys w" and "enabled EvtConnected w"
  shows "\<exists>w'. handle sys EvtConnected w = Some (Inr w') \<and> se_connected (wd_self w') \<and> \<not> wd_useRIO w'
    \<and> \<not> se_sendRegistered (wd_self w') \<and> se_SendBuffers (wd_self w') = [] \<and> se_sendQueue (wd_self w') = []"
  using assms
  by (auto simp: handle_def Dispatch_iocp_def ProcessConnect_def with_service_def RegisterRecv_def SetWorkId_def
      session_inv_defs enabled_def io_accepts_def call_ok_def call_error_def count_list_0_iff)

lemma Send_first:
  assumes "io_accepts sys" and "se_connected (wd_self w)" and "\<not> wd_useRIO w" and "\<not> se_sendRegistered (wd_self w)"
    and "se_SendBuffers (wd_self w) = []"
  shows "Send sys b w = emit (Sys_WSASend (se_sendQueue (wd_self w) @ [b])) (upd_self (\<lambda>s. s\<lparr>se_sendOwner := True,
    se_SendBuffers := se_sendQueue s @ [b], se_sendQueue := [], se_sendRegistered := True\<rparr>) w)"
  using assms unfolding Send_def RegisterSend_def Let_def io_accepts_def call_ok_def call_error_def
  by (auto simp: upd_self_def)

lemma Send_more:
  assumes "se_connected (wd_self w)" and "se_sendRegistered (wd_self w)"
  shows "Send sys b w = upd_self (\<lambda>s. s\<lparr>se_sendQueue := se_sendQueue s @ [b]\<rparr>) w"
  using assms by (simp add: Send_def Let_def upd_self_def)

lemma run_sends:
  assumes "io_accepts sys" and "session_inv sys w" and "enabled EvtConnected w"
  shows "\<exists>w'. run sys [EvtConnected, EvtSend a, EvtSend b] w = Some (Inr w') \<and> se_connected (wd_self w')
    \<and> se_sendQueue (wd_self w') = [b] \<and> accepted sys [EvtConnected, EvtSend a, EvtSend b] w = [a, b]"
proof -
  obtain w1 where w1: "handle sys EvtConnected w = Some (Inr w1)" "se_connected (wd_self w1)" "\<not> wd_useRIO w1"
    "\<not> se_sendRegistered (wd_self w1)" "se_SendBuffers (wd_self w1) = []" "se_sendQueue (wd_self w1) = []"
    using connect_idle [OF assms] by blast
  define w2 where "w2 = Send sys a w1"
  have w2: "se_connected (wd_self w2)" "se_sendRegistered (wd_self w2)" "se_sendQueue (wd_self w2) = []"
    using Send_first [OF assms(1) w1(2-5), of a] w1 by (simp_all add: w2_def)
  have h: "handle sys (EvtSend x) v = Some (Inr (Send sys x v))" "enabled (EvtSend x) v" for x v
    by (simp_all add: handle_def enabled_def Let_def)
  show ?thesis
    using assms(3) w1 w2 Send_more [OF w2(1,2), of sys b] by (simp add: h w2_def [symmetric] accepted_by_def)
qed

text \<open>From a fresh session, connected once, any chunking of a stream of packets is delivered.\<close>

lemma connect_listening:
  assumes "io_accepts sys" and "session_inv sys w" and "enabled EvtConnected w"
    and "RECV_BUFFER_SIZE \<le> FreeSize (se_recvBuffer (wd_self w))"
  shows "\<exists>w'. handle sys EvtConnected w = Some (Inr w') \<and> listening sys w'
    \<and> se_recvBuffer (wd_self w') = se_recvBuffer (wd_self w) \<and> deliveries (wd_trace w') = deliveries (wd_trace w)"
  using ProcessConnect_ok [OF assms(2,3)] assms(1,4) by (auto simp: handle_def Dispatch_iocp_def listening_def)

lemma fresh_stream:
  assumes "io_accepts sys" and "concat chunks = concat ps @ r"
    and "list_all (\<lambda>c. c \<noteq> [] \<and> length c \<le> 8192) chunks"
    and "list_all well_framed ps" and "list_all (\<lambda>p. length p \<le> 4097) ps" and "partial_frame r" and "length r \<le> 4096"
  shows "\<exists>w w'. new_world self False sv = Inr w \<and> run sys (EvtConnected # map EvtReceived chunks) w = Some (Inr w')
    \<and> deliveries (wd_trace w') = ps \<and> unread (se_recvBuffer (wd_self w')) = r \<and> se_connected (wd_self w')"
proof -
  obtain w where w: "new_world self False sv = Inr w" "session_inv sys w" "enabled EvtConnected w"
    "unread (se_recvBuffer (wd_self w)) = []" "RECV_BUFFER_SIZE \<le> FreeSize (se_recvBuffer (wd_self w))"
    "deliveries (wd_trace w) = []"
    using new_world_ok [of self sv sys] by blast
  from connect_listening [OF assms(1) w(2,3,5)] obtain w1 where w1: "handle sys EvtConnected w = Some (Inr w1)"
    "listening sys w1" "unread (se_recvBuffer (wd_self w1)) = []" "deliveries (wd_trace w1) = []"
    using w by auto
  from stream_delivery [OF assms(1) w1(2), of chunks ps r] w1 assms
  obtain w' where "run sys (map EvtReceived chunks) w1 = Some (Inr w')" "listening sys w'"
    "unread (se_recvBuffer (wd_self w')) = r" "deliveries (wd_trace w') = ps"
    by (auto simp: partial_frame_def sizeof_PacketHeader_def)
  then show ?thesis using w w1 by (auto simp: listening_def)
qed

section \<open>The completion queue of a session\<close>

text \<open>ProcessConnect reads the work id before SetWorkId assigns it.\<close>

definition rq_queues :: "io_call list \<Rightarrow> int list" where
  "rq_queues tr = concat (map (\<lambda>c. case c of Sys_RIOCreateRequestQueue cq \<Rightarrow> [cq] | _ \<Rightarrow> []) tr)"

lemma rq_queues_Cons [simp]:
  "rq_queues [] = []"
  "rq_queues (c # tr) = (case c of Sys_RIOCreateRequestQueue cq \<Rightarrow> [cq] | _ \<Rightarrow> []) @ rq_queues tr"
  by (simp_all add: rq_queues_def)

lemma Disconnect_rq [simp]: "rq_queues (wd_trace (Disconnect sys c w)) = rq_queues (wd_trace w)"
  by (simp add: disconnect_defs)

lemma HandleError_rq [simp]: "rq_queues (wd_trace (HandleError sys c w)) = rq_queues (wd_trace w)"
  by (simp add: HandleError_def)

lemma RegisterRecv_rq [simp]: "rq_queues (wd_trace (RegisterRecv sys w)) = rq_queues (wd_trace w)"
  by (simp add: RegisterRecv_def Let_def)

lemma RegisterRIOBuffer_rq [simp]:
  "rq_queues (wd_trace (snd (RegisterRIOBuffer sys w))) = rq_queues (wd_trace w)"
  "wd_service (snd (RegisterRIOBuffer sys w)) = wd_service w"
  "se_hasService (wd_self (snd (RegisterRIOBuffer sys w))) = se_hasService (wd_self w)"
  "se_workId (wd_self (snd (RegisterRIOBuffer sys w))) = se_workId (wd_self w)"
  by (simp_all add: RegisterRIOBuffer_def Let_def)

lemma rio_session_queue:
  assumes "wd_useRIO w" and "se_hasService (wd_self w)" and "se_workId (wd_self w) = 0"
    and "sv_rioCQEventList (wd_service w) = cq # cqs" and "ProcessConnect sys w = Inr w'"
  shows "rq_queues (wd_trace w') = cq # rq_queues (wd_trace w)"
  using assms
  by (auto simp: ProcessConnect_def CreateRIORQ_def with_service_def GetRIOCQ_def AddSession_def SetWorkId_def
      to_size_t_def Let_def bind_result_Inr_iff split: if_splits)

lemma ProcessConnect_rio_returns:
  assumes "wd_useRIO w" and "se_hasService (wd_self w)" and "sv_rioCQEventList (wd_service w) \<noteq> []"
  shows "\<exists>w'. ProcessConnect sys w = Inr w'"
proof -
  define w2 where "w2 = (upd_self (\<lambda>s. s\<lparr>se_connected := True\<rparr>) w)\<lparr>wd_service := AddSession (se_self (wd_self w)) (wd_service w)\<rparr>"
  define w3 where "w3 = snd (RegisterRIOBuffer sys w2)"
  have "sv_rioCQEventList (wd_service w3) \<noteq> []" and svc: "se_hasService (wd_self w3)"
    using assms by (simp_all add: w3_def w2_def AddSession_def)
  then obtain cq where "GetRIOCQ (se_workId (wd_self w3)) (wd_service w3) = Inr cq" using GetRIOCQ_ok by blast
  then have "\<exists>r. CreateRIORQ sys w3 = Inr r" using svc by (auto simp: CreateRIORQ_def with_service_def Let_def)
  then obtain r where r: "CreateRIORQ sys w3 = Inr r" by blast
  have "ProcessConnect sys w = bind_result (bind_result (CreateRIORQ sys w3) (\<lambda>(ok, w3). Inr w3))
      (\<lambda>w3. Inr (RegisterRecv sys (emit Cb_OnConnected (SetWorkId w3))))"
    using assms by (simp add: ProcessConnect_def with_service_def w3_def w2_def Let_def)
  then show ?thesis by (simp add: r split: prod.splits)
qed

section \<open>One RIOSend\<close>

definition total :: "BYTE list list \<Rightarrow> int" where
  "total bs = int (length (concat bs))"

lemma rio_fill_fits:
  assumes "rb_inv (se_sendBuffer (wd_self w))" and "total queue \<le> FreeSize (se_sendBuffer (wd_self w))"
  shows "\<exists>b. rb_inv b \<and> unread b = unread (se_sendBuffer (wd_self w)) @ concat queue
    \<and> rb_bufferSize b = rb_bufferSize (se_sendBuffer (wd_self w))
    \<and> rio_fill sys queue w = (True, upd_self (\<lambda>s. s\<lparr>se_sendBuffer := b,
         se_rioSendEvent := (se_rioSendEvent s)\<lparr>rio_Length := rio_Length (se_rioSendEvent s) + word_of_int (total queue)\<rparr>\<rparr>) w)"
  using assms
proof (induction queue arbitrary: w)
  case Nil
  then show ?case by (auto simp: total_def upd_self_def)
next
  case (Cons x queue)
  let ?b = "se_sendBuffer (wd_self w)"
  have fits: "int (length x) \<le> FreeSize ?b" using Cons.prems(2) by (simp add: total_def)
  from rb.put_fits [OF Cons.prems(1) fits] obtain b1 where b1: "OnWrite (store_at_WritePos ?b x) (int (length x)) = (True, b1)"
    "rb_inv b1" "unread b1 = unread ?b @ x" "rb_bufferSize b1 = rb_bufferSize ?b" "FreeSize b1 = FreeSize ?b - int (length x)"
    by blast
  define w1 where "w1 = upd_self (\<lambda>s. s\<lparr>se_sendBuffer := b1, se_rioSendEvent := (se_rioSendEvent s)
      \<lparr>rio_Length := rio_Length (se_rioSendEvent s) + word_of_int (int (length x))\<rparr>\<rparr>) w"
  have w1: "se_sendBuffer (wd_self w1) = b1" by (simp add: w1_def)
  have step: "rio_fill sys (x # queue) w = rio_fill sys queue w1"
    using fits b1(1) by (simp add: Let_def w1_def upd_self_def)
  have "total queue \<le> FreeSize (se_sendBuffer (wd_self w1))"
    using Cons.prems(2) by (simp add: w1 b1(5) total_def)
  from Cons.IH [of w1, OF _ this] b1 obtain b where b: "rb_inv b" "unread b = unread b1 @ concat queue"
    "rb_bufferSize b = rb_bufferSize b1"
    and fill: "rio_fill sys queue w1 = (True, upd_self (\<lambda>s. s\<lparr>se_sendBuffer := b,
         se_rioSendEvent := (se_rioSendEvent s)\<lparr>rio_Length := rio_Length (se_rioSendEvent s) + word_of_int (total queue)\<rparr>\<rparr>) w1)"
    by (auto simp: w1)
  have "rio_fill sys (x # queue) w = (True, upd_self (\<lambda>s. s\<lparr>se_sendBuffer := b,
         se_rioSendEvent := (se_rioSendEvent s)\<lparr>rio_Length := rio_Length (se_rioSendEvent s) + word_of_int (total (x # queue))\<rparr>\<rparr>) w)"
    unfolding step fill by (simp add: w1_def upd_self_def total_def ac_simps)
  then show ?case using b b1 by auto
qed

text \<open>RegisterSend hands RIOSend exactly the bytes of the queue, in order, from an empty send buffer.\<close>

lemma RegisterSend_RIO_posts:
  assumes "rb_inv (se_sendBuffer (wd_self w))" and "total (se_sendQueue (wd_self w)) \<le> FreeSize (se_sendBuffer (wd_self w))"
    and "unread (se_sendBuffer (wd_self w)) = []" and "io_accepts sys"
  shows "\<exists>b. se_sendBuffer (wd_self (RegisterSend_RIO sys w)) = b \<and> rb_inv b \<and> unread b = concat (se_sendQueue (wd_self w))
    \<and> wd_trace (RegisterSend_RIO sys w) = Sys_RIOSend (se_rioSendBufferId (wd_self w))
        (word_of_int (WriteOffset (se_sendBuffer (wd_self w)))) (word_of_int (int (length (unread b)))) # wd_trace w
    \<and> rio_owner (se_rioSendEvent (wd_self (RegisterSend_RIO sys w)))"
proof -
  define w1 where "w1 = upd_self (\<lambda>s. s\<lparr>se_sendQueue := [], se_rioSendEvent :=
      (RIOEvent_Init (se_rioSendEvent s))\<lparr>rio_owner := True, rio_BufferId := se_rioSendBufferId s,
        rio_Offset := word_of_int (WriteOffset (se_sendBuffer s))\<rparr>\<rparr>) w"
  from rio_fill_fits [of w1 "se_sendQueue (wd_self w)" sys] assms
  obtain b where b: "rb_inv b" "unread b = concat (se_sendQueue (wd_self w))"
    and f: "rio_fill sys (se_sendQueue (wd_self w)) w1 = (True, upd_self (\<lambda>s. s\<lparr>se_sendBuffer := b,
      se_rioSendEvent := (se_rioSendEvent s)\<lparr>rio_Length := rio_Length (se_rioSendEvent s) + word_of_int (total (se_sendQueue (wd_self w)))\<rparr>\<rparr>) w1)"
    by (auto simp: w1_def)
  show ?thesis
    using assms(4) b
    by (simp add: RegisterSend_RIO_def f w1_def [symmetric] io_accepts_def call_ok_def call_error_def Let_def)
      (simp add: w1_def RIOEvent_Init_def total_def)
qed

text \<open>A queue that does not fit disconnects, posts nothing and keeps the event's owner for ever.\<close>

lemma rio_fill_overflow:
  assumes "rb_inv (se_sendBuffer (wd_self w))" and "FreeSize (se_sendBuffer (wd_self w)) < total queue"
  shows "fst (rio_fill sys queue w) = False \<and> \<not> se_connected (wd_self (snd (rio_fill sys queue w)))
    \<and> rio_owner (se_rioSendEvent (wd_self (snd (rio_fill sys queue w)))) = rio_owner (se_rioSendEvent (wd_self w))
    \<and> se_sendQueue (wd_self (snd (rio_fill sys queue w))) = se_sendQueue (wd_self w)
    \<and> se_sendRegistered (wd_self (snd (rio_fill sys queue w))) = se_sendRegistered (wd_self w)
    \<and> (\<forall>i off len. Sys_RIOSend i off len \<in> set (wd_trace (snd (rio_fill sys queue w))) \<longrightarrow> Sys_RIOSend i off len \<in> set (wd_trace w))"
  using assms
proof (induction queue arbitrary: w)
  case Nil
  then show ?case using rb_sizes(4) [of "se_sendBuffer (wd_self w)"] by (simp add: total_def)
next
  case (Cons x queue)
  let ?b = "se_sendBuffer (wd_self w)"
  show ?case
  proof (cases "FreeSize ?b < int (length x)")
    case True
    then show ?thesis by (auto simp: Let_def disconnect_defs split: if_splits)
  next
    case False
    then have fits: "int (length x) \<le> FreeSize ?b" by simp
    from rb.put_fits [OF Cons.prems(1) fits] obtain b1 where b1: "OnWrite (store_at_WritePos ?b x) (int (length x)) = (True, b1)"
      "rb_inv b1" "FreeSize b1 = FreeSize ?b - int (length x)"
      by blast
    define w1 where "w1 = upd_self (\<lambda>s. s\<lparr>se_sendBuffer := b1, se_rioSendEvent := (se_rioSendEvent s)
      \<lparr>rio_Length := rio_Length (se_rioSendEvent s) + word_of_int (int (length x))\<rparr>\<rparr>) w"
    have step: "rio_fill sys (x # queue) w = rio_fill sys queue w1"
      using fits b1(1) by (simp add: Let_def w1_def upd_self_def)
    have "FreeSize (se_sendBuffer (wd_self w1)) < total queue"
      using Cons.prems(2) by (simp add: w1_def b1(3) total_def)
    from Cons.IH [of w1, OF _ this] b1 show ?thesis unfolding step by (simp add: w1_def)
  qed
qed

lemma RegisterSend_RIO_overflow:
  assumes "rb_inv (se_sendBuffer (wd_self w))" and "FreeSize (se_sendBuffer (wd_self w)) < total (se_sendQueue (wd_self w))"
  shows "\<not> se_connected (wd_self (RegisterSend_RIO sys w)) \<and> rio_owner (se_rioSendEvent (wd_self (RegisterSend_RIO sys w)))
    \<and> se_sendQueue (wd_self (RegisterSend_RIO sys w)) = []
    \<and> se_sendRegistered (wd_self (RegisterSend_RIO sys w)) = se_sendRegistered (wd_self w)
    \<and> (\<forall>i off len. Sys_RIOSend i off len \<in> set (wd_trace (RegisterSend_RIO sys w)) \<longrightarrow> Sys_RIOSend i off len \<in> set (wd_trace w))"
proof -
  define w1 where "w1 = upd_self (\<lambda>s. s\<lparr>se_sendQueue := [], se_rioSendEvent :=
      (RIOEvent_Init (se_rioSendEvent s))\<lparr>rio_owner := True, rio_BufferId := se_rioSendBufferId s,
        rio_Offset := word_of_int (WriteOffset (se_sendBuffer s))\<rparr>\<rparr>) w"
  have o: "fst (rio_fill sys (se_sendQueue (wd_self w)) w1) = False"
    using rio_fill_overflow [of w1 "se_sendQueue (wd_self w)" sys] assms by (simp_all add: w1_def)
  have r: "RegisterSend_RIO sys w = snd (rio_fill sys (se_sendQueue (wd_self w)) w1)"
    unfolding RegisterSend_RIO_def Let_def w1_def [symmetric] using o
    by (cases "rio_fill sys (se_sendQueue (wd_self w)) w1") simp
  show ?thesis
    unfolding r using rio_fill_overflow [of w1 "se_sendQueue (wd_self w)" sys] assms by (simp add: w1_def)
qed

end
