(* ===== verification/SendBuffer.thy ===== *)
theory SendBuffer imports Prelude begin

text \<open>
  ServerCore/SendBuffer.h and SendBuffer.cpp: SendBuffer, SendBufferChunk and SendBufferManager.
  Chunks live in a store indexed by chunk number. A chunk is held by the thread whose
  LSendBufferChunk it is and by the live SendBuffers cut from it; when the last holder lets go,
  the shared_ptr deleter PushGlobal puts it back into the manager's pool.
\<close>

section \<open>Chunks and send buffers\<close>

definition SEND_BUFFER_CHUNK_SIZE :: nat where
  "SEND_BUFFER_CHUNK_SIZE = 12000"

record SendBufferChunk =
  ck_buffer :: "BYTE list"
  ck_open :: bool
  ck_usedSize :: uint32

record SendBuffer =
  sb_owner :: nat
  sb_buffer :: nat
  sb_allocSize :: uint32
  sb_writeSize :: uint32

definition new_SendBufferChunk :: SendBufferChunk where
  "new_SendBufferChunk =
     \<lparr>ck_buffer = replicate SEND_BUFFER_CHUNK_SIZE 0, ck_open = False, ck_usedSize = 0\<rparr>"

text \<open>Buffer() is a pointer into the chunk's array: here, an offset.\<close>

definition chunk_Buffer :: "SendBufferChunk \<Rightarrow> nat" where
  "chunk_Buffer c = unat (ck_usedSize c)"

definition chunk_FreeSize :: "SendBufferChunk \<Rightarrow> uint32" where
  "chunk_FreeSize c = word_of_nat (length (ck_buffer c)) - ck_usedSize c"

definition chunk_Reset :: "SendBufferChunk \<Rightarrow> SendBufferChunk" where
  "chunk_Reset c = c\<lparr>ck_open := False, ck_usedSize := 0\<rparr>"

text \<open>Open returns nullptr (here None) when the chunk has not enough room left.\<close>

definition chunk_Open ::
  "nat \<Rightarrow> SendBufferChunk \<Rightarrow> uint32 \<Rightarrow> (SendBuffer option \<times> SendBufferChunk) result" where
  "chunk_Open self c allocSize =
     ASSERT_CRASH (unat allocSize \<le> SEND_BUFFER_CHUNK_SIZE)
     (ASSERT_CRASH (ck_open c = False)
       (if allocSize > chunk_FreeSize c then Inr (None, c)
        else Inr (Some \<lparr>sb_owner = self, sb_buffer = chunk_Buffer c, sb_allocSize = allocSize,
                        sb_writeSize = 0\<rparr>, c\<lparr>ck_open := True\<rparr>)))"

definition chunk_Close :: "SendBufferChunk \<Rightarrow> uint32 \<Rightarrow> SendBufferChunk result" where
  "chunk_Close c writeSize =
     ASSERT_CRASH (ck_open c = True)
       (Inr (c\<lparr>ck_open := False, ck_usedSize := ck_usedSize c + writeSize\<rparr>))"

definition SendBuffer_Close ::
  "SendBuffer \<Rightarrow> SendBufferChunk \<Rightarrow> uint32 \<Rightarrow> (SendBuffer \<times> SendBufferChunk) result" where
  "SendBuffer_Close b owner writeSize =
     ASSERT_CRASH (sb_allocSize b \<ge> writeSize)
       (bind_result (chunk_Close owner writeSize) (\<lambda>c. Inr (b\<lparr>sb_writeSize := writeSize\<rparr>, c)))"

section \<open>The manager\<close>

text \<open>
  \<open>sm_tls\<close> maps a thread to its LSendBufferChunk, \<open>sm_live\<close> numbers the SendBuffers that some
  shared_ptr still holds, \<open>sm_pool\<close> is the vector _sendBufferChunks (its back is the last element).
\<close>

record send_manager =
  sm_chunks :: "nat \<Rightarrow> SendBufferChunk"
  sm_next :: nat
  sm_pool :: "nat list"
  sm_tls :: "(nat \<times> nat) list"
  sm_live :: "(nat \<times> SendBuffer) list"

definition new_send_manager :: send_manager where
  "new_send_manager = \<lparr>sm_chunks = (\<lambda>_. new_SendBufferChunk), sm_next = 0, sm_pool = [],
     sm_tls = [], sm_live = []\<rparr>"

definition set_chunk :: "nat \<Rightarrow> SendBufferChunk \<Rightarrow> send_manager \<Rightarrow> send_manager" where
  "set_chunk i c m = m\<lparr>sm_chunks := (sm_chunks m)(i := c)\<rparr>"

definition manager_Pop :: "send_manager \<Rightarrow> nat \<times> send_manager" where
  "manager_Pop m =
     (if sm_pool m \<noteq> [] then (last (sm_pool m), m\<lparr>sm_pool := butlast (sm_pool m)\<rparr>)
      else (sm_next m, set_chunk (sm_next m) new_SendBufferChunk (m\<lparr>sm_next := Suc (sm_next m)\<rparr>)))"

definition manager_Push :: "nat \<Rightarrow> send_manager \<Rightarrow> send_manager" where
  "manager_Push i m = m\<lparr>sm_pool := sm_pool m @ [i]\<rparr>"

definition chunk_held :: "send_manager \<Rightarrow> nat \<Rightarrow> bool" where
  "chunk_held m i \<longleftrightarrow> i \<in> set (map snd (sm_tls m)) \<or> i \<in> set (map (\<lambda>p. sb_owner (snd p)) (sm_live m))"

text \<open>A shared_ptr to a chunk has gone; if it was the last, its deleter PushGlobal runs.\<close>

definition PushGlobal :: "nat \<Rightarrow> send_manager \<Rightarrow> send_manager" where
  "PushGlobal i m = (if chunk_held m i then m else manager_Push i m)"

definition assign_tls :: "nat \<Rightarrow> nat \<Rightarrow> send_manager \<Rightarrow> send_manager" where
  "assign_tls t i m =
     (let m1 = m\<lparr>sm_tls := (t, i) # filter (\<lambda>p. fst p \<noteq> t) (sm_tls m)\<rparr>
      in case map_of (sm_tls m) t of None \<Rightarrow> m1 | Some old \<Rightarrow> PushGlobal old m1)"

text \<open>LSendBufferChunk = Pop(); LSendBufferChunk->Reset();\<close>

definition refill :: "nat \<Rightarrow> send_manager \<Rightarrow> send_manager" where
  "refill t m =
     (let (i, m1) = manager_Pop m; m2 = assign_tls t i m1
      in set_chunk i (chunk_Reset (sm_chunks m2 i)) m2)"

definition current_chunk :: "nat \<Rightarrow> send_manager \<Rightarrow> nat result" where
  "current_chunk t m = (case map_of (sm_tls m) t of None \<Rightarrow> Inl NullPointer | Some i \<Rightarrow> Inr i)"

definition manager_Open :: "nat \<Rightarrow> uint32 \<Rightarrow> send_manager \<Rightarrow> (SendBuffer option \<times> send_manager) result" where
  "manager_Open t sz m =
     (let m1 = (if map_of (sm_tls m) t = None then refill t m else m)
      in bind_result (current_chunk t m1) (\<lambda>i.
         ASSERT_CRASH (ck_open (sm_chunks m1 i) = False)
           (let m2 = (if chunk_FreeSize (sm_chunks m1 i) < sz then refill t m1 else m1)
            in bind_result (current_chunk t m2) (\<lambda>j.
               bind_result (chunk_Open j (sm_chunks m2 j) sz) (\<lambda>(b, c).
                 Inr (b, set_chunk j c m2))))))"

text \<open>A new shared_ptr<SendBuffer> under a number of its own, and the destruction of the last one.\<close>

definition hold_buffer :: "nat \<Rightarrow> SendBuffer \<Rightarrow> send_manager \<Rightarrow> send_manager" where
  "hold_buffer k b m = m\<lparr>sm_live := (k, b) # sm_live m\<rparr>"

definition drop_buffer :: "nat \<Rightarrow> send_manager \<Rightarrow> send_manager" where
  "drop_buffer k m =
     (case map_of (sm_live m) k of
        None \<Rightarrow> m
      | Some b \<Rightarrow> PushGlobal (sb_owner b) (m\<lparr>sm_live := filter (\<lambda>p. fst p \<noteq> k) (sm_live m)\<rparr>))"

text \<open>Writing through the buffer pointer: only the chunk's array is memory we may write.\<close>

definition write_chunk :: "nat \<Rightarrow> nat \<Rightarrow> BYTE list \<Rightarrow> send_manager \<Rightarrow> send_manager result" where
  "write_chunk i off bs m =
     (let c = sm_chunks m i
      in if off + length bs \<le> length (ck_buffer c)
         then Inr (set_chunk i (c\<lparr>ck_buffer := write_bytes (ck_buffer c) off bs\<rparr>) m)
         else Inl OutOfBounds)"

definition buffer_bytes :: "send_manager \<Rightarrow> SendBuffer \<Rightarrow> BYTE list" where
  "buffer_bytes m b = read_bytes (ck_buffer (sm_chunks m (sb_owner b))) (sb_buffer b) (unat (sb_writeSize b))"

section \<open>Invariant: no chunk is in use twice, and live buffers never overlap\<close>

definition chunk_wf :: "SendBufferChunk \<Rightarrow> bool" where
  "chunk_wf c \<longleftrightarrow> length (ck_buffer c) = SEND_BUFFER_CHUNK_SIZE
     \<and> unat (ck_usedSize c) \<le> SEND_BUFFER_CHUNK_SIZE"

definition buffer_end :: "SendBuffer \<Rightarrow> nat" where
  "buffer_end b = sb_buffer b + unat (sb_writeSize b)"

definition disjoint_buffers :: "SendBuffer \<Rightarrow> SendBuffer \<Rightarrow> bool" where
  "disjoint_buffers a b \<longleftrightarrow> sb_owner a \<noteq> sb_owner b \<or> buffer_end a \<le> sb_buffer b \<or> buffer_end b \<le> sb_buffer a"

definition pool_inv :: "send_manager \<Rightarrow> bool" where
  "pool_inv m \<longleftrightarrow> distinct (sm_pool m) \<and> (\<forall>i \<in> set (sm_pool m). i < sm_next m \<and> \<not> chunk_held m i)"

definition tls_inv :: "send_manager \<Rightarrow> bool" where
  "tls_inv m \<longleftrightarrow> distinct (map fst (sm_tls m)) \<and> distinct (map snd (sm_tls m))
     \<and> (\<forall>p \<in> set (sm_tls m). snd p < sm_next m \<and> \<not> ck_open (sm_chunks m (snd p)))"

definition live_inv :: "send_manager \<Rightarrow> bool" where
  "live_inv m \<longleftrightarrow> distinct (map fst (sm_live m))
     \<and> (\<forall>p \<in> set (sm_live m). sb_owner (snd p) < sm_next m
          \<and> buffer_end (snd p) \<le> unat (ck_usedSize (sm_chunks m (sb_owner (snd p)))))
     \<and> (\<forall>p \<in> set (sm_live m). \<forall>q \<in> set (sm_live m). fst p \<noteq> fst q \<longrightarrow> disjoint_buffers (snd p) (snd q))"

definition manager_inv :: "send_manager \<Rightarrow> bool" where
  "manager_inv m \<longleftrightarrow> (\<forall>i. chunk_wf (sm_chunks m i)) \<and> pool_inv m \<and> tls_inv m \<and> live_inv m"

lemma chunk_wf_new: "chunk_wf new_SendBufferChunk"
  by (simp add: chunk_wf_def new_SendBufferChunk_def)

lemma chunk_wf_Reset: "chunk_wf c \<Longrightarrow> chunk_wf (chunk_Reset c)"
  by (simp add: chunk_wf_def chunk_Reset_def)

lemma unat_chunk_FreeSize:
  assumes "chunk_wf c"
  shows "unat (chunk_FreeSize c) = SEND_BUFFER_CHUNK_SIZE - unat (ck_usedSize c)"
proof -
  have n: "unat (word_of_nat SEND_BUFFER_CHUNK_SIZE :: uint32) = SEND_BUFFER_CHUNK_SIZE"
    by (simp add: SEND_BUFFER_CHUNK_SIZE_def)
  then have "ck_usedSize c \<le> word_of_nat SEND_BUFFER_CHUNK_SIZE"
    using assms by (simp add: chunk_wf_def word_le_nat_alt)
  then show ?thesis
    using assms n by (simp add: chunk_FreeSize_def chunk_wf_def unat_sub)
qed

lemma manager_inv_new: "manager_inv new_send_manager"
  by (simp add: manager_inv_def new_send_manager_def pool_inv_def tls_inv_def live_inv_def chunk_wf_new)

lemma held_tls: "map_of (sm_tls m) t = Some i \<Longrightarrow> chunk_held m i"
  by (force simp: chunk_held_def dest: map_of_SomeD)

lemma held_live: "p \<in> set (sm_live m) \<Longrightarrow> chunk_held m (sb_owner (snd p))"
  by (force simp: chunk_held_def)

lemma held_less: "manager_inv m \<Longrightarrow> chunk_held m i \<Longrightarrow> i < sm_next m"
  by (auto simp: manager_inv_def tls_inv_def live_inv_def chunk_held_def)

lemma set_chunk_simps [simp]:
  "sm_chunks (set_chunk i c m) = (sm_chunks m)(i := c)" "sm_next (set_chunk i c m) = sm_next m"
  "sm_pool (set_chunk i c m) = sm_pool m" "sm_tls (set_chunk i c m) = sm_tls m"
  "sm_live (set_chunk i c m) = sm_live m" "chunk_held (set_chunk i c m) j = chunk_held m j"
  by (simp_all add: set_chunk_def chunk_held_def)

text \<open>Pop hands out a chunk nobody holds.\<close>

lemma manager_Pop_ok:
  assumes inv: "manager_inv m" and pop: "manager_Pop m = (i, m1)"
  shows "manager_inv m1" "\<not> chunk_held m1 i" "i \<notin> set (sm_pool m1)" "i < sm_next m1"
    "sm_tls m1 = sm_tls m" "sm_live m1 = sm_live m"
    "\<And>j. chunk_held m j \<Longrightarrow> sm_chunks m1 j = sm_chunks m j"
proof -
  have "manager_inv m1 \<and> \<not> chunk_held m1 i \<and> i \<notin> set (sm_pool m1) \<and> i < sm_next m1
    \<and> sm_tls m1 = sm_tls m \<and> sm_live m1 = sm_live m
    \<and> (\<forall>j. chunk_held m j \<longrightarrow> sm_chunks m1 j = sm_chunks m j)"
  proof (cases "sm_pool m = []")
    case True
    let ?n = "sm_next m"
    have m1: "m1 = set_chunk ?n new_SendBufferChunk (m\<lparr>sm_next := Suc ?n\<rparr>)" and i: "i = ?n"
      using pop True by (auto simp: manager_Pop_def)
    have fresh: "\<not> chunk_held m ?n"
      using held_less [OF inv, of ?n] by auto
    have held: "chunk_held m1 j = chunk_held m j" for j
      by (simp add: m1 chunk_held_def)
    have "tls_inv m1" "live_inv m1"
      using inv fresh by (auto simp: manager_inv_def tls_inv_def live_inv_def m1 chunk_held_def)
    then show ?thesis
      using inv fresh held True
      by (auto simp: manager_inv_def pool_inv_def m1 i chunk_wf_new)
  next
    case False
    have m1: "m1 = m\<lparr>sm_pool := butlast (sm_pool m)\<rparr>" and i: "i = last (sm_pool m)"
      using pop False by (auto simp: manager_Pop_def)
    have held: "chunk_held m1 j = chunk_held m j" for j
      by (simp add: m1 chunk_held_def)
    have pool: "sm_pool m = sm_pool m1 @ [i]" using False by (simp add: m1 i)
    then have "distinct (sm_pool m1)" "i \<notin> set (sm_pool m1)" "i \<in> set (sm_pool m)"
      "set (sm_pool m1) \<subseteq> set (sm_pool m)"
      using inv by (auto simp: manager_inv_def pool_inv_def)
    moreover have "tls_inv m1" "live_inv m1" "sm_next m1 = sm_next m" "sm_tls m1 = sm_tls m"
      "sm_live m1 = sm_live m" "sm_chunks m1 = sm_chunks m"
      using inv by (simp_all add: manager_inv_def tls_inv_def live_inv_def m1)
    ultimately show ?thesis
      using inv held by (auto simp: manager_inv_def pool_inv_def)
  qed
  then show "manager_inv m1" "\<not> chunk_held m1 i" "i \<notin> set (sm_pool m1)" "i < sm_next m1"
    "sm_tls m1 = sm_tls m" "sm_live m1 = sm_live m"
    "\<And>j. chunk_held m j \<Longrightarrow> sm_chunks m1 j = sm_chunks m j"
    by blast+
qed

lemma PushGlobal_ok:
  assumes "manager_inv m" and "i < sm_next m" and "i \<notin> set (sm_pool m)"
  shows "manager_inv (PushGlobal i m)"
  using assms by (auto simp: PushGlobal_def manager_Push_def manager_inv_def pool_inv_def tls_inv_def
      live_inv_def chunk_held_def)

lemma PushGlobal_frame [simp]:
  "sm_chunks (PushGlobal i m) = sm_chunks m" "sm_next (PushGlobal i m) = sm_next m"
  "sm_tls (PushGlobal i m) = sm_tls m" "sm_live (PushGlobal i m) = sm_live m"
  "chunk_held (PushGlobal i m) j = chunk_held m j"
  by (simp_all add: PushGlobal_def manager_Push_def chunk_held_def)

lemma assign_tls_frame [simp]:
  "sm_chunks (assign_tls t i m) = sm_chunks m" "sm_next (assign_tls t i m) = sm_next m"
  "sm_tls (assign_tls t i m) = (t, i) # filter (\<lambda>p. fst p \<noteq> t) (sm_tls m)"
  "sm_live (assign_tls t i m) = sm_live m"
  by (simp_all add: assign_tls_def Let_def split: option.splits)

lemma distinct_map_filter: "distinct (map f xs) \<Longrightarrow> distinct (map f (filter P xs))"
  by (simp add: distinct_map inj_on_def)

text \<open>The thread's chunk is replaced by one that nobody holds; the old one may return to the pool.\<close>

lemma assign_tls_ok:
  assumes inv: "manager_inv m" and free: "\<not> chunk_held m i" "i \<notin> set (sm_pool m)" "i < sm_next m"
    and closed: "\<not> ck_open (sm_chunks m i)"
  shows "manager_inv (assign_tls t i m)"
proof -
  let ?m1 = "m\<lparr>sm_tls := (t, i) # filter (\<lambda>p. fst p \<noteq> t) (sm_tls m)\<rparr>"
  have "tls_inv ?m1"
    using inv free closed by (auto simp: manager_inv_def tls_inv_def chunk_held_def distinct_map_filter)
  moreover have "pool_inv ?m1"
    using inv free by (auto simp: manager_inv_def pool_inv_def chunk_held_def)
  moreover have "live_inv ?m1" "\<forall>j. chunk_wf (sm_chunks ?m1 j)"
    using inv by (auto simp: manager_inv_def live_inv_def)
  ultimately have inv1: "manager_inv ?m1" by (simp add: manager_inv_def)
  show ?thesis
  proof (cases "map_of (sm_tls m) t")
    case None
    then show ?thesis using inv1 by (simp add: assign_tls_def)
  next
    case (Some old)
    then have held: "chunk_held m old" by (rule held_tls)
    then have "old \<notin> set (sm_pool m)" "old < sm_next m"
      using inv held_less by (auto simp: manager_inv_def pool_inv_def)
    with inv1 have "manager_inv (PushGlobal old ?m1)"
      by (intro PushGlobal_ok) simp_all
    with Some show ?thesis by (simp add: assign_tls_def)
  qed
qed

lemma Reset_ok:
  assumes "manager_inv m" and "i \<notin> (\<lambda>p. sb_owner (snd p)) ` set (sm_live m)"
  shows "manager_inv (set_chunk i (chunk_Reset (sm_chunks m i)) m)"
  using assms by (auto simp: manager_inv_def pool_inv_def tls_inv_def live_inv_def chunk_wf_Reset)
    (auto simp: chunk_Reset_def)

lemma set_closed_ok:
  assumes "manager_inv m" and "\<not> chunk_held m i" "chunk_wf c"
  shows "manager_inv (set_chunk i c m)"
  using assms by (auto simp: manager_inv_def pool_inv_def tls_inv_def live_inv_def chunk_held_def)

text \<open>Reset happens after the assignment; on a chunk nobody else holds the order makes no difference.\<close>

lemma refill_ok:
  assumes inv: "manager_inv m"
  shows "manager_inv (refill t m)"
    and "\<exists>i. map_of (sm_tls (refill t m)) t = Some i \<and> ck_usedSize (sm_chunks (refill t m) i) = 0
          \<and> \<not> ck_open (sm_chunks (refill t m) i) \<and> i \<notin> (\<lambda>p. sb_owner (snd p)) ` set (sm_live (refill t m))"
    and "sm_live (refill t m) = sm_live m"
    and "\<And>p. p \<in> set (sm_live m) \<Longrightarrow> buffer_bytes (refill t m) (snd p) = buffer_bytes m (snd p)"
proof -
  obtain i m1 where pop: "manager_Pop m = (i, m1)" by fastforce
  note ok = manager_Pop_ok [OF inv pop]
  let ?c = "chunk_Reset (sm_chunks m1 i)"
  let ?m1 = "set_chunk i ?c m1"
  have eq: "refill t m = assign_tls t i ?m1"
    by (simp add: refill_def pop assign_tls_def set_chunk_def PushGlobal_def manager_Push_def
        chunk_held_def Let_def split: option.splits)
  have inv1: "manager_inv ?m1"
    using ok chunk_wf_Reset by (intro set_closed_ok) (auto simp: manager_inv_def)
  show "manager_inv (refill t m)"
    unfolding eq using inv1 ok by (intro assign_tls_ok) (auto simp: chunk_Reset_def)
  have notlive: "i \<notin> (\<lambda>p. sb_owner (snd p)) ` set (sm_live m1)"
    using ok(2) held_live by blast
  show live: "sm_live (refill t m) = sm_live m" by (simp add: eq ok)
  show "\<exists>i. map_of (sm_tls (refill t m)) t = Some i \<and> ck_usedSize (sm_chunks (refill t m) i) = 0
          \<and> \<not> ck_open (sm_chunks (refill t m) i) \<and> i \<notin> (\<lambda>p. sb_owner (snd p)) ` set (sm_live (refill t m))"
    using notlive by (intro exI [of _ i]) (simp add: eq chunk_Reset_def)
  fix p assume p: "p \<in> set (sm_live m)"
  then have "sb_owner (snd p) \<noteq> i" using notlive ok by force
  with p show "buffer_bytes (refill t m) (snd p) = buffer_bytes m (snd p)"
    by (simp add: buffer_bytes_def eq ok(7) held_live)
qed

lemma drop_buffer_ok:
  assumes inv: "manager_inv m"
  shows "manager_inv (drop_buffer k m)"
proof (cases "map_of (sm_live m) k")
  case None
  then show ?thesis using inv by (simp add: drop_buffer_def)
next
  case (Some b)
  let ?m1 = "m\<lparr>sm_live := filter (\<lambda>p. fst p \<noteq> k) (sm_live m)\<rparr>"
  have held: "chunk_held m (sb_owner b)"
    using held_live [of "(k, b)" m] map_of_SomeD [OF Some] by simp
  have "live_inv ?m1"
    using inv by (auto simp: manager_inv_def live_inv_def distinct_map_filter)
  then have "manager_inv ?m1"
    using inv by (auto simp: manager_inv_def pool_inv_def tls_inv_def chunk_held_def)
  moreover have "sb_owner b < sm_next m" "sb_owner b \<notin> set (sm_pool m)"
    using held_less [OF inv held] inv held by (auto simp: manager_inv_def pool_inv_def)
  ultimately have "manager_inv (PushGlobal (sb_owner b) ?m1)"
    by (intro PushGlobal_ok) simp_all
  with Some show ?thesis by (simp add: drop_buffer_def)
qed

lemma drop_buffer_bytes: "buffer_bytes (drop_buffer k m) b = buffer_bytes m b"
  by (simp add: drop_buffer_def buffer_bytes_def split: option.splits)

end
