(* ===== verification/PacketHandler.thy ===== *)
theory PacketHandler imports PacketFraming SendBuffer begin

text \<open>
  ServerCore/PacketHandler.h and PacketHandler.cpp, GameServer/ClientPacketHandler.h and the
  protocol numbers of GameServer/Enum.pb.h and Enum.pb.cc: building an outgoing packet in a send
  buffer, the table of packet handlers, and the dispatch of an incoming packet through it.
  A message class is known only through its serialized bytes and its parser.
\<close>

section \<open>Building a packet\<close>

text \<open>
  MessageLite::SerializePartialToArray into memory at an offset of a chunk: it refuses a target
  smaller than the serialized message and otherwise writes the whole message.
\<close>

definition SerializeToArray ::
  "BYTE list \<Rightarrow> nat \<Rightarrow> nat \<Rightarrow> int32 \<Rightarrow> send_manager \<Rightarrow> (bool \<times> send_manager) result" where
  "SerializeToArray payload i off sz m =
     (let byte_size = length payload
      in if byte_size > 2147483647 then Inr (False, m)
         else if sz < int byte_size then Inr (False, m)
         else bind_result (write_chunk i off payload m) (\<lambda>m'. Inr (True, m')))"

definition MakeSendBuffer ::
  "nat \<Rightarrow> BYTE list \<Rightarrow> uint16 \<Rightarrow> send_manager \<Rightarrow> (SendBuffer \<times> send_manager) result" where
  "MakeSendBuffer t payload pktId m =
     (let dataSize = word_of_nat (length payload) :: uint16;
          packetSize = word_of_nat (unat dataSize + sizeof_PacketHeader) :: uint16
      in bind_result (manager_Open t (ucast packetSize) m) (\<lambda>(sb, m1).
           case sb of None \<Rightarrow> Inl NullPointer
           | Some sendBuffer \<Rightarrow>
               let i = sb_owner sendBuffer; off = sb_buffer sendBuffer
               in bind_result (write_chunk i off (header_bytes \<lparr>ph_size = packetSize, ph_id = pktId\<rparr>) m1) (\<lambda>m2.
                  bind_result (SerializeToArray payload i (off + sizeof_PacketHeader) (uint dataSize) m2) (\<lambda>(ok, m3).
                  ASSERT_CRASH ok
                    (bind_result (SendBuffer_Close sendBuffer (sm_chunks m3 i) (ucast packetSize)) (\<lambda>(b, c).
                       Inr (b, set_chunk i c m3)))))))"

subsection \<open>Opening a buffer\<close>

lemma manager_Open_ok:
  assumes inv: "manager_inv m" and sz: "unat sz \<le> SEND_BUFFER_CHUNK_SIZE"
  obtains i m2 where "manager_inv m2" "map_of (sm_tls m2) t = Some i" "sm_live m2 = sm_live m"
    "unat (ck_usedSize (sm_chunks m2 i)) + unat sz \<le> SEND_BUFFER_CHUNK_SIZE"
    "\<And>p. p \<in> set (sm_live m) \<Longrightarrow> buffer_bytes m2 (snd p) = buffer_bytes m (snd p)"
    "manager_Open t sz m =
      Inr (Some \<lparr>sb_owner = i, sb_buffer = unat (ck_usedSize (sm_chunks m2 i)), sb_allocSize = sz, sb_writeSize = 0\<rparr>,
           set_chunk i ((sm_chunks m2 i)\<lparr>ck_open := True\<rparr>) m2)"
proof -
  define m1 where "m1 = (if map_of (sm_tls m) t = None then refill t m else m)"
  have m1: "manager_inv m1" "sm_live m1 = sm_live m"
    "\<And>p. p \<in> set (sm_live m) \<Longrightarrow> buffer_bytes m1 (snd p) = buffer_bytes m (snd p)"
    using refill_ok [OF inv, where t = t] inv by (auto simp: m1_def)
  obtain i where i: "map_of (sm_tls m1) t = Some i"
    using refill_ok(2) [OF inv, where t = t] by (cases "map_of (sm_tls m) t") (auto simp: m1_def)
  then have closed: "\<not> ck_open (sm_chunks m1 i)"
    using m1(1) map_of_SomeD [OF i] by (auto simp: manager_inv_def tls_inv_def)
  define m2 where "m2 = (if chunk_FreeSize (sm_chunks m1 i) < sz then refill t m1 else m1)"
  note re = refill_ok [OF m1(1), where t = t]
  have m2: "manager_inv m2" "sm_live m2 = sm_live m"
    "\<And>p. p \<in> set (sm_live m) \<Longrightarrow> buffer_bytes m2 (snd p) = buffer_bytes m (snd p)"
    using re m1 by (auto simp: m2_def)
  have "\<exists>j. map_of (sm_tls m2) t = Some j \<and> \<not> ck_open (sm_chunks m2 j)
      \<and> (chunk_FreeSize (sm_chunks m1 i) < sz \<longrightarrow> ck_usedSize (sm_chunks m2 j) = 0)
      \<and> (\<not> chunk_FreeSize (sm_chunks m1 i) < sz \<longrightarrow> j = i \<and> m2 = m1)"
    using re(2) i closed by (auto simp: m2_def)
  then obtain j where j: "map_of (sm_tls m2) t = Some j" "\<not> ck_open (sm_chunks m2 j)"
    "chunk_FreeSize (sm_chunks m1 i) < sz \<Longrightarrow> ck_usedSize (sm_chunks m2 j) = 0"
    "\<not> chunk_FreeSize (sm_chunks m1 i) < sz \<Longrightarrow> j = i \<and> m2 = m1"
    by blast
  have wf: "chunk_wf (sm_chunks m2 j)" "chunk_wf (sm_chunks m1 i)"
    using m1(1) m2(1) by (simp_all add: manager_inv_def)
  have used: "unat (ck_usedSize (sm_chunks m2 j)) + unat sz \<le> SEND_BUFFER_CHUNK_SIZE"
  proof (cases "chunk_FreeSize (sm_chunks m1 i) < sz")
    case True
    then show ?thesis using j(3) sz by simp
  next
    case False
    then have "unat sz \<le> SEND_BUFFER_CHUNK_SIZE - unat (ck_usedSize (sm_chunks m1 i))"
      using unat_chunk_FreeSize [OF wf(2)] by (simp add: word_less_nat_alt)
    then show ?thesis using j(4) [OF False] wf(2) unfolding chunk_wf_def by auto
  qed
  then have "\<not> sz > chunk_FreeSize (sm_chunks m2 j)"
    using unat_chunk_FreeSize [OF wf(1)] by (simp add: word_less_nat_alt)
  then have "manager_Open t sz m =
      Inr (Some \<lparr>sb_owner = j, sb_buffer = unat (ck_usedSize (sm_chunks m2 j)), sb_allocSize = sz, sb_writeSize = 0\<rparr>,
           set_chunk j ((sm_chunks m2 j)\<lparr>ck_open := True\<rparr>) m2)"
    using i closed j sz by (simp add: manager_Open_def current_chunk_def m1_def [symmetric] m2_def [symmetric]
        chunk_Open_def chunk_Buffer_def)
  with m2 j used show ?thesis using that by blast
qed

lemma manager_Open_too_big:
  assumes inv: "manager_inv m" and sz: "SEND_BUFFER_CHUNK_SIZE < unat sz"
  shows "manager_Open t sz m = Inl (Crash ''ASSERT_CRASH'')"
proof -
  define m1 where "m1 = (if map_of (sm_tls m) t = None then refill t m else m)"
  have m1: "manager_inv m1" using refill_ok(1) [OF inv] inv by (simp add: m1_def)
  obtain i where i: "map_of (sm_tls m1) t = Some i"
    using refill_ok(2) [OF inv, where t = t] by (cases "map_of (sm_tls m) t") (auto simp: m1_def)
  then have closed: "\<not> ck_open (sm_chunks m1 i)"
    using m1 map_of_SomeD [OF i] by (auto simp: manager_inv_def tls_inv_def)
  obtain j where "map_of (sm_tls (refill t m1)) t = Some j"
    using refill_ok(2) [OF m1] by blast
  with i closed sz show ?thesis
    by (simp add: manager_Open_def current_chunk_def m1_def [symmetric] chunk_Open_def)
qed

subsection \<open>The packet that comes out\<close>

lemma unat_packetSize:
  assumes "n \<le> 65531"
  shows "unat (word_of_nat (unat (word_of_nat n :: uint16) + 4) :: uint16) = n + 4"
  using assms by (simp only: unat_of_nat_16)

lemma set_chunk_twice [simp]: "set_chunk i c (set_chunk i d m) = set_chunk i c m"
  by (simp add: set_chunk_def)

lemma write_bytes_append:
  "off + length xs + length ys \<le> length buf \<Longrightarrow>
    write_bytes (write_bytes buf off xs) (off + length xs) ys = write_bytes buf off (xs @ ys)"
  by (simp add: write_bytes_def add.assoc add.commute add.left_commute)

text \<open>The chunk after a packet was built in it, and the manager holding the new buffer.\<close>

lemma closed_packet_ok:
  assumes inv: "manager_inv m2" and tls: "map_of (sm_tls m2) t = Some i"
    and fit: "unat (ck_usedSize (sm_chunks m2 i)) + n \<le> SEND_BUFFER_CHUNK_SIZE"
    and n: "unat sz = n" "length bs = n" and k: "k \<notin> set (map fst (sm_live m2))"
    and b: "b = \<lparr>sb_owner = i, sb_buffer = unat (ck_usedSize (sm_chunks m2 i)), sb_allocSize = sz, sb_writeSize = sz\<rparr>"
    and c: "c = (sm_chunks m2 i)\<lparr>ck_buffer := write_bytes (ck_buffer (sm_chunks m2 i)) (sb_buffer b) bs,
        ck_open := False, ck_usedSize := ck_usedSize (sm_chunks m2 i) + sz\<rparr>"
  shows "manager_inv (hold_buffer k b (set_chunk i c m2))"
    and "buffer_bytes (set_chunk i c m2) b = bs"
    and "\<And>p. p \<in> set (sm_live m2) \<Longrightarrow> buffer_bytes (set_chunk i c m2) (snd p) = buffer_bytes m2 (snd p)"
proof -
  let ?u = "unat (ck_usedSize (sm_chunks m2 i))"
  let ?m = "hold_buffer k b (set_chunk i c m2)"
  have wf: "chunk_wf (sm_chunks m2 i)" using inv by (simp add: manager_inv_def)
  have used: "unat (ck_usedSize (sm_chunks m2 i) + sz) = ?u + n"
    using fit n by (simp add: unat_word_ariths SEND_BUFFER_CHUNK_SIZE_def)
  have wfc: "chunk_wf c" using wf fit n used by (simp add: chunk_wf_def c b)
  have held: "chunk_held m2 i" using held_tls [OF tls] .
  then have i: "i < sm_next m2" using held_less [OF inv] by simp
  have old: "buffer_end (snd p) \<le> ?u" if "p \<in> set (sm_live m2)" "sb_owner (snd p) = i" for p
    using that inv by (auto simp: manager_inv_def live_inv_def)
  have "tls_inv ?m"
    using inv by (auto simp: manager_inv_def tls_inv_def hold_buffer_def c)
  moreover have "pool_inv ?m"
    using inv held by (auto simp: manager_inv_def pool_inv_def chunk_held_def hold_buffer_def b)
  moreover have "live_inv ?m"
  proof -
    have ends: "buffer_end b = ?u + n" "sb_owner b = i" "sb_buffer b = ?u"
      by (simp_all add: b buffer_end_def n)
    have new: "disjoint_buffers b (snd p)" "disjoint_buffers (snd p) b" if "p \<in> set (sm_live m2)" for p
      using old [OF that] ends by (auto simp: disjoint_buffers_def)
    have "buffer_end (snd p) \<le> unat (ck_usedSize (sm_chunks ?m (sb_owner (snd p))))"
      if "p \<in> set (sm_live m2)" for p
      using that old [OF that] inv used
      by (cases "sb_owner (snd p) = i") (auto simp: hold_buffer_def c manager_inv_def live_inv_def)
    moreover have "buffer_end b \<le> unat (ck_usedSize (sm_chunks ?m i))"
      using ends used by (simp add: hold_buffer_def c)
    ultimately show ?thesis
      using inv i k new ends by (auto simp: manager_inv_def live_inv_def hold_buffer_def)
  qed
  ultimately show "manager_inv ?m"
    using inv wfc by (simp add: manager_inv_def hold_buffer_def)
  show "buffer_bytes (set_chunk i c m2) b = bs"
    using fit n wf read_write_same [of ?u bs "ck_buffer (sm_chunks m2 i)"]
    by (simp add: buffer_bytes_def c b chunk_wf_def)
  fix p assume p: "p \<in> set (sm_live m2)"
  show "buffer_bytes (set_chunk i c m2) (snd p) = buffer_bytes m2 (snd p)"
  proof (cases "sb_owner (snd p) = i")
    case True
    have "read_bytes (write_bytes (ck_buffer (sm_chunks m2 i)) ?u bs) (sb_buffer (snd p)) (unat (sb_writeSize (snd p)))
        = read_bytes (ck_buffer (sm_chunks m2 i)) (sb_buffer (snd p)) (unat (sb_writeSize (snd p)))"
      using old [OF p True] wf by (intro read_write_before) (simp_all add: buffer_end_def chunk_wf_def)
    with True show ?thesis by (simp add: buffer_bytes_def c b)
  qed (simp add: buffer_bytes_def)
qed

definition packet_bytes :: "BYTE list \<Rightarrow> uint16 \<Rightarrow> BYTE list" where
  "packet_bytes payload pktId =
     header_bytes \<lparr>ph_size = word_of_nat (length payload + sizeof_PacketHeader), ph_id = pktId\<rparr> @ payload"

text \<open>MakeSendBuffer after a successful Open, with the 16-bit sizes named.\<close>

lemma MakeSendBuffer_opened:
  assumes "ds = (word_of_nat (length payload) :: uint16)" and "w = (word_of_nat (unat ds + 4) :: uint16)"
    and "manager_Open t (ucast w) m = Inr (Some sb, m1)"
  shows "MakeSendBuffer t payload pktId m =
    bind_result (write_chunk (sb_owner sb) (sb_buffer sb) (header_bytes \<lparr>ph_size = w, ph_id = pktId\<rparr>) m1) (\<lambda>m2.
    bind_result (SerializeToArray payload (sb_owner sb) (sb_buffer sb + 4) (uint ds) m2) (\<lambda>(ok, m3).
    ASSERT_CRASH ok
      (bind_result (SendBuffer_Close sb (sm_chunks m3 (sb_owner sb)) (ucast w)) (\<lambda>(b, c).
         Inr (b, set_chunk (sb_owner sb) c m3)))))"
  unfolding MakeSendBuffer_def Let_def sizeof_PacketHeader_def assms(1,2) [symmetric] assms(3)
  by (simp only: bind_result.simps prod.case option.case)

lemma MakeSendBuffer_ok:
  assumes inv: "manager_inv m" and n: "length payload + sizeof_PacketHeader \<le> SEND_BUFFER_CHUNK_SIZE"
    and k: "k \<notin> set (map fst (sm_live m))"
  shows "\<exists>b m'. MakeSendBuffer t payload pktId m = Inr (b, m') \<and> manager_inv (hold_buffer k b m')
    \<and> buffer_bytes m' b = packet_bytes payload pktId
    \<and> (\<forall>p \<in> set (sm_live m). buffer_bytes m' (snd p) = buffer_bytes m (snd p))
    \<and> sm_live m' = sm_live m"
proof -
  let ?n = "length payload"
  define ds where "ds = (word_of_nat ?n :: uint16)"
  define w where "w = (word_of_nat (unat ds + 4) :: uint16)"
  let ?sz = "ucast w :: uint32"
  have n': "?n + 4 \<le> 12000" using n by (simp add: sizeof_PacketHeader_def SEND_BUFFER_CHUNK_SIZE_def)
  have ds: "unat ds = ?n" "uint ds = int ?n"
    using n' unfolding ds_def by (simp_all add: unat_of_nat_16 uint_of_nat_16)
  have w: "unat w = ?n + 4" using n' unfolding w_def ds by (subst unat_of_nat_16) simp_all
  have "unat ?sz \<le> SEND_BUFFER_CHUNK_SIZE" using n' by (simp add: w SEND_BUFFER_CHUNK_SIZE_def)
  from manager_Open_ok [OF inv this, of t] obtain i m2 where
    m2: "manager_inv m2" "map_of (sm_tls m2) t = Some i" "sm_live m2 = sm_live m"
    "unat (ck_usedSize (sm_chunks m2 i)) + unat ?sz \<le> SEND_BUFFER_CHUNK_SIZE"
    "\<And>p. p \<in> set (sm_live m) \<Longrightarrow> buffer_bytes m2 (snd p) = buffer_bytes m (snd p)"
    and op: "manager_Open t ?sz m =
      Inr (Some \<lparr>sb_owner = i, sb_buffer = unat (ck_usedSize (sm_chunks m2 i)), sb_allocSize = ?sz, sb_writeSize = 0\<rparr>,
           set_chunk i ((sm_chunks m2 i)\<lparr>ck_open := True\<rparr>) m2)" by blast
  let ?u = "unat (ck_usedSize (sm_chunks m2 i))"
  define h where "h = header_bytes \<lparr>ph_size = w, ph_id = pktId\<rparr>"
  have h: "length h = 4" by (simp add: h_def sizeof_PacketHeader_def)
  have len: "length (ck_buffer (sm_chunks m2 i)) = 12000"
    using m2(1) by (simp add: manager_inv_def chunk_wf_def SEND_BUFFER_CHUNK_SIZE_def)
  have fit: "?u + (?n + 4) \<le> 12000" using m2(4) by (simp add: w SEND_BUFFER_CHUNK_SIZE_def)
  define b where "b = \<lparr>sb_owner = i, sb_buffer = ?u, sb_allocSize = ?sz, sb_writeSize = ?sz\<rparr>"
  define c where "c = (sm_chunks m2 i)\<lparr>ck_buffer := write_bytes (ck_buffer (sm_chunks m2 i)) ?u (h @ payload),
        ck_open := False, ck_usedSize := ck_usedSize (sm_chunks m2 i) + ?sz\<rparr>"
  have wb: "write_bytes (write_bytes (ck_buffer (sm_chunks m2 i)) ?u h) (?u + 4) payload
      = write_bytes (ck_buffer (sm_chunks m2 i)) ?u (h @ payload)"
    using write_bytes_append [of ?u h payload "ck_buffer (sm_chunks m2 i)"] h len fit by simp
  have run: "MakeSendBuffer t payload pktId m = Inr (b, set_chunk i c m2)"
    unfolding MakeSendBuffer_opened [OF ds_def w_def op]
    using fit h len n' wb
    by (simp add: write_chunk_def SerializeToArray_def SendBuffer_Close_def chunk_Close_def b_def c_def ds
        flip: h_def)
  have k2: "k \<notin> set (map fst (sm_live m2))" using k m2(3) by simp
  have hp: "length (h @ payload) = unat ?sz" using h by (simp add: w)
  note pk = closed_packet_ok [OF m2(1,2) _ refl hp k2, of b c]
  have "manager_inv (hold_buffer k b (set_chunk i c m2))"
    "buffer_bytes (set_chunk i c m2) b = h @ payload"
    "\<And>p. p \<in> set (sm_live m2) \<Longrightarrow> buffer_bytes (set_chunk i c m2) (snd p) = buffer_bytes m2 (snd p)"
    using pk m2(4) by (auto simp: b_def c_def)
  moreover have "h @ payload = packet_bytes payload pktId"
    by (simp only: packet_bytes_def h_def w_def ds sizeof_PacketHeader_def)
  ultimately show ?thesis
    using run m2(3,5) by (intro exI [of _ b] exI [of _ "set_chunk i c m2"]) simp
qed

lemma MakeSendBuffer_too_big:
  assumes inv: "manager_inv m" and "SEND_BUFFER_CHUNK_SIZE < length payload + 4" "length payload \<le> 65531"
  shows "MakeSendBuffer t payload pktId m = Inl (Crash ''ASSERT_CRASH'')"
proof -
  let ?w = "word_of_nat (unat (word_of_nat (length payload) :: uint16) + 4) :: uint16"
  have "unat (ucast ?w :: uint32) = length payload + 4"
    using unat_packetSize [OF assms(3)] by simp
  then have "manager_Open t (ucast ?w) m = Inl (Crash ''ASSERT_CRASH'')"
    using assms by (intro manager_Open_too_big) simp_all
  then show ?thesis by (simp add: MakeSendBuffer_def Let_def sizeof_PacketHeader_def)
qed

text \<open>
  From 65532 bytes on, the 16-bit packet size wraps: the buffer that is opened has 0 to 3 bytes,
  and the whole message is still written behind its header.
\<close>

lemma MakeSendBuffer_wraps:
  assumes inv: "manager_inv m" and n: "65532 \<le> length payload" "length payload \<le> 65535"
  shows "MakeSendBuffer t payload pktId m = Inl OutOfBounds"
proof -
  let ?n = "length payload"
  define ds where "ds = (word_of_nat ?n :: uint16)"
  define w where "w = (word_of_nat (unat ds + 4) :: uint16)"
  have ds: "unat ds = ?n" "uint ds = int ?n"
    using n unfolding ds_def by (simp_all add: unat_of_nat_16 uint_of_nat_16)
  have "unat w = (?n + 4) mod 65536"
    unfolding w_def ds by (simp only: unat_of_nat take_bit_eq_mod) simp
  moreover have "(?n + 4) mod 65536 \<le> 3" using n by (subst le_mod_geq) simp_all
  ultimately have "unat (ucast w :: uint32) \<le> SEND_BUFFER_CHUNK_SIZE"
    by (simp add: SEND_BUFFER_CHUNK_SIZE_def)
  from manager_Open_ok [OF inv this, of t] obtain i m2 where m2: "manager_inv m2"
    and op: "manager_Open t (ucast w) m =
      Inr (Some \<lparr>sb_owner = i, sb_buffer = unat (ck_usedSize (sm_chunks m2 i)), sb_allocSize = ucast w, sb_writeSize = 0\<rparr>,
           set_chunk i ((sm_chunks m2 i)\<lparr>ck_open := True\<rparr>) m2)" by metis
  let ?m1 = "set_chunk i ((sm_chunks m2 i)\<lparr>ck_open := True\<rparr>) m2" and ?u = "unat (ck_usedSize (sm_chunks m2 i))"
  let ?hd = "header_bytes \<lparr>ph_size = w, ph_id = pktId\<rparr>"
  have len: "length (ck_buffer (sm_chunks m2 i)) = 12000"
    using m2 by (simp add: manager_inv_def chunk_wf_def SEND_BUFFER_CHUNK_SIZE_def)
  have big: "write_chunk i (?u + 4) payload m3 = Inl OutOfBounds"
    if "length (ck_buffer (sm_chunks m3 i)) = 12000" for m3
    using that n by (simp add: write_chunk_def Let_def)
  show ?thesis
  proof (cases "write_chunk i ?u ?hd ?m1")
    case (Inl e)
    then have "e = OutOfBounds" by (auto simp: write_chunk_def Let_def split: if_splits)
    with Inl show ?thesis unfolding MakeSendBuffer_opened [OF ds_def w_def op] by simp
  next
    case (Inr m3)
    then have "length (ck_buffer (sm_chunks m3 i)) = 12000"
      using len by (auto simp: write_chunk_def Let_def split: if_splits)
    from big [OF this] Inr n show ?thesis
      unfolding MakeSendBuffer_opened [OF ds_def w_def op] by (simp add: SerializeToArray_def ds)
  qed
qed

text \<open>From 65536 bytes on, SerializeToArray refuses the truncated size: there is never a packet.\<close>

lemma MakeSendBuffer_huge:
  assumes "65536 \<le> length payload"
  shows "\<exists>e. MakeSendBuffer t payload pktId m = Inl e"
proof -
  let ?ds = "word_of_nat (length payload) :: uint16"
  have "uint ?ds < 65536" using unat_less_16 [of ?ds] by (metis of_nat_less_iff of_nat_numeral of_nat_unat)
  then have "uint ?ds < int (length payload)" using assms by linarith
  then have "SerializeToArray payload i off (uint ?ds) m' = Inr (False, m')" for i off m'
    by (simp add: SerializeToArray_def Let_def)
  then have "MakeSendBuffer t payload pktId m \<noteq> Inr r" for r
    by (auto simp: MakeSendBuffer_def bind_result_Inr_iff ASSERT_CRASH_Inr_iff Let_def split: option.splits)
  then show ?thesis by (cases "MakeSendBuffer t payload pktId m") auto
qed

lemma MakeSendBuffer_Inr_iff:
  assumes "manager_inv m"
  shows "(\<exists>r. MakeSendBuffer t payload pktId m = Inr r) \<longleftrightarrow> length payload + sizeof_PacketHeader \<le> SEND_BUFFER_CHUNK_SIZE"
proof -
  obtain k where "k \<notin> set (map fst (sm_live m))" using ex_new_if_finite [OF infinite_UNIV_nat, of "set (map fst (sm_live m))"] by auto
  then have ok: "length payload + sizeof_PacketHeader \<le> SEND_BUFFER_CHUNK_SIZE \<Longrightarrow> \<exists>r. MakeSendBuffer t payload pktId m = Inr r"
    using MakeSendBuffer_ok [OF assms, of payload k t pktId] by blast
  have "\<exists>e. MakeSendBuffer t payload pktId m = Inl e" if "SEND_BUFFER_CHUNK_SIZE < length payload + 4"
    using that MakeSendBuffer_too_big [OF assms that] MakeSendBuffer_wraps [OF assms, of payload t pktId]
      MakeSendBuffer_huge [of payload t pktId m]
    by (cases "length payload \<le> 65531"; cases "length payload \<le> 65535") auto
  then show ?thesis using ok by (force simp: sizeof_PacketHeader_def)
qed

section \<open>Packets being built and released\<close>

text \<open>Any thread builds a packet and holds it under a fresh number, or a holder lets one go.\<close>

inductive packet_step :: "send_manager \<Rightarrow> send_manager \<Rightarrow> bool" where
  build: "MakeSendBuffer t payload pktId m = Inr (b, m') \<Longrightarrow> k \<notin> set (map fst (sm_live m))
    \<Longrightarrow> packet_step m (hold_buffer k b m')"
| release: "packet_step m (drop_buffer k m)"

lemma packet_step_inv: "packet_step m m' \<Longrightarrow> manager_inv m \<Longrightarrow> manager_inv m'"
proof (induction rule: packet_step.induct)
  case (build t payload pktId m b m' k)
  then have "length payload + sizeof_PacketHeader \<le> SEND_BUFFER_CHUNK_SIZE"
    using MakeSendBuffer_Inr_iff by blast
  from MakeSendBuffer_ok [OF build.prems this build.hyps(2), of t pktId] build.hyps(1) show ?case by auto
qed (simp add: drop_buffer_ok)

lemma packets_inv: "reaches packet_step new_send_manager m \<Longrightarrow> manager_inv m"
  using reaches_invariant [of packet_step new_send_manager m manager_inv] manager_inv_new packet_step_inv by blast

text \<open>What is built is what the receiving loop cuts off as one packet.\<close>

lemma well_framed_packet:
  assumes "length payload \<le> 65531"
  shows "well_framed (packet_bytes payload pktId)"
  using assms unat_packetSize [OF assms]
  by (simp add: well_framed_def frame_size_def packet_bytes_def read_header_bytes sizeof_PacketHeader_def)

end
