(* ===== verification/HandlerTable.thy ===== *)
theory HandlerTable imports PacketHandler begin

text \<open>
  The dispatch half of ServerCore/PacketHandler.h and PacketHandler.cpp, the registration template
  of GameServer/ClientPacketHandler.h and the protocol enums of GameServer/Enum.pb.h. A handler is
  a function of the server state; \<open>view_error\<close> is the error log call of Handle_INVALID. A packet is
  the byte array a handler is given with its length: a read past it is a fault.
\<close>

section \<open>Protocol numbers\<close>

datatype EPacketProtocol =
    PACKET_PROTOCOL_START
  | CS_ChatRequest
  | SC_ChatResponse
  | CS_CircularSectorSkillRequest
  | SC_CircularSectorSkillResponse
  | CS_BigTestRequest
  | SC_BigTestResponse
  | PACKET_PROTOCOL_END

primrec EPacketProtocol_value :: "EPacketProtocol \<Rightarrow> int" where
  "EPacketProtocol_value PACKET_PROTOCOL_START = 0"
| "EPacketProtocol_value CS_ChatRequest = 1"
| "EPacketProtocol_value SC_ChatResponse = 2"
| "EPacketProtocol_value CS_CircularSectorSkillRequest = 3"
| "EPacketProtocol_value SC_CircularSectorSkillResponse = 4"
| "EPacketProtocol_value CS_BigTestRequest = 5"
| "EPacketProtocol_value SC_BigTestResponse = 6"
| "EPacketProtocol_value PACKET_PROTOCOL_END = 65535"

definition EPacketProtocol_IsValid :: "int \<Rightarrow> bool" where
  "EPacketProtocol_IsValid value \<longleftrightarrow> value \<in> {0, 1, 2, 3, 4, 5, 6, 65535}"

text \<open>The names of the enum's descriptor, in its order.\<close>

definition EPacketProtocol_names :: "(string \<times> EPacketProtocol) list" where
  "EPacketProtocol_names =
     [(''PACKET_PROTOCOL_START'', PACKET_PROTOCOL_START),
      (''CS_ChatRequest'', CS_ChatRequest),
      (''SC_ChatResponse'', SC_ChatResponse),
      (''CS_CircularSectorSkillRequest'', CS_CircularSectorSkillRequest),
      (''SC_CircularSectorSkillResponse'', SC_CircularSectorSkillResponse),
      (''CS_BigTestRequest'', CS_BigTestRequest),
      (''SC_BigTestResponse'', SC_BigTestResponse),
      (''PACKET_PROTOCOL_END'', PACKET_PROTOCOL_END)]"

definition EPacketProtocol_Parse :: "string \<Rightarrow> EPacketProtocol option" where
  "EPacketProtocol_Parse name = map_of EPacketProtocol_names name"

datatype EDBProtocol =
    DB_PROTOCOL_START
  | SGDB_ServerStart
  | SGDB_ChatRequest
  | GDBS_ChatResponse
  | DB_PROTOCOL_END

primrec EDBProtocol_value :: "EDBProtocol \<Rightarrow> int" where
  "EDBProtocol_value DB_PROTOCOL_START = 0"
| "EDBProtocol_value SGDB_ServerStart = 1"
| "EDBProtocol_value SGDB_ChatRequest = 2"
| "EDBProtocol_value GDBS_ChatResponse = 3"
| "EDBProtocol_value DB_PROTOCOL_END = 65535"

definition EDBProtocol_IsValid :: "int \<Rightarrow> bool" where
  "EDBProtocol_IsValid value \<longleftrightarrow> value \<in> {0, 1, 2, 3, 65535}"

lemma EPacketProtocol_IsValid_value: "EPacketProtocol_IsValid (EPacketProtocol_value p)"
  by (cases p) (simp_all add: EPacketProtocol_IsValid_def)

lemma EPacketProtocol_value_inj: "EPacketProtocol_value p = EPacketProtocol_value q \<longleftrightarrow> p = q"
  by (cases p; cases q) simp_all

lemma EPacketProtocol_IsValid_iff: "EPacketProtocol_IsValid v \<longleftrightarrow> (\<exists>p. EPacketProtocol_value p = v)"
proof
  assume "EPacketProtocol_IsValid v"
  then have "v = 0 \<or> v = 1 \<or> v = 2 \<or> v = 3 \<or> v = 4 \<or> v = 5 \<or> v = 6 \<or> v = 65535"
    by (simp add: EPacketProtocol_IsValid_def)
  then show "\<exists>p. EPacketProtocol_value p = v"
    by (elim disjE) (meson EPacketProtocol_value.simps)+
qed (auto simp: EPacketProtocol_IsValid_value)

lemma EDBProtocol_IsValid_iff: "EDBProtocol_IsValid v \<longleftrightarrow> (\<exists>p. EDBProtocol_value p = v)"
proof
  assume "EDBProtocol_IsValid v"
  then have "v = 0 \<or> v = 1 \<or> v = 2 \<or> v = 3 \<or> v = 65535"
    by (simp add: EDBProtocol_IsValid_def)
  then show "\<exists>p. EDBProtocol_value p = v"
    by (elim disjE) (meson EDBProtocol_value.simps)+
next
  assume "\<exists>p. EDBProtocol_value p = v"
  then obtain p where "EDBProtocol_value p = v" by blast
  then show "EDBProtocol_IsValid v" by (cases p) (auto simp: EDBProtocol_IsValid_def)
qed

section \<open>The handler table\<close>

type_synonym 's PacketHandlerFunc = "'s \<Rightarrow> BYTE list \<Rightarrow> int32 \<Rightarrow> (bool \<times> 's) result"

definition UINT16_MAX :: nat where
  "UINT16_MAX = 65535"

text \<open>The array has UINT16_MAX entries; an entry never assigned is an empty std::function.\<close>

record 's PacketHandler_state =
  packetHandler :: "nat \<Rightarrow> 's PacketHandlerFunc option"
  useProtocol :: "uint16 set"

definition Handle_INVALID :: "(uint16 \<Rightarrow> 's \<Rightarrow> 's) \<Rightarrow> 's PacketHandlerFunc" where
  "Handle_INVALID view_error session buffer len =
     (if length buffer < sizeof_PacketHeader then Inl (UndefinedBehaviour ''header beyond the packet'')
      else Inr (False, view_error (ph_id (read_header buffer 0)) session))"

definition PacketHandler_Init ::
  "bool \<Rightarrow> (uint16 \<Rightarrow> 's \<Rightarrow> 's) \<Rightarrow> 's PacketHandler_state \<Rightarrow> 's PacketHandler_state" where
  "PacketHandler_Init dev_test view_error h =
     h\<lparr>useProtocol := (if dev_test then {} else useProtocol h),
       packetHandler := (\<lambda>i. if i < UINT16_MAX then Some (Handle_INVALID view_error) else packetHandler h i)\<rparr>"

definition HandlePacket :: "'s PacketHandler_state \<Rightarrow> 's PacketHandlerFunc" where
  "HandlePacket h session buffer len =
     (if length buffer < sizeof_PacketHeader then Inl (UndefinedBehaviour ''header beyond the packet'')
      else let i = unat (ph_id (read_header buffer 0))
           in if UINT16_MAX \<le> i then Inl OutOfBounds
              else case packetHandler h i of
                     None \<Rightarrow> Inl (CppException ''bad_function_call'')
                   | Some fn \<Rightarrow> fn session buffer len)"

text \<open>The \<open>fn == nullptr\<close> test sees an empty std::function: None.\<close>

definition RegisterHandler ::
  "bool \<Rightarrow> uint16 \<Rightarrow> 's PacketHandlerFunc option \<Rightarrow> 's PacketHandler_state
    \<Rightarrow> (bool \<times> 's PacketHandler_state) result" where
  "RegisterHandler dev_test protocol fn h =
     (case fn of None \<Rightarrow> Inr (False, h)
      | Some f \<Rightarrow>
          if dev_test \<and> protocol \<in> useProtocol h then Inr (False, h)
          else let h1 = (if dev_test then h\<lparr>useProtocol := insert protocol (useProtocol h)\<rparr> else h)
               in if UINT16_MAX \<le> unat protocol then Inl OutOfBounds
                  else Inr (True, h1\<lparr>packetHandler := (packetHandler h1)(unat protocol := Some f)\<rparr>))"

text \<open>
  ParseFromArray(buffer + sizeof(PacketHeader), len - sizeof(PacketHeader)): the length is
  computed in size_t and converted to int; a negative one reaches string_view as a huge size.
\<close>

definition ParseFromArray :: "(BYTE list \<Rightarrow> 'm option) \<Rightarrow> BYTE list \<Rightarrow> nat \<Rightarrow> int32 \<Rightarrow> 'm option result" where
  "ParseFromArray parse buffer off sz =
     (if sz < 0 \<or> int (length buffer) < int off + sz then Inl OutOfBounds
      else Inr (parse (read_bytes buffer off (nat sz))))"

definition message_handler ::
  "(BYTE list \<Rightarrow> 'm option) \<Rightarrow> ('s \<Rightarrow> 'm \<Rightarrow> (bool \<times> 's) result) \<Rightarrow> 's PacketHandlerFunc" where
  "message_handler parse handler session buffer len =
     bind_result (ParseFromArray parse buffer sizeof_PacketHeader (to_int32 (len - int sizeof_PacketHeader)))
       (\<lambda>r. case r of None \<Rightarrow> Inr (False, session) | Some pkt \<Rightarrow> handler session pkt)"

text \<open>ClientPacketHandler::_RegisterHandler: the protocol number is looked up by the class name.\<close>

definition insert_underscore :: "string \<Rightarrow> string result" where
  "insert_underscore name =
     (if length name < 2 then Inl (CppException ''out_of_range'')
      else Inr (take 2 name @ ''_'' @ drop 2 name))"

definition RegisterHandler_by_name ::
  "bool \<Rightarrow> string \<Rightarrow> (BYTE list \<Rightarrow> 'm option) \<Rightarrow> ('s \<Rightarrow> 'm \<Rightarrow> (bool \<times> 's) result)
    \<Rightarrow> 's PacketHandler_state \<Rightarrow> (bool \<times> 's PacketHandler_state) result" where
  "RegisterHandler_by_name dev_test name parse handler h =
     bind_result (insert_underscore name) (\<lambda>packetName.
       case EPacketProtocol_Parse packetName of
         None \<Rightarrow> Inr (False, h)
       | Some protocol \<Rightarrow>
           RegisterHandler dev_test (word_of_int (EPacketProtocol_value protocol))
             (Some (message_handler parse handler)) h)"

text \<open>ClientSession::OnRecvPacket drops the handler's verdict; the packets of one receive in order.\<close>

definition OnRecvPacket :: "'s PacketHandler_state \<Rightarrow> BYTE list \<Rightarrow> 's \<Rightarrow> 's result" where
  "OnRecvPacket h buffer session =
     bind_result (HandlePacket h session buffer (int (length buffer))) (\<lambda>(ok, s). Inr s)"

primrec handle_packets :: "'s PacketHandler_state \<Rightarrow> BYTE list list \<Rightarrow> 's \<Rightarrow> 's result" where
  "handle_packets h [] session = Inr session"
| "handle_packets h (p # ps) session = bind_result (OnRecvPacket h p session) (handle_packets h ps)"

lemma handle_packets_append:
  "handle_packets h (ps @ qs) s = bind_result (handle_packets h ps s) (handle_packets h qs)"
proof (induction ps arbitrary: s)
  case (Cons p ps)
  then show ?case by (cases "OnRecvPacket h p s") simp_all
qed simp

section \<open>Registration and dispatch\<close>

lemma Init_rejects:
  assumes "4 \<le> length p" and "unat (ph_id (read_header p 0)) < UINT16_MAX"
  shows "HandlePacket (PacketHandler_Init dev view_error h) s p len
    = Inr (False, view_error (ph_id (read_header p 0)) s)"
  using assms by (simp add: HandlePacket_def PacketHandler_Init_def Handle_INVALID_def Let_def
      sizeof_PacketHeader_def)

lemma RegisterHandler_dispatch:
  assumes "RegisterHandler dev protocol (Some f) h = Inr (True, h')" and "4 \<le> length p"
  shows "ph_id (read_header p 0) = protocol \<Longrightarrow> HandlePacket h' s p len = f s p len"
    and "ph_id (read_header p 0) \<noteq> protocol \<Longrightarrow> HandlePacket h' s p len = HandlePacket h s p len"
  using assms by (auto simp: RegisterHandler_def HandlePacket_def Let_def sizeof_PacketHeader_def
      word_unat_eq_iff split: if_splits)

lemma RegisterHandler_duplicate:
  assumes "RegisterHandler True protocol (Some f) h = Inr (True, h')"
  shows "RegisterHandler True protocol (Some g) h' = Inr (False, h')"
  using assms by (auto simp: RegisterHandler_def Let_def split: if_splits)

lemma RegisterHandler_fresh:
  assumes "unat protocol < UINT16_MAX" and "protocol \<notin> useProtocol h"
  shows "\<exists>h'. RegisterHandler dev protocol (Some f) h = Inr (True, h')"
  using assms by (simp add: RegisterHandler_def Let_def)

lemma HandlePacket_id_65535:
  assumes "4 \<le> length p" and "ph_id (read_header p 0) = 65535"
  shows "HandlePacket h s p len = Inl OutOfBounds"
  using assms by (simp add: HandlePacket_def Let_def UINT16_MAX_def sizeof_PacketHeader_def)

lemma HandlePacket_short: "length p < 4 \<Longrightarrow> \<exists>e. HandlePacket h s p len = Inl e"
  by (simp add: HandlePacket_def sizeof_PacketHeader_def)

end
