(* ===== verification/Lock.thy ===== *)
theory Lock imports Prelude begin

text \<open>
  ServerCore/Lock.h and Lock.cpp: the reader-writer spin lock. The upper half of \<open>_lockFlag\<close> is
  the id of the writing thread, the lower half the number of read locks. Threads are numbered by
  \<open>nat\<close>; \<open>tid\<close> gives each its LThreadId. The step relation makes one atomic access per step; the
  depths \<open>ls_wdepth\<close> and \<open>ls_rdepth\<close> count the write and read guards a thread holds.
\<close>

section \<open>Flag arithmetic\<close>

definition ACQUIRE_TIMEOUT_TICK :: nat where "ACQUIRE_TIMEOUT_TICK = 10000"

definition MAX_SPIN_COUNT :: nat where "MAX_SPIN_COUNT = 5000"

definition WRITE_THREAD_MASK :: uint32 where "WRITE_THREAD_MASK = 0xFFFF0000"

definition READ_COUNT_MASK :: uint32 where "READ_COUNT_MASK = 0x0000FFFF"

definition EMPTY_FLAG :: uint32 where "EMPTY_FLAG = 0"

text \<open>\<open>(_lockFlag.load() & WRITE_THREAD_MASK) >> 16\<close>, \<open>(LThreadId << 16) & WRITE_THREAD_MASK\<close>
  and \<open>_lockFlag.load() & READ_COUNT_MASK\<close>.\<close>

definition lock_thread_id :: "uint32 \<Rightarrow> uint32" where
  "lock_thread_id flag = drop_bit 16 (flag AND WRITE_THREAD_MASK)"

definition desired_flag :: "uint32 \<Rightarrow> uint32" where
  "desired_flag threadId = push_bit 16 threadId AND WRITE_THREAD_MASK"

definition read_count :: "uint32 \<Rightarrow> uint32" where
  "read_count flag = flag AND READ_COUNT_MASK"

lemma read_count_take: "read_count f = take_bit 16 f"
proof -
  have "(0x0000FFFF :: uint32) = mask 16" by (simp add: mask_eq_exp_minus_1)
  then show ?thesis by (simp add: read_count_def READ_COUNT_MASK_def take_bit_eq_mask)
qed

lemma unat_read_count: "unat (read_count f) = unat f mod 65536"
  by (simp add: read_count_take take_bit_eq_mod unat_mod_distrib)

lemma lock_thread_id_drop: "lock_thread_id f = drop_bit 16 f"
proof -
  have "drop_bit 16 (0xFFFF0000 :: uint32) = mask 16"
    by (simp add: mask_eq_exp_minus_1)
  then have "lock_thread_id f = take_bit 16 (drop_bit 16 f)"
    unfolding lock_thread_id_def WRITE_THREAD_MASK_def by (simp only: drop_bit_and take_bit_eq_mask)
  also have "\<dots> = drop_bit 16 (take_bit LENGTH(32) f)"
    by (simp only: take_bit_drop_bit) simp
  finally show ?thesis by (simp only: take_bit_length_eq)
qed

lemma unat_lock_thread_id: "unat (lock_thread_id f) = unat f div 65536"
  unfolding lock_thread_id_drop by (simp only: unsigned_drop_bit_eq take_bit_length_eq) (simp add: drop_bit_eq_div take_bit_nat_eq_self unat_less_32)

lemma desired_flag_push: "desired_flag i = push_bit 16 i"
proof -
  have "(0xFFFF0000 :: uint32) = push_bit 16 (mask 16)" by (simp add: mask_eq_exp_minus_1)
  then show ?thesis
    unfolding desired_flag_def WRITE_THREAD_MASK_def
    by (auto simp: bit_eq_iff bit_and_iff bit_push_bit_iff bit_mask_iff)
qed

lemma unat_desired_flag: "unat i < 65536 \<Longrightarrow> unat (desired_flag i) = 65536 * unat i"
  by (simp add: desired_flag_push push_bit_eq_mult unat_word_ariths mult.commute)

text \<open>A flag made of a thread id and a read count gives both back.\<close>

lemma flag_parts:
  assumes "unat i < 65536" and "r < 65536"
  shows "unat (desired_flag i + word_of_nat r) = 65536 * unat i + r"
    and "lock_thread_id (desired_flag i + word_of_nat r) = i"
    and "unat (read_count (desired_flag i + word_of_nat r)) = r"
proof -
  have "unat (word_of_nat r :: uint32) = r"
    using assms(2) by (simp add: unat_of_nat take_bit_nat_eq_self)
  moreover have "65536 * unat i + r < 4294967296" using assms by simp
  ultimately show *: "unat (desired_flag i + word_of_nat r) = 65536 * unat i + r"
    using unat_desired_flag [OF assms(1)] by (simp add: unat_word_ariths)
  show "lock_thread_id (desired_flag i + word_of_nat r) = i"
    using assms(2) by (simp add: word_unat_eq_iff unat_lock_thread_id *)
  show "unat (read_count (desired_flag i + word_of_nat r)) = r"
    using assms(2) by (simp add: unat_read_count *)
qed

section \<open>Threads on one lock\<close>

text \<open>Where a thread is inside the lock's functions; tick values are what GetTickCount64 returned.\<close>

datatype lock_pc =
    Outside
  | WriteSpin nat nat
  | WriteUnlocking
  | WriteStoring
  | ReadSpin nat nat
  | ReadCas nat nat uint32
  | LockCrashed string

record lock_sys =
  ls_lockFlag :: uint32
  ls_writeCount :: uint16
  ls_pc :: "nat \<Rightarrow> lock_pc"
  ls_wdepth :: "nat \<Rightarrow> nat"
  ls_rdepth :: "nat \<Rightarrow> nat"

definition lock_init :: lock_sys where
  "lock_init = \<lparr>ls_lockFlag = EMPTY_FLAG, ls_writeCount = 0, ls_pc = (\<lambda>_. Outside),
     ls_wdepth = (\<lambda>_. 0), ls_rdepth = (\<lambda>_. 0)\<rparr>"

definition goto :: "nat \<Rightarrow> lock_pc \<Rightarrow> lock_sys \<Rightarrow> lock_sys" where
  "goto t p s = s\<lparr>ls_pc := (ls_pc s)(t := p)\<rparr>"

text \<open>The thread leaves WriteLock with \<open>_writeCount++\<close> done.\<close>

definition write_entered :: "nat \<Rightarrow> lock_sys \<Rightarrow> lock_sys" where
  "write_entered t s = goto t Outside (s\<lparr>ls_writeCount := ls_writeCount s + 1,
     ls_wdepth := (ls_wdepth s)(t := Suc (ls_wdepth s t))\<rparr>)"

definition read_entered :: "nat \<Rightarrow> lock_sys \<Rightarrow> lock_sys" where
  "read_entered t s = goto t Outside (s\<lparr>ls_lockFlag := ls_lockFlag s + 1,
     ls_rdepth := (ls_rdepth s)(t := Suc (ls_rdepth s t))\<rparr>)"

text \<open>\<open>--_writeCount\<close> and the branch on it.\<close>

definition write_left :: "nat \<Rightarrow> lock_sys \<Rightarrow> lock_sys" where
  "write_left t s =
     (let c = ls_writeCount s - 1
      in goto t (if uint c = 0 then WriteStoring else Outside)
           (s\<lparr>ls_writeCount := c, ls_wdepth := (ls_wdepth s)(t := ls_wdepth s t - 1)\<rparr>))"

definition read_left :: "nat \<Rightarrow> lock_sys \<Rightarrow> lock_sys" where
  "read_left t s =
     goto t (if read_count (ls_lockFlag s) = 0 then LockCrashed ''MULTIPLE_UNLOCK'' else Outside)
       (s\<lparr>ls_lockFlag := ls_lockFlag s - 1, ls_rdepth := (ls_rdepth s)(t := ls_rdepth s t - 1)\<rparr>)"

text \<open>
  One atomic step of a thread of \<open>ts\<close>. A guard unlocks what it locked, so the unlock functions
  are entered only by a thread that holds a guard of that kind.
\<close>

inductive lock_step :: "(nat \<Rightarrow> uint32) \<Rightarrow> nat set \<Rightarrow> lock_sys \<Rightarrow> lock_sys \<Rightarrow> bool" for tid ts where
  write_reenter: "t \<in> ts \<Longrightarrow> ls_pc s t = Outside \<Longrightarrow> tid t = lock_thread_id (ls_lockFlag s)
    \<Longrightarrow> lock_step tid ts s (write_entered t s)"
| write_spin: "t \<in> ts \<Longrightarrow> ls_pc s t = Outside \<Longrightarrow> tid t \<noteq> lock_thread_id (ls_lockFlag s)
    \<Longrightarrow> lock_step tid ts s (goto t (WriteSpin beginTick 0) s)"
| write_cas_ok: "t \<in> ts \<Longrightarrow> ls_pc s t = WriteSpin b k \<Longrightarrow> k < MAX_SPIN_COUNT \<Longrightarrow> ls_lockFlag s = EMPTY_FLAG
    \<Longrightarrow> lock_step tid ts s (write_entered t (s\<lparr>ls_lockFlag := desired_flag (tid t)\<rparr>))"
| write_cas_fail: "t \<in> ts \<Longrightarrow> ls_pc s t = WriteSpin b k \<Longrightarrow> k < MAX_SPIN_COUNT \<Longrightarrow> ls_lockFlag s \<noteq> EMPTY_FLAG
    \<Longrightarrow> lock_step tid ts s (goto t (WriteSpin b (Suc k)) s)"
| write_timeout: "t \<in> ts \<Longrightarrow> ls_pc s t = WriteSpin b k \<Longrightarrow> \<not> k < MAX_SPIN_COUNT \<Longrightarrow> now - b > ACQUIRE_TIMEOUT_TICK
    \<Longrightarrow> lock_step tid ts s (goto t (LockCrashed ''LOCK_TIMEOUT'') s)"
| write_yield: "t \<in> ts \<Longrightarrow> ls_pc s t = WriteSpin b k \<Longrightarrow> \<not> k < MAX_SPIN_COUNT \<Longrightarrow> \<not> now - b > ACQUIRE_TIMEOUT_TICK
    \<Longrightarrow> lock_step tid ts s (goto t (WriteSpin b 0) s)"
| unlock_order: "t \<in> ts \<Longrightarrow> ls_pc s t = Outside \<Longrightarrow> 0 < ls_wdepth s t \<Longrightarrow> read_count (ls_lockFlag s) \<noteq> 0
    \<Longrightarrow> lock_step tid ts s (goto t (LockCrashed ''INVALID_UNLOCK_ORDER'') s)"
| write_unlock: "t \<in> ts \<Longrightarrow> ls_pc s t = Outside \<Longrightarrow> 0 < ls_wdepth s t \<Longrightarrow> read_count (ls_lockFlag s) = 0
    \<Longrightarrow> lock_step tid ts s (goto t WriteUnlocking s)"
| write_count_down: "t \<in> ts \<Longrightarrow> ls_pc s t = WriteUnlocking \<Longrightarrow> lock_step tid ts s (write_left t s)"
| write_store: "t \<in> ts \<Longrightarrow> ls_pc s t = WriteStoring
    \<Longrightarrow> lock_step tid ts s (goto t Outside (s\<lparr>ls_lockFlag := EMPTY_FLAG\<rparr>))"
| read_reenter: "t \<in> ts \<Longrightarrow> ls_pc s t = Outside \<Longrightarrow> lock_thread_id (ls_lockFlag s) = tid t
    \<Longrightarrow> lock_step tid ts s (read_entered t s)"
| read_spin: "t \<in> ts \<Longrightarrow> ls_pc s t = Outside \<Longrightarrow> lock_thread_id (ls_lockFlag s) \<noteq> tid t
    \<Longrightarrow> lock_step tid ts s (goto t (ReadSpin beginTick 0) s)"
| read_load: "t \<in> ts \<Longrightarrow> ls_pc s t = ReadSpin b k \<Longrightarrow> k < MAX_SPIN_COUNT
    \<Longrightarrow> lock_step tid ts s (goto t (ReadCas b k (read_count (ls_lockFlag s))) s)"
| read_cas_ok: "t \<in> ts \<Longrightarrow> ls_pc s t = ReadCas b k expected \<Longrightarrow> ls_lockFlag s = expected
    \<Longrightarrow> lock_step tid ts s (read_entered t (s\<lparr>ls_lockFlag := expected\<rparr>))"
| read_cas_fail: "t \<in> ts \<Longrightarrow> ls_pc s t = ReadCas b k expected \<Longrightarrow> ls_lockFlag s \<noteq> expected
    \<Longrightarrow> lock_step tid ts s (goto t (ReadSpin b (Suc k)) s)"
| read_timeout: "t \<in> ts \<Longrightarrow> ls_pc s t = ReadSpin b k \<Longrightarrow> \<not> k < MAX_SPIN_COUNT \<Longrightarrow> now - b > ACQUIRE_TIMEOUT_TICK
    \<Longrightarrow> lock_step tid ts s (goto t (LockCrashed ''LOCK_TIMEOUT'') s)"
| read_yield: "t \<in> ts \<Longrightarrow> ls_pc s t = ReadSpin b k \<Longrightarrow> \<not> k < MAX_SPIN_COUNT \<Longrightarrow> \<not> now - b > ACQUIRE_TIMEOUT_TICK
    \<Longrightarrow> lock_step tid ts s (goto t (ReadSpin b 0) s)"
| read_unlock: "t \<in> ts \<Longrightarrow> ls_pc s t = Outside \<Longrightarrow> 0 < ls_rdepth s t
    \<Longrightarrow> lock_step tid ts s (read_left t s)"

section \<open>The invariant\<close>

text \<open>The 16-bit counters must not overflow: the bound the lock's layout assumes.\<close>

definition lock_bounded :: "nat set \<Rightarrow> lock_sys \<Rightarrow> bool" where
  "lock_bounded ts s \<longleftrightarrow> (\<Sum>t\<in>ts. ls_rdepth s t) < 65536 \<and> (\<forall>t\<in>ts. ls_wdepth s t < 65536)"

definition bounded_lock_step :: "(nat \<Rightarrow> uint32) \<Rightarrow> nat set \<Rightarrow> lock_sys \<Rightarrow> lock_sys \<Rightarrow> bool" where
  "bounded_lock_step tid ts s s' \<longleftrightarrow> lock_step tid ts s s' \<and> lock_bounded ts s'"

definition good_ids :: "(nat \<Rightarrow> uint32) \<Rightarrow> nat set \<Rightarrow> bool" where
  "good_ids tid ts \<longleftrightarrow> finite ts \<and> inj_on tid ts \<and> (\<forall>t\<in>ts. 0 < unat (tid t) \<and> unat (tid t) < 65536)"

text \<open>A thread that neither writes nor is on its way out of a write lock.\<close>

definition not_writing :: "lock_sys \<Rightarrow> nat \<Rightarrow> bool" where
  "not_writing s t \<longleftrightarrow> ls_wdepth s t = 0 \<and> ls_pc s t \<noteq> WriteUnlocking \<and> ls_pc s t \<noteq> WriteStoring"

definition free_inv :: "nat set \<Rightarrow> lock_sys \<Rightarrow> bool" where
  "free_inv ts s \<longleftrightarrow> (\<forall>t\<in>ts. not_writing s t) \<and> ls_writeCount s = 0
     \<and> ls_lockFlag s = word_of_nat (\<Sum>t\<in>ts. ls_rdepth s t)"

definition owned_inv :: "(nat \<Rightarrow> uint32) \<Rightarrow> nat set \<Rightarrow> nat \<Rightarrow> lock_sys \<Rightarrow> bool" where
  "owned_inv tid ts w s \<longleftrightarrow> w \<in> ts \<and> (\<forall>t\<in>ts. t \<noteq> w \<longrightarrow> not_writing s t \<and> ls_rdepth s t = 0)
     \<and> ls_writeCount s = word_of_nat (ls_wdepth s w)
     \<and> ls_lockFlag s = desired_flag (tid w) + word_of_nat (ls_rdepth s w)
     \<and> (ls_pc s w = WriteStoring \<longleftrightarrow> ls_wdepth s w = 0)
     \<and> (ls_pc s w = WriteStoring \<or> ls_pc s w = WriteUnlocking \<longrightarrow> ls_rdepth s w = 0)"

text \<open>A read CAS under way expects a flag without a writer.\<close>

definition lock_inv :: "(nat \<Rightarrow> uint32) \<Rightarrow> nat set \<Rightarrow> lock_sys \<Rightarrow> bool" where
  "lock_inv tid ts s \<longleftrightarrow> lock_bounded ts s
     \<and> (\<forall>t\<in>ts. \<forall>b k e. ls_pc s t = ReadCas b k e \<longrightarrow> unat e < 65536)
     \<and> (free_inv ts s \<or> (\<exists>w. owned_inv tid ts w s))"

lemmas lock_state_defs = goto_def write_entered_def read_entered_def write_left_def read_left_def

lemma free_flag:
  assumes "free_inv ts s" and "lock_bounded ts s"
  shows "unat (ls_lockFlag s) = (\<Sum>t\<in>ts. ls_rdepth s t)"
    and "unat (lock_thread_id (ls_lockFlag s)) = 0"
    and "unat (read_count (ls_lockFlag s)) = (\<Sum>t\<in>ts. ls_rdepth s t)"
proof -
  show *: "unat (ls_lockFlag s) = (\<Sum>t\<in>ts. ls_rdepth s t)"
    using assms by (simp add: free_inv_def lock_bounded_def unat_of_nat take_bit_nat_eq_self del: of_nat_sum)
  then show "unat (lock_thread_id (ls_lockFlag s)) = 0" "unat (read_count (ls_lockFlag s)) = (\<Sum>t\<in>ts. ls_rdepth s t)"
    using assms by (simp_all add: lock_bounded_def unat_lock_thread_id unat_read_count)
qed

lemma owned_sum:
  assumes "finite ts" and "owned_inv tid ts w s"
  shows "(\<Sum>t\<in>ts. ls_rdepth s t) = ls_rdepth s w"
proof -
  have "(\<Sum>t\<in>ts. ls_rdepth s t) = ls_rdepth s w + (\<Sum>t\<in>ts - {w}. ls_rdepth s t)"
    using assms sum.remove [of ts w "ls_rdepth s"] by (simp add: owned_inv_def)
  also have "(\<Sum>t\<in>ts - {w}. ls_rdepth s t) = 0"
    using assms by (simp add: owned_inv_def)
  finally show ?thesis by simp
qed

lemma owned_flag:
  assumes ids: "good_ids tid ts" and inv: "owned_inv tid ts w s" "lock_bounded ts s"
  shows "lock_thread_id (ls_lockFlag s) = tid w"
    and "unat (read_count (ls_lockFlag s)) = ls_rdepth s w"
    and "65536 \<le> unat (ls_lockFlag s)"
    and "\<And>t. t \<in> ts \<Longrightarrow> tid t = lock_thread_id (ls_lockFlag s) \<longleftrightarrow> t = w"
proof -
  have w: "w \<in> ts" "unat (tid w) < 65536" "0 < unat (tid w)" and r: "ls_rdepth s w < 65536"
    using ids inv owned_sum [of ts tid w s] by (auto simp: good_ids_def owned_inv_def lock_bounded_def)
  note f = flag_parts [OF w(2) r]
  have flag: "ls_lockFlag s = desired_flag (tid w) + word_of_nat (ls_rdepth s w)"
    using inv by (simp add: owned_inv_def)
  show "lock_thread_id (ls_lockFlag s) = tid w" "unat (read_count (ls_lockFlag s)) = ls_rdepth s w"
    using f by (simp_all only: flag)
  have "unat (ls_lockFlag s) = 65536 * unat (tid w) + ls_rdepth s w" using f(1) by (simp only: flag)
  then show "65536 \<le> unat (ls_lockFlag s)" using w(3) by simp
  show "tid t = lock_thread_id (ls_lockFlag s) \<longleftrightarrow> t = w" if "t \<in> ts" for t
    using that w f(2) ids by (auto simp: flag good_ids_def inj_on_eq_iff)
qed

lemma sum_fun_upd:
  assumes "finite ts" and "t \<in> ts"
  shows "(\<Sum>u\<in>ts. (f(t := x)) u) + f t = (\<Sum>u\<in>ts. f u) + (x :: nat)"
  using assms by (simp add: sum.remove [of ts t])

lemma lock_inv_init: "lock_inv tid ts lock_init"
  by (simp add: lock_inv_def lock_init_def lock_bounded_def free_inv_def not_writing_def EMPTY_FLAG_def)

text \<open>A thread that is not the owner finds neither its id nor an empty flag.\<close>

lemma lock_inv_cases:
  assumes "lock_inv tid ts s"
  obtains (free) "free_inv ts s" "lock_bounded ts s"
    | (owned) w where "owned_inv tid ts w s" "lock_bounded ts s"
  using assms by (auto simp: lock_inv_def)

text \<open>Steps that only move the program counter inside the spin loops.\<close>

lemma lock_inv_goto:
  assumes inv: "lock_inv tid ts s"
    and p: "p \<noteq> WriteUnlocking" "p \<noteq> WriteStoring" "\<And>b k e. p = ReadCas b k e \<Longrightarrow> unat e < 65536"
    and old: "ls_pc s t \<noteq> WriteUnlocking" "ls_pc s t \<noteq> WriteStoring"
  shows "lock_inv tid ts (goto t p s)"
proof -
  have nw: "not_writing s u \<Longrightarrow> not_writing (goto t p s) u" for u
    using p by (simp add: not_writing_def goto_def)
  have "free_inv ts s \<Longrightarrow> free_inv ts (goto t p s)"
    using nw by (simp add: free_inv_def) (simp add: goto_def)
  moreover have "owned_inv tid ts w s \<Longrightarrow> owned_inv tid ts w (goto t p s)" for w
    using nw p old by (auto simp: owned_inv_def goto_def)
  moreover have "lock_bounded ts (goto t p s) = lock_bounded ts s"
    by (simp add: lock_bounded_def goto_def)
  moreover have "\<forall>u\<in>ts. \<forall>b k e. ls_pc (goto t p s) u = ReadCas b k e \<longrightarrow> unat e < 65536"
    using inv p(3) by (auto simp: lock_inv_def goto_def)
  ultimately show ?thesis
    using inv unfolding lock_inv_def by blast
qed

lemma free_write_enter:
  assumes inv: "free_inv ts s" "lock_bounded ts s" and t: "t \<in> ts" "ls_pc s t = WriteSpin b k"
    and empty: "ls_lockFlag s = EMPTY_FLAG" and ts: "finite ts"
  shows "owned_inv tid ts t (write_entered t (s\<lparr>ls_lockFlag := desired_flag (tid t)\<rparr>))"
proof -
  have "(\<Sum>u\<in>ts. ls_rdepth s u) = 0"
    using free_flag(1) [OF inv] empty by (simp add: EMPTY_FLAG_def)
  then have "\<forall>u\<in>ts. ls_rdepth s u = 0" using ts by simp
  then show ?thesis
    using inv t by (auto simp: owned_inv_def free_inv_def not_writing_def lock_state_defs)
qed

lemma owned_write_reenter:
  assumes "owned_inv tid ts t s" and "ls_pc s t = Outside"
  shows "owned_inv tid ts t (write_entered t s)"
  using assms by (auto simp: owned_inv_def not_writing_def lock_state_defs)

lemma owned_read_reenter:
  assumes "owned_inv tid ts t s" and "ls_pc s t = Outside"
  shows "owned_inv tid ts t (read_entered t s)"
  using assms by (auto simp: owned_inv_def not_writing_def lock_state_defs)

lemma free_read_enter:
  assumes "free_inv ts s" and "t \<in> ts" and "finite ts"
  shows "free_inv ts (read_entered t s)"
proof -
  have "(\<Sum>u\<in>ts. ls_rdepth (read_entered t s) u) = Suc (\<Sum>u\<in>ts. ls_rdepth s u)"
    using sum_fun_upd [OF assms(3,2), of "ls_rdepth s" "Suc (ls_rdepth s t)"]
    by (simp add: lock_state_defs)
  then have "ls_lockFlag (read_entered t s) = word_of_nat (\<Sum>u\<in>ts. ls_rdepth (read_entered t s) u)"
    using assms(1) by (simp only: free_inv_def) (simp add: lock_state_defs)
  then show ?thesis
    using assms(1) unfolding free_inv_def by (auto simp: not_writing_def lock_state_defs)
qed

lemma free_read_leave:
  assumes inv: "free_inv ts s" and t: "t \<in> ts" "0 < ls_rdepth s t" and ts: "finite ts"
  shows "free_inv ts (read_left t s)"
proof -
  have "Suc (\<Sum>u\<in>ts. ls_rdepth (read_left t s) u) = (\<Sum>u\<in>ts. ls_rdepth s u)"
    using sum_fun_upd [OF ts t(1), of "ls_rdepth s" "ls_rdepth s t - 1"] t(2)
    by (simp add: lock_state_defs)
  then have "ls_lockFlag s = word_of_nat (Suc (\<Sum>u\<in>ts. ls_rdepth (read_left t s) u))"
    using inv by (simp only: free_inv_def)
  then have "ls_lockFlag (read_left t s) = word_of_nat (\<Sum>u\<in>ts. ls_rdepth (read_left t s) u)"
    by (simp add: lock_state_defs)
  then show ?thesis
    using inv unfolding free_inv_def by (auto simp: not_writing_def lock_state_defs)
qed

lemma owned_read_leave:
  assumes "owned_inv tid ts t s" and "0 < ls_rdepth s t" and "ls_pc s t = Outside"
    and "read_count (ls_lockFlag s) \<noteq> 0"
  shows "owned_inv tid ts t (read_left t s)"
  using assms by (auto simp: owned_inv_def not_writing_def lock_state_defs of_nat_diff)

lemma owned_write_down:
  assumes inv: "owned_inv tid ts w s" "lock_bounded ts s" and pc: "ls_pc s w = WriteUnlocking"
  shows "owned_inv tid ts w (write_left w s)"
proof -
  have d: "0 < ls_wdepth s w" "ls_wdepth s w < 65536"
    using inv pc by (auto simp: owned_inv_def lock_bounded_def)
  then have c: "ls_writeCount s - 1 = word_of_nat (ls_wdepth s w - 1)"
    using inv by (simp add: owned_inv_def of_nat_diff)
  have "uint (ls_writeCount s - 1) = int (ls_wdepth s w - 1)"
    unfolding c using d by (simp add: uint_of_nat_16 del: of_nat_diff)
  then show ?thesis
    using inv pc d c by (auto simp: owned_inv_def not_writing_def lock_state_defs Let_def)
qed

lemma owned_write_store:
  assumes "owned_inv tid ts w s" and "ls_pc s w = WriteStoring" and "finite ts"
  shows "free_inv ts (goto w Outside (s\<lparr>ls_lockFlag := EMPTY_FLAG\<rparr>))"
proof -
  have "\<forall>t\<in>ts. ls_rdepth s t = 0" using assms by (auto simp: owned_inv_def)
  then show ?thesis
    using assms by (auto simp: owned_inv_def free_inv_def not_writing_def lock_state_defs EMPTY_FLAG_def)
qed

section \<open>Every step keeps the invariant\<close>

text \<open>What a step can do to the pending read CASes.\<close>

lemma read_count_small: "unat (read_count f) < 65536"
  by (simp add: unat_read_count)

definition cas_ok :: "nat set \<Rightarrow> lock_sys \<Rightarrow> bool" where
  "cas_ok ts s \<longleftrightarrow> (\<forall>t\<in>ts. \<forall>b k e. ls_pc s t = ReadCas b k e \<longrightarrow> unat e < 65536)"

lemma lock_inv_alt:
  "lock_inv tid ts s \<longleftrightarrow> lock_bounded ts s \<and> cas_ok ts s \<and> (free_inv ts s \<or> (\<exists>w. owned_inv tid ts w s))"
  by (simp add: lock_inv_def cas_ok_def)

lemma cas_ok_keep [simp]:
  "cas_ok ts s \<Longrightarrow> cas_ok ts (write_entered t s)" "cas_ok ts s \<Longrightarrow> cas_ok ts (read_entered t s)"
  "cas_ok ts s \<Longrightarrow> cas_ok ts (write_left t s)" "cas_ok ts s \<Longrightarrow> cas_ok ts (read_left t s)"
  "cas_ok ts s \<Longrightarrow> cas_ok ts (goto t Outside s)"
  "cas_ok ts (s\<lparr>ls_lockFlag := f\<rparr>) = cas_ok ts s"
  by (auto simp: cas_ok_def lock_state_defs Let_def)

lemma lock_step_kernel:
  assumes step: "lock_step tid ts s s'" and inv: "lock_inv tid ts s" and ids: "good_ids tid ts"
    and bnd: "lock_bounded ts s'"
  shows "lock_inv tid ts s'"
proof -
  have fin: "finite ts" using ids by (simp add: good_ids_def)
  have cas: "cas_ok ts s" and lb: "lock_bounded ts s" using inv by (simp_all add: lock_inv_alt)
  have nonzero: "tid t \<noteq> lock_thread_id (ls_lockFlag s)" if "free_inv ts s" "t \<in> ts" for t
    using free_flag(2) [OF that(1) lb] ids that(2) by (auto simp: good_ids_def)
  note own = owned_flag [OF ids _ lb]
  from step show ?thesis
  proof cases
    case (write_reenter t)
    with nonzero inv obtain w where w: "owned_inv tid ts w s" by (auto simp: lock_inv_alt)
    with own(4) [OF w] write_reenter have "w = t" by simp
    with w write_reenter owned_write_reenter [of tid ts t s] cas bnd show ?thesis by (auto simp: lock_inv_alt)
  next
    case (write_cas_ok t b k)
    have "free_inv ts s"
      using inv own(3) write_cas_ok by (auto simp: lock_inv_alt EMPTY_FLAG_def)
    with free_write_enter [of ts s t b k tid] write_cas_ok fin lb cas bnd show ?thesis
      by (auto simp: lock_inv_alt)
  next
    case (write_count_down t)
    then obtain w where w: "owned_inv tid ts w s" using inv by (auto simp: lock_inv_alt free_inv_def not_writing_def)
    with write_count_down have "w = t" by (auto simp: owned_inv_def not_writing_def)
    with w owned_write_down [OF w lb] write_count_down cas bnd show ?thesis by (auto simp: lock_inv_alt)
  next
    case (write_store t)
    then obtain w where w: "owned_inv tid ts w s" using inv by (auto simp: lock_inv_alt free_inv_def not_writing_def)
    with write_store have "w = t" by (auto simp: owned_inv_def not_writing_def)
    with w owned_write_store [OF w] write_store fin cas bnd show ?thesis by (auto simp: lock_inv_alt)
  next
    case (read_reenter t)
    with nonzero inv obtain w where w: "owned_inv tid ts w s" by (auto simp: lock_inv_alt)
    with own(4) [OF w] read_reenter have "w = t" by auto
    with w read_reenter owned_read_reenter [of tid ts t s] cas bnd show ?thesis by (auto simp: lock_inv_alt)
  next
    case (read_cas_ok t b k e)
    then have "unat (ls_lockFlag s) < 65536" using cas by (auto simp: cas_ok_def)
    then have free: "free_inv ts s" using inv own(3) by (fastforce simp: lock_inv_alt)
    have "s\<lparr>ls_lockFlag := e\<rparr> = s" using read_cas_ok by simp
    with free_read_enter [OF free] read_cas_ok fin cas bnd show ?thesis
      by (auto simp: lock_inv_alt)
  next
    case (read_unlock t)
    show ?thesis
    proof (cases "free_inv ts s")
      case True
      with free_read_leave [OF True] read_unlock fin cas bnd show ?thesis by (auto simp: lock_inv_alt)
    next
      case False
      then obtain w where w: "owned_inv tid ts w s" using inv by (auto simp: lock_inv_alt)
      with read_unlock have wt: "w = t" by (auto simp: owned_inv_def)
      with own(2) [OF w] read_unlock have "read_count (ls_lockFlag s) \<noteq> 0" by auto
      with w wt owned_read_leave [of tid ts t s] read_unlock cas bnd show ?thesis by (auto simp: lock_inv_alt)
    qed
  next
    case (write_unlock t)
    then obtain w where w: "owned_inv tid ts w s" using inv by (auto simp: lock_inv_alt free_inv_def not_writing_def)
    with write_unlock have wt: "w = t" by (auto simp: owned_inv_def not_writing_def)
    with own(2) [OF w] write_unlock have "ls_rdepth s t = 0" by simp
    with w wt write_unlock cas bnd show ?thesis
      by (auto simp: lock_inv_alt owned_inv_def not_writing_def goto_def cas_ok_def lock_bounded_def)
  qed (use inv read_count_small in \<open>auto intro!: lock_inv_goto\<close>)
qed

theorem lock_reachable_inv:
  assumes "reaches (bounded_lock_step tid ts) lock_init s" and "good_ids tid ts"
  shows "lock_inv tid ts s"
  using assms(1) lock_inv_init
proof (rule reaches_invariant)
  fix x y assume "lock_inv tid ts x" and "bounded_lock_step tid ts x y"
  then show "lock_inv tid ts y"
    using lock_step_kernel assms(2) by (auto simp: bounded_lock_step_def)
qed

lemma lock_exclusive:
  assumes inv: "lock_inv tid ts s" and "t \<in> ts" "u \<in> ts" "t \<noteq> u" and "0 < ls_wdepth s t"
  shows "ls_wdepth s u = 0 \<and> ls_rdepth s u = 0"
  using inv
proof (cases rule: lock_inv_cases)
  case free
  then show ?thesis using assms by (auto simp: free_inv_def not_writing_def)
next
  case (owned w)
  then have "w = t" using assms by (auto simp: owned_inv_def not_writing_def)
  with owned assms show ?thesis by (auto simp: owned_inv_def not_writing_def)
qed

text \<open>A read unlock never crashes, and a write unlock only when its own thread still reads.\<close>

lemma lock_no_multiple_unlock:
  assumes inv: "lock_inv tid ts s" and ids: "good_ids tid ts" and t: "t \<in> ts" "0 < ls_rdepth s t"
  shows "read_count (ls_lockFlag s) \<noteq> 0"
  using inv
proof (cases rule: lock_inv_cases)
  case free
  have "0 < (\<Sum>u\<in>ts. ls_rdepth s u)"
    using ids t by (meson good_ids_def sum_pos2 zero_le)
  with free_flag(3) [OF free] show ?thesis by auto
next
  case (owned w)
  then have "w = t" using t by (auto simp: owned_inv_def)
  with owned_flag(2) [OF ids owned] t show ?thesis by auto
qed

lemma lock_unlock_order:
  assumes inv: "lock_inv tid ts s" and ids: "good_ids tid ts" and t: "t \<in> ts" "0 < ls_wdepth s t"
  shows "read_count (ls_lockFlag s) \<noteq> 0 \<longleftrightarrow> 0 < ls_rdepth s t"
  using inv
proof (cases rule: lock_inv_cases)
  case free
  then show ?thesis using t by (auto simp: free_inv_def not_writing_def)
next
  case (owned w)
  then have "w = t" using t by (auto simp: owned_inv_def not_writing_def)
  with owned_flag(2) [OF ids owned] show ?thesis by (auto simp: word_unat_eq_iff)
qed

text \<open>On a free lock the first attempt of a thread succeeds.\<close>

lemma lock_acquired:
  assumes "t \<in> ts" and "tid t \<noteq> lock_thread_id (ls_lockFlag lock_init)"
  shows "\<exists>s. reaches (bounded_lock_step tid ts) lock_init s \<and> 0 < ls_wdepth s t"
proof -
  define s1 where "s1 = goto t (WriteSpin 0 0) lock_init"
  define s2 where "s2 = write_entered t (s1\<lparr>ls_lockFlag := desired_flag (tid t)\<rparr>)"
  have "lock_step tid ts lock_init s1"
    unfolding s1_def by (rule write_spin) (use assms in \<open>simp_all add: lock_init_def\<close>)
  moreover have "lock_step tid ts s1 s2"
    unfolding s2_def by (rule write_cas_ok [OF assms(1), where b = 0 and k = 0]) (simp_all add: s1_def goto_def lock_init_def MAX_SPIN_COUNT_def)
  moreover have "lock_bounded ts s1" "lock_bounded ts s2"
    by (simp_all add: lock_bounded_def s2_def s1_def write_entered_def goto_def lock_init_def)
  ultimately have "reaches (bounded_lock_step tid ts) lock_init s2"
    by (meson bounded_lock_step_def reaches.intros)
  moreover have "0 < ls_wdepth s2 t" by (simp add: s2_def write_entered_def goto_def)
  ultimately show ?thesis by blast
qed

end
