(* ===== verification/DeadLockProfiler.thy ===== *)
theory DeadLockProfiler imports Prelude begin

text \<open>
  ServerCore/DeadLockProfiler.h and DeadLockProfiler.cpp: the lock-order graph recorded by
  PushLock, the per-thread stack LLockStack, and the depth-first search that crashes the server
  when the graph gets a cycle. Lock names are pointers (\<open>nat\<close>), lock ids and vector indices are
  \<open>nat\<close>; a std::set is a strictly sorted list, so the loop visits it in its order. The search
  spends one unit of fuel per nested call; \<open>CheckCycle\<close> supplies one more than there are locks.
\<close>

section \<open>State\<close>

record profiler =
  pf_nameToId :: "(nat \<times> nat) list"
  pf_idToName :: "(nat \<times> nat) list"
  pf_lockHistory :: "nat \<Rightarrow> nat list option"

record dfs_state =
  df_discoveredOrder :: "int list"
  df_discoveredCount :: int
  df_finished :: "bool list"
  df_parent :: "int list"

text \<open>What the search ends with: normally, out of fuel, or at CRASH("DEADLOCK_DETECTED") after
  printing the edges of a cycle (or failing while it reads \<open>_parent\<close>).\<close>

datatype dfs_result =
    Searched dfs_state
  | OutOfFuel
  | DeadlockDetected "fault + (nat \<times> nat) list"

section \<open>The search\<close>

text \<open>The loop that prints the cycle: up the parents from \<open>now\<close> until \<open>there\<close>.\<close>

fun report_loop :: "nat \<Rightarrow> int list \<Rightarrow> nat \<Rightarrow> nat \<Rightarrow> (nat \<times> nat) list result" where
  "report_loop 0 parent now there = Inl (UndefinedBehaviour ''endless report'')"
| "report_loop (Suc fuel) parent now there =
     (if length parent \<le> now \<or> parent ! now < 0 then Inl OutOfBounds
      else let up = nat (parent ! now)
           in if up = there then Inr [(up, now)]
              else bind_result (report_loop fuel parent up there) (\<lambda>es. Inr ((up, now) # es)))"

function (sequential) Dfs :: "nat \<Rightarrow> (nat \<Rightarrow> nat list option) \<Rightarrow> nat \<Rightarrow> dfs_state \<Rightarrow> dfs_result"
  and Dfs_next :: "nat \<Rightarrow> (nat \<Rightarrow> nat list option) \<Rightarrow> nat \<Rightarrow> nat list \<Rightarrow> dfs_state \<Rightarrow> dfs_result" where
  "Dfs 0 history here st = OutOfFuel"
| "Dfs (Suc fuel) history here st =
     (if df_discoveredOrder st ! here \<noteq> - 1 then Searched st
      else let st1 = st\<lparr>df_discoveredOrder := (df_discoveredOrder st)[here := df_discoveredCount st],
                        df_discoveredCount := df_discoveredCount st + 1\<rparr>
           in case history here of
                None \<Rightarrow> Searched (st1\<lparr>df_finished := (df_finished st1)[here := True]\<rparr>)
              | Some nextSet \<Rightarrow> Dfs_next fuel history here nextSet st1)"
| "Dfs_next fuel history here [] st = Searched (st\<lparr>df_finished := (df_finished st)[here := True]\<rparr>)"
| "Dfs_next fuel history here (there # rest) st =
     (if df_discoveredOrder st ! there = - 1 then
        (case Dfs fuel history there (st\<lparr>df_parent := (df_parent st)[there := int here]\<rparr>) of
           Searched st' \<Rightarrow> Dfs_next fuel history here rest st'
         | OutOfFuel \<Rightarrow> OutOfFuel
         | DeadlockDetected r \<Rightarrow> DeadlockDetected r)
      else if df_discoveredOrder st ! here < df_discoveredOrder st ! there then
        Dfs_next fuel history here rest st
      else if df_finished st ! there = False then
        DeadlockDetected (bind_result (report_loop (length (df_parent st)) (df_parent st) here there)
          (\<lambda>es. Inr ((here, there) # es)))
      else Dfs_next fuel history here rest st)"
  by pat_completeness auto
termination
  by (relation "measures [\<lambda>x. case x of Inl (n, _) \<Rightarrow> 2 * n | Inr (n, _) \<Rightarrow> 2 * n + 1,
        \<lambda>x. case x of Inl _ \<Rightarrow> 0 | Inr (_, _, _, xs, _) \<Rightarrow> length xs]") auto

definition new_dfs_state :: "nat \<Rightarrow> dfs_state" where
  "new_dfs_state lockCount = \<lparr>df_discoveredOrder = replicate lockCount (- 1), df_discoveredCount = 0,
     df_finished = replicate lockCount False, df_parent = replicate lockCount (- 1)\<rparr>"

primrec search_all :: "nat \<Rightarrow> (nat \<Rightarrow> nat list option) \<Rightarrow> nat list \<Rightarrow> dfs_state \<Rightarrow> dfs_result" where
  "search_all fuel history [] st = Searched st"
| "search_all fuel history (lockId # ids) st =
     (case Dfs fuel history lockId st of
        Searched st' \<Rightarrow> search_all fuel history ids st'
      | OutOfFuel \<Rightarrow> OutOfFuel
      | DeadlockDetected r \<Rightarrow> DeadlockDetected r)"

definition CheckCycle :: "profiler \<Rightarrow> dfs_result" where
  "CheckCycle p =
     (let lockCount = length (pf_nameToId p)
      in search_all (Suc lockCount) (pf_lockHistory p) [0..<lockCount] (new_dfs_state lockCount))"

section \<open>Recording lock and unlock\<close>

text \<open>A lock's id, made on its first use.\<close>

definition lock_id_of :: "nat \<Rightarrow> profiler \<Rightarrow> nat \<times> profiler" where
  "lock_id_of name p =
     (case map_of (pf_nameToId p) name of
        Some lockId \<Rightarrow> (lockId, p)
      | None \<Rightarrow> let lockId = length (pf_nameToId p)
                in (lockId, p\<lparr>pf_nameToId := (name, lockId) # pf_nameToId p,
                             pf_idToName := (lockId, name) # pf_idToName p\<rparr>))"

definition history_of :: "profiler \<Rightarrow> nat \<Rightarrow> nat list" where
  "history_of p a = (case pf_lockHistory p a of None \<Rightarrow> [] | Some ns \<Rightarrow> ns)"

text \<open>\<open>_lockHistory[prevId]\<close> creates the set when it is missing, also when nothing is inserted.\<close>

definition add_edge :: "nat \<Rightarrow> nat \<Rightarrow> profiler \<Rightarrow> profiler" where
  "add_edge prevId lockId p =
     p\<lparr>pf_lockHistory := (pf_lockHistory p)(prevId \<mapsto> insort lockId (history_of p prevId))\<rparr>"

definition touch_history :: "nat \<Rightarrow> profiler \<Rightarrow> profiler" where
  "touch_history prevId p = p\<lparr>pf_lockHistory := (pf_lockHistory p)(prevId \<mapsto> history_of p prevId)\<rparr>"

definition PushLock :: "nat \<Rightarrow> nat list \<Rightarrow> profiler \<Rightarrow> (nat list \<times> profiler) result" where
  "PushLock name stack p =
     (let (lockId, p1) = lock_id_of name p
      in case stack of
           [] \<Rightarrow> Inr (lockId # stack, p1)
         | prevId # _ \<Rightarrow>
             if lockId \<noteq> prevId then
               let p2 = touch_history prevId p1
               in if lockId \<notin> set (history_of p2 prevId) then
                    let p3 = add_edge prevId lockId p2
                    in case CheckCycle p3 of
                         Searched _ \<Rightarrow> Inr (lockId # stack, p3)
                       | OutOfFuel \<Rightarrow> Inl (UndefinedBehaviour ''out of fuel'')
                       | DeadlockDetected (Inl e) \<Rightarrow> Inl e
                       | DeadlockDetected (Inr _) \<Rightarrow> CRASH ''DEADLOCK_DETECTED''
                  else Inr (lockId # stack, p2)
             else Inr (lockId # stack, p1))"

text \<open>\<open>_nameToId[name]\<close> inserts 0 for a name it does not know.\<close>

definition PopLock :: "nat \<Rightarrow> nat list \<Rightarrow> profiler \<Rightarrow> (nat list \<times> profiler) result" where
  "PopLock name stack p =
     (case stack of
        [] \<Rightarrow> CRASH ''MULTIPLE_UNLOCK''
      | topId # rest \<Rightarrow>
          let (lockId, p1) = (case map_of (pf_nameToId p) name of
                 Some i \<Rightarrow> (i, p) | None \<Rightarrow> (0, p\<lparr>pf_nameToId := (name, 0) # pf_nameToId p\<rparr>))
          in if topId \<noteq> lockId then CRASH ''INVALID_UNLOCK'' else Inr (rest, p1))"

section \<open>The graph\<close>

definition edges :: "(nat \<Rightarrow> nat list option) \<Rightarrow> (nat \<times> nat) set" where
  "edges history = {(a, b). \<exists>ns. history a = Some ns \<and> b \<in> set ns}"

definition graph_ok :: "nat \<Rightarrow> (nat \<Rightarrow> nat list option) \<Rightarrow> bool" where
  "graph_ok n history \<longleftrightarrow> edges history \<subseteq> {..<n} \<times> {..<n} \<and> (\<forall>a. (a, a) \<notin> edges history)"

definition white :: "dfs_state \<Rightarrow> nat \<Rightarrow> bool" where
  "white st v \<longleftrightarrow> df_discoveredOrder st ! v = - 1"

text \<open>The nodes on the recursion stack, from the current one down to the root.\<close>

definition grays :: "(nat \<times> nat) set \<Rightarrow> dfs_state \<Rightarrow> nat list \<Rightarrow> bool" where
  "grays E st gs \<longleftrightarrow> sorted_wrt (\<lambda>x y. df_discoveredOrder st ! y < df_discoveredOrder st ! x) gs
     \<and> successively (\<lambda>x y. (y, x) \<in> E \<and> df_parent st ! x = int y) gs"

definition black :: "nat \<Rightarrow> dfs_state \<Rightarrow> nat set" where
  "black n st = {v. v < n \<and> df_finished st ! v}"

definition dfs_inv :: "nat \<Rightarrow> (nat \<times> nat) set \<Rightarrow> nat list \<Rightarrow> dfs_state \<Rightarrow> bool" where
  "dfs_inv n E gs st \<longleftrightarrow>
     length (df_discoveredOrder st) = n \<and> length (df_finished st) = n \<and> length (df_parent st) = n
     \<and> 0 \<le> df_discoveredCount st
     \<and> (\<forall>v<n. \<not> white st v \<longrightarrow> 0 \<le> df_discoveredOrder st ! v \<and> df_discoveredOrder st ! v < df_discoveredCount st)
     \<and> set gs = {v. v < n \<and> \<not> white st v \<and> \<not> df_finished st ! v}
     \<and> (\<forall>v<n. df_finished st ! v \<longrightarrow> \<not> white st v)
     \<and> grays E st gs
     \<and> E `` black n st \<subseteq> black n st \<and> acyclic (E \<inter> black n st \<times> black n st)"

definition num_white :: "nat \<Rightarrow> dfs_state \<Rightarrow> nat" where
  "num_white n st = card {v. v < n \<and> white st v}"

text \<open>What a call leaves alone: discovered nodes keep their number, finished ones stay finished.\<close>

definition dfs_extends :: "nat \<Rightarrow> dfs_state \<Rightarrow> dfs_state \<Rightarrow> bool" where
  "dfs_extends n st st' \<longleftrightarrow> (\<forall>v<n. \<not> white st v \<longrightarrow> df_discoveredOrder st' ! v = df_discoveredOrder st ! v)
     \<and> (\<forall>v<n. df_finished st ! v \<longrightarrow> df_finished st' ! v)"

lemma dfs_extends_refl: "dfs_extends n st st"
  by (simp add: dfs_extends_def)

lemma dfs_extends_trans: "dfs_extends n a b \<Longrightarrow> dfs_extends n b c \<Longrightarrow> dfs_extends n a c"
  by (auto simp: dfs_extends_def white_def)

lemma dfs_extends_white: "dfs_extends n st st' \<Longrightarrow> num_white n st' \<le> num_white n st"
  unfolding num_white_def dfs_extends_def white_def by (intro card_mono) auto

lemma num_white_discover:
  assumes "here < n" "white st here" "length (df_discoveredOrder st) = n" "c \<noteq> - 1"
    and "df_discoveredOrder st' = (df_discoveredOrder st)[here := c]"
  shows "Suc (num_white n st') = num_white n st"
proof -
  have "{v. v < n \<and> white st v} = insert here {v. v < n \<and> white st' v}"
    and "here \<notin> {v. v < n \<and> white st' v}"
    using assms by (auto simp: white_def nth_list_update)
  then show ?thesis by (simp add: num_white_def)
qed

lemma acyclic_add_source:
  assumes "acyclic r" and "s \<subseteq> {here} \<times> UNIV" and "here \<notin> Range (r \<union> s)"
  shows "acyclic (r \<union> s)"
proof (rule acyclicI, rule allI, rule notI)
  fix x assume cyc: "(x, x) \<in> (r \<union> s)\<^sup>+"
  have "y \<noteq> here \<and> (x, y) \<in> r\<^sup>+" if "(x, y) \<in> (r \<union> s)\<^sup>+" "x \<noteq> here" for y
    using that
  proof (induction rule: trancl_induct)
    case (base y) then show ?case using assms(2,3) by blast
  next
    case (step y z)
    then have "(y, z) \<in> r" "z \<noteq> here" using assms(2,3) by blast+
    then show ?case using step by (meson trancl.trancl_into_trancl)
  qed
  moreover have "x \<noteq> here" using tranclD2 [OF cyc] assms(3) by blast
  ultimately show False using cyc assms(1) unfolding acyclic_def by blast
qed

text \<open>Following the parents from the current node reports a path of edges.\<close>

lemma chain_path:
  assumes "successively (\<lambda>x y. (y, x) \<in> E \<and> p x = int y) (x # xs)" and "y \<in> set xs"
  shows "(y, x) \<in> E\<^sup>+"
  using assms by (induction xs arbitrary: x) (auto intro: trancl_into_trancl)

lemma report_loop_ok:
  assumes "successively (\<lambda>x y. (y, x) \<in> E \<and> parent ! x = int y) (x # xs)"
    and "set (x # xs) \<subseteq> {..<length parent}" and "y \<in> set xs" and "length xs \<le> fuel"
  shows "\<exists>es. report_loop fuel parent x y = Inr es"
  using assms
proof (induction xs arbitrary: x fuel)
  case Nil then show ?case by simp
next
  case (Cons z xs)
  then obtain f where f: "fuel = Suc f" by (cases fuel) auto
  show ?case
  proof (cases "z = y")
    case True then show ?thesis using Cons.prems f by (auto simp: Let_def)
  next
    case False
    then obtain es where "report_loop f parent z y = Inr es"
      using Cons.IH [of z f] Cons.prems f by auto
    then show ?thesis using Cons.prems f False by (auto simp: Let_def)
  qed
qed

section \<open>One call of Dfs\<close>

definition dfs_post :: "nat \<Rightarrow> (nat \<times> nat) set \<Rightarrow> nat list \<Rightarrow> nat \<Rightarrow> dfs_state \<Rightarrow> dfs_result \<Rightarrow> bool" where
  "dfs_post n E gs here st r \<longleftrightarrow>
     (case r of Searched st' \<Rightarrow> dfs_inv n E gs st' \<and> dfs_extends n st st' \<and> \<not> white st' here
           \<and> (white st here \<or> df_finished st ! here \<longrightarrow> df_finished st' ! here)
      | OutOfFuel \<Rightarrow> False
      | DeadlockDetected rep \<Rightarrow> (\<exists>es. rep = Inr es) \<and> \<not> acyclic E)"

text \<open>Entering a white node makes it the top gray.\<close>

lemma dfs_inv_discover:
  assumes inv: "dfs_inv n E gs st" and here: "here < n" "white st here"
    and edge: "gs \<noteq> [] \<Longrightarrow> (hd gs, here) \<in> E \<and> df_parent st ! here = int (hd gs)"
  shows "dfs_inv n E (here # gs) (st\<lparr>df_discoveredOrder := (df_discoveredOrder st)[here := df_discoveredCount st],
                        df_discoveredCount := df_discoveredCount st + 1\<rparr>)"
    (is "dfs_inv n E _ ?st")
proof -
  note d = inv [unfolded dfs_inv_def]
  have d_grays: "sorted_wrt (\<lambda>x y. df_discoveredOrder st ! y < df_discoveredOrder st ! x) gs
      \<and> successively (\<lambda>x y. (y, x) \<in> E \<and> df_parent st ! x = int y) gs"
    using d by (simp add: grays_def)
  have nf: "\<not> df_finished st ! here" using d here by blast
  have w: "white ?st v \<longleftrightarrow> white st v \<and> v \<noteq> here" if "v < n" for v
    using that d by (cases "v = here") (simp_all add: white_def)
  have ng: "here \<notin> set gs" using d here by blast
  have "x < n \<and> \<not> white st x" if "x \<in> set gs" for x using that d by blast
  then have lt: "df_discoveredOrder st ! x < df_discoveredCount st" if "x \<in> set gs" for x
    using that d by blast
  have o: "df_discoveredOrder ?st ! x = df_discoveredOrder st ! x" if "x \<noteq> here" for x
    using that by simp
  have "sorted_wrt (\<lambda>x y. df_discoveredOrder ?st ! y < df_discoveredOrder ?st ! x) gs"
    using d ng o by (intro sorted_wrt_mono_rel [OF _ conjunct1 [OF d_grays]]) (metis)
  moreover have "df_discoveredOrder ?st ! y < df_discoveredOrder ?st ! here" if "y \<in> set gs" for y
    using that lt [OF that] ng here d by (auto simp: nth_list_update)
  moreover have "successively (\<lambda>x y. (y, x) \<in> E \<and> df_parent ?st ! x = int y) (here # gs)"
    using d edge by (cases gs) (auto simp: grays_def)
  ultimately have g: "grays E ?st (here # gs)" unfolding grays_def by simp
  have "black n ?st = black n st" by (simp add: black_def)
  moreover have "set (here # gs) = {v. v < n \<and> \<not> white ?st v \<and> \<not> df_finished ?st ! v}"
    using d w here nf by auto
  moreover have "\<forall>v<n. \<not> white ?st v \<longrightarrow> 0 \<le> df_discoveredOrder ?st ! v \<and> df_discoveredOrder ?st ! v < df_discoveredCount ?st"
  proof (intro allI impI)
    fix v assume v: "v < n" "\<not> white ?st v"
    show "0 \<le> df_discoveredOrder ?st ! v \<and> df_discoveredOrder ?st ! v < df_discoveredCount ?st"
    proof (cases "v = here")
      case True then show ?thesis using d here by simp
    next
      case False
      then have "0 \<le> df_discoveredOrder st ! v \<and> df_discoveredOrder st ! v < df_discoveredCount st"
        using v w d by blast
      then show ?thesis using False by simp
    qed
  qed
  moreover have "\<forall>v<n. df_finished ?st ! v \<longrightarrow> \<not> white ?st v"
    using d w by auto
  ultimately show ?thesis using g d unfolding dfs_inv_def by simp
qed

text \<open>Recording the parent of a white node keeps the invariant.\<close>

lemma dfs_inv_parent:
  assumes inv: "dfs_inv n E gs st" and w: "there < n" "white st there"
  shows "dfs_inv n E gs (st\<lparr>df_parent := (df_parent st)[there := k]\<rparr>)" (is "dfs_inv n E gs ?st")
proof -
  note d = inv [unfolded dfs_inv_def]
  have ng: "there \<notin> set gs" using d w by blast
  have same: "white ?st v = white st v" for v by (simp add: white_def)
  have "successively (\<lambda>x y. (y, x) \<in> E \<and> df_parent ?st ! x = int y) gs"
  proof (rule successively_mono)
    show "successively (\<lambda>x y. (y, x) \<in> E \<and> df_parent st ! x = int y) gs"
      using d by (simp add: grays_def)
    fix x y assume "x \<in> set gs" "(y, x) \<in> E \<and> df_parent st ! x = int y"
    moreover from this ng have "x \<noteq> there" by metis
    ultimately show "(y, x) \<in> E \<and> df_parent ?st ! x = int y" by simp
  qed
  then have "grays E ?st gs" using d unfolding grays_def by simp
  moreover have "black n ?st = black n st" by (simp add: black_def)
  ultimately show ?thesis using d unfolding dfs_inv_def same by simp
qed

text \<open>Leaving the current node, all of whose successors are finished, turns it black.\<close>

lemma dfs_inv_finish:
  assumes inv: "dfs_inv n E (here # gs) st" and here: "here < n"
    and E: "E \<subseteq> {..<n} \<times> {..<n}" and succs: "\<And>x. (here, x) \<in> E \<Longrightarrow> df_finished st ! x"
  shows "dfs_inv n E gs (st\<lparr>df_finished := (df_finished st)[here := True]\<rparr>)" (is "dfs_inv n E gs ?st")
proof -
  note d = inv [unfolded dfs_inv_def]
  have same: "white ?st v = white st v" for v by (simp add: white_def)
  have fin: "df_finished ?st ! v \<longleftrightarrow> df_finished st ! v \<or> v = here" if "v < n" for v
    using that d by (cases "v = here") simp_all
  have g: "here \<in> set (here # gs)" by simp
  then have nw: "\<not> white st here" "\<not> df_finished st ! here" using d by blast+
  have irr: "here \<notin> set gs" using d by (auto simp: grays_def)
  have b: "black n ?st = insert here (black n st)" using fin here by (auto simp: black_def)
  have nb: "here \<notin> black n st" using nw by (simp add: black_def)
  have cl: "E `` black n st \<subseteq> black n st" using d by simp
  have E1: "E `` {here} \<subseteq> black n st" using succs E by (auto simp: black_def)
  have r: "E \<inter> black n ?st \<times> black n ?st
      = (E \<inter> black n st \<times> black n st) \<union> (E \<inter> {here} \<times> black n st)"
    unfolding b using cl E1 nb by blast
  have "acyclic (E \<inter> black n ?st \<times> black n ?st)"
    unfolding r using d nb by (intro acyclic_add_source [of _ _ here]) auto
  moreover have "E `` black n ?st \<subseteq> black n ?st" unfolding b using cl E1 by blast
  moreover have "set gs = {v. v < n \<and> \<not> white ?st v \<and> \<not> df_finished ?st ! v}"
  proof -
    have "set gs = set (here # gs) - {here}" using irr by auto
    also have "set (here # gs) = {v. v < n \<and> \<not> white st v \<and> \<not> df_finished st ! v}" using d by blast
    finally show ?thesis using fin unfolding same by blast
  qed
  moreover have "\<forall>v<n. df_finished ?st ! v \<longrightarrow> \<not> white ?st v" using fin nw d unfolding same by blast
  moreover have "grays E ?st gs" using d by (cases gs) (auto simp: grays_def)
  ultimately show ?thesis using d unfolding dfs_inv_def same by simp
qed

text \<open>An edge from the current node to a discovered unfinished one closes a cycle.\<close>

lemma dfs_back_edge:
  assumes inv: "dfs_inv n E (here # gs) st" and edge: "(here, there) \<in> E"
    and irr: "(here, here) \<notin> E" and E: "E \<subseteq> {..<n} \<times> {..<n}"
    and gray: "\<not> white st there" "\<not> df_finished st ! there"
  shows "\<not> acyclic E" and "\<exists>es. report_loop (length (df_parent st)) (df_parent st) here there = Inr es"
    and "df_discoveredOrder st ! there < df_discoveredOrder st ! here"
proof -
  note d = inv [unfolded dfs_inv_def]
  have "there \<in> {v. v < n \<and> \<not> white st v \<and> \<not> df_finished st ! v}" using edge E gray by auto
  then have "there \<in> set (here # gs)" using d by blast
  then have th: "there \<in> set gs" using edge irr by auto
  have suc: "successively (\<lambda>x y. (y, x) \<in> E \<and> df_parent st ! x = int y) (here # gs)"
    using d by (simp add: grays_def)
  show "\<not> acyclic E"
    using chain_path [OF suc th] edge unfolding acyclic_def by (meson r_into_trancl trancl_trans)
  have "set (here # gs) = {v. v < n \<and> \<not> white st v \<and> \<not> df_finished st ! v}" using d by blast
  then have sub: "set (here # gs) \<subseteq> {..<n}" by blast
  have "distinct (here # gs)"
  proof -
    have "sorted_wrt (>) (map ((!) (df_discoveredOrder st)) (here # gs))"
      using d unfolding grays_def by (simp add: sorted_wrt_map)
    then have "distinct (map ((!) (df_discoveredOrder st)) (here # gs))"
      by (metis distinct_rev sorted_wrt_rev strict_sorted_iff)
    then show ?thesis by (auto simp: distinct_map)
  qed
  then have "length (here # gs) \<le> n"
    using card_mono [OF _ sub] by (metis card_lessThan distinct_card finite_lessThan)
  then have len: "length gs \<le> length (df_parent st)" using d by simp
  show "\<exists>es. report_loop (length (df_parent st)) (df_parent st) here there = Inr es"
  proof (rule report_loop_ok [OF suc _ th len])
    have "length (df_parent st) = n" using d by simp
    then show "set (here # gs) \<subseteq> {..<length (df_parent st)}" using sub by simp
  qed
  show "df_discoveredOrder st ! there < df_discoveredOrder st ! here"
    using d th unfolding grays_def by simp
qed

section \<open>Correctness of the search\<close>

lemma edges_Some: "history here = Some ns \<Longrightarrow> (here, x) \<in> edges history \<longleftrightarrow> x \<in> set ns"
  by (simp add: edges_def)

lemma edges_None: "history here = None \<Longrightarrow> (here, x) \<notin> edges history"
  by (simp add: edges_def)

text \<open>What a call needs: white nodes may be entered from the top gray only.\<close>

definition dfs_pre :: "nat \<Rightarrow> (nat \<times> nat) set \<Rightarrow> nat list \<Rightarrow> nat \<Rightarrow> dfs_state \<Rightarrow> bool" where
  "dfs_pre n E gs here st \<longleftrightarrow> dfs_inv n E gs st \<and> here < n
     \<and> (white st here \<and> gs \<noteq> [] \<longrightarrow> (hd gs, here) \<in> E \<and> df_parent st ! here = int (hd gs))"

text \<open>What the loop over the successors needs: those already visited are finished.\<close>

definition next_pre :: "nat \<Rightarrow> (nat \<times> nat) set \<Rightarrow> nat list \<Rightarrow> nat \<Rightarrow> nat list \<Rightarrow> dfs_state \<Rightarrow> bool" where
  "next_pre n E gs here rest st \<longleftrightarrow> dfs_inv n E (here # gs) st \<and> here < n
     \<and> (\<forall>x. (here, x) \<in> E \<longrightarrow> x \<in> set rest \<or> df_finished st ! x)
     \<and> (\<forall>x \<in> set rest. (here, x) \<in> E)"

lemma next_pre_step:
  assumes "next_pre n E gs here (there # rest) st" and "dfs_inv n E (here # gs) st'"
    and "dfs_extends n st st'" and "df_finished st' ! there" and "E \<subseteq> {..<n} \<times> {..<n}"
  shows "next_pre n E gs here rest st'"
  using assms unfolding next_pre_def dfs_extends_def by auto

lemma dfs_post_extend:
  assumes "dfs_post n E gs here st' r" and "dfs_extends n st st'" and "here < n"
    and "\<not> white st here \<Longrightarrow> \<not> df_finished st ! here" and "\<not> white st' here"
    and "\<And>s. r = Searched s \<Longrightarrow> df_finished s ! here"
  shows "dfs_post n E gs here st r"
  using assms unfolding dfs_post_def
  by (auto split: dfs_result.splits intro: dfs_extends_trans)

definition loop_post :: "nat \<Rightarrow> (nat \<times> nat) set \<Rightarrow> nat list \<Rightarrow> nat \<Rightarrow> dfs_state \<Rightarrow> dfs_result \<Rightarrow> bool" where
  "loop_post n E gs here st r \<longleftrightarrow>
     (case r of Searched st' \<Rightarrow> dfs_inv n E gs st' \<and> dfs_extends n st st' \<and> df_finished st' ! here
      | OutOfFuel \<Rightarrow> False
      | DeadlockDetected rep \<Rightarrow> (\<exists>es. rep = Inr es) \<and> \<not> acyclic E)"

lemma loop_post_trans:
  assumes "loop_post n E gs here st' r" and "dfs_extends n st st'"
  shows "loop_post n E gs here st r"
  using assms unfolding loop_post_def by (auto split: dfs_result.splits intro: dfs_extends_trans)

lemma dfs_inv_finished_black: "dfs_inv n E gs st \<Longrightarrow> v < n \<Longrightarrow> df_finished st ! v \<Longrightarrow> \<not> white st v"
  by (simp add: dfs_inv_def)

lemma loop_post_dfs_post: "loop_post n E gs here st r \<Longrightarrow> here < n \<Longrightarrow> dfs_post n E gs here st r"
  unfolding loop_post_def dfs_post_def
  by (auto split: dfs_result.splits dest: dfs_inv_finished_black)

lemma dfs_extends_discover:
  assumes "white st here" and "length (df_discoveredOrder st) = n"
  shows "dfs_extends n st (st\<lparr>df_discoveredOrder := (df_discoveredOrder st)[here := k], df_discoveredCount := c\<rparr>)"
  using assms by (auto simp: dfs_extends_def white_def) (metis nth_list_update_neq)

lemma dfs_extends_finish:
  assumes "length (df_finished st) = n"
  shows "dfs_extends n st (st\<lparr>df_finished := (df_finished st)[here := True]\<rparr>)"
  using assms by (auto simp: dfs_extends_def) (metis nth_list_update_eq nth_list_update_neq)

lemma dfs_extends_parent: "dfs_extends n st (st\<lparr>df_parent := ps\<rparr>)"
  by (simp add: dfs_extends_def)

lemma finish_post:
  assumes "next_pre n E gs here [] st" and "E \<subseteq> {..<n} \<times> {..<n}"
  shows "loop_post n E gs here st (Searched (st\<lparr>df_finished := (df_finished st)[here := True]\<rparr>))"
proof -
  have len: "length (df_finished st) = n" and h: "here < n"
    using assms by (auto simp: next_pre_def dfs_inv_def)
  show ?thesis
    unfolding loop_post_def
    using dfs_inv_finish [of n E here gs st] dfs_extends_finish [OF len] assms h len
    by (auto simp: next_pre_def)
qed

lemma Dfs_correct:
  "\<lbrakk>graph_ok n history; dfs_pre n (edges history) gs here st; num_white n st < fuel\<rbrakk>
     \<Longrightarrow> dfs_post n (edges history) gs here st (Dfs fuel history here st)"
  "\<lbrakk>graph_ok n history; next_pre n (edges history) gs here rest st; num_white n st < fuel\<rbrakk>
     \<Longrightarrow> loop_post n (edges history) gs here st (Dfs_next fuel history here rest st)"
proof (induction fuel history here st and fuel history here rest st
    arbitrary: gs and gs rule: Dfs_Dfs_next.induct)
  case (1 history here st)
  then show ?case by simp
next
  case (2 fuel history here st)
  let ?E = "edges history"
  have E: "?E \<subseteq> {..<n} \<times> {..<n}" using 2 by (simp add: graph_ok_def)
  have inv: "dfs_inv n ?E gs st" and here: "here < n" using 2 by (simp_all add: dfs_pre_def)
  show ?case
  proof (cases "white st here")
    case False
    then show ?thesis using inv by (simp add: dfs_post_def white_def dfs_extends_refl)
  next
    case True
    define st1 where "st1 = st\<lparr>df_discoveredOrder := (df_discoveredOrder st)[here := df_discoveredCount st],
        df_discoveredCount := df_discoveredCount st + 1\<rparr>"
    have inv1: "dfs_inv n ?E (here # gs) st1"
      unfolding st1_def by (rule dfs_inv_discover) (use inv here True 2 in \<open>auto simp: dfs_pre_def\<close>)
    have len: "length (df_discoveredOrder st) = n" "0 \<le> df_discoveredCount st"
      using inv by (simp_all add: dfs_inv_def)
    have w: "num_white n st1 < fuel"
      using num_white_discover [OF here True len(1), of "df_discoveredCount st" st1] len 2 by (simp add: st1_def)
    have ext: "dfs_extends n st st1" unfolding st1_def by (rule dfs_extends_discover [OF True len(1)])
    have post: "loop_post n ?E gs here st1 (Dfs (Suc fuel) history here st)"
    proof (cases "history here")
      case None
      then have "next_pre n ?E gs here [] st1"
        using inv1 here edges_None [of history here] None by (simp add: next_pre_def)
      from finish_post [OF this E] show ?thesis
        using None True by (simp add: white_def st1_def Let_def)
    next
      case (Some ns)
      then have "next_pre n ?E gs here ns st1"
        using inv1 here edges_Some [of history here] Some by (simp add: next_pre_def)
      from "2.IH" [OF _ _ Some, of st1, OF _ _ "2.prems"(1) this w] show ?thesis
        using Some True by (simp add: white_def st1_def Let_def)
    qed
    show ?thesis by (rule loop_post_dfs_post [OF loop_post_trans [OF post ext] here])
  qed
next
  case (3 fuel history here st)
  then show ?case by (auto intro!: finish_post simp: graph_ok_def)
next
  case (4 fuel history here there rest st)
  let ?E = "edges history"
  have E: "?E \<subseteq> {..<n} \<times> {..<n}" and irr: "(here, here) \<notin> ?E" using 4 by (auto simp: graph_ok_def)
  have inv: "dfs_inv n ?E (here # gs) st" and here: "here < n" and edge: "(here, there) \<in> ?E"
    using "4.prems" by (simp_all add: next_pre_def)
  have there: "there < n" using edge E by auto
  show ?case
  proof (cases "white st there")
    case True
    define st1 where "st1 = st\<lparr>df_parent := (df_parent st)[there := int here]\<rparr>"
    have len: "length (df_parent st) = n" using inv by (simp add: dfs_inv_def)
    have inv1: "dfs_inv n ?E (here # gs) st1"
      unfolding st1_def by (rule dfs_inv_parent [OF inv there True])
    have w1: "white st1 v = white st v" for v by (simp add: st1_def white_def)
    have "dfs_pre n ?E (here # gs) there st1"
      using inv1 there edge len by (simp add: dfs_pre_def st1_def)
    from "4.IH"(1) [OF _ "4.prems"(1), of "here # gs", folded st1_def, OF _ this]
    have post: "dfs_post n ?E (here # gs) there st1 (Dfs fuel history there st1)"
      using True "4.prems"(3) by (simp add: white_def num_white_def st1_def)
    have ext: "dfs_extends n st st1" by (simp add: st1_def dfs_extends_parent)
    show ?thesis
    proof (cases "Dfs fuel history there st1")
      case (Searched st')
      have ext': "dfs_extends n st st'"
        using post ext Searched by (auto simp: dfs_post_def intro: dfs_extends_trans)
      have "next_pre n ?E gs here rest st'"
        by (rule next_pre_step [OF "4.prems"(2) _ ext' _ E])
          (use post Searched True w1 in \<open>simp_all add: dfs_post_def\<close>)
      from "4.IH"(2) [OF _ Searched [unfolded st1_def] "4.prems"(1) this]
      have "loop_post n ?E gs here st' (Dfs_next fuel history here rest st')"
        using True "4.prems"(3) dfs_extends_white [OF ext'] by (simp add: white_def)
      then show ?thesis
        using loop_post_trans [OF _ ext'] True Searched by (simp add: white_def st1_def)
    next
      case OutOfFuel
      then show ?thesis using post by (simp add: dfs_post_def)
    next
      case (DeadlockDetected r)
      then show ?thesis using post True by (simp add: dfs_post_def loop_post_def white_def st1_def)
    qed
  next
    case False
    show ?thesis
    proof (cases "df_finished st ! there")
      case fin: True
      have "next_pre n ?E gs here rest st"
        by (rule next_pre_step [OF "4.prems"(2) inv dfs_extends_refl fin E])
      then have "loop_post n ?E gs here st (Dfs_next fuel history here rest st)"
        using "4.IH"(3,4) False fin "4.prems" by (cases "df_discoveredOrder st ! here < df_discoveredOrder st ! there") (auto simp: white_def)
      then show ?thesis using False fin by (simp add: white_def)
    next
      case unf: False
      note backedge = dfs_back_edge [OF inv edge irr E False unf]
      then show ?thesis using False unf by (auto simp: loop_post_def white_def)
    qed
  qed
qed

lemma dfs_inv_new: "dfs_inv n E [] (new_dfs_state n)"
proof -
  have "black n (new_dfs_state n) = {}" by (auto simp: black_def new_dfs_state_def)
  then show ?thesis by (auto simp: dfs_inv_def acyclic_def) (auto simp: new_dfs_state_def white_def grays_def)
qed

lemma search_all_correct:
  assumes "graph_ok n history" and "dfs_inv n (edges history) [] st"
    and "set ids \<subseteq> {..<n}" and "num_white n st < fuel"
  shows "case search_all fuel history ids st of
           Searched st' \<Rightarrow> dfs_inv n (edges history) [] st' \<and> dfs_extends n st st' \<and> (\<forall>i \<in> set ids. \<not> white st' i)
         | OutOfFuel \<Rightarrow> False
         | DeadlockDetected rep \<Rightarrow> (\<exists>es. rep = Inr es) \<and> \<not> acyclic (edges history)"
  using assms
proof (induction ids arbitrary: st)
  case Nil then show ?case by (simp add: dfs_extends_refl)
next
  case (Cons i ids)
  have post: "dfs_post n (edges history) [] i st (Dfs fuel history i st)"
    by (rule Dfs_correct(1)) (use Cons.prems in \<open>auto simp: dfs_pre_def\<close>)
  show ?case
  proof (cases "Dfs fuel history i st")
    case (Searched st')
    then have p: "dfs_inv n (edges history) [] st'" "dfs_extends n st st'" "\<not> white st' i"
      using post by (auto simp: dfs_post_def)
    have w: "num_white n st' < fuel" using dfs_extends_white [OF p(2)] Cons.prems by simp
    have keep: "\<not> white st'' i" if "dfs_extends n st' st''" for st''
      using that p(3) Cons.prems(3) by (auto simp: dfs_extends_def white_def)
    show ?thesis
      using Cons.IH [OF Cons.prems(1) p(1) _ w] Cons.prems(3) Searched keep dfs_extends_trans [OF p(2)]
      by (auto split: dfs_result.splits)
  qed (use post in \<open>auto simp: dfs_post_def\<close>)
qed

text \<open>The search always ends, and crashes exactly when the recorded order has a cycle.\<close>

lemma CheckCycle_correct:
  assumes ok: "graph_ok (length (pf_nameToId p)) (pf_lockHistory p)"
  shows "(acyclic (edges (pf_lockHistory p)) \<longrightarrow> (\<exists>st. CheckCycle p = Searched st))
       \<and> (\<not> acyclic (edges (pf_lockHistory p)) \<longrightarrow> (\<exists>es. CheckCycle p = DeadlockDetected (Inr es)))"
proof -
  define n where "n = length (pf_nameToId p)"
  let ?E = "edges (pf_lockHistory p)"
  have "num_white n (new_dfs_state n) \<le> card {..<n}"
    unfolding num_white_def by (rule card_mono) auto
  then have w: "num_white n (new_dfs_state n) < Suc n" by simp
  have "set [0..<n] \<subseteq> {..<n}" by auto
  note r = search_all_correct [OF ok [folded n_def] dfs_inv_new this w]
  have C: "CheckCycle p = search_all (Suc n) (pf_lockHistory p) [0..<n] (new_dfs_state n)"
    by (simp add: CheckCycle_def n_def Let_def)
  show ?thesis
  proof (cases "CheckCycle p")
    case (Searched st)
    then have inv: "dfs_inv n ?E [] st" and w: "\<forall>i<n. \<not> white st i"
      using r by (auto simp: C)
    have "set [] = {v. v < n \<and> \<not> white st v \<and> \<not> df_finished st ! v}" using inv by (simp add: dfs_inv_def)
    then have "black n st = {..<n}" using w by (auto simp: black_def)
    then have "?E \<inter> black n st \<times> black n st = ?E" using ok by (auto simp: graph_ok_def n_def)
    then have "acyclic ?E" using inv by (simp add: dfs_inv_def)
    then show ?thesis using Searched by simp
  qed (use r in \<open>auto simp: C\<close>)
qed

section \<open>The profiler as a whole\<close>

text \<open>
  The invariant PushLock and PopLock keep for a thread's stack: ids are the positions of distinct
  names, the stack holds known ids, and the recorded order has no cycle.
\<close>

definition profiler_inv :: "nat list \<Rightarrow> profiler \<Rightarrow> bool" where
  "profiler_inv stack p \<longleftrightarrow>
     distinct (map fst (pf_nameToId p)) \<and> snd ` set (pf_nameToId p) = {..<length (pf_nameToId p)}
     \<and> set stack \<subseteq> {..<length (pf_nameToId p)}
     \<and> graph_ok (length (pf_nameToId p)) (pf_lockHistory p) \<and> acyclic (edges (pf_lockHistory p))"

definition new_profiler :: profiler where
  "new_profiler = \<lparr>pf_nameToId = [], pf_idToName = [], pf_lockHistory = Map.empty\<rparr>"

lemma profiler_inv_new: "profiler_inv [] new_profiler"
  by (simp add: profiler_inv_def new_profiler_def graph_ok_def edges_def acyclic_def)

lemma graph_ok_mono: "graph_ok n h \<Longrightarrow> n \<le> m \<Longrightarrow> graph_ok m h"
  by (auto simp: graph_ok_def)

lemma lock_id_of_inv:
  assumes "profiler_inv stack p" and "lock_id_of name p = (i, p')"
  shows "profiler_inv stack p'" and "i < length (pf_nameToId p')" and "map_of (pf_nameToId p') name = Some i"
    and "pf_lockHistory p' = pf_lockHistory p"
    and "map_of (pf_nameToId p) name = Some i \<or> (map_of (pf_nameToId p) name = None \<and> i = length (pf_nameToId p))"
proof -
  let ?N = "pf_nameToId p"
  have "profiler_inv stack p' \<and> i < length (pf_nameToId p') \<and> map_of (pf_nameToId p') name = Some i
      \<and> pf_lockHistory p' = pf_lockHistory p
      \<and> (map_of ?N name = Some i \<or> (map_of ?N name = None \<and> i = length ?N))"
  proof (cases "map_of ?N name")
    case None
    then have "name \<notin> fst ` set ?N" by (simp add: map_of_eq_None_iff)
    moreover have "b < Suc (length ?N)" if "(a, b) \<in> set ?N" for a b
    proof -
      have "b \<in> snd ` set ?N" using that by force
      then show ?thesis using assms(1) by (simp add: profiler_inv_def)
    qed
    ultimately show ?thesis using None assms graph_ok_mono [of "length ?N" _ "Suc (length ?N)"]
      by (auto simp: lock_id_of_def profiler_inv_def Let_def lessThan_Suc)
  next
    case (Some j)
    have "j \<in> snd ` set ?N" using map_of_SomeD [OF Some] by force
    then show ?thesis using Some assms by (auto simp: lock_id_of_def profiler_inv_def)
  qed
  then show "profiler_inv stack p'" "i < length (pf_nameToId p')" "map_of (pf_nameToId p') name = Some i"
    "pf_lockHistory p' = pf_lockHistory p"
    "map_of ?N name = Some i \<or> (map_of ?N name = None \<and> i = length ?N)" by blast+
qed

lemma edges_touch [simp]: "edges (pf_lockHistory (touch_history a p)) = edges (pf_lockHistory p)"
  by (auto simp: edges_def touch_history_def history_of_def split: option.splits if_splits)

lemma edges_add [simp]: "edges (pf_lockHistory (add_edge a b p)) = insert (a, b) (edges (pf_lockHistory p))"
  by (auto simp: edges_def add_edge_def history_of_def set_insort_key split: option.splits if_splits)

lemma names_kept [simp]:
  "pf_nameToId (touch_history a p) = pf_nameToId p" "pf_nameToId (add_edge a b p) = pf_nameToId p"
  by (simp_all add: touch_history_def add_edge_def)

lemma history_of_edges: "b \<in> set (history_of p a) \<longleftrightarrow> (a, b) \<in> edges (pf_lockHistory p)"
  by (cases "pf_lockHistory p a") (auto simp: edges_def history_of_def)

text \<open>PushLock crashes exactly when the new edge closes a cycle, and keeps the invariant otherwise.\<close>

definition closes_cycle :: "nat \<Rightarrow> nat list \<Rightarrow> profiler \<Rightarrow> bool" where
  "closes_cycle name stack p \<longleftrightarrow>
     (case (stack, map_of (pf_nameToId p) name) of
        (prevId # _, Some lockId) \<Rightarrow> (lockId, prevId) \<in> (edges (pf_lockHistory p))\<^sup>+
      | _ \<Rightarrow> False)"

lemma closes_cycle_iff:
  assumes inv: "profiler_inv (prevId # stack) p" and i: "lock_id_of name p = (i, p1)" and ne: "i \<noteq> prevId"
  shows "closes_cycle name (prevId # stack) p \<longleftrightarrow> (i, prevId) \<in> (edges (pf_lockHistory p))\<^sup>*"
proof (cases "map_of (pf_nameToId p) name")
  case None
  then have "i = length (pf_nameToId p)" using lock_id_of_inv(5) [OF inv i] by simp
  moreover have "edges (pf_lockHistory p) \<subseteq> {..<length (pf_nameToId p)} \<times> {..<length (pf_nameToId p)}"
    using inv by (simp add: profiler_inv_def graph_ok_def)
  ultimately have "(i, x) \<notin> edges (pf_lockHistory p)" for x by auto
  then have "(i, prevId) \<notin> (edges (pf_lockHistory p))\<^sup>*" using ne by (meson converse_rtranclE)
  then show ?thesis using None by (simp add: closes_cycle_def)
next
  case (Some j)
  then have "j = i" using i by (simp add: lock_id_of_def)
  then show ?thesis using Some ne by (simp add: closes_cycle_def rtrancl_eq_or_trancl)
qed

lemma PushLock_correct:
  assumes inv: "profiler_inv stack p"
  shows "if closes_cycle name stack p then PushLock name stack p = CRASH ''DEADLOCK_DETECTED''
         else \<exists>lockId p'. PushLock name stack p = Inr (lockId # stack, p') \<and> profiler_inv (lockId # stack) p'
              \<and> map_of (pf_nameToId p') name = Some lockId
              \<and> edges (pf_lockHistory p')
                = edges (pf_lockHistory p) \<union> (case stack of [] \<Rightarrow> {} | prevId # _ \<Rightarrow> {(prevId, lockId)} - {(lockId, lockId)})"
proof -
  obtain i p1 where ip: "lock_id_of name p = (i, p1)" by fastforce
  note l = lock_id_of_inv [OF inv ip]
  let ?E = "edges (pf_lockHistory p)"
  show ?thesis
  proof (cases stack)
    case Nil
    then show ?thesis using ip l by (auto simp: PushLock_def closes_cycle_def profiler_inv_def)
  next
    case (Cons prevId rest)
    have inv1: "profiler_inv (prevId # rest) p" using inv Cons by simp
    show ?thesis
    proof (cases "i = prevId")
      case True
      have "(i, i) \<notin> ?E\<^sup>+" using inv by (simp add: profiler_inv_def acyclic_def)
      then have "\<not> closes_cycle name stack p"
        using l(5) Cons inv True by (auto simp: closes_cycle_def profiler_inv_def)
      then show ?thesis using True Cons ip l by (auto simp: PushLock_def profiler_inv_def)
    next
      case ne: False
      note cc = closes_cycle_iff [OF inv1 ip ne]
      define p3 where "p3 = add_edge prevId i (touch_history prevId p1)"
      have E3: "edges (pf_lockHistory p3) = insert (prevId, i) ?E" using l(4) by (simp add: p3_def)
      have ok3: "graph_ok (length (pf_nameToId p3)) (pf_lockHistory p3)"
        using l(1,2) ne Cons l(4) by (auto simp: graph_ok_def E3 profiler_inv_def p3_def)
      have ac: "acyclic ?E" using inv by (simp add: profiler_inv_def)
      have ac3: "acyclic (edges (pf_lockHistory p3)) \<longleftrightarrow> \<not> closes_cycle name stack p"
        using ac cc Cons by (simp add: E3 acyclic_insert)
      show ?thesis
      proof (cases "(prevId, i) \<in> ?E")
        case True
        then have "insert (prevId, i) ?E = ?E" by blast
        then have ncc: "\<not> closes_cycle name stack p" using ac ac3 E3 by simp
        have "PushLock name stack p = Inr (i # stack, touch_history prevId p1)"
          using True ne Cons ip l(4) by (simp add: PushLock_def history_of_edges Let_def)
        then show ?thesis using ncc l True Cons by (auto simp: profiler_inv_def graph_ok_def)
      next
        case False
        then have P: "PushLock name stack p = (case CheckCycle p3 of
              Searched _ \<Rightarrow> Inr (i # stack, p3) | OutOfFuel \<Rightarrow> Inl (UndefinedBehaviour ''out of fuel'')
            | DeadlockDetected (Inl e) \<Rightarrow> Inl e | DeadlockDetected (Inr _) \<Rightarrow> CRASH ''DEADLOCK_DETECTED'')"
          unfolding Cons p3_def using ne ip l(4) by (simp add: PushLock_def history_of_edges Let_def)
        show ?thesis
        proof (cases "closes_cycle name stack p")
          case True
          then show ?thesis using CheckCycle_correct [OF ok3] ac3 P by auto
        next
          case ncc: False
          then obtain st where "CheckCycle p3 = Searched st" using CheckCycle_correct [OF ok3] ac3 by auto
          moreover have "profiler_inv (i # stack) p3"
            using l(1,2) ok3 ac3 ncc by (simp add: profiler_inv_def p3_def)
          ultimately show ?thesis using P ncc ne Cons l(3) by (auto simp: E3, auto simp: p3_def)
        qed
      qed
    qed
  qed
qed

lemma PopLock_top:
  assumes "profiler_inv (lockId # stack) p" and "map_of (pf_nameToId p) name = Some lockId"
  shows "PopLock name (lockId # stack) p = Inr (stack, p) \<and> profiler_inv stack p"
  using assms by (simp add: PopLock_def profiler_inv_def)

lemma PopLock_other:
  assumes "map_of (pf_nameToId p) name = Some j" and "j \<noteq> lockId"
  shows "PopLock name (lockId # stack) p = CRASH ''INVALID_UNLOCK''"
  using assms by (simp add: PopLock_def)

end
