(* ===== verification/LockQueue.thy ===== *)
theory LockQueue imports Prelude begin

text \<open>
  The queue contract the job system relies on, as a locale, and ServerCore/LockQueue.h with
  GlobalQueue on top of it. Every operation of LockQueue runs under its lock, so it is one step.
  The element type of a LockQueue is a pointer: None stands for the null pointer \<open>T()\<close>.
\<close>

section \<open>Queues\<close>

text \<open>Taking elements until the queue reports none, as PopAll does; None when the fuel is used up.\<close>

primrec drain :: "('q \<Rightarrow> ('a option \<times> 'q) result) \<Rightarrow> nat \<Rightarrow> 'q \<Rightarrow> ('a list \<times> 'q) option result" where
  "drain pop 0 q = Inr None"
| "drain pop (Suc n) q =
     bind_result (pop q) (\<lambda>(x, q').
       case x of None \<Rightarrow> Inr (Some ([], q'))
       | Some a \<Rightarrow> bind_result (drain pop n q') (\<lambda>r. Inr (map_option (\<lambda>(xs, q''). (a # xs, q'')) r)))"

primrec push_all :: "('a \<Rightarrow> 'q \<Rightarrow> 'q result) \<Rightarrow> 'a list \<Rightarrow> 'q \<Rightarrow> 'q result" where
  "push_all push [] q = Inr q"
| "push_all push (x # xs) q = bind_result (push x q) (push_all push xs)"

locale fifo_queue =
  fixes inv :: "'q \<Rightarrow> bool" and contents :: "'q \<Rightarrow> 'a list"
    and push :: "'a \<Rightarrow> 'q \<Rightarrow> 'q result" and pop :: "'q \<Rightarrow> ('a option \<times> 'q) result"
  assumes push_ok: "inv q \<Longrightarrow> \<exists>q'. push x q = Inr q' \<and> inv q' \<and> contents q' = contents q @ [x]"
    and pop_empty: "inv q \<Longrightarrow> contents q = [] \<Longrightarrow> \<exists>q'. pop q = Inr (None, q') \<and> inv q' \<and> contents q' = []"
    and pop_first: "inv q \<Longrightarrow> contents q = x # xs \<Longrightarrow> \<exists>q'. pop q = Inr (Some x, q') \<and> inv q' \<and> contents q' = xs"
begin

lemma push_all_ok:
  "inv q \<Longrightarrow> \<exists>q'. push_all push xs q = Inr q' \<and> inv q' \<and> contents q' = contents q @ xs"
proof (induction xs arbitrary: q)
  case (Cons x xs)
  then show ?case using push_ok [of q x] by fastforce
qed simp

lemma drain_ok:
  "inv q \<Longrightarrow> length (contents q) < n \<Longrightarrow> \<exists>q'. drain pop n q = Inr (Some (contents q, q')) \<and> inv q' \<and> contents q' = []"
proof (induction n arbitrary: q)
  case (Suc n)
  show ?case
  proof (cases "contents q")
    case Nil
    then show ?thesis using pop_empty [OF Suc.prems(1)] by auto
  next
    case (Cons x xs)
    then obtain q1 where q1: "pop q = Inr (Some x, q1)" "inv q1" "contents q1 = xs"
      using pop_first [OF Suc.prems(1)] by blast
    then show ?thesis using Suc.IH [OF q1(2)] Suc.prems(2) Cons by auto
  qed
qed simp

text \<open>What goes in comes out once, in order, behind what was there.\<close>

lemma push_drain:
  assumes "inv q" and "length (contents q) + length xs < n"
  shows "\<exists>q1 q2. push_all push xs q = Inr q1 \<and> drain pop n q1 = Inr (Some (contents q @ xs, q2)) \<and> inv q2 \<and> contents q2 = []"
proof -
  obtain q1 where q1: "push_all push xs q = Inr q1" "inv q1" "contents q1 = contents q @ xs"
    using push_all_ok [OF assms(1)] by blast
  then show ?thesis using drain_ok [OF q1(2)] assms(2) by fastforce
qed

end

section \<open>LockQueue\<close>

record 'a lock_queue =
  lq_items :: "'a option list"

definition new_LockQueue :: "'a lock_queue" where
  "new_LockQueue = \<lparr>lq_items = []\<rparr>"

definition LockQueue_Push :: "'a option \<Rightarrow> 'a lock_queue \<Rightarrow> 'a lock_queue" where
  "LockQueue_Push item q = q\<lparr>lq_items := lq_items q @ [item]\<rparr>"

definition LockQueue_Pop :: "'a lock_queue \<Rightarrow> 'a option \<times> 'a lock_queue" where
  "LockQueue_Pop q =
     (case lq_items q of
        [] \<Rightarrow> (None, q)
      | ret # rest \<Rightarrow> (ret, q\<lparr>lq_items := rest\<rparr>))"

definition LockQueue_PopAll :: "'a option list \<Rightarrow> 'a lock_queue \<Rightarrow> 'a option list \<times> 'a lock_queue" where
  "LockQueue_PopAll items q = (items @ lq_items q, q\<lparr>lq_items := []\<rparr>)"

text \<open>A count of zero or less pops nothing; a null element is popped and dropped.\<close>

primrec PopCount_loop :: "nat \<Rightarrow> 'a option list \<Rightarrow> 'a lock_queue \<Rightarrow> 'a option list \<times> 'a lock_queue" where
  "PopCount_loop 0 items q = (items, q)"
| "PopCount_loop (Suc n) items q =
     (let (item, q') = LockQueue_Pop q
      in PopCount_loop n (case item of None \<Rightarrow> items | Some a \<Rightarrow> items @ [item]) q')"

definition LockQueue_PopCount :: "int32 \<Rightarrow> 'a option list \<Rightarrow> 'a lock_queue \<Rightarrow> 'a option list \<times> 'a lock_queue" where
  "LockQueue_PopCount count items q = PopCount_loop (nat count) items q"

definition LockQueue_Clear :: "'a lock_queue \<Rightarrow> 'a lock_queue" where
  "LockQueue_Clear q = q\<lparr>lq_items := []\<rparr>"

definition no_null :: "'a lock_queue \<Rightarrow> bool" where
  "no_null q \<longleftrightarrow> None \<notin> set (lq_items q)"

definition lq_contents :: "'a lock_queue \<Rightarrow> 'a list" where
  "lq_contents q = map the (lq_items q)"

interpretation lq: fifo_queue no_null lq_contents "\<lambda>x q. Inr (LockQueue_Push (Some x) q)" "\<lambda>q. Inr (LockQueue_Pop q)"
  by unfold_locales (auto simp: no_null_def lq_contents_def LockQueue_Push_def LockQueue_Pop_def split: list.splits)

lemma PopCount_loop_takes:
  "no_null q \<Longrightarrow> PopCount_loop n items q = (items @ take n (lq_items q), q\<lparr>lq_items := drop n (lq_items q)\<rparr>)"
proof (induction n arbitrary: items q)
  case (Suc n)
  show ?case
  proof (cases "lq_items q")
    case Nil
    then show ?thesis using Suc.IH [OF Suc.prems] by (simp add: LockQueue_Pop_def)
  next
    case (Cons x xs)
    then have "no_null (q\<lparr>lq_items := xs\<rparr>)" using Suc.prems by (simp add: no_null_def)
    moreover obtain a where "x = Some a" using Suc.prems Cons by (cases x) (auto simp: no_null_def)
    ultimately show ?thesis using Suc.IH [of "q\<lparr>lq_items := xs\<rparr>"] Cons by (simp add: LockQueue_Pop_def)
  qed
qed simp

text \<open>A null element hides the rest from PopAll's variant on top of Pop, not from LockQueue's own.\<close>

lemma PopAll_PopCount:
  assumes "no_null q"
  shows "LockQueue_PopAll items q = LockQueue_PopCount (int (length (lq_items q))) items q"
  using PopCount_loop_takes [OF assms, of "length (lq_items q)" items]
  by (simp add: LockQueue_PopAll_def LockQueue_PopCount_def)

section \<open>GlobalQueue\<close>

text \<open>A queue of job queues, named by \<open>nat\<close>.\<close>

type_synonym global_queue = "nat lock_queue"

definition GlobalQueue_Push :: "nat \<Rightarrow> global_queue \<Rightarrow> global_queue" where
  "GlobalQueue_Push jobQueue g = LockQueue_Push (Some jobQueue) g"

definition GlobalQueue_Pop :: "global_queue \<Rightarrow> nat option \<times> global_queue" where
  "GlobalQueue_Pop g = LockQueue_Pop g"

lemma GlobalQueue_items:
  "lq_items (GlobalQueue_Push q g) = lq_items g @ [Some q]"
  "lq_items g = Some q # rest \<Longrightarrow> GlobalQueue_Pop g = (Some q, g\<lparr>lq_items := rest\<rparr>)"
  "lq_items g = [] \<Longrightarrow> GlobalQueue_Pop g = (None, g)"
  by (simp_all add: GlobalQueue_Push_def LockQueue_Push_def GlobalQueue_Pop_def LockQueue_Pop_def)

end
