(* ===== verification/JobQueue.thy ===== *)
theory JobQueue imports LockQueue begin

text \<open>
  ServerCore/JobQueue.h and JobQueue.cpp, the worker loop of ThreadManager.cpp and the thread-local
  variables of TLS.h it uses: any number of threads push jobs into any number of job queues and
  execute them. A step is one access to shared memory. A job queue is named by \<open>nat\<close>; jobs are values,
  and running one appends it to the trace \<open>js_ran\<close>. What a running job does itself (pushing more
  jobs, also into its own queue) is the pushing side of the same thread, between two jobs.
  \<open>js_linked\<close> records the jobs in the order they entered each queue, \<open>js_lost\<close> what ClearJobs dropped.
\<close>

section \<open>Threads\<close>

text \<open>JobQueue::Push: after \<open>fetch_add\<close> (with prevCount), and after the job has been linked.\<close>

datatype 'j push_pc =
    PushNone
  | PushLink nat 'j bool int32
  | PushDecide nat bool int32

text \<open>JobQueue::Execute: popping, running the batch of \<open>n\<close> jobs, checking the clock, and handing the
  queue over.\<close>

datatype 'j exec_pc =
    ExecNone
  | ExecPop nat "'j list"
  | ExecRun nat "'j list" nat
  | ExecTick nat
  | ExecToss nat

record 'j worker =
  wk_push :: "'j push_pc"
  wk_exec :: "'j exec_pc"
  wk_LCurrentJobQueue :: "nat option"
  wk_LEndTickCount :: uint64

record 'j job_sys =
  js_jobs :: "nat \<Rightarrow> 'j list"
  js_jobCount :: "nat \<Rightarrow> int32"
  js_global :: "nat list"
  js_workers :: "nat \<Rightarrow> 'j worker"
  js_ran :: "nat \<Rightarrow> 'j list"
  js_linked :: "nat \<Rightarrow> 'j list"
  js_lost :: "nat \<Rightarrow> nat"

definition new_worker :: "'j worker" where
  "new_worker = \<lparr>wk_push = PushNone, wk_exec = ExecNone, wk_LCurrentJobQueue = None, wk_LEndTickCount = 0\<rparr>"

definition job_init :: "'j job_sys" where
  "job_init = \<lparr>js_jobs = (\<lambda>_. []), js_jobCount = (\<lambda>_. 0), js_global = [], js_workers = (\<lambda>_. new_worker),
     js_ran = (\<lambda>_. []), js_linked = (\<lambda>_. []), js_lost = (\<lambda>_. 0)\<rparr>"

definition upd_worker :: "nat \<Rightarrow> ('j worker \<Rightarrow> 'j worker) \<Rightarrow> 'j job_sys \<Rightarrow> 'j job_sys" where
  "upd_worker t f s = s\<lparr>js_workers := (js_workers s)(t := f (js_workers s t))\<rparr>"

definition CheckSync :: "nat \<Rightarrow> 'j worker \<Rightarrow> bool" where
  "CheckSync q w \<longleftrightarrow> wk_LCurrentJobQueue w = Some q"

section \<open>The steps of Push\<close>

definition push_begin :: "nat \<Rightarrow> nat \<Rightarrow> 'j \<Rightarrow> bool \<Rightarrow> 'j job_sys \<Rightarrow> 'j job_sys" where
  "push_begin t q job pushOnly s =
     upd_worker t (\<lambda>w. w\<lparr>wk_push := PushLink q job pushOnly (js_jobCount s q)\<rparr>)
       (s\<lparr>js_jobCount := (js_jobCount s)(q := to_int32 (js_jobCount s q + 1))\<rparr>)"

definition push_link :: "nat \<Rightarrow> nat \<Rightarrow> 'j \<Rightarrow> bool \<Rightarrow> int32 \<Rightarrow> 'j job_sys \<Rightarrow> 'j job_sys" where
  "push_link t q job pushOnly prevCount s =
     upd_worker t (\<lambda>w. w\<lparr>wk_push := PushDecide q pushOnly prevCount\<rparr>)
       (s\<lparr>js_jobs := (js_jobs s)(q := js_jobs s q @ [job]), js_linked := (js_linked s)(q := js_linked s q @ [job])\<rparr>)"

text \<open>The start of Execute: \<open>LCurrentJobQueue = this\<close>.\<close>

definition start_execute :: "nat \<Rightarrow> 'j worker \<Rightarrow> 'j worker" where
  "start_execute q w = w\<lparr>wk_exec := ExecPop q [], wk_LCurrentJobQueue := Some q\<rparr>"

definition push_decide :: "nat \<Rightarrow> nat \<Rightarrow> bool \<Rightarrow> int32 \<Rightarrow> 'j job_sys \<Rightarrow> 'j job_sys" where
  "push_decide t q pushOnly prevCount s =
     (if prevCount = 0 then
        if wk_LCurrentJobQueue (js_workers s t) = None \<and> pushOnly = False
        then upd_worker t (\<lambda>w. start_execute q (w\<lparr>wk_push := PushNone\<rparr>)) s
        else upd_worker t (\<lambda>w. w\<lparr>wk_push := PushNone\<rparr>) (s\<lparr>js_global := js_global s @ [q]\<rparr>)
      else upd_worker t (\<lambda>w. w\<lparr>wk_push := PushNone\<rparr>) s)"

section \<open>The steps of Execute\<close>

text \<open>One Pop of PopAll: a job joins the batch, or the batch is complete.\<close>

definition exec_pop :: "nat \<Rightarrow> nat \<Rightarrow> 'j list \<Rightarrow> 'j job_sys \<Rightarrow> 'j job_sys" where
  "exec_pop t q batch s =
     (case js_jobs s q of
        [] \<Rightarrow> upd_worker t (\<lambda>w. w\<lparr>wk_exec := ExecRun q batch (length batch)\<rparr>) s
      | job # rest \<Rightarrow> upd_worker t (\<lambda>w. w\<lparr>wk_exec := ExecPop q (batch @ [job])\<rparr>)
          (s\<lparr>js_jobs := (js_jobs s)(q := rest)\<rparr>))"

definition exec_run :: "nat \<Rightarrow> nat \<Rightarrow> 'j \<Rightarrow> 'j list \<Rightarrow> nat \<Rightarrow> 'j job_sys \<Rightarrow> 'j job_sys" where
  "exec_run t q job todo n s =
     upd_worker t (\<lambda>w. w\<lparr>wk_exec := ExecRun q todo n\<rparr>) (s\<lparr>js_ran := (js_ran s)(q := js_ran s q @ [job])\<rparr>)"

text \<open>\<open>_jobCount.fetch_sub(jobCount) == jobCount\<close>: nothing is left, and the queue is released.\<close>

definition exec_sub :: "nat \<Rightarrow> nat \<Rightarrow> nat \<Rightarrow> 'j job_sys \<Rightarrow> 'j job_sys" where
  "exec_sub t q n s =
     (let jobCount = to_int32 (int n);
          s1 = s\<lparr>js_jobCount := (js_jobCount s)(q := to_int32 (js_jobCount s q - jobCount))\<rparr>
      in if js_jobCount s q = jobCount
         then upd_worker t (\<lambda>w. w\<lparr>wk_exec := ExecNone, wk_LCurrentJobQueue := None\<rparr>) s1
         else upd_worker t (\<lambda>w. w\<lparr>wk_exec := ExecTick q\<rparr>) s1)"

definition exec_tick :: "nat \<Rightarrow> nat \<Rightarrow> uint64 \<Rightarrow> 'j job_sys \<Rightarrow> 'j job_sys" where
  "exec_tick t q now s =
     (if now \<ge> wk_LEndTickCount (js_workers s t)
      then upd_worker t (\<lambda>w. w\<lparr>wk_exec := ExecToss q, wk_LCurrentJobQueue := None\<rparr>) s
      else upd_worker t (\<lambda>w. w\<lparr>wk_exec := ExecPop q []\<rparr>) s)"

definition exec_toss :: "nat \<Rightarrow> nat \<Rightarrow> 'j job_sys \<Rightarrow> 'j job_sys" where
  "exec_toss t q s = upd_worker t (\<lambda>w. w\<lparr>wk_exec := ExecNone\<rparr>) (s\<lparr>js_global := js_global s @ [q]\<rparr>)"

text \<open>One round of ThreadManager::DoGlobalQueueWork: the thread's time is over, there is nothing to
  do, or a queue is taken and executed.\<close>

definition global_work :: "nat \<Rightarrow> uint64 \<Rightarrow> 'j job_sys \<Rightarrow> 'j job_sys" where
  "global_work t now s =
     (if now > wk_LEndTickCount (js_workers s t) then s
      else case js_global s of
             [] \<Rightarrow> s
           | q # rest \<Rightarrow> upd_worker t (start_execute q) (s\<lparr>js_global := rest\<rparr>))"

text \<open>JobQueue::ClearJobs pops every linked job and leaves \<open>_jobCount\<close> as it is.\<close>

definition ClearJobs :: "nat \<Rightarrow> 'j job_sys \<Rightarrow> 'j job_sys" where
  "ClearJobs q s = s\<lparr>js_jobs := (js_jobs s)(q := []), js_lost := (js_lost s)(q := js_lost s q + length (js_jobs s q)),
     js_linked := (js_linked s)(q := take (length (js_linked s q) - length (js_jobs s q)) (js_linked s q))\<rparr>"

section \<open>Interleavings\<close>

text \<open>A thread runs code of its own when it executes nothing, or inside a job of its batch.\<close>

definition user_code :: "'j worker \<Rightarrow> bool" where
  "user_code w \<longleftrightarrow> wk_push w = PushNone \<and> (wk_exec w = ExecNone \<or> (\<exists>q todo n. wk_exec w = ExecRun q todo n))"

inductive job_step :: "nat set \<Rightarrow> 'j job_sys \<Rightarrow> 'j job_sys \<Rightarrow> bool" for ts where
  step_begin: "t \<in> ts \<Longrightarrow> user_code (js_workers s t) \<Longrightarrow> job_step ts s (push_begin t q job pushOnly s)"
| step_link: "t \<in> ts \<Longrightarrow> wk_push (js_workers s t) = PushLink q job pushOnly prevCount
    \<Longrightarrow> job_step ts s (push_link t q job pushOnly prevCount s)"
| step_decide: "t \<in> ts \<Longrightarrow> wk_push (js_workers s t) = PushDecide q pushOnly prevCount
    \<Longrightarrow> job_step ts s (push_decide t q pushOnly prevCount s)"
| step_pop: "t \<in> ts \<Longrightarrow> wk_exec (js_workers s t) = ExecPop q batch \<Longrightarrow> job_step ts s (exec_pop t q batch s)"
| step_run: "t \<in> ts \<Longrightarrow> wk_push (js_workers s t) = PushNone \<Longrightarrow> wk_exec (js_workers s t) = ExecRun q (job # todo) n
    \<Longrightarrow> job_step ts s (exec_run t q job todo n s)"
| step_sub: "t \<in> ts \<Longrightarrow> wk_push (js_workers s t) = PushNone \<Longrightarrow> wk_exec (js_workers s t) = ExecRun q [] n
    \<Longrightarrow> job_step ts s (exec_sub t q n s)"
| step_tick: "t \<in> ts \<Longrightarrow> wk_exec (js_workers s t) = ExecTick q \<Longrightarrow> job_step ts s (exec_tick t q now s)"
| step_toss: "t \<in> ts \<Longrightarrow> wk_exec (js_workers s t) = ExecToss q \<Longrightarrow> job_step ts s (exec_toss t q s)"
| step_global: "t \<in> ts \<Longrightarrow> wk_push (js_workers s t) = PushNone \<Longrightarrow> wk_exec (js_workers s t) = ExecNone
    \<Longrightarrow> job_step ts s (global_work t now s)"
| step_clock: "t \<in> ts \<Longrightarrow> wk_push (js_workers s t) = PushNone \<Longrightarrow> wk_exec (js_workers s t) = ExecNone
    \<Longrightarrow> job_step ts s (upd_worker t (\<lambda>w. w\<lparr>wk_LEndTickCount := endTick\<rparr>) s)"
| step_clear: "t \<in> ts \<Longrightarrow> user_code (js_workers s t) \<Longrightarrow> job_step ts s (ClearJobs q s)"

section \<open>Counting over the threads\<close>

definition tot :: "nat set \<Rightarrow> ('j worker \<Rightarrow> nat) \<Rightarrow> 'j job_sys \<Rightarrow> nat" where
  "tot ts F s = (\<Sum>t\<in>ts. F (js_workers s t))"

lemma workers_simps [simp]:
  "js_jobs (upd_worker t f s) = js_jobs s" "js_jobCount (upd_worker t f s) = js_jobCount s"
  "js_global (upd_worker t f s) = js_global s" "js_ran (upd_worker t f s) = js_ran s"
  "js_linked (upd_worker t f s) = js_linked s" "js_lost (upd_worker t f s) = js_lost s"
  "js_workers (upd_worker t f s) = (js_workers s)(t := f (js_workers s t))"
  by (simp_all add: upd_worker_def)

lemma tot_upd:
  assumes "finite ts" and "t \<in> ts"
  shows "tot ts F (upd_worker t f s) + F (js_workers s t) = tot ts F s + F (f (js_workers s t))"
  using assms by (simp add: tot_def sum.remove [of ts t])

lemma tot_same [simp]:
  "tot ts F (s\<lparr>js_jobs := a\<rparr>) = tot ts F s" "tot ts F (s\<lparr>js_jobCount := b\<rparr>) = tot ts F s"
  "tot ts F (s\<lparr>js_global := c\<rparr>) = tot ts F s" "tot ts F (s\<lparr>js_ran := d\<rparr>) = tot ts F s"
  "tot ts F (s\<lparr>js_linked := e\<rparr>) = tot ts F s" "tot ts F (s\<lparr>js_lost := l\<rparr>) = tot ts F s"
  by (simp_all add: tot_def)

lemma tot_ge: "finite ts \<Longrightarrow> t \<in> ts \<Longrightarrow> F (js_workers s t) \<le> tot ts F s"
  unfolding tot_def by (rule member_le_sum) simp_all

lemma tot_unique:
  assumes "finite ts" and "tot ts F s \<le> 1" and "t \<in> ts" and "u \<in> ts" and "t \<noteq> u" and "0 < F (js_workers s t)"
  shows "F (js_workers s u) = 0"
proof -
  have "tot ts F s = F (js_workers s t) + (\<Sum>v\<in>ts - {t}. F (js_workers s v))"
    using assms by (simp add: tot_def sum.remove [of ts t])
  moreover have "F (js_workers s u) \<le> (\<Sum>v\<in>ts - {t}. F (js_workers s v))"
    using assms by (intro member_le_sum) auto
  ultimately show ?thesis using assms by linarith
qed

text \<open>A thread's part of a queue: a job between fetch_add and link, a batch, a claim on the queue.\<close>

definition linking :: "nat \<Rightarrow> 'j worker \<Rightarrow> nat" where
  "linking q w = (case wk_push w of PushLink q' j po p \<Rightarrow> of_bool (q' = q) | _ \<Rightarrow> 0)"

definition batch_size :: "nat \<Rightarrow> 'j worker \<Rightarrow> nat" where
  "batch_size q w = (case wk_exec w of ExecPop q' b \<Rightarrow> if q' = q then length b else 0
     | ExecRun q' todo n \<Rightarrow> if q' = q then n else 0 | _ \<Rightarrow> 0)"

definition batch_rest :: "nat \<Rightarrow> 'j worker \<Rightarrow> 'j list" where
  "batch_rest q w = (case wk_exec w of ExecPop q' b \<Rightarrow> if q' = q then b else []
     | ExecRun q' todo n \<Rightarrow> if q' = q then todo else [] | _ \<Rightarrow> [])"

definition push_token :: "nat \<Rightarrow> 'j worker \<Rightarrow> nat" where
  "push_token q w = (case wk_push w of PushNone \<Rightarrow> 0 | PushLink q' j po p \<Rightarrow> of_bool (q' = q \<and> p = 0)
     | PushDecide q' po p \<Rightarrow> of_bool (q' = q \<and> p = 0))"

definition exec_token :: "nat \<Rightarrow> 'j worker \<Rightarrow> nat" where
  "exec_token q w = (case wk_exec w of ExecNone \<Rightarrow> 0 | ExecPop q' b \<Rightarrow> of_bool (q' = q)
     | ExecRun q' todo n \<Rightarrow> of_bool (q' = q) | ExecTick q' \<Rightarrow> of_bool (q' = q) | ExecToss q' \<Rightarrow> of_bool (q' = q))"

definition token :: "nat \<Rightarrow> 'j worker \<Rightarrow> nat" where
  "token q w = push_token q w + exec_token q w"

lemmas part_defs = linking_def batch_size_def batch_rest_def push_token_def exec_token_def token_def

definition pending :: "nat set \<Rightarrow> nat \<Rightarrow> 'j job_sys \<Rightarrow> nat" where
  "pending ts q s = tot ts (linking q) s + length (js_jobs s q) + tot ts (batch_size q) s + js_lost s q"

definition tokens :: "nat set \<Rightarrow> nat \<Rightarrow> 'j job_sys \<Rightarrow> nat" where
  "tokens ts q s = tot ts (token q) s + count_list (js_global s) q"

text \<open>Fewer than 2^31 jobs are ever pending in one queue: the bound of its int32 counter.\<close>

definition job_bounded :: "nat set \<Rightarrow> 'j job_sys \<Rightarrow> bool" where
  "job_bounded ts s \<longleftrightarrow> (\<forall>q. pending ts q s < 2 ^ 31)"

definition bounded_job_step :: "nat set \<Rightarrow> 'j job_sys \<Rightarrow> 'j job_sys \<Rightarrow> bool" where
  "bounded_job_step ts s s' \<longleftrightarrow> job_step ts s s' \<and> job_bounded ts s'"

section \<open>The invariant\<close>

definition count_inv :: "nat set \<Rightarrow> nat \<Rightarrow> 'j job_sys \<Rightarrow> bool" where
  "count_inv ts q s \<longleftrightarrow> js_jobCount s q = int (pending ts q s) \<and> tokens ts q s = of_bool (0 < pending ts q s)"

text \<open>What entered the queue is what ran, then the batch of the thread executing it, then the queue.\<close>

definition order_inv :: "nat set \<Rightarrow> nat \<Rightarrow> 'j job_sys \<Rightarrow> bool" where
  "order_inv ts q s \<longleftrightarrow> (\<exists>fl. js_linked s q = js_ran s q @ fl @ js_jobs s q
     \<and> (\<forall>t\<in>ts. 0 < exec_token q (js_workers s t) \<longrightarrow> batch_rest q (js_workers s t) = fl)
     \<and> ((\<forall>t\<in>ts. exec_token q (js_workers s t) = 0) \<longrightarrow> fl = []))"

definition worker_inv :: "'j worker \<Rightarrow> bool" where
  "worker_inv w \<longleftrightarrow>
     wk_LCurrentJobQueue w = (case wk_exec w of ExecPop q b \<Rightarrow> Some q | ExecRun q todo n \<Rightarrow> Some q
        | ExecTick q \<Rightarrow> Some q | _ \<Rightarrow> None)
     \<and> (wk_push w \<noteq> PushNone \<longrightarrow> wk_exec w = ExecNone \<or> (\<exists>q todo n. wk_exec w = ExecRun q todo n))
     \<and> (\<forall>q todo n. wk_exec w = ExecRun q todo n \<longrightarrow> length todo \<le> n)"

definition job_inv :: "nat set \<Rightarrow> 'j job_sys \<Rightarrow> bool" where
  "job_inv ts s \<longleftrightarrow> job_bounded ts s \<and> (\<forall>q. count_inv ts q s \<and> order_inv ts q s) \<and> (\<forall>t\<in>ts. worker_inv (js_workers s t))"

lemma job_inv_init: "job_inv ts job_init"
  by (simp add: job_inv_def job_bounded_def pending_def tot_def count_inv_def order_inv_def tokens_def worker_inv_def
      part_defs job_init_def new_worker_def)

lemma count_inv_le: "count_inv ts q s \<Longrightarrow> tot ts (token q) s \<le> 1"
  by (cases "0 < pending ts q s") (auto simp: count_inv_def tokens_def)

lemma pending_update:
  assumes "finite ts" and "t \<in> ts" and "js_workers s' = (js_workers s)(t := w')"
  shows "pending ts q s' + linking q (js_workers s t) + batch_size q (js_workers s t) + length (js_jobs s q) + js_lost s q
      = pending ts q s + linking q w' + batch_size q w' + length (js_jobs s' q) + js_lost s' q"
    and "tokens ts q s' + token q (js_workers s t) + count_list (js_global s) q
      = tokens ts q s + token q w' + count_list (js_global s') q"
  using assms by (simp_all add: pending_def tokens_def tot_def sum.remove [of ts t])

lemma order_keep:
  assumes "order_inv ts q s" and "t \<in> ts" and "js_workers s' = (js_workers s)(t := w')"
    and "exec_token q w' = exec_token q (js_workers s t)" and "batch_rest q w' = batch_rest q (js_workers s t)"
    and "js_linked s' q = js_linked s q" and "js_ran s' q = js_ran s q" and "js_jobs s' q = js_jobs s q"
  shows "order_inv ts q s'"
proof -
  have e: "exec_token q (js_workers s' u) = exec_token q (js_workers s u)" for u using assms by simp
  have b: "batch_rest q (js_workers s' u) = batch_rest q (js_workers s u)" for u using assms by simp
  show ?thesis using assms(1) unfolding order_inv_def e b assms(6-8) .
qed

text \<open>The thread that executes \<open>q\<close> is the only one, so its batch is what is in flight.\<close>

lemma order_executor:
  assumes "order_inv ts q s" and "t \<in> ts" and "0 < exec_token q (js_workers s t)"
  shows "js_linked s q = js_ran s q @ batch_rest q (js_workers s t) @ js_jobs s q"
  using assms unfolding order_inv_def by auto

lemma only_executor:
  assumes "finite ts" and "count_inv ts q s" and "t \<in> ts" and "0 < token q (js_workers s t)" and "u \<in> ts" and "u \<noteq> t"
  shows "exec_token q (js_workers s u) = 0"
proof -
  have "token q (js_workers s u) = 0"
    using tot_unique [OF assms(1) count_inv_le [OF assms(2)] assms(3,5)] assms(4,6) by auto
  then show ?thesis by (simp add: token_def)
qed

text \<open>A step of the only thread with a claim on \<open>q\<close>: afterwards its own batch is in flight.\<close>

lemma order_by_holder:
  assumes "finite ts" and "count_inv ts q s" and "t \<in> ts" and "0 < token q (js_workers s t)"
    and "js_workers s' = (js_workers s)(t := w')"
    and "js_linked s' q = js_ran s' q @ batch_rest q w' @ js_jobs s' q"
    and "exec_token q w' = 0 \<longrightarrow> batch_rest q w' = []"
  shows "order_inv ts q s'"
  unfolding order_inv_def
proof (intro exI [of _ "batch_rest q w'"] conjI ballI impI)
  fix u assume "u \<in> ts" and "0 < exec_token q (js_workers s' u)"
  then show "batch_rest q (js_workers s' u) = batch_rest q w'"
    using only_executor [OF assms(1-4), of u] assms(5) by (cases "u = t") auto
next
  assume none: "\<forall>u\<in>ts. exec_token q (js_workers s' u) = 0"
  have "js_workers s' t = w'" using assms(5) by simp
  then show "batch_rest q w' = []" using none assms(3,7) by metis
qed (rule assms(6))

lemma order_nobody:
  assumes "finite ts" and "count_inv ts q s" and "order_inv ts q s" and "t \<in> ts"
    and "0 < push_token q (js_workers s t) \<or> q \<in> set (js_global s)"
  shows "js_linked s q = js_ran s q @ js_jobs s q" and "\<And>u. u \<in> ts \<Longrightarrow> exec_token q (js_workers s u) = 0"
proof -
  show none: "exec_token q (js_workers s u) = 0" if u: "u \<in> ts" for u
  proof (cases "0 < push_token q (js_workers s t)")
    case True
    then have "u \<noteq> t \<Longrightarrow> exec_token q (js_workers s u) = 0"
      using only_executor [OF assms(1,2,4) _ u] by (simp add: token_def)
    moreover have "token q (js_workers s t) \<le> 1"
      using tot_ge [OF assms(1,4), of "token q" s] count_inv_le [OF assms(2)] by linarith
    ultimately show ?thesis using True by (cases "u = t") (simp_all add: token_def)
  next
    case False
    then have "0 < count_list (js_global s) q" using False assms(5) count_list_0_iff [of "js_global s" q] by auto
    moreover have "tokens ts q s \<le> 1" using assms(2) by (cases "0 < pending ts q s") (simp_all add: count_inv_def)
    ultimately have "tot ts (token q) s = 0" by (simp add: tokens_def)
    then show ?thesis using tot_ge [OF assms(1) u, of "token q" s] by (simp add: token_def)
  qed
  then show "js_linked s q = js_ran s q @ js_jobs s q" using assms(3) by (auto simp: order_inv_def)
qed

section \<open>Every step keeps it\<close>

lemma job_inv_parts:
  assumes "job_inv ts s"
  shows "count_inv ts q s" and "order_inv ts q s" and "t \<in> ts \<Longrightarrow> worker_inv (js_workers s t)" and "pending ts q s < 2147483648"
  using assms by (auto simp: job_inv_def job_bounded_def)

lemma bool_one: "of_bool b = (1 :: nat) \<longleftrightarrow> b" "of_bool b = (0 :: nat) \<longleftrightarrow> \<not> b"
  by simp_all

lemma push_begin_inv:
  assumes fin: "finite ts" and inv: "job_inv ts s" and t: "t \<in> ts" "user_code (js_workers s t)"
    and bnd: "job_bounded ts (push_begin t q0 job po s)"
  shows "job_inv ts (push_begin t q0 job po s)"
proof -
  let ?s = "push_begin t q0 job po s" and ?w = "js_workers s t"
  define w' where "w' = ?w\<lparr>wk_push := PushLink q0 job po (js_jobCount s q0)\<rparr>"
  have none: "wk_push ?w = PushNone" using t(2) by (simp add: user_code_def)
  have wk: "js_workers ?s = (js_workers s)(t := w')" by (simp add: push_begin_def w'_def)
  have c: "count_inv ts q ?s" for q
    using job_inv_parts [OF inv, of q] pending_update [OF fin t(1) wk, of q] bnd [unfolded job_bounded_def, rule_format, of q] none
    by (cases "q = q0"; cases "pending ts q s")
      (auto simp: count_inv_def push_begin_def w'_def part_defs to_int32_id)
  have o: "order_inv ts q ?s" for q
    by (rule order_keep [OF job_inv_parts(2) [OF inv] t(1) wk]) (simp_all add: w'_def part_defs push_begin_def)
  have "worker_inv (js_workers ?s u)" if "u \<in> ts" for u
    using job_inv_parts(3) [OF inv, of u] that t(2) by (auto simp: wk w'_def worker_inv_def user_code_def)
  then show ?thesis using bnd c o by (simp add: job_inv_def)
qed

lemma push_link_inv:
  assumes fin: "finite ts" and inv: "job_inv ts s" and t: "t \<in> ts" "wk_push (js_workers s t) = PushLink q0 job po prev"
    and bnd: "job_bounded ts (push_link t q0 job po prev s)"
  shows "job_inv ts (push_link t q0 job po prev s)"
proof -
  let ?s = "push_link t q0 job po prev s" and ?w = "js_workers s t"
  define w' where "w' = ?w\<lparr>wk_push := PushDecide q0 po prev\<rparr>"
  have wk: "js_workers ?s = (js_workers s)(t := w')" by (simp add: push_link_def w'_def)
  have c: "count_inv ts q ?s" for q
    using job_inv_parts [OF inv, of q] pending_update [OF fin t(1) wk, of q] t(2)
    by (cases "q = q0") (auto simp: count_inv_def push_link_def w'_def part_defs)
  have o: "order_inv ts q ?s" for q
  proof (cases "q = q0")
    case True
    have e: "exec_token q (js_workers ?s u) = exec_token q (js_workers s u)"
      "batch_rest q (js_workers ?s u) = batch_rest q (js_workers s u)" for u
      by (simp_all add: wk w'_def part_defs)
    show ?thesis using job_inv_parts(2) [OF inv, of q] True unfolding order_inv_def e
      by (auto simp: push_link_def)
  next
    case False
    show ?thesis
      by (rule order_keep [OF job_inv_parts(2) [OF inv] t(1) wk]) (use False in \<open>simp_all add: w'_def part_defs push_link_def\<close>)
  qed
  have "worker_inv (js_workers ?s u)" if "u \<in> ts" for u
    using job_inv_parts(3) [OF inv, of u] that t(2) by (auto simp: wk w'_def worker_inv_def)
  then show ?thesis using bnd c o by (simp add: job_inv_def)
qed

lemma push_decide_inv:
  assumes fin: "finite ts" and inv: "job_inv ts s" and t: "t \<in> ts" "wk_push (js_workers s t) = PushDecide q0 po prev"
    and bnd: "job_bounded ts (push_decide t q0 po prev s)"
  shows "job_inv ts (push_decide t q0 po prev s)"
proof -
  let ?w = "js_workers s t"
  define s' where "s' = push_decide t q0 po prev s"
  define exec where "exec \<longleftrightarrow> prev = 0 \<and> wk_LCurrentJobQueue ?w = None \<and> po = False"
  define w' where "w' = (if exec then start_execute q0 (?w\<lparr>wk_push := PushNone\<rparr>) else ?w\<lparr>wk_push := PushNone\<rparr>)"
  have wk: "js_workers s' = (js_workers s)(t := w')"
    and gl: "js_global s' = (if prev = 0 \<and> \<not> exec then js_global s @ [q0] else js_global s)"
    and rest: "js_jobs s' = js_jobs s" "js_jobCount s' = js_jobCount s" "js_ran s' = js_ran s" "js_linked s' = js_linked s" "js_lost s' = js_lost s"
    by (auto simp: s'_def push_decide_def w'_def exec_def)
  have zero: "exec \<Longrightarrow> prev = 0" by (simp add: exec_def)
  have idle: "exec \<Longrightarrow> wk_exec ?w = ExecNone"
    using job_inv_parts(3) [OF inv t(1)] t(2) by (auto simp: worker_inv_def exec_def)
  have c: "count_inv ts q s'" for q
    using job_inv_parts [OF inv, of q] pending_update [OF fin t(1) wk, of q] t(2) idle zero
    by (cases "q = q0"; cases "prev = 0"; cases exec)
      (auto simp: count_inv_def rest gl w'_def part_defs start_execute_def)
  have o: "order_inv ts q s'" for q
  proof (cases "q = q0 \<and> exec")
    case True
    then have tok: "0 < push_token q ?w" using t(2) by (simp add: part_defs exec_def)
    note nobody = order_nobody [OF fin job_inv_parts(1,2) [OF inv] t(1) disjI1 [OF tok]]
    show ?thesis
      by (rule order_by_holder [OF fin job_inv_parts(1) [OF inv] t(1) _ wk])
        (use tok nobody(1) True in \<open>auto simp: rest w'_def start_execute_def part_defs\<close>)
  next
    case False
    show ?thesis
      by (rule order_keep [OF job_inv_parts(2) [OF inv] t(1) wk])
        (use False idle in \<open>auto simp: rest w'_def start_execute_def part_defs\<close>)
  qed
  have "worker_inv (js_workers s' u)" if "u \<in> ts" for u
    using job_inv_parts(3) [OF inv, of u] that t(2) by (auto simp: wk w'_def worker_inv_def start_execute_def)
  then have "job_inv ts s'" using bnd c o by (simp add: job_inv_def s'_def [symmetric])
  then show ?thesis by (simp add: s'_def)
qed

lemma exec_pop_inv:
  assumes fin: "finite ts" and inv: "job_inv ts s" and t: "t \<in> ts" "wk_exec (js_workers s t) = ExecPop q0 b"
    and bnd: "job_bounded ts (exec_pop t q0 b s)"
  shows "job_inv ts (exec_pop t q0 b s)"
proof -
  let ?s = "exec_pop t q0 b s" and ?w = "js_workers s t"
  define w' where "w' = (case js_jobs s q0 of [] \<Rightarrow> ?w\<lparr>wk_exec := ExecRun q0 b (length b)\<rparr>
    | job # rest \<Rightarrow> ?w\<lparr>wk_exec := ExecPop q0 (b @ [job])\<rparr>)"
  have wk: "js_workers ?s = (js_workers s)(t := w')" by (simp add: exec_pop_def w'_def split: list.splits)
  have rest: "js_global ?s = js_global s" "js_jobCount ?s = js_jobCount s" "js_ran ?s = js_ran s" "js_linked ?s = js_linked s"
    "js_lost ?s = js_lost s" "js_jobs ?s = (js_jobs s)(q0 := tl (js_jobs s q0))"
    by (auto simp: exec_pop_def split: list.splits)
  have c: "count_inv ts q ?s" for q
    using job_inv_parts [OF inv, of q] pending_update [OF fin t(1) wk, of q] t(2)
    by (cases "q = q0"; cases "js_jobs s q0") (auto simp: count_inv_def rest w'_def part_defs)
  have o: "order_inv ts q ?s" for q
  proof (cases "q = q0")
    case True
    then have tok: "0 < exec_token q ?w" using t(2) by (simp add: part_defs)
    note ord = order_executor [OF job_inv_parts(2) [OF inv] t(1) tok]
    show ?thesis
      by (rule order_by_holder [OF fin job_inv_parts(1) [OF inv] t(1) _ wk])
        (use tok ord t(2) True in \<open>auto simp: rest w'_def part_defs split: list.splits\<close>)
  next
    case False
    show ?thesis
      by (rule order_keep [OF job_inv_parts(2) [OF inv] t(1) wk])
        (use False t(2) in \<open>auto simp: rest w'_def part_defs split: list.splits\<close>)
  qed
  have "worker_inv (js_workers ?s u)" if "u \<in> ts" for u
    using job_inv_parts(3) [OF inv, of u] that t(2) by (auto simp: wk w'_def worker_inv_def split: list.splits)
  then show ?thesis using bnd c o by (simp add: job_inv_def)
qed

lemma exec_run_inv:
  assumes fin: "finite ts" and inv: "job_inv ts s" and t: "t \<in> ts" "wk_exec (js_workers s t) = ExecRun q0 (job # todo) n"
    and bnd: "job_bounded ts (exec_run t q0 job todo n s)"
  shows "job_inv ts (exec_run t q0 job todo n s)"
proof -
  let ?s = "exec_run t q0 job todo n s" and ?w = "js_workers s t"
  define w' where "w' = ?w\<lparr>wk_exec := ExecRun q0 todo n\<rparr>"
  have wk: "js_workers ?s = (js_workers s)(t := w')" by (simp add: exec_run_def w'_def)
  have c: "count_inv ts q ?s" for q
    using job_inv_parts [OF inv, of q] pending_update [OF fin t(1) wk, of q] t(2)
    by (auto simp: count_inv_def exec_run_def w'_def part_defs)
  have o: "order_inv ts q ?s" for q
  proof (cases "q = q0")
    case True
    then have tok: "0 < exec_token q ?w" using t(2) by (simp add: part_defs)
    note ord = order_executor [OF job_inv_parts(2) [OF inv] t(1) tok]
    show ?thesis
      by (rule order_by_holder [OF fin job_inv_parts(1) [OF inv] t(1) _ wk])
        (use tok ord t(2) True in \<open>auto simp: exec_run_def w'_def part_defs\<close>)
  next
    case False
    show ?thesis
      by (rule order_keep [OF job_inv_parts(2) [OF inv] t(1) wk])
        (use False t(2) in \<open>auto simp: exec_run_def w'_def part_defs\<close>)
  qed
  have "worker_inv (js_workers ?s u)" if "u \<in> ts" for u
    using job_inv_parts(3) [OF inv, of u] that t(2) by (auto simp: wk w'_def worker_inv_def)
  then show ?thesis using bnd c o by (simp add: job_inv_def)
qed

lemma exec_sub_inv:
  assumes fin: "finite ts" and inv: "job_inv ts s"
    and t: "t \<in> ts" "wk_push (js_workers s t) = PushNone" "wk_exec (js_workers s t) = ExecRun q0 [] n"
    and bnd: "job_bounded ts (exec_sub t q0 n s)"
  shows "job_inv ts (exec_sub t q0 n s)"
proof -
  let ?w = "js_workers s t"
  define s' where "s' = exec_sub t q0 n s"
  have "batch_size q0 ?w \<le> tot ts (batch_size q0) s" by (rule tot_ge [OF fin t(1)])
  then have n: "n \<le> pending ts q0 s" using t(3) by (simp add: pending_def part_defs)
  then have ni: "to_int32 (int n) = int n" using job_inv_parts(4) [OF inv, of q0] by (simp add: to_int32_id)
  have cnt: "js_jobCount s q0 = int (pending ts q0 s)" using job_inv_parts(1) [OF inv] by (simp add: count_inv_def)
  define w' where "w' = (if pending ts q0 s = n then ?w\<lparr>wk_exec := ExecNone, wk_LCurrentJobQueue := None\<rparr> else ?w\<lparr>wk_exec := ExecTick q0\<rparr>)"
  have wk: "js_workers s' = (js_workers s)(t := w')"
    by (simp add: s'_def exec_sub_def w'_def ni cnt Let_def)
  have rest: "js_global s' = js_global s" "js_jobs s' = js_jobs s" "js_ran s' = js_ran s" "js_linked s' = js_linked s"
    "js_lost s' = js_lost s" "js_jobCount s' = (js_jobCount s)(q0 := int (pending ts q0 s - n))"
    using n job_inv_parts(4) [OF inv, of q0] by (auto simp: s'_def exec_sub_def ni cnt Let_def to_int32_id of_nat_diff)
  have c: "count_inv ts q s'" for q
    using job_inv_parts [OF inv, of q] pending_update [OF fin t(1) wk, of q] t(2,3) n
    by (cases "q = q0"; cases "pending ts q0 s = n"; cases "0 < pending ts q0 s") (auto simp: count_inv_def rest w'_def part_defs)
  have o: "order_inv ts q s'" for q
  proof (cases "q = q0")
    case True
    then have tok: "0 < exec_token q ?w" using t(3) by (simp add: part_defs)
    note ord = order_executor [OF job_inv_parts(2) [OF inv] t(1) tok]
    show ?thesis
      by (rule order_by_holder [OF fin job_inv_parts(1) [OF inv] t(1) _ wk])
        (use tok ord t(3) True in \<open>auto simp: rest w'_def part_defs\<close>)
  next
    case False
    show ?thesis
      by (rule order_keep [OF job_inv_parts(2) [OF inv] t(1) wk])
        (use False t(3) in \<open>auto simp: rest w'_def part_defs\<close>)
  qed
  have "worker_inv (js_workers s' u)" if "u \<in> ts" for u
    using job_inv_parts(3) [OF inv, of u] that t(2,3) by (auto simp: wk w'_def worker_inv_def)
  then have "job_inv ts s'" using bnd c o by (simp add: job_inv_def s'_def [symmetric])
  then show ?thesis by (simp add: s'_def)
qed

lemma exec_tick_inv:
  assumes fin: "finite ts" and inv: "job_inv ts s" and t: "t \<in> ts" "wk_exec (js_workers s t) = ExecTick q0"
    and bnd: "job_bounded ts (exec_tick t q0 now s)"
  shows "job_inv ts (exec_tick t q0 now s)"
proof -
  let ?w = "js_workers s t"
  define s' where "s' = exec_tick t q0 now s"
  define w' where "w' = (if now \<ge> wk_LEndTickCount ?w then ?w\<lparr>wk_exec := ExecToss q0, wk_LCurrentJobQueue := None\<rparr>
    else ?w\<lparr>wk_exec := ExecPop q0 []\<rparr>)"
  have wk: "js_workers s' = (js_workers s)(t := w')"
    and rest: "js_global s' = js_global s" "js_jobs s' = js_jobs s" "js_ran s' = js_ran s" "js_linked s' = js_linked s"
    "js_lost s' = js_lost s" "js_jobCount s' = js_jobCount s"
    by (simp_all add: s'_def exec_tick_def w'_def)
  have c: "count_inv ts q s'" for q
    using job_inv_parts [OF inv, of q] pending_update [OF fin t(1) wk, of q] t(2)
    by (auto simp: count_inv_def rest w'_def part_defs split: if_splits)
  have o: "order_inv ts q s'" for q
    by (rule order_keep [OF job_inv_parts(2) [OF inv] t(1) wk]) (use t(2) in \<open>auto simp: rest w'_def part_defs\<close>)
  have "worker_inv (js_workers s' u)" if "u \<in> ts" for u
    using job_inv_parts(3) [OF inv, of u] that t(2) by (auto simp: wk w'_def worker_inv_def)
  then have "job_inv ts s'" using bnd c o by (simp add: job_inv_def s'_def [symmetric])
  then show ?thesis by (simp add: s'_def)
qed

lemma exec_toss_inv:
  assumes fin: "finite ts" and inv: "job_inv ts s" and t: "t \<in> ts" "wk_exec (js_workers s t) = ExecToss q0"
    and bnd: "job_bounded ts (exec_toss t q0 s)"
  shows "job_inv ts (exec_toss t q0 s)"
proof -
  let ?w = "js_workers s t"
  define s' where "s' = exec_toss t q0 s"
  define w' where "w' = ?w\<lparr>wk_exec := ExecNone\<rparr>"
  have wk: "js_workers s' = (js_workers s)(t := w')"
    and rest: "js_global s' = js_global s @ [q0]" "js_jobs s' = js_jobs s" "js_ran s' = js_ran s" "js_linked s' = js_linked s"
    "js_lost s' = js_lost s" "js_jobCount s' = js_jobCount s"
    by (simp_all add: s'_def exec_toss_def w'_def)
  have c: "count_inv ts q s'" for q
    using job_inv_parts [OF inv, of q] pending_update [OF fin t(1) wk, of q] t(2)
    by (cases "q = q0") (auto simp: count_inv_def rest w'_def part_defs)
  have o: "order_inv ts q s'" for q
  proof (cases "q = q0")
    case True
    then have tok: "0 < exec_token q ?w" using t(2) by (simp add: part_defs)
    note ord = order_executor [OF job_inv_parts(2) [OF inv] t(1) tok]
    show ?thesis
      by (rule order_by_holder [OF fin job_inv_parts(1) [OF inv] t(1) _ wk])
        (use tok ord t(2) True in \<open>auto simp: rest w'_def part_defs\<close>)
  next
    case False
    show ?thesis
      by (rule order_keep [OF job_inv_parts(2) [OF inv] t(1) wk]) (use False t(2) in \<open>auto simp: rest w'_def part_defs\<close>)
  qed
  have "worker_inv (js_workers s' u)" if "u \<in> ts" for u
    using job_inv_parts(3) [OF inv, of u] that t(2) by (auto simp: wk w'_def worker_inv_def)
  then have "job_inv ts s'" using bnd c o by (simp add: job_inv_def s'_def [symmetric])
  then show ?thesis by (simp add: s'_def)
qed

lemma global_work_inv:
  assumes fin: "finite ts" and inv: "job_inv ts s"
    and t: "t \<in> ts" "wk_push (js_workers s t) = PushNone" "wk_exec (js_workers s t) = ExecNone"
    and bnd: "job_bounded ts (global_work t now s)"
  shows "job_inv ts (global_work t now s)"
proof (cases "now > wk_LEndTickCount (js_workers s t) \<or> js_global s = []")
  case True
  then show ?thesis using inv by (auto simp: global_work_def)
next
  case False
  then obtain q0 g where g: "js_global s = q0 # g" by (cases "js_global s") auto
  let ?w = "js_workers s t"
  define s' where "s' = global_work t now s"
  define w' where "w' = start_execute q0 ?w"
  have wk: "js_workers s' = (js_workers s)(t := w')"
    and rest: "js_global s' = g" "js_jobs s' = js_jobs s" "js_ran s' = js_ran s" "js_linked s' = js_linked s"
    "js_lost s' = js_lost s" "js_jobCount s' = js_jobCount s"
    using False g by (simp_all add: s'_def global_work_def w'_def)
  have c: "count_inv ts q s'" for q
    using job_inv_parts [OF inv, of q] pending_update [OF fin t(1) wk, of q] t(3) g
    by (cases "q = q0") (auto simp: count_inv_def rest w'_def part_defs start_execute_def)
  have o: "order_inv ts q s'" for q
  proof (cases "q = q0")
    case True
    then have mem: "q \<in> set (js_global s)" by (simp add: g)
    note nobody = order_nobody [OF fin job_inv_parts(1,2) [OF inv] t(1) disjI2 [OF mem]]
    show ?thesis unfolding order_inv_def
    proof (intro exI [of _ "[]"] conjI ballI impI)
      show "js_linked s' q = js_ran s' q @ [] @ js_jobs s' q" using nobody(1) by (simp add: rest)
      fix u assume "u \<in> ts" "0 < exec_token q (js_workers s' u)"
      then show "batch_rest q (js_workers s' u) = []"
        using nobody(2) [of u] by (cases "u = t") (auto simp: wk w'_def start_execute_def part_defs)
    qed simp
  next
    case False
    show ?thesis
      by (rule order_keep [OF job_inv_parts(2) [OF inv] t(1) wk])
        (use False t(3) in \<open>auto simp: rest w'_def part_defs start_execute_def\<close>)
  qed
  have "worker_inv (js_workers s' u)" if "u \<in> ts" for u
    using job_inv_parts(3) [OF inv, of u] that t(2,3) by (auto simp: wk w'_def worker_inv_def start_execute_def)
  then have "job_inv ts s'" using bnd c o by (simp add: job_inv_def s'_def [symmetric])
  then show ?thesis by (simp add: s'_def)
qed

lemma clock_inv:
  assumes fin: "finite ts" and inv: "job_inv ts s" and t: "t \<in> ts"
    and bnd: "job_bounded ts (upd_worker t (\<lambda>w. w\<lparr>wk_LEndTickCount := e\<rparr>) s)"
  shows "job_inv ts (upd_worker t (\<lambda>w. w\<lparr>wk_LEndTickCount := e\<rparr>) s)"
proof -
  let ?s = "upd_worker t (\<lambda>w. w\<lparr>wk_LEndTickCount := e\<rparr>) s"
  have wk: "js_workers ?s = (js_workers s)(t := (js_workers s t)\<lparr>wk_LEndTickCount := e\<rparr>)" by simp
  have c: "count_inv ts q ?s" for q
    using job_inv_parts [OF inv, of q] pending_update [OF fin t wk, of q] by (auto simp: count_inv_def part_defs)
  have o: "order_inv ts q ?s" for q
    by (rule order_keep [OF job_inv_parts(2) [OF inv] t wk]) (simp_all add: part_defs)
  have "worker_inv (js_workers ?s u)" if "u \<in> ts" for u
    using job_inv_parts(3) [OF inv, of u] that by (auto simp: worker_inv_def)
  then show ?thesis using bnd c o by (simp add: job_inv_def)
qed

lemma ClearJobs_inv:
  assumes inv: "job_inv ts s" and bnd: "job_bounded ts (ClearJobs q0 s)"
  shows "job_inv ts (ClearJobs q0 s)"
proof -
  have same: "pending ts q (ClearJobs q0 s) = pending ts q s" "tokens ts q (ClearJobs q0 s) = tokens ts q s" for q
    by (simp_all add: pending_def tokens_def tot_def ClearJobs_def)
  have c: "count_inv ts q (ClearJobs q0 s)" for q
    using job_inv_parts(1) [OF inv, of q] by (simp add: count_inv_def same) (simp add: ClearJobs_def)
  have o: "order_inv ts q (ClearJobs q0 s)" for q
    using job_inv_parts(2) [OF inv, of q] by (auto simp: order_inv_def ClearJobs_def)
  show ?thesis using bnd c o inv by (simp add: job_inv_def) (simp add: ClearJobs_def)
qed

theorem job_step_inv:
  assumes "job_step ts s s'" and "finite ts" and "job_inv ts s" and "job_bounded ts s'"
  shows "job_inv ts s'"
  using assms
  by (cases rule: job_step.cases)
    (simp_all add: push_begin_inv push_link_inv push_decide_inv exec_pop_inv exec_run_inv exec_sub_inv exec_tick_inv
      exec_toss_inv global_work_inv clock_inv ClearJobs_inv)

theorem job_reachable_inv:
  assumes "reaches (bounded_job_step ts) job_init s" and "finite ts"
  shows "job_inv ts s"
  using assms(1) job_inv_init
proof (rule reaches_invariant)
  fix x y assume "job_inv ts x" and "bounded_job_step ts x y"
  then show "job_inv ts y" using job_step_inv assms(2) by (auto simp: bounded_job_step_def)
qed

section \<open>What the job queues guarantee\<close>

text \<open>At most one thread executes a queue.\<close>

lemma one_executor:
  assumes "finite ts" and "job_inv ts s" and "t \<in> ts" "u \<in> ts" "0 < exec_token q (js_workers s t)" "0 < exec_token q (js_workers s u)"
  shows "t = u"
  using only_executor [OF assms(1) job_inv_parts(1) [OF assms(2)] assms(3) _ assms(4), of q] assms(5,6)
  by (auto simp: token_def)

text \<open>Jobs run in the order they entered, none twice, none skipped.\<close>

lemma ran_in_order:
  assumes "job_inv ts s"
  shows "\<exists>waiting. js_linked s q = js_ran s q @ waiting"
  using job_inv_parts(2) [OF assms, of q] by (auto simp: order_inv_def)

text \<open>Work that is there is claimed: by a thread, or by an entry of the global queue.\<close>

lemma pending_claimed:
  assumes "finite ts" and "job_inv ts s" and "0 < pending ts q s"
  shows "q \<in> set (js_global s) \<or> (\<exists>t\<in>ts. 0 < token q (js_workers s t))"
proof (rule ccontr)
  assume no: "\<not> ?thesis"
  have "tokens ts q s = 1" using job_inv_parts(1) [OF assms(2), of q] assms(3) by (simp add: count_inv_def)
  moreover have "tokens ts q s = 0"
    using no count_list_0_iff [of "js_global s" q] by (auto simp: tokens_def tot_def)
  ultimately show False by simp
qed

lemma no_lost_wakeup:
  assumes "finite ts" and "job_inv ts s" and "js_jobs s q \<noteq> []"
  shows "q \<in> set (js_global s) \<or> (\<exists>t\<in>ts. 0 < token q (js_workers s t))"
  by (rule pending_claimed [OF assms(1,2)]) (use assms(3) in \<open>simp add: pending_def\<close>)

text \<open>When every thread is idle and the global queue is empty, everything that entered has run.\<close>

lemma quiescent_all_ran:
  assumes "finite ts" and "job_inv ts s" and "js_global s = []"
    and "\<And>t. t \<in> ts \<Longrightarrow> wk_push (js_workers s t) = PushNone \<and> wk_exec (js_workers s t) = ExecNone"
  shows "js_jobs s q = [] \<and> js_ran s q = js_linked s q \<and> js_lost s q = 0"
proof -
  have tok: "token q (js_workers s t) = 0" "exec_token q (js_workers s t) = 0" if "t \<in> ts" for t
    using assms(4) [OF that] by (simp_all add: part_defs)
  then have "tokens ts q s = 0" using assms(3) by (simp add: tokens_def tot_def)
  then have "pending ts q s = 0" using job_inv_parts(1) [OF assms(2), of q] by (simp add: count_inv_def)
  then have "js_jobs s q = []" "js_lost s q = 0" by (simp_all add: pending_def)
  then show ?thesis using job_inv_parts(2) [OF assms(2), of q] tok(2) by (auto simp: order_inv_def)
qed

text \<open>A queue that ClearJobs emptied while jobs waited is never given up again.\<close>

lemma lost_never_decreases:
  assumes "job_step ts s s'"
  shows "js_lost s q \<le> js_lost s' q"
  using assms
  by (cases rule: job_step.cases)
    (auto simp: push_begin_def push_link_def push_decide_def exec_pop_def exec_run_def exec_sub_def exec_tick_def
      exec_toss_def global_work_def ClearJobs_def Let_def split: list.splits)

lemma cleared_never_idle:
  assumes "finite ts" and "job_inv ts s" and "0 < js_lost s q"
  shows "q \<in> set (js_global s) \<or> (\<exists>t\<in>ts. 0 < token q (js_workers s t))"
  by (rule pending_claimed [OF assms(1,2)]) (use assms(3) in \<open>simp add: pending_def\<close>)

text \<open>A dropped job stays counted: from then on the queue never becomes idle.\<close>

lemma lost_reaches: "reaches (bounded_job_step ts) s s' \<Longrightarrow> js_lost s q \<le> js_lost s' q"
proof (induction rule: reaches.induct)
  case (reaches_step s t u)
  then show ?case using lost_never_decreases [of ts t u q] by (simp add: bounded_job_step_def)
qed simp

lemma reaches_job_inv:
  assumes "reaches (bounded_job_step ts) s s'" and "finite ts" and "job_inv ts s"
  shows "job_inv ts s'"
  using assms(1,3)
proof (rule reaches_invariant)
  fix x y assume "job_inv ts x" and "bounded_job_step ts x y"
  then show "job_inv ts y" using job_step_inv assms(2) by (auto simp: bounded_job_step_def)
qed

section \<open>An example run\<close>

text \<open>Thread 0 pushes one job into queue 5 and becomes its executor.\<close>

definition pushed_once :: "'j \<Rightarrow> 'j job_sys" where
  "pushed_once j = push_decide 0 5 False 0 (push_link 0 5 j False 0 (push_begin 0 5 j False job_init))"

lemma push_once_reaches: "reaches (bounded_job_step {0, 1}) job_init (pushed_once j)"
proof -
  let ?s1 = "push_begin 0 5 j False job_init"
  let ?s2 = "push_link 0 5 j False 0 ?s1"
  note defs = push_begin_def push_link_def push_decide_def start_execute_def job_init_def new_worker_def
  have b: "job_bounded {0, 1} ?s1" "job_bounded {0, 1} ?s2" "job_bounded {0, 1} (pushed_once j)"
    by (simp_all add: job_bounded_def pending_def tot_def part_defs pushed_once_def defs)
  have "bounded_job_step {0, 1} job_init ?s1"
    using b step_begin [of 0 "{0, 1}" job_init 5 j False] by (simp add: bounded_job_step_def user_code_def job_init_def new_worker_def)
  moreover have "bounded_job_step {0, 1} ?s1 ?s2"
    using b step_link [of 0 "{0, 1}" ?s1 5 j False 0] by (simp add: bounded_job_step_def defs)
  moreover have "bounded_job_step {0, 1} ?s2 (pushed_once j)"
    using b step_decide [of 0 "{0, 1}" ?s2 5 False 0] by (simp add: bounded_job_step_def pushed_once_def defs)
  ultimately show ?thesis by (meson reaches.intros)
qed

lemma pushed_once_state:
  "wk_exec (js_workers (pushed_once j) 0) = ExecPop 5 []" "js_jobs (pushed_once j) 5 = [j]"
  "js_linked (pushed_once j) 5 = [j]" "js_ran (pushed_once j) 5 = []" "js_global (pushed_once j) = []"
  by (simp_all add: pushed_once_def push_begin_def push_link_def push_decide_def start_execute_def job_init_def new_worker_def)

lemma pushed_once_cleared_bounded: "job_bounded {0, 1} (ClearJobs 5 (pushed_once j))"
  by (simp add: job_bounded_def pending_def tot_def part_defs ClearJobs_def pushed_once_def push_begin_def push_link_def
      push_decide_def start_execute_def job_init_def new_worker_def)

text \<open>The executor pops the job, runs it, and finds nothing left.\<close>

definition ran_once :: "'j \<Rightarrow> 'j job_sys" where
  "ran_once j = exec_sub 0 5 1 (exec_run 0 5 j [] 1 (exec_pop 0 5 [j] (exec_pop 0 5 [] (pushed_once j))))"

lemma ran_once_reaches: "reaches (bounded_job_step {0, 1}) job_init (ran_once j)"
proof -
  let ?s1 = "exec_pop 0 5 [] (pushed_once j)"
  let ?s2 = "exec_pop 0 5 [j] ?s1"
  let ?s3 = "exec_run 0 5 j [] 1 ?s2"
  note defs = push_begin_def push_link_def push_decide_def start_execute_def job_init_def new_worker_def pushed_once_def
    exec_pop_def exec_run_def exec_sub_def to_int32_id
  have b: "job_bounded {0, 1} ?s1" "job_bounded {0, 1} ?s2" "job_bounded {0, 1} ?s3" "job_bounded {0, 1} (ran_once j)"
    by (simp_all add: job_bounded_def pending_def tot_def part_defs ran_once_def defs)
  have "bounded_job_step {0, 1} (pushed_once j) ?s1"
    using b step_pop [of 0 "{0, 1}" "pushed_once j" 5 "[]"] by (simp add: bounded_job_step_def pushed_once_state)
  moreover have "bounded_job_step {0, 1} ?s1 ?s2"
    using b step_pop [of 0 "{0, 1}" ?s1 5 "[j]"] by (simp add: bounded_job_step_def defs)
  moreover have "bounded_job_step {0, 1} ?s2 ?s3"
    using b step_run [of 0 "{0, 1}" ?s2 5 j "[]" 1] by (simp add: bounded_job_step_def defs)
  moreover have "bounded_job_step {0, 1} ?s3 (ran_once j)"
    using b step_sub [of 0 "{0, 1}" ?s3 5 1] by (simp add: bounded_job_step_def ran_once_def defs)
  ultimately show ?thesis using push_once_reaches [of j] by (meson reaches.intros)
qed

lemma ran_once_linked: "js_linked (ran_once j) 5 = [j]"
  by (simp add: ran_once_def pushed_once_def push_begin_def push_link_def push_decide_def start_execute_def job_init_def
      new_worker_def exec_pop_def exec_run_def exec_sub_def to_int32_id)

lemma ran_once_idle:
  "js_global (ran_once j) = []" "wk_push (js_workers (ran_once j) t) = PushNone" "wk_exec (js_workers (ran_once j) t) = ExecNone"
  by (simp_all add: ran_once_def pushed_once_def push_begin_def push_link_def push_decide_def start_execute_def job_init_def
      new_worker_def exec_pop_def exec_run_def exec_sub_def to_int32_id)

end
