(* ===== verification/MSPCQueue.thy ===== *)
theory MSPCQueue imports LockQueue begin

text \<open>
  ServerCore/MSPCLockFreeQueue.h: the linked queue with many producers and one consumer, at the
  level of its nodes. Addresses are \<open>nat\<close>; an address without a node is memory that xdelete gave
  back, and reading it is a fault. A thread's position in Push or Pop is a program counter, and
  one step makes one access to shared memory. Run alone, an operation makes its steps in a row.
\<close>

section \<open>Nodes and steps\<close>

record 'a node =
  nd_data :: "'a option"
  nd_next :: "nat option"

record 'a mspc =
  ms_heap :: "nat \<Rightarrow> 'a node option"
  ms_head :: nat
  ms_tail :: nat
  ms_fresh :: nat

definition new_MSPC :: "'a mspc" where
  "new_MSPC = \<lparr>ms_heap = [0 \<mapsto> \<lparr>nd_data = None, nd_next = None\<rparr>], ms_head = 0, ms_tail = 0, ms_fresh = 1\<rparr>"

datatype 'a mspc_pc =
    LoadTail nat
  | LoadNext nat nat
  | CasNext nat nat
  | HelpTail nat nat nat
  | SwingTail nat nat
  | PushDone
  | LoadHead
  | HeadNext nat
  | TakeData nat nat
  | FreeHead nat "'a option"
  | PopDone "'a option"

definition deref :: "'a mspc \<Rightarrow> nat \<Rightarrow> 'a node result" where
  "deref m a = (case ms_heap m a of None \<Rightarrow> Inl (UndefinedBehaviour ''use after free'') | Some n \<Rightarrow> Inr n)"

definition set_node :: "nat \<Rightarrow> 'a node option \<Rightarrow> 'a mspc \<Rightarrow> 'a mspc" where
  "set_node a n m = m\<lparr>ms_heap := (ms_heap m)(a := n)\<rparr>"

text \<open>xnew<Node>: an address that is not in use.\<close>

definition new_node :: "'a option \<Rightarrow> 'a mspc \<Rightarrow> nat \<times> 'a mspc" where
  "new_node item m = (ms_fresh m, set_node (ms_fresh m) (Some \<lparr>nd_data = item, nd_next = None\<rparr>) (m\<lparr>ms_fresh := Suc (ms_fresh m)\<rparr>))"

primrec mspc_step :: "'a mspc_pc \<Rightarrow> 'a mspc \<Rightarrow> ('a mspc_pc \<times> 'a mspc) result" where
  "mspc_step (LoadTail newNode) m = Inr (LoadNext newNode (ms_tail m), m)"
| "mspc_step (LoadNext newNode oldTail) m =
     bind_result (deref m oldTail) (\<lambda>n.
       Inr (case nd_next n of None \<Rightarrow> CasNext newNode oldTail | Some next \<Rightarrow> HelpTail newNode oldTail next, m))"
| "mspc_step (CasNext newNode oldTail) m =
     bind_result (deref m oldTail) (\<lambda>n.
       if nd_next n = None then Inr (SwingTail newNode oldTail, set_node oldTail (Some (n\<lparr>nd_next := Some newNode\<rparr>)) m)
       else Inr (LoadTail newNode, m))"
| "mspc_step (HelpTail newNode oldTail next) m =
     Inr (LoadTail newNode, if ms_tail m = oldTail then m\<lparr>ms_tail := next\<rparr> else m)"
| "mspc_step (SwingTail newNode oldTail) m =
     Inr (PushDone, if ms_tail m = oldTail then m\<lparr>ms_tail := newNode\<rparr> else m)"
| "mspc_step PushDone m = Inr (PushDone, m)"
| "mspc_step LoadHead m = Inr (HeadNext (ms_head m), m)"
| "mspc_step (HeadNext oldHead) m =
     bind_result (deref m oldHead) (\<lambda>n.
       Inr (case nd_next n of None \<Rightarrow> PopDone None | Some next \<Rightarrow> TakeData oldHead next, m))"
| "mspc_step (TakeData oldHead next) m =
     bind_result (deref m next) (\<lambda>n. Inr (FreeHead oldHead (nd_data n), m\<lparr>ms_head := next\<rparr>))"
| "mspc_step (FreeHead oldHead res) m = Inr (PopDone res, set_node oldHead None m)"
| "mspc_step (PopDone res) m = Inr (PopDone res, m)"

section \<open>Operations run alone\<close>

primrec mspc_steps :: "nat \<Rightarrow> 'a mspc_pc \<Rightarrow> 'a mspc \<Rightarrow> ('a mspc_pc \<times> 'a mspc) result" where
  "mspc_steps 0 pc m = Inr (pc, m)"
| "mspc_steps (Suc k) pc m = bind_result (mspc_step pc m) (\<lambda>(pc', m'). mspc_steps k pc' m')"

text \<open>Four steps suffice for a Push that runs alone on a queue at rest, and four for a Pop.\<close>

definition MSPC_Push :: "'a option \<Rightarrow> 'a mspc \<Rightarrow> 'a mspc result" where
  "MSPC_Push item m =
     (let (a, m1) = new_node item m
      in bind_result (mspc_steps 4 (LoadTail a) m1) (\<lambda>(pc, m2). Inr m2))"

definition MSPC_Pop :: "'a mspc \<Rightarrow> ('a option \<times> 'a mspc) result" where
  "MSPC_Pop m = bind_result (mspc_steps 4 LoadHead m) (\<lambda>(pc, m'). Inr (case pc of PopDone r \<Rightarrow> r | _ \<Rightarrow> None, m'))"

definition MSPC_PopAll :: "nat \<Rightarrow> 'a list \<Rightarrow> 'a mspc \<Rightarrow> ('a list \<times> 'a mspc) option result" where
  "MSPC_PopAll fuel items m =
     bind_result (drain MSPC_Pop fuel m) (\<lambda>r. Inr (map_option (\<lambda>(xs, m'). (items @ xs, m')) r))"

definition MSPC_Clear :: "nat \<Rightarrow> 'a mspc \<Rightarrow> 'a mspc option result" where
  "MSPC_Clear fuel m = bind_result (drain MSPC_Pop fuel m) (\<lambda>r. Inr (map_option snd r))"

section \<open>The chain of nodes\<close>

text \<open>\<open>links h a as\<close>: the nodes after \<open>a\<close> are \<open>as\<close>, the last one without a successor.\<close>

fun links :: "(nat \<Rightarrow> 'a node option) \<Rightarrow> nat \<Rightarrow> nat list \<Rightarrow> bool" where
  "links h a [] \<longleftrightarrow> (\<exists>n. h a = Some n \<and> nd_next n = None)"
| "links h a (b # bs) \<longleftrightarrow> (\<exists>n. h a = Some n \<and> nd_next n = Some b) \<and> links h b bs"

primrec chain :: "(nat \<Rightarrow> 'a node option) \<Rightarrow> nat \<Rightarrow> nat \<Rightarrow> nat list" where
  "chain h 0 a = []"
| "chain h (Suc k) a =
     (case h a of None \<Rightarrow> [] | Some n \<Rightarrow> (case nd_next n of None \<Rightarrow> [] | Some b \<Rightarrow> b # chain h k b))"

definition node_data :: "(nat \<Rightarrow> 'a node option) \<Rightarrow> nat \<Rightarrow> 'a option" where
  "node_data h a = (case h a of None \<Rightarrow> None | Some n \<Rightarrow> nd_data n)"

definition mspc_contents :: "'a mspc \<Rightarrow> 'a list" where
  "mspc_contents m = map (\<lambda>a. the (node_data (ms_heap m) a)) (chain (ms_heap m) (ms_fresh m) (ms_head m))"

definition mspc_inv :: "'a mspc \<Rightarrow> bool" where
  "mspc_inv m \<longleftrightarrow> (\<exists>as. links (ms_heap m) (ms_head m) as \<and> distinct (ms_head m # as)
     \<and> ms_tail m = last (ms_head m # as) \<and> (\<forall>a\<in>set as. node_data (ms_heap m) a \<noteq> None)
     \<and> (\<forall>a. ms_heap m a \<noteq> None \<longrightarrow> a < ms_fresh m))"

lemma links_chain: "links h a as \<Longrightarrow> length as \<le> k \<Longrightarrow> chain h k a = as"
proof (induction h a as arbitrary: k rule: links.induct)
  case (1 h a)
  then show ?case by (cases k) auto
next
  case (2 h a b bs)
  then show ?case by (cases k) auto
qed

lemma links_alloc: "links h a as \<Longrightarrow> x \<in> set (a # as) \<Longrightarrow> h x \<noteq> None"
  by (induction h a as rule: links.induct) auto

lemma links_cong: "links h a as \<Longrightarrow> (\<And>x. x \<in> set (a # as) \<Longrightarrow> h' x = h x) \<Longrightarrow> links h' a as"
  by (induction h a as rule: links.induct) auto

text \<open>Appending a node behind the last one.\<close>

lemma links_snoc:
  assumes "links h a as" and "distinct (a # as)" and "x \<notin> set (a # as)"
    and "h x = Some \<lparr>nd_data = d, nd_next = None\<rparr>" and "h (last (a # as)) = Some n"
  shows "links (h(last (a # as) := Some (n\<lparr>nd_next := Some x\<rparr>))) a (as @ [x])"
  using assms
proof (induction h a as rule: links.induct)
  case (1 h a)
  then show ?case by auto
next
  case (2 h a b bs)
  have "last (b # bs) \<noteq> a" using "2.prems"(2) last_in_set [of "b # bs"] by auto
  then show ?case using 2 by auto
qed

lemma mspc_inv_unfold:
  assumes "mspc_inv m"
  obtains as where "links (ms_heap m) (ms_head m) as" "distinct (ms_head m # as)" "ms_tail m = last (ms_head m # as)"
    "\<forall>a\<in>set as. node_data (ms_heap m) a \<noteq> None" "\<forall>a. ms_heap m a \<noteq> None \<longrightarrow> a < ms_fresh m"
    "chain (ms_heap m) (ms_fresh m) (ms_head m) = as"
proof -
  obtain as where as: "links (ms_heap m) (ms_head m) as" "distinct (ms_head m # as)" "ms_tail m = last (ms_head m # as)"
    "\<forall>a\<in>set as. node_data (ms_heap m) a \<noteq> None" "\<forall>a. ms_heap m a \<noteq> None \<longrightarrow> a < ms_fresh m"
    using assms unfolding mspc_inv_def by blast
  have "set (ms_head m # as) \<subseteq> {..<ms_fresh m}" using links_alloc [OF as(1)] as(5) by blast
  then have "card (set (ms_head m # as)) \<le> ms_fresh m" using card_mono [of "{..<ms_fresh m}"] by auto
  then have "length as \<le> ms_fresh m" using distinct_card [OF as(2)] by simp
  then show ?thesis using that as links_chain [OF as(1)] by blast
qed

lemma mspc_inv_new: "mspc_inv new_MSPC" "mspc_contents new_MSPC = []"
  by (auto simp: mspc_inv_def new_MSPC_def mspc_contents_def intro!: exI [of _ "[]"])

section \<open>First in, first out\<close>

lemma MSPC_Push_ok:
  assumes inv: "mspc_inv m"
  shows "\<exists>m'. MSPC_Push (Some x) m = Inr m' \<and> mspc_inv m' \<and> mspc_contents m' = mspc_contents m @ [x]"
proof -
  obtain as where as: "links (ms_heap m) (ms_head m) as" "distinct (ms_head m # as)" "ms_tail m = last (ms_head m # as)"
    "\<forall>a\<in>set as. node_data (ms_heap m) a \<noteq> None" "\<forall>a. ms_heap m a \<noteq> None \<longrightarrow> a < ms_fresh m"
    "chain (ms_heap m) (ms_fresh m) (ms_head m) = as"
    using mspc_inv_unfold [OF inv] by metis
  let ?f = "ms_fresh m" and ?t = "ms_tail m" and ?n0 = "\<lparr>nd_data = Some x, nd_next = None\<rparr>"
  have fresh: "?f \<notin> set (ms_head m # as)" using links_alloc [OF as(1)] as(5) by blast
  have tail: "?t \<in> set (ms_head m # as)" unfolding as(3) by (rule last_in_set) simp
  obtain n where n: "ms_heap m ?t = Some n" "nd_next n = None"
  proof -
    have "links h a bs \<Longrightarrow> \<exists>n. h (last (a # bs)) = Some n \<and> nd_next n = None" for h :: "nat \<Rightarrow> 'a node option" and a bs
      by (induction h a bs rule: links.induct) auto
    then show ?thesis using that as(1,3) by metis
  qed
  let ?h1 = "(ms_heap m)(?f := Some ?n0)"
  define m' where "m' = m\<lparr>ms_fresh := Suc ?f, ms_heap := ?h1(?t := Some (n\<lparr>nd_next := Some ?f\<rparr>)), ms_tail := ?f\<rparr>"
  have ne: "?t \<noteq> ?f" using fresh tail by metis
  have push: "MSPC_Push (Some x) m = Inr m'"
    using n ne by (simp add: MSPC_Push_def new_node_def set_node_def deref_def numeral_eq_Suc m'_def)
  have l1: "links ?h1 (ms_head m) as" by (rule links_cong [OF as(1)]) (use fresh in auto)
  have l2: "links (ms_heap m') (ms_head m') (as @ [?f])"
    using links_snoc [OF l1 as(2) fresh, of "Some x" n] n ne as(3) by (simp add: m'_def)
  have d: "node_data (ms_heap m') a = node_data (ms_heap m) a" if "a \<noteq> ?f" for a
    using that n by (simp add: m'_def node_data_def)
  have df: "node_data (ms_heap m') ?f = Some x" using ne by (simp add: m'_def node_data_def)
  have "mspc_inv m'" unfolding mspc_inv_def
  proof (intro exI [of _ "as @ [?f]"] conjI)
    show "distinct (ms_head m' # as @ [?f])" using as(2) fresh by (simp add: m'_def)
    show "ms_tail m' = last (ms_head m' # as @ [?f])" by (simp add: m'_def)
    show "\<forall>a\<in>set (as @ [?f]). node_data (ms_heap m') a \<noteq> None" using as(4) d df fresh by (metis Un_iff empty_iff empty_set set_ConsD set_append option.distinct(1))
    show "\<forall>a. ms_heap m' a \<noteq> None \<longrightarrow> a < ms_fresh m'" using as(5) n by (auto simp: m'_def less_Suc_eq)
  qed (rule l2)
  moreover have "mspc_contents m' = mspc_contents m @ [x]"
  proof -
    obtain bs where bs: "links (ms_heap m') (ms_head m') bs" "chain (ms_heap m') (ms_fresh m') (ms_head m') = bs"
      using mspc_inv_unfold [OF \<open>mspc_inv m'\<close>] by metis
    have "set (ms_head m # as) \<subseteq> {..<?f}" using links_alloc [OF as(1)] as(5) by blast
    then have "length as < Suc ?f" using card_mono [of "{..<?f}" "set (ms_head m # as)"] distinct_card [OF as(2)] by simp
    then have "chain (ms_heap m') (ms_fresh m') (ms_head m') = as @ [?f]"
      by (intro links_chain [OF l2]) (simp add: m'_def)
    moreover have "map (\<lambda>a. the (node_data (ms_heap m') a)) as = map (\<lambda>a. the (node_data (ms_heap m) a)) as"
    proof (rule map_cong [OF refl])
      fix a assume "a \<in> set as"
      then have "a \<noteq> ?f" using fresh by auto
      then show "the (node_data (ms_heap m') a) = the (node_data (ms_heap m) a)" by (simp add: d)
    qed
    ultimately show ?thesis by (simp add: mspc_contents_def as(6) df)
  qed
  ultimately show ?thesis using push by blast
qed

lemma MSPC_Pop_ok:
  assumes inv: "mspc_inv m"
  shows "mspc_contents m = [] \<Longrightarrow> MSPC_Pop m = Inr (None, m)"
    and "mspc_contents m = x # xs \<Longrightarrow> \<exists>m'. MSPC_Pop m = Inr (Some x, m') \<and> mspc_inv m' \<and> mspc_contents m' = xs"
proof -
  obtain as where as: "links (ms_heap m) (ms_head m) as" "distinct (ms_head m # as)" "ms_tail m = last (ms_head m # as)"
    "\<forall>a\<in>set as. node_data (ms_heap m) a \<noteq> None" "\<forall>a. ms_heap m a \<noteq> None \<longrightarrow> a < ms_fresh m"
    "chain (ms_heap m) (ms_fresh m) (ms_head m) = as"
    using mspc_inv_unfold [OF inv] by metis
  have c: "mspc_contents m = map (\<lambda>a. the (node_data (ms_heap m) a)) as" by (simp add: mspc_contents_def as(6))
  show "mspc_contents m = [] \<Longrightarrow> MSPC_Pop m = Inr (None, m)"
    using as(1) c by (auto simp: MSPC_Pop_def numeral_eq_Suc deref_def)
  assume cons: "mspc_contents m = x # xs"
  then obtain b bs where b: "as = b # bs" using c by (cases as) auto
  obtain nh nb where nh: "ms_heap m (ms_head m) = Some nh" "nd_next nh = Some b" and nb: "ms_heap m b = Some nb" "nd_data nb = Some x"
    using as(1,4) cons c b links_alloc [OF as(1), of b] by (auto simp: node_data_def)
  let ?m = "m\<lparr>ms_head := b, ms_heap := (ms_heap m)(ms_head m := None)\<rparr>"
  have pop: "MSPC_Pop m = Inr (Some x, ?m)"
    using nh nb by (simp add: MSPC_Pop_def numeral_eq_Suc deref_def set_node_def)
  have l: "links (ms_heap ?m) b bs" using as(1,2) b by (auto intro!: links_cong [of "ms_heap m" b bs])
  have d: "node_data (ms_heap ?m) a = node_data (ms_heap m) a" if "a \<in> set as" for a
    using that as(2) by (auto simp: node_data_def)
  have "mspc_inv ?m" unfolding mspc_inv_def
    using l as(2-5) b d by (intro exI [of _ bs]) (auto simp: node_data_def)
  moreover have "mspc_contents ?m = xs"
  proof -
    have "set (ms_head m # as) \<subseteq> {..<ms_fresh m}" using links_alloc [OF as(1)] as(5) by blast
    then have "length bs \<le> ms_fresh m" using card_mono [of "{..<ms_fresh m}" "set (ms_head m # as)"] distinct_card [OF as(2)] b by simp
    then have "chain (ms_heap ?m) (ms_fresh ?m) (ms_head ?m) = bs" using links_chain [OF l] by simp
    moreover have "map (\<lambda>a. the (node_data (ms_heap ?m) a)) bs = map (\<lambda>a. the (node_data (ms_heap m) a)) bs"
      using d b by (intro map_cong) auto
    ultimately show ?thesis using cons c b by (simp add: mspc_contents_def)
  qed
  ultimately show "\<exists>m'. MSPC_Pop m = Inr (Some x, m') \<and> mspc_inv m' \<and> mspc_contents m' = xs" using pop by blast
qed

interpretation ms: fifo_queue mspc_inv mspc_contents "\<lambda>x. MSPC_Push (Some x)" MSPC_Pop
proof unfold_locales
  fix q :: "'a mspc" and x xs
  assume inv: "mspc_inv q"
  show "\<exists>q'. MSPC_Push (Some x) q = Inr q' \<and> mspc_inv q' \<and> mspc_contents q' = mspc_contents q @ [x]"
    by (rule MSPC_Push_ok [OF inv])
  show "mspc_contents q = [] \<Longrightarrow> \<exists>q'. MSPC_Pop q = Inr (None, q') \<and> mspc_inv q' \<and> mspc_contents q' = []"
    using MSPC_Pop_ok(1) [OF inv] inv by auto
  show "mspc_contents q = x # xs \<Longrightarrow> \<exists>q'. MSPC_Pop q = Inr (Some x, q') \<and> mspc_inv q' \<and> mspc_contents q' = xs"
    by (rule MSPC_Pop_ok(2) [OF inv])
qed

section \<open>Interleaved operations\<close>

text \<open>Threads start a Push (any of them) or a Pop (the consumer), and make their steps in any order.\<close>

record 'a mspc_sys =
  mq_queue :: "'a mspc"
  mq_pc :: "nat \<Rightarrow> 'a mspc_pc"

definition mspc_init :: "'a mspc_sys" where
  "mspc_init = \<lparr>mq_queue = new_MSPC, mq_pc = (\<lambda>_. PushDone)\<rparr>"

definition at_rest :: "'a mspc_pc \<Rightarrow> bool" where
  "at_rest pc \<longleftrightarrow> (case pc of PushDone \<Rightarrow> True | PopDone r \<Rightarrow> True | _ \<Rightarrow> False)"

inductive mspc_conc :: "nat \<Rightarrow> 'a mspc_sys \<Rightarrow> 'a mspc_sys \<Rightarrow> bool" for consumer where
  conc_push: "at_rest (mq_pc s t) \<Longrightarrow> new_node (Some x) (mq_queue s) = (a, m)
    \<Longrightarrow> mspc_conc consumer s \<lparr>mq_queue = m, mq_pc = (mq_pc s)(t := LoadTail a)\<rparr>"
| conc_pop: "at_rest (mq_pc s consumer)
    \<Longrightarrow> mspc_conc consumer s (s\<lparr>mq_pc := (mq_pc s)(consumer := LoadHead)\<rparr>)"
| conc_step: "mspc_step (mq_pc s t) (mq_queue s) = Inr (pc, m)
    \<Longrightarrow> mspc_conc consumer s \<lparr>mq_queue = m, mq_pc = (mq_pc s)(t := pc)\<rparr>"

text \<open>
  A producer that has linked its node but not yet moved \<open>_tail\<close> leaves \<open>_tail\<close> on the node the
  consumer deletes; the next producer then reads freed memory.
\<close>

definition after_link :: "'a \<Rightarrow> 'a mspc" where
  "after_link x = \<lparr>ms_heap = [0 \<mapsto> \<lparr>nd_data = None, nd_next = Some 1\<rparr>, 1 \<mapsto> \<lparr>nd_data = Some x, nd_next = None\<rparr>],
     ms_head = 0, ms_tail = 0, ms_fresh = 2\<rparr>"

lemma reaches_after_link:
  "reaches (mspc_conc 0) mspc_init \<lparr>mq_queue = after_link x, mq_pc = (\<lambda>_. PushDone)(1 := SwingTail 1 0)\<rparr>"
proof -
  let ?q1 = "snd (new_node (Some x) new_MSPC)"
  let ?pc = "(\<lambda>_ :: nat. PushDone :: 'a mspc_pc)"
  have "mspc_conc 0 mspc_init \<lparr>mq_queue = ?q1, mq_pc = ?pc(1 := LoadTail 1)\<rparr>"
    using conc_push [of mspc_init 1 x 1 ?q1 0] by (simp add: mspc_init_def at_rest_def new_node_def new_MSPC_def)
  moreover have "mspc_conc 0 \<lparr>mq_queue = ?q1, mq_pc = ?pc(1 := LoadTail 1)\<rparr> \<lparr>mq_queue = ?q1, mq_pc = ?pc(1 := LoadNext 1 0)\<rparr>"
    using conc_step [of "\<lparr>mq_queue = ?q1, mq_pc = ?pc(1 := LoadTail 1)\<rparr>" 1 "LoadNext 1 0" ?q1 0]
    by (simp add: new_node_def set_node_def new_MSPC_def)
  moreover have "mspc_conc 0 \<lparr>mq_queue = ?q1, mq_pc = ?pc(1 := LoadNext 1 0)\<rparr> \<lparr>mq_queue = ?q1, mq_pc = ?pc(1 := CasNext 1 0)\<rparr>"
    using conc_step [of "\<lparr>mq_queue = ?q1, mq_pc = ?pc(1 := LoadNext 1 0)\<rparr>" 1 "CasNext 1 0" ?q1 0]
    by (simp add: new_node_def set_node_def new_MSPC_def deref_def)
  moreover have "mspc_conc 0 \<lparr>mq_queue = ?q1, mq_pc = ?pc(1 := CasNext 1 0)\<rparr> \<lparr>mq_queue = after_link x, mq_pc = ?pc(1 := SwingTail 1 0)\<rparr>"
    using conc_step [of "\<lparr>mq_queue = ?q1, mq_pc = ?pc(1 := CasNext 1 0)\<rparr>" 1 "SwingTail 1 0" "after_link x" 0]
    by (simp add: new_node_def set_node_def new_MSPC_def deref_def after_link_def fun_upd_twist)
  ultimately show ?thesis by (meson reaches.intros)
qed

definition after_pop :: "'a \<Rightarrow> 'a mspc" where
  "after_pop x = \<lparr>ms_heap = [1 \<mapsto> \<lparr>nd_data = Some x, nd_next = None\<rparr>], ms_head = 1, ms_tail = 0, ms_fresh = 2\<rparr>"

lemma reaches_after_pop:
  "reaches (mspc_conc 0) mspc_init \<lparr>mq_queue = after_pop x, mq_pc = (\<lambda>_. PushDone)(1 := SwingTail 1 0, 0 := PopDone (Some x))\<rparr>"
proof -
  let ?pc = "(\<lambda>_ :: nat. PushDone :: 'a mspc_pc)(1 := SwingTail 1 0)"
  let ?q = "after_link x" and ?q2 = "after_link x\<lparr>ms_head := 1\<rparr>"
  note reaches_after_link [of x]
  moreover have "mspc_conc 0 \<lparr>mq_queue = ?q, mq_pc = ?pc\<rparr> \<lparr>mq_queue = ?q, mq_pc = ?pc(0 := LoadHead)\<rparr>"
    using conc_pop [of "\<lparr>mq_queue = ?q, mq_pc = ?pc\<rparr>" 0] by (simp add: at_rest_def)
  moreover have "mspc_conc 0 \<lparr>mq_queue = ?q, mq_pc = ?pc(0 := LoadHead)\<rparr> \<lparr>mq_queue = ?q, mq_pc = ?pc(0 := HeadNext 0)\<rparr>"
    using conc_step [of "\<lparr>mq_queue = ?q, mq_pc = ?pc(0 := LoadHead)\<rparr>" 0 "HeadNext 0" ?q 0] by (simp add: after_link_def)
  moreover have "mspc_conc 0 \<lparr>mq_queue = ?q, mq_pc = ?pc(0 := HeadNext 0)\<rparr> \<lparr>mq_queue = ?q, mq_pc = ?pc(0 := TakeData 0 1)\<rparr>"
    using conc_step [of "\<lparr>mq_queue = ?q, mq_pc = ?pc(0 := HeadNext 0)\<rparr>" 0 "TakeData 0 1" ?q 0]
    by (simp add: after_link_def deref_def)
  moreover have "mspc_conc 0 \<lparr>mq_queue = ?q, mq_pc = ?pc(0 := TakeData 0 1)\<rparr> \<lparr>mq_queue = ?q2, mq_pc = ?pc(0 := FreeHead 0 (Some x))\<rparr>"
    using conc_step [of "\<lparr>mq_queue = ?q, mq_pc = ?pc(0 := TakeData 0 1)\<rparr>" 0 "FreeHead 0 (Some x)" ?q2 0]
    by (simp add: after_link_def deref_def)
  moreover have "mspc_conc 0 \<lparr>mq_queue = ?q2, mq_pc = ?pc(0 := FreeHead 0 (Some x))\<rparr> \<lparr>mq_queue = after_pop x, mq_pc = ?pc(0 := PopDone (Some x))\<rparr>"
    using conc_step [of "\<lparr>mq_queue = ?q2, mq_pc = ?pc(0 := FreeHead 0 (Some x))\<rparr>" 0 "PopDone (Some x)" "after_pop x" 0]
    by (simp add: after_link_def after_pop_def set_node_def fun_upd_twist)
  ultimately show ?thesis by (meson reaches.intros)
qed

text \<open>The next producer loads \<open>_tail\<close>, the address of the deleted node, and reads its \<open>next\<close>.\<close>

definition producer_faults :: "nat \<Rightarrow> 'a mspc_sys \<Rightarrow> bool" where
  "producer_faults t s \<longleftrightarrow> mspc_step (mq_pc s t) (mq_queue s) = Inl (UndefinedBehaviour ''use after free'')"

lemma reaches_producer_fault:
  "\<exists>s :: 'a mspc_sys. reaches (mspc_conc 0) mspc_init s \<and> producer_faults 2 s"
proof -
  fix x :: 'a
  let ?pc = "(\<lambda>_ :: nat. PushDone :: 'a mspc_pc)(1 := SwingTail 1 0, 0 := PopDone (Some x))"
  let ?q = "snd (new_node (Some x) (after_pop x))"
  note reaches_after_pop [of x]
  moreover have "mspc_conc 0 \<lparr>mq_queue = after_pop x, mq_pc = ?pc\<rparr> \<lparr>mq_queue = ?q, mq_pc = ?pc(2 := LoadTail 2)\<rparr>"
    using conc_push [of "\<lparr>mq_queue = after_pop x, mq_pc = ?pc\<rparr>" 2 x 2 ?q 0] by (simp add: at_rest_def new_node_def after_pop_def)
  moreover have "mspc_conc 0 \<lparr>mq_queue = ?q, mq_pc = ?pc(2 := LoadTail 2)\<rparr> \<lparr>mq_queue = ?q, mq_pc = ?pc(2 := LoadNext 2 0)\<rparr>"
    using conc_step [of "\<lparr>mq_queue = ?q, mq_pc = ?pc(2 := LoadTail 2)\<rparr>" 2 "LoadNext 2 0" ?q 0]
    by (simp add: new_node_def after_pop_def set_node_def)
  moreover have "producer_faults 2 \<lparr>mq_queue = ?q, mq_pc = ?pc(2 := LoadNext 2 0)\<rparr>"
    by (simp add: producer_faults_def deref_def new_node_def set_node_def after_pop_def)
  ultimately show ?thesis by (meson reaches.intros)
qed

end
