(* ===== verification/JobTimer.thy ===== *)
theory JobTimer imports Prelude "HOL-Library.Multiset" begin

text \<open>
  ServerCore/JobTimer.h and JobTimer.cpp: delayed jobs in a std::priority_queue, and Distribute,
  which hands due jobs to their queues. The contract of the standard container is the locale
  \<open>prio_queue\<close> (the order among equal keys is left open); the loop of Distribute is proved about
  once for every container that keeps it. Threads run Distribute in steps, one per access to shared
  memory, so the \<open>_distributing\<close> flag can be shown to admit one of them.
\<close>

section \<open>The container\<close>

text \<open>The loop of Distribute: take the first element until there is none or it is not due.\<close>

primrec take_due :: "('q \<Rightarrow> 'a option) \<Rightarrow> ('q \<Rightarrow> 'q) \<Rightarrow> ('a \<Rightarrow> uint64) \<Rightarrow> uint64 \<Rightarrow> nat \<Rightarrow> 'q \<Rightarrow> 'a list \<times> 'q" where
  "take_due first pop key now 0 q = ([], q)"
| "take_due first pop key now (Suc n) q =
     (case first q of
        None \<Rightarrow> ([], q)
      | Some it \<Rightarrow> if now < key it then ([], q)
                   else (let (its, q') = take_due first pop key now n (pop q) in (it # its, q')))"

locale prio_queue =
  fixes inv :: "'q \<Rightarrow> bool" and elems :: "'q \<Rightarrow> 'a multiset" and key :: "'a \<Rightarrow> uint64"
    and push :: "'a \<Rightarrow> 'q \<Rightarrow> 'q" and first :: "'q \<Rightarrow> 'a option" and pop :: "'q \<Rightarrow> 'q"
  assumes push_elems: "inv q \<Longrightarrow> inv (push x q) \<and> elems (push x q) = add_mset x (elems q)"
    and first_none: "inv q \<Longrightarrow> first q = None \<longleftrightarrow> elems q = {#}"
    and first_max: "inv q \<Longrightarrow> first q = Some x \<Longrightarrow> x \<in># elems q \<and> (\<forall>y\<in>#elems q. key y \<le> key x)"
    and pop_elems: "inv q \<Longrightarrow> first q = Some x \<Longrightarrow> inv (pop q) \<and> add_mset x (elems (pop q)) = elems q"
begin

lemma take_due_blocked:
  assumes "inv q" and "y \<in># elems q" and "now < key y"
  shows "take_due first pop key now n q = ([], q)"
proof (cases n)
  case (Suc k)
  obtain x where "first q = Some x" using assms(1,2) first_none by (cases "first q") auto
  moreover from this have "now < key x" using first_max [OF assms(1)] assms(2,3) by (metis order_less_le_trans)
  ultimately show ?thesis using Suc by simp
qed simp

lemma take_due_all:
  "inv q \<Longrightarrow> size (elems q) \<le> n \<Longrightarrow> \<forall>y\<in>#elems q. key y \<le> now \<Longrightarrow>
   \<exists>its q'. take_due first pop key now n q = (its, q') \<and> inv q' \<and> elems q' = {#} \<and> mset its = elems q
     \<and> sorted_wrt (\<lambda>a b. key b \<le> key a) its"
proof (induction n arbitrary: q)
  case (Suc n)
  show ?case
  proof (cases "first q")
    case None
    then have "elems q = {#}" using Suc.prems(1) first_none by blast
    then show ?thesis using Suc.prems(1) None by simp
  next
    case (Some x)
    have p: "inv (pop q)" "add_mset x (elems (pop q)) = elems q" using pop_elems [OF Suc.prems(1) Some] by auto
    have x: "key x \<le> now" "\<forall>y\<in>#elems q. key y \<le> key x" using first_max [OF Suc.prems(1) Some] Suc.prems(3) by auto
    have "size (elems (pop q)) \<le> n" using Suc.prems(2) p(2) by (metis Suc_le_mono size_add_mset)
    moreover have "\<forall>y\<in>#elems (pop q). key y \<le> now" using Suc.prems(3) p(2) by (metis insert_noteq_member insert_DiffM2 mset_add union_single_eq_member add_mset_commute multi_member_skip)
    ultimately obtain its q' where r: "take_due first pop key now n (pop q) = (its, q')" "inv q'" "elems q' = {#}"
      "mset its = elems (pop q)" "sorted_wrt (\<lambda>a b. key b \<le> key a) its"
      using Suc.IH [OF p(1)] by blast
    have "\<forall>y\<in>set its. key y \<le> key x"
    proof
      fix y assume "y \<in> set its"
      then have "y \<in># elems (pop q)" using r(4) by (metis set_mset_mset)
      then have "y \<in># elems q" using p(2) by (metis insert_iff set_mset_add_mset_insert)
      then show "key y \<le> key x" using x(2) by blast
    qed
    moreover have "\<not> now < key x" using x(1) by (rule leD)
    ultimately show ?thesis using Some r p(2) by simp
  qed
next
  case 0
  then show ?case by simp
qed

end

section \<open>Timer items\<close>

text \<open>JobData names the owner (a job queue, through a weak pointer) and the job.\<close>

record 'j timer_item =
  executeTick :: uint64
  ti_owner :: nat
  ti_job :: 'j

text \<open>TimerItem::operator<: std::priority_queue keeps the greatest item, the latest one, on top.\<close>

definition timer_less :: "'j timer_item \<Rightarrow> 'j timer_item \<Rightarrow> bool" where
  "timer_less a b \<longleftrightarrow> executeTick a < executeTick b"

text \<open>
  The container sorts by that operator. It is the strict part of a preorder (items due at the same tick
  are equivalent, not equal), so the library's facts on preorders apply to items.
\<close>

instantiation timer_item_ext :: (type, type) preorder
begin

definition less_eq_timer_item_ext :: "('a, 'b) timer_item_ext \<Rightarrow> ('a, 'b) timer_item_ext \<Rightarrow> bool" where
  "less_eq_timer_item_ext a b \<longleftrightarrow> executeTick a \<le> executeTick b"

definition less_timer_item_ext :: "('a, 'b) timer_item_ext \<Rightarrow> ('a, 'b) timer_item_ext \<Rightarrow> bool" where
  "less_timer_item_ext a b \<longleftrightarrow> executeTick a < executeTick b"

instance
  by standard (auto simp: less_eq_timer_item_ext_def less_timer_item_ext_def)

end

lemma timer_less_iff: "timer_less a b \<longleftrightarrow> a < b"
  by (simp add: timer_less_def less_timer_item_ext_def)

text \<open>The strict weak order std::priority_queue requires: being unordered is transitive.\<close>

lemma timer_less_weak_order:
  "\<not> timer_less a a" "timer_less a b \<Longrightarrow> timer_less b c \<Longrightarrow> timer_less a c"
  "\<not> timer_less a b \<Longrightarrow> \<not> timer_less b c \<Longrightarrow> \<not> timer_less a c"
  by (auto simp: timer_less_iff less_timer_item_ext_def intro: less_trans)

primrec items_push :: "'j timer_item \<Rightarrow> 'j timer_item list \<Rightarrow> 'j timer_item list" where
  "items_push it [] = [it]"
| "items_push it (x # xs) = (if timer_less x it then it # x # xs else x # items_push it xs)"

definition items_top :: "'j timer_item list \<Rightarrow> 'j timer_item option" where
  "items_top xs = (case xs of [] \<Rightarrow> None | x # rest \<Rightarrow> Some x)"

definition items_pop :: "'j timer_item list \<Rightarrow> 'j timer_item list" where
  "items_pop xs = tl xs"

definition items_sorted :: "'j timer_item list \<Rightarrow> bool" where
  "items_sorted xs = sorted_wrt (\<lambda>a b. executeTick b \<le> executeTick a) xs"

lemma mset_items_push [simp]: "mset (items_push it xs) = add_mset it (mset xs)"
  by (induction xs) auto

lemma set_items_push [simp]: "set (items_push it xs) = insert it (set xs)"
  by (induction xs) auto

lemma items_push_sorted: "items_sorted xs \<Longrightarrow> items_sorted (items_push it xs)"
  by (induction xs) (auto simp: items_sorted_def timer_less_def)

interpretation heap: prio_queue items_sorted mset executeTick items_push items_top items_pop
proof unfold_locales
  fix q :: "'j timer_item list" and x
  assume inv: "items_sorted q"
  show "items_sorted (items_push x q) \<and> mset (items_push x q) = add_mset x (mset q)"
    using items_push_sorted [OF inv] by simp
  show "items_top q = None \<longleftrightarrow> mset q = {#}" by (simp add: items_top_def split: list.splits)
  assume x: "items_top q = Some x"
  then obtain rest where q: "q = x # rest" by (cases q) (auto simp: items_top_def)
  show "x \<in># mset q \<and> (\<forall>y\<in>#mset q. executeTick y \<le> executeTick x)"
    using inv q by (auto simp: items_sorted_def)
  show "items_sorted (items_pop q) \<and> add_mset x (mset (items_pop q)) = mset q"
    using inv q by (auto simp: items_sorted_def items_pop_def)
qed

section \<open>The timer\<close>

datatype 'j dist_pc =
    DistNone
  | DistCollect uint64
  | DistPush "'j timer_item list"

text \<open>\<open>tm_alive\<close>: the job queues whose shared pointer still exists; \<open>tm_pushed\<close>: the jobs given to
  their queues, in order; \<open>tm_gone\<close>: those dropped with their owner or by Clear.\<close>

record 'j timer_sys =
  tm_items :: "'j timer_item list"
  tm_distributing :: bool
  tm_pc :: "nat \<Rightarrow> 'j dist_pc"
  tm_alive :: "nat \<Rightarrow> bool"
  tm_reserved :: "'j timer_item multiset"
  tm_pushed :: "'j timer_item list"
  tm_gone :: "'j timer_item multiset"

definition timer_init :: "(nat \<Rightarrow> bool) \<Rightarrow> 'j timer_sys" where
  "timer_init alive = \<lparr>tm_items = [], tm_distributing = False, tm_pc = (\<lambda>_. DistNone), tm_alive = alive,
     tm_reserved = {#}, tm_pushed = [], tm_gone = {#}\<rparr>"

definition new_TimerItem :: "uint64 \<Rightarrow> uint64 \<Rightarrow> nat \<Rightarrow> 'j \<Rightarrow> 'j timer_item" where
  "new_TimerItem tick tickAfter owner job = \<lparr>executeTick = tick + tickAfter, ti_owner = owner, ti_job = job\<rparr>"

definition Reserve :: "uint64 \<Rightarrow> uint64 \<Rightarrow> nat \<Rightarrow> 'j \<Rightarrow> 'j timer_sys \<Rightarrow> 'j timer_sys" where
  "Reserve tick tickAfter owner job s =
     (let it = new_TimerItem tick tickAfter owner job
      in s\<lparr>tm_items := items_push it (tm_items s), tm_reserved := add_mset it (tm_reserved s)\<rparr>)"

text \<open>\<open>_distributing.exchange(true)\<close>.\<close>

definition dist_enter :: "nat \<Rightarrow> uint64 \<Rightarrow> 'j timer_sys \<Rightarrow> 'j timer_sys" where
  "dist_enter t now s =
     (if tm_distributing s = True then s
      else s\<lparr>tm_distributing := True, tm_pc := (tm_pc s)(t := DistCollect now)\<rparr>)"

definition due_items :: "uint64 \<Rightarrow> 'j timer_item list \<Rightarrow> 'j timer_item list \<times> 'j timer_item list" where
  "due_items now items = take_due items_top items_pop executeTick now (length items) items"

definition dist_collect :: "nat \<Rightarrow> uint64 \<Rightarrow> 'j timer_sys \<Rightarrow> 'j timer_sys" where
  "dist_collect t now s =
     (let (items, rest) = due_items now (tm_items s)
      in s\<lparr>tm_items := rest, tm_pc := (tm_pc s)(t := DistPush items)\<rparr>)"

definition dist_push :: "nat \<Rightarrow> 'j timer_item \<Rightarrow> 'j timer_item list \<Rightarrow> 'j timer_sys \<Rightarrow> 'j timer_sys" where
  "dist_push t item items s =
     (let s1 = s\<lparr>tm_pc := (tm_pc s)(t := DistPush items)\<rparr>
      in if tm_alive s (ti_owner item) then s1\<lparr>tm_pushed := tm_pushed s @ [item]\<rparr>
         else s1\<lparr>tm_gone := add_mset item (tm_gone s)\<rparr>)"

definition dist_done :: "nat \<Rightarrow> 'j timer_sys \<Rightarrow> 'j timer_sys" where
  "dist_done t s = s\<lparr>tm_distributing := False, tm_pc := (tm_pc s)(t := DistNone)\<rparr>"

definition Timer_Clear :: "'j timer_sys \<Rightarrow> 'j timer_sys" where
  "Timer_Clear s = s\<lparr>tm_items := [], tm_gone := tm_gone s + mset (tm_items s)\<rparr>"

inductive timer_step :: "'j timer_sys \<Rightarrow> 'j timer_sys \<Rightarrow> bool" where
  timer_reserve: "timer_step s (Reserve tick tickAfter owner job s)"
| timer_enter: "tm_pc s t = DistNone \<Longrightarrow> timer_step s (dist_enter t now s)"
| timer_collect: "tm_pc s t = DistCollect now \<Longrightarrow> timer_step s (dist_collect t now s)"
| timer_push: "tm_pc s t = DistPush (item # items) \<Longrightarrow> timer_step s (dist_push t item items s)"
| timer_done: "tm_pc s t = DistPush [] \<Longrightarrow> timer_step s (dist_done t s)"
| timer_clear: "timer_step s (Timer_Clear s)"
| timer_expire: "timer_step s (s\<lparr>tm_alive := (tm_alive s)(q := b)\<rparr>)"

text \<open>Distribute by a thread that is not disturbed.\<close>

primrec push_items :: "'j timer_item list \<Rightarrow> 'j timer_sys \<Rightarrow> 'j timer_sys" where
  "push_items [] s = s"
| "push_items (item # items) s =
     push_items items
       (if tm_alive s (ti_owner item) then s\<lparr>tm_pushed := tm_pushed s @ [item]\<rparr>
        else s\<lparr>tm_gone := add_mset item (tm_gone s)\<rparr>)"

definition Distribute :: "uint64 \<Rightarrow> 'j timer_sys \<Rightarrow> 'j timer_sys" where
  "Distribute now s =
     (if tm_distributing s = True then s
      else let (items, rest) = due_items now (tm_items s)
           in (push_items items (s\<lparr>tm_distributing := True, tm_items := rest\<rparr>))\<lparr>tm_distributing := False\<rparr>)"

section \<open>The invariant\<close>

definition timer_inv :: "'j timer_sys \<Rightarrow> bool" where
  "timer_inv s \<longleftrightarrow> items_sorted (tm_items s)
     \<and> (\<forall>t u. tm_pc s t \<noteq> DistNone \<longrightarrow> tm_pc s u \<noteq> DistNone \<longrightarrow> t = u)
     \<and> (\<forall>t. tm_pc s t \<noteq> DistNone \<longrightarrow> tm_distributing s)
     \<and> (\<exists>held. tm_reserved s = mset (tm_items s) + mset held + mset (tm_pushed s) + tm_gone s
          \<and> (\<forall>t its. tm_pc s t = DistPush its \<longrightarrow> its = held)
          \<and> ((\<forall>t its. tm_pc s t \<noteq> DistPush its) \<longrightarrow> held = []))"

lemma due_items_cases:
  assumes "items_sorted items"
  shows "(\<exists>y\<in>set items. now < executeTick y) \<Longrightarrow> due_items now items = ([], items)"
    and "\<forall>y\<in>set items. executeTick y \<le> now \<Longrightarrow> \<exists>its. due_items now items = (its, []) \<and> mset its = mset items
      \<and> sorted_wrt (\<lambda>a b. executeTick b \<le> executeTick a) its"
proof -
  show "due_items now items = ([], items)" if "\<exists>y\<in>set items. now < executeTick y"
    using that heap.take_due_blocked [OF assms] by (auto simp: due_items_def)
  assume "\<forall>y\<in>set items. executeTick y \<le> now"
  then show "\<exists>its. due_items now items = (its, []) \<and> mset its = mset items
      \<and> sorted_wrt (\<lambda>a b. executeTick b \<le> executeTick a) its"
    using heap.take_due_all [OF assms, of "length items" now] by (auto simp: due_items_def)
qed

lemma due_items_split:
  assumes "items_sorted items"
  shows "\<exists>its rest. due_items now items = (its, rest) \<and> items_sorted rest \<and> mset its + mset rest = mset items"
proof (cases "\<exists>y\<in>set items. now < executeTick y")
  case True
  then show ?thesis using due_items_cases(1) [OF assms] assms by auto
next
  case False
  then have "\<forall>y\<in>set items. executeTick y \<le> now" by (simp add: not_less)
  then obtain its where "due_items now items = (its, [])" "mset its = mset items" using due_items_cases(2) [OF assms] by blast
  then show ?thesis by (auto simp: items_sorted_def)
qed

lemma timer_inv_init: "timer_inv (timer_init alive)"
  by (simp add: timer_inv_def timer_init_def items_sorted_def)

lemma timer_inv_held:
  assumes "timer_inv s" and "tm_pc s t = DistPush its"
  shows "tm_reserved s = mset (tm_items s) + mset its + mset (tm_pushed s) + tm_gone s"
  using assms unfolding timer_inv_def by blast

lemma timer_inv_quiet:
  assumes "timer_inv s" and "\<And>t its. tm_pc s t \<noteq> DistPush its"
  shows "tm_reserved s = mset (tm_items s) + mset (tm_pushed s) + tm_gone s"
  using assms unfolding timer_inv_def by fastforce

lemma timer_only:
  assumes "timer_inv s" and "tm_pc s t \<noteq> DistNone" and "u \<noteq> t"
  shows "tm_pc s u = DistNone"
  using assms unfolding timer_inv_def by blast

text \<open>How a step of the thread that distributes keeps the invariant.\<close>

lemma timer_inv_holder:
  assumes "timer_inv s" and "tm_pc s t \<noteq> DistNone" and "tm_pc s' = (tm_pc s)(t := pc')"
    and "items_sorted (tm_items s')" and "pc' \<noteq> DistNone \<longrightarrow> tm_distributing s'"
    and "tm_reserved s' = mset (tm_items s') + mset (case pc' of DistPush its \<Rightarrow> its | _ \<Rightarrow> []) + mset (tm_pushed s') + tm_gone s'"
  shows "timer_inv s'"
proof -
  have none: "tm_pc s u = DistNone" if "u \<noteq> t" for u using timer_only [OF assms(1,2) that] .
  then show ?thesis unfolding timer_inv_def
    using assms(3-6)
    by (intro conjI exI [of _ "case pc' of DistPush its \<Rightarrow> its | _ \<Rightarrow> []"]) (auto split: dist_pc.splits)
qed

theorem timer_step_inv: "timer_step s s' \<Longrightarrow> timer_inv s \<Longrightarrow> timer_inv s'"
proof (induction rule: timer_step.induct)
  case (timer_reserve s tick tickAfter owner job)
  then show ?case
    by (auto simp: timer_inv_def Reserve_def Let_def items_push_sorted)
next
  case (timer_enter s t now)
  show ?case
  proof (cases "tm_distributing s")
    case False
    then have "tm_pc s u = DistNone" for u using timer_enter(2) unfolding timer_inv_def by blast
    then show ?thesis using timer_enter(2) False by (auto simp: timer_inv_def dist_enter_def)
  qed (use timer_enter in \<open>simp add: dist_enter_def\<close>)
next
  case (timer_collect s t now)
  obtain its rest where d: "due_items now (tm_items s) = (its, rest)" "items_sorted rest" "mset its + mset rest = mset (tm_items s)"
    using due_items_split timer_collect(2) unfolding timer_inv_def by blast
  have "tm_pc s u \<noteq> DistPush xs" for u xs using timer_only [OF timer_collect(2), of t u] timer_collect(1) by (cases "u = t") auto
  then have "tm_reserved s = mset (tm_items s) + mset (tm_pushed s) + tm_gone s" using timer_inv_quiet [OF timer_collect(2)] by blast
  moreover have "tm_distributing s" using timer_collect unfolding timer_inv_def by (metis dist_pc.distinct(1))
  ultimately show ?case using d timer_collect(1)
    by (intro timer_inv_holder [OF timer_collect(2), of t _ "DistPush its"]) (auto simp: dist_collect_def union_ac)
next
  case (timer_push s t item items)
  have "tm_distributing s" "items_sorted (tm_items s)" using timer_push unfolding timer_inv_def by (metis dist_pc.distinct(3), blast)
  then show ?case using timer_push(1) timer_inv_held [OF timer_push(2,1)]
    by (intro timer_inv_holder [OF timer_push(2), of t _ "DistPush items"]) (auto simp: dist_push_def Let_def)
next
  case (timer_done s t)
  then show ?case using timer_inv_held [OF timer_done(2,1)]
    by (intro timer_inv_holder [OF timer_done(2), of t _ "DistNone"]) (auto simp: dist_done_def timer_inv_def)
next
  case (timer_clear s)
  then show ?case by (auto simp: timer_inv_def Timer_Clear_def items_sorted_def union_ac)
next
  case (timer_expire s q b)
  then show ?case by (simp add: timer_inv_def)
qed

theorem timer_reachable: "reaches timer_step (timer_init alive) s \<Longrightarrow> timer_inv s"
  using reaches_invariant [of timer_step "timer_init alive" s timer_inv] timer_inv_init timer_step_inv by blast

section \<open>What Distribute hands out\<close>

lemma push_items_effect:
  "push_items its s = s\<lparr>tm_pushed := tm_pushed s @ filter (\<lambda>it. tm_alive s (ti_owner it)) its,
     tm_gone := tm_gone s + mset (filter (\<lambda>it. \<not> tm_alive s (ti_owner it)) its)\<rparr>"
  by (induction its arbitrary: s) simp_all

text \<open>One item that is not due holds back every other; otherwise all go out, the latest first.\<close>

lemma Distribute_blocked:
  assumes "items_sorted (tm_items s)" and "it \<in> set (tm_items s)" and "now < executeTick it" and "\<not> tm_distributing s"
  shows "Distribute now s = s"
proof -
  have "due_items now (tm_items s) = ([], tm_items s)" using due_items_cases(1) [OF assms(1)] assms(2,3) by blast
  then show ?thesis using assms(4) by (simp add: Distribute_def)
qed

lemma Distribute_all:
  assumes "items_sorted (tm_items s)" and "\<forall>it\<in>set (tm_items s). executeTick it \<le> now" and "\<not> tm_distributing s"
  shows "\<exists>its. mset its = mset (tm_items s) \<and> sorted_wrt (\<lambda>a b. executeTick b \<le> executeTick a) its
    \<and> tm_items (Distribute now s) = [] \<and> tm_pushed (Distribute now s) = tm_pushed s @ filter (\<lambda>it. tm_alive s (ti_owner it)) its"
proof -
  obtain its where its: "due_items now (tm_items s) = (its, [])" "mset its = mset (tm_items s)"
    "sorted_wrt (\<lambda>a b. executeTick b \<le> executeTick a) its"
    using due_items_cases(2) [OF assms(1,2)] by blast
  then show ?thesis using assms(3) by (intro exI [of _ its]) (simp add: Distribute_def push_items_effect)
qed

end
