(* ===== verification/LockFreeStack.thy ===== *)
theory LockFreeStack imports Prelude begin

text \<open>
  ServerCore/LockFreeStack.h: the Treiber stack with a deferred-deletion list. Nodes live on an
  explicit heap of addresses, \<open>new\<close> takes any free address (also one that was deleted before), and
  reading, writing or deleting an address without a node is a fault. A thread makes one access to
  shared memory per step; accesses to a node only this thread can free go with the step before.
  \<open>spur\<close> is the spurious failure compare_exchange_weak is allowed. The theorems show that no
  interleaving of any threads reaches a fault, and that the steps refine an abstract stack.
\<close>

section \<open>State and steps\<close>

record 'c lf_node =
  ln_data :: 'c
  ln_next :: "nat option"

type_synonym 'c lf_heap = "nat \<Rightarrow> 'c lf_node option"

datatype lf_pc =
    Idle
  | PushCas nat "nat option"
  | PopLoad
  | PopTest "nat option"
  | PopCas nat "nat option"
  | PopFail
  | DelCheck nat
  | DelExchange nat
  | DelDec nat "nat option"
  | DelNodes nat "nat option"
  | DelWalk nat nat nat
  | DelHead nat
  | ChainStart nat nat "nat option"
  | ChainCas nat nat "nat option" "nat option"
  | ChainDec

text \<open>\<open>lf_value\<close> is the out parameter of each thread's TryPop.\<close>

record 'c lf_sys =
  lf_heap :: "'c lf_heap"
  lf_head :: "nat option"
  lf_popCount :: int
  lf_pendingList :: "nat option"
  lf_pc :: "nat \<Rightarrow> lf_pc"
  lf_value :: "nat \<Rightarrow> 'c option"

definition lf_init :: "'c lf_sys" where
  "lf_init = \<lparr>lf_heap = Map.empty, lf_head = None, lf_popCount = 0, lf_pendingList = None,
     lf_pc = (\<lambda>_. Idle), lf_value = (\<lambda>_. None)\<rparr>"

definition node_at :: "'c lf_heap \<Rightarrow> nat \<Rightarrow> 'c lf_node result" where
  "node_at h a = (case h a of None \<Rightarrow> Inl (UndefinedBehaviour ''use after free'') | Some n \<Rightarrow> Inr n)"

definition lf_goto :: "nat \<Rightarrow> lf_pc \<Rightarrow> 'c lf_sys \<Rightarrow> 'c lf_sys" where
  "lf_goto t pc s = s\<lparr>lf_pc := (lf_pc s)(t := pc)\<rparr>"

text \<open>Writing \<open>next\<close> of a node.\<close>

definition set_next :: "nat \<Rightarrow> nat option \<Rightarrow> 'c lf_sys \<Rightarrow> 'c lf_sys result" where
  "set_next a q s = bind_result (node_at (lf_heap s) a) (\<lambda>n. Inr (s\<lparr>lf_heap := (lf_heap s)(a \<mapsto> n\<lparr>ln_next := q\<rparr>)\<rparr>))"

definition free_node :: "nat \<Rightarrow> 'c lf_sys \<Rightarrow> 'c lf_sys result" where
  "free_node a s = bind_result (node_at (lf_heap s) a) (\<lambda>n. Inr (s\<lparr>lf_heap := (lf_heap s)(a := None)\<rparr>))"

definition push_start :: "nat \<Rightarrow> nat \<Rightarrow> 'c \<Rightarrow> 'c lf_sys \<Rightarrow> 'c lf_sys" where
  "push_start t a value s =
     lf_goto t (PushCas a None) (s\<lparr>lf_heap := (lf_heap s)(a \<mapsto> \<lparr>ln_data = value, ln_next = None\<rparr>)\<rparr>)"

definition pop_start :: "nat \<Rightarrow> 'c lf_sys \<Rightarrow> 'c lf_sys" where
  "pop_start t s = lf_goto t PopLoad (s\<lparr>lf_popCount := lf_popCount s + 1, lf_value := (lf_value s)(t := None)\<rparr>)"

definition lf_step :: "bool \<Rightarrow> nat \<Rightarrow> 'c lf_sys \<Rightarrow> 'c lf_sys result" where
  "lf_step spur t s = (case lf_pc s t of
     Idle \<Rightarrow> Inr s
   | PushCas a e \<Rightarrow>
       if lf_head s = e \<and> \<not> spur then Inr (lf_goto t Idle (s\<lparr>lf_head := Some a\<rparr>))
       else bind_result (set_next a (lf_head s) s) (\<lambda>s'. Inr (lf_goto t (PushCas a (lf_head s)) s'))
   | PopLoad \<Rightarrow> Inr (lf_goto t (PopTest (lf_head s)) s)
   | PopTest prevHead \<Rightarrow>
       (case prevHead of
          None \<Rightarrow> Inr (lf_goto t PopFail s)
        | Some p \<Rightarrow> bind_result (node_at (lf_heap s) p) (\<lambda>n. Inr (lf_goto t (PopCas p (ln_next n)) s)))
   | PopCas p n \<Rightarrow>
       if lf_head s = Some p \<and> \<not> spur
       then bind_result (node_at (lf_heap s) p) (\<lambda>nd.
              Inr (lf_goto t (DelCheck p) (s\<lparr>lf_head := n, lf_value := (lf_value s)(t := Some (ln_data nd))\<rparr>)))
       else Inr (lf_goto t (PopTest (lf_head s)) s)
   | PopFail \<Rightarrow> Inr (lf_goto t Idle (s\<lparr>lf_popCount := lf_popCount s - 1\<rparr>))
   | DelCheck p \<Rightarrow> Inr (lf_goto t (if lf_popCount s = 1 then DelExchange p else ChainStart p p None) s)
   | DelExchange p \<Rightarrow> Inr (lf_goto t (DelDec p (lf_pendingList s)) (s\<lparr>lf_pendingList := None\<rparr>))
   | DelDec p node \<Rightarrow>
       Inr (lf_goto t (if lf_popCount s - 1 = 0 then DelNodes p node
                    else case node of Some x \<Rightarrow> DelWalk p x x | None \<Rightarrow> DelHead p)
              (s\<lparr>lf_popCount := lf_popCount s - 1\<rparr>))
   | DelNodes p node \<Rightarrow>
       (case node of
          None \<Rightarrow> Inr (lf_goto t (DelHead p) s)
        | Some x \<Rightarrow> bind_result (node_at (lf_heap s) x) (\<lambda>n.
            bind_result (free_node x s) (\<lambda>s'. Inr (lf_goto t (DelNodes p (ln_next n)) s'))))
   | DelWalk p f l \<Rightarrow>
       bind_result (node_at (lf_heap s) l) (\<lambda>n.
         Inr (lf_goto t (case ln_next n of Some x \<Rightarrow> DelWalk p f x | None \<Rightarrow> ChainStart f l (Some p)) s))
   | DelHead p \<Rightarrow> bind_result (free_node p s) (\<lambda>s'. Inr (lf_goto t Idle s'))
   | ChainStart f l after \<Rightarrow>
       bind_result (set_next l (lf_pendingList s) s) (\<lambda>s'. Inr (lf_goto t (ChainCas f l (lf_pendingList s) after) s'))
   | ChainCas f l e after \<Rightarrow>
       if lf_pendingList s = e \<and> \<not> spur
       then Inr (lf_goto t (case after of Some p \<Rightarrow> DelHead p | None \<Rightarrow> ChainDec) (s\<lparr>lf_pendingList := Some f\<rparr>))
       else bind_result (set_next l (lf_pendingList s) s) (\<lambda>s'. Inr (lf_goto t (ChainCas f l (lf_pendingList s) after) s'))
   | ChainDec \<Rightarrow> Inr (lf_goto t Idle (s\<lparr>lf_popCount := lf_popCount s - 1\<rparr>)))"

inductive lf_conc :: "nat set \<Rightarrow> 'c lf_sys \<Rightarrow> 'c lf_sys \<Rightarrow> bool" for ts where
  lf_push: "t \<in> ts \<Longrightarrow> lf_pc s t = Idle \<Longrightarrow> lf_heap s a = None \<Longrightarrow> lf_conc ts s (push_start t a value s)"
| lf_pop: "t \<in> ts \<Longrightarrow> lf_pc s t = Idle \<Longrightarrow> lf_conc ts s (pop_start t s)"
| lf_move: "t \<in> ts \<Longrightarrow> lf_step spur t s = Inr s' \<Longrightarrow> lf_conc ts s s'"

section \<open>Chains\<close>

fun lseg :: "'c lf_heap \<Rightarrow> nat option \<Rightarrow> nat list \<Rightarrow> nat option \<Rightarrow> bool" where
  "lseg h s [] e \<longleftrightarrow> s = e"
| "lseg h s (a # as) e \<longleftrightarrow> s = Some a \<and> (case h a of None \<Rightarrow> False | Some n \<Rightarrow> lseg h (ln_next n) as e)"

lemma lseg_cong: "(\<And>a. a \<in> set as \<Longrightarrow> h' a = h a) \<Longrightarrow> lseg h' s as e = lseg h s as e"
  by (induction as arbitrary: s) (auto split: option.splits)

lemma lseg_append: "lseg h s (as @ bs) e \<longleftrightarrow> (\<exists>m. lseg h s as m \<and> lseg h m bs e)"
  by (induction as arbitrary: s) (auto split: option.splits)

lemma lseg_alloc: "lseg h s as e \<Longrightarrow> a \<in> set as \<Longrightarrow> h a \<noteq> None"
  by (induction as arbitrary: s) (auto split: option.splits)

lemma lseg_empty [simp]: "lseg h None as None \<longleftrightarrow> as = []"
  by (cases as) auto

lemma lseg_start: "lseg h (Some a) as None \<Longrightarrow> \<exists>n bs. as = a # bs \<and> h a = Some n \<and> lseg h (ln_next n) bs None"
  by (cases as) (auto split: option.splits)

lemma lseg_redirect:
  assumes "lseg h s (as @ [l]) e" and "distinct (as @ [l])" and "h l = Some n"
  shows "lseg (h(l \<mapsto> n\<lparr>ln_next := q\<rparr>)) s (as @ [l]) q"
proof -
  obtain m where "lseg h s as m" "m = Some l" using assms(1) by (auto simp: lseg_append)
  moreover from this have "lseg (h(l \<mapsto> n\<lparr>ln_next := q\<rparr>)) s as m"
    using assms(2) by (subst lseg_cong [where h = h]) auto
  ultimately show ?thesis by (simp add: lseg_append)
qed

section \<open>Ownership\<close>

text \<open>Where a node is: free, in the stack, in the pending list, or with one thread.\<close>

datatype place = Free | InStack | InPending | OwnedBy nat

text \<open>The nodes a thread owns at a program counter, and their shape.\<close>

definition pc_owns :: "'c lf_heap \<Rightarrow> lf_pc \<Rightarrow> nat list \<Rightarrow> bool" where
  "pc_owns h pc own \<longleftrightarrow> (\<forall>a\<in>set own. h a \<noteq> None) \<and> (case pc of
     PushCas a e \<Rightarrow> own = [a] \<and> lseg h (Some a) [a] e
   | DelCheck p \<Rightarrow> own = [p]
   | DelExchange p \<Rightarrow> own = [p]
   | DelHead p \<Rightarrow> own = [p]
   | DelDec p x \<Rightarrow> (\<exists>xs. own = p # xs \<and> lseg h x xs None)
   | DelNodes p x \<Rightarrow> (\<exists>xs. own = p # xs \<and> lseg h x xs None)
   | DelWalk p f l \<Rightarrow> (\<exists>xs ys. own = p # xs @ l # ys \<and> lseg h (Some f) (xs @ l # ys) None)
   | ChainStart f l after \<Rightarrow> (\<exists>xs e. own = (case after of None \<Rightarrow> [] | Some p \<Rightarrow> [p]) @ xs @ [l] \<and> lseg h (Some f) (xs @ [l]) e)
   | ChainCas f l e after \<Rightarrow> (\<exists>xs. own = (case after of None \<Rightarrow> [] | Some p \<Rightarrow> [p]) @ xs @ [l] \<and> lseg h (Some f) (xs @ [l]) e)
   | _ \<Rightarrow> own = [])"

text \<open>The pointer a popping thread may still read, although it owns no node.\<close>

definition held :: "lf_pc \<Rightarrow> nat option" where
  "held pc = (case pc of PopTest p \<Rightarrow> p | PopCas p n \<Rightarrow> Some p | _ \<Rightarrow> None)"

text \<open>Nodes no other thread may hold: a node not yet pushed, and those about to be deleted.\<close>

definition priv_nodes :: "nat list \<Rightarrow> lf_pc \<Rightarrow> nat set" where
  "priv_nodes own pc = (case pc of
     PushCas a e \<Rightarrow> {a}
   | DelExchange p \<Rightarrow> {p}
   | DelDec p x \<Rightarrow> {p}
   | DelNodes p x \<Rightarrow> set own
   | DelWalk p f l \<Rightarrow> {p}
   | DelHead p \<Rightarrow> {p}
   | ChainStart f l after \<Rightarrow> set_option after
   | ChainCas f l e after \<Rightarrow> set_option after
   | _ \<Rightarrow> {})"

definition counted :: "lf_pc \<Rightarrow> bool" where
  "counted pc \<longleftrightarrow> (case pc of
     PopLoad \<Rightarrow> True | PopTest p \<Rightarrow> True | PopCas p n \<Rightarrow> True | PopFail \<Rightarrow> True | DelCheck p \<Rightarrow> True | DelExchange p \<Rightarrow> True
   | DelDec p x \<Rightarrow> True | ChainStart f l after \<Rightarrow> after = None | ChainCas f l e after \<Rightarrow> after = None | ChainDec \<Rightarrow> True | _ \<Rightarrow> False)"

lemmas pc_defs = pc_owns_def held_def priv_nodes_def counted_def

definition lf_good :: "nat set \<Rightarrow> 'c lf_sys \<Rightarrow> nat list \<Rightarrow> nat list \<Rightarrow> (nat \<Rightarrow> nat list) \<Rightarrow> (nat \<Rightarrow> place) \<Rightarrow> bool" where
  "lf_good ts s hs ps own place \<longleftrightarrow>
     (lseg (lf_heap s) (lf_head s) hs None \<and> distinct hs \<and> (\<forall>a\<in>set hs. place a = InStack))
   \<and> (lseg (lf_heap s) (lf_pendingList s) ps None \<and> distinct ps \<and> (\<forall>a\<in>set ps. place a = InPending))
   \<and> (\<forall>t\<in>ts. pc_owns (lf_heap s) (lf_pc s t) (own t) \<and> distinct (own t) \<and> (\<forall>a\<in>set (own t). place a = OwnedBy t))
   \<and> (\<forall>t\<in>ts. \<forall>p. held (lf_pc s t) = Some p \<longrightarrow> lf_heap s p \<noteq> None \<and> (\<forall>u\<in>ts. p \<notin> priv_nodes (own u) (lf_pc s u)))
   \<and> (\<forall>t\<in>ts. \<forall>p n. lf_pc s t = PopCas p n \<longrightarrow> p \<in> set hs \<longrightarrow> map_option ln_next (lf_heap s p) = Some n)
   \<and> lf_popCount s = int (card {t \<in> ts. counted (lf_pc s t)})"

definition lf_inv :: "nat set \<Rightarrow> 'c lf_sys \<Rightarrow> bool" where
  "lf_inv ts s \<longleftrightarrow> (\<exists>hs ps own place. lf_good ts s hs ps own place)"

lemma lf_goodD:
  assumes "lf_good ts s hs ps own place"
  shows "lseg (lf_heap s) (lf_head s) hs None" "distinct hs" "\<And>a. a \<in> set hs \<Longrightarrow> place a = InStack"
    "lseg (lf_heap s) (lf_pendingList s) ps None" "distinct ps" "\<And>a. a \<in> set ps \<Longrightarrow> place a = InPending"
    "\<And>t. t \<in> ts \<Longrightarrow> pc_owns (lf_heap s) (lf_pc s t) (own t)" "\<And>t. t \<in> ts \<Longrightarrow> distinct (own t)"
    "\<And>t a. t \<in> ts \<Longrightarrow> a \<in> set (own t) \<Longrightarrow> place a = OwnedBy t"
    "\<And>t p. t \<in> ts \<Longrightarrow> held (lf_pc s t) = Some p \<Longrightarrow> lf_heap s p \<noteq> None"
    "\<And>t u p. t \<in> ts \<Longrightarrow> held (lf_pc s t) = Some p \<Longrightarrow> u \<in> ts \<Longrightarrow> p \<notin> priv_nodes (own u) (lf_pc s u)"
    "\<And>t p n. t \<in> ts \<Longrightarrow> lf_pc s t = PopCas p n \<Longrightarrow> p \<in> set hs \<Longrightarrow> map_option ln_next (lf_heap s p) = Some n"
    "lf_popCount s = int (card {t \<in> ts. counted (lf_pc s t)})"
  using assms unfolding lf_good_def by blast+

lemma lf_inv_init: "lf_inv ts lf_init"
  unfolding lf_inv_def
  by (intro exI [of _ "[]"] exI [of _ "\<lambda>_. []"] exI [of _ "\<lambda>_. Free"]) (simp add: lf_good_def lf_init_def pc_defs)

lemma lseg_transfer: "lseg h s as e \<Longrightarrow> \<forall>a\<in>set as. h' a = h a \<Longrightarrow> lseg h' s as e"
  using lseg_cong [of as h' h s e] by blast

lemma pc_owns_cong:
  assumes own: "pc_owns h pc own" and same: "\<And>a. a \<in> set own \<Longrightarrow> h' a = h a"
  shows "pc_owns h' pc own"
proof -
  have "\<forall>a\<in>set own. h' a = h a" using same by blast
  then show ?thesis
    using own unfolding pc_owns_def
    by (cases pc) (simp_all, (fastforce intro: lseg_transfer)+)
qed

lemma priv_owned: "pc_owns h pc own \<Longrightarrow> priv_nodes own pc \<subseteq> set own"
  by (cases pc) (auto simp: pc_defs split: option.splits)

lemma held_counted: "held pc = Some p \<Longrightarrow> counted pc"
  by (cases pc) (auto simp: held_def counted_def)

lemma counted_update:
  assumes "finite ts" and "t \<in> ts"
  shows "int (card {u \<in> ts. counted ((pc(t := pc')) u)}) = int (card {u \<in> ts. counted (pc u)}) - of_bool (counted (pc t)) + of_bool (counted pc')"
proof -
  let ?r = "{u \<in> ts - {t}. counted (pc u)}"
  have "card {u \<in> ts. counted ((pc(t := c)) u)} = card ?r + of_bool (counted c)" for c
  proof -
    have "{u \<in> ts. counted ((pc(t := c)) u)} = (if counted c then insert t ?r else ?r)" using assms(2) by auto
    then show ?thesis using assms(1) by simp
  qed
  from this [of pc'] this [of "pc t"] show ?thesis by simp
qed

lemma lone_counted:
  assumes "finite ts" and "lf_popCount s = int (card {u \<in> ts. counted (lf_pc s u)})" and "lf_popCount s = 1"
    and "t \<in> ts" "counted (lf_pc s t)" "u \<in> ts" "u \<noteq> t"
  shows "\<not> counted (lf_pc s u)"
proof
  assume "counted (lf_pc s u)"
  then have "{t, u} \<subseteq> {u \<in> ts. counted (lf_pc s u)}" using assms by auto
  then have "card {t, u} \<le> card {u \<in> ts. counted (lf_pc s u)}" using assms(1) by (intro card_mono) auto
  then show False using assms(2,3,7) by simp
qed

text \<open>One thread \<open>t\<close> moves: what must be shown of the new state.\<close>

lemma lf_good_step:
  assumes g: "lf_good ts s hs ps own place" and fin: "finite ts" and t: "t \<in> ts"
    and pc: "lf_pc s' = (lf_pc s)(t := pc')"
    and others: "\<And>u a. u \<in> ts \<Longrightarrow> u \<noteq> t \<Longrightarrow> a \<in> set (own u) \<Longrightarrow> lf_heap s' a = lf_heap s a \<and> place' a = place a"
    and holders: "\<And>u p. u \<in> ts \<Longrightarrow> u \<noteq> t \<Longrightarrow> held (lf_pc s u) = Some p \<Longrightarrow>
      lf_heap s' p \<noteq> None \<and> p \<notin> priv_nodes own' pc' \<and> (p \<in> set hs' \<longrightarrow> p \<in> set hs \<and> lf_heap s' p = lf_heap s p)"
    and stack: "lseg (lf_heap s') (lf_head s') hs' None" "distinct hs'" "\<And>a. a \<in> set hs' \<Longrightarrow> place' a = InStack"
    and pend: "lseg (lf_heap s') (lf_pendingList s') ps' None" "distinct ps'" "\<And>a. a \<in> set ps' \<Longrightarrow> place' a = InPending"
    and mine: "pc_owns (lf_heap s') pc' own'" "distinct own'" "\<And>a. a \<in> set own' \<Longrightarrow> place' a = OwnedBy t"
    and myheld: "\<And>p. held pc' = Some p \<Longrightarrow> lf_heap s' p \<noteq> None \<and> (\<forall>u\<in>ts. u \<noteq> t \<longrightarrow> p \<notin> priv_nodes (own u) (lf_pc s u))"
    and mycas: "\<And>p n. pc' = PopCas p n \<Longrightarrow> p \<in> set hs' \<Longrightarrow> map_option ln_next (lf_heap s' p) = Some n"
    and count: "lf_popCount s' = lf_popCount s - of_bool (counted (lf_pc s t)) + of_bool (counted pc')"
  shows "lf_good ts s' hs' ps' (own(t := own')) place'"
proof -
  have noself: "priv_nodes own' pc' = {}" if "held pc' = Some p" for p
    using that by (cases pc') (auto simp: held_def priv_nodes_def)
  have "lf_popCount s' = int (card {u \<in> ts. counted (lf_pc s' u)})"
    unfolding pc counted_update [OF fin t] using count lf_goodD(13) [OF g] by simp
  moreover have "pc_owns (lf_heap s') (lf_pc s' u) ((own(t := own')) u)" "distinct ((own(t := own')) u)"
    "a \<in> set ((own(t := own')) u) \<Longrightarrow> place' a = OwnedBy u" if u: "u \<in> ts" for u a
    using mine others [OF u] pc_owns_cong [OF lf_goodD(7) [OF g u], of "lf_heap s'"] lf_goodD(8,9) [OF g u] pc
    by (cases "u = t"; auto)+
  moreover have "lf_heap s' p \<noteq> None" "v \<in> ts \<Longrightarrow> p \<notin> priv_nodes ((own(t := own')) v) (lf_pc s' v)"
    if u: "u \<in> ts" and h: "held (lf_pc s' u) = Some p" for u v p
  proof -
    show "lf_heap s' p \<noteq> None" using holders [OF u] myheld [of p] h pc by (cases "u = t") auto
    assume v: "v \<in> ts"
    show "p \<notin> priv_nodes ((own(t := own')) v) (lf_pc s' v)"
      using holders [OF u] myheld [of p] h pc v noself [of p] lf_goodD(11) [OF g u _ v, of p]
      by (cases "u = t"; cases "v = t") auto
  qed
  moreover have "map_option ln_next (lf_heap s' p) = Some n" if u: "u \<in> ts" and c: "lf_pc s' u = PopCas p n" "p \<in> set hs'" for u p n
  proof (cases "u = t")
    case False
    then have "held (lf_pc s u) = Some p" "lf_pc s u = PopCas p n" using c(1) pc by (simp_all add: held_def)
    then show ?thesis using holders [OF u False, of p] lf_goodD(12) [OF g u, of p n] c(2) by simp
  qed (use mycas c pc in simp)
  ultimately show ?thesis unfolding lf_good_def using stack pend by blast
qed

section \<open>Every step keeps the invariant\<close>

text \<open>Steps that change only the thread's own counter position (and the counter of poppers).\<close>

lemma lf_good_local:
  assumes g: "lf_good ts s hs ps own place" and fin: "finite ts" and t: "t \<in> ts"
    and s': "s' = lf_goto t pc' (s\<lparr>lf_popCount := c, lf_value := v\<rparr>)"
    and own': "set own' \<subseteq> set (own t)" "distinct own'" "pc_owns (lf_heap s) pc' own'"
    and priv: "\<And>u p. u \<in> ts \<Longrightarrow> u \<noteq> t \<Longrightarrow> held (lf_pc s u) = Some p \<Longrightarrow> p \<notin> priv_nodes own' pc'"
    and myheld: "\<And>p. held pc' = Some p \<Longrightarrow> lf_heap s p \<noteq> None \<and> (\<forall>u\<in>ts. u \<noteq> t \<longrightarrow> p \<notin> priv_nodes (own u) (lf_pc s u))"
    and mycas: "\<And>p n. pc' = PopCas p n \<Longrightarrow> p \<in> set hs \<Longrightarrow> map_option ln_next (lf_heap s p) = Some n"
    and count: "c = lf_popCount s - of_bool (counted (lf_pc s t)) + of_bool (counted pc')"
  shows "lf_good ts s' hs ps (own(t := own')) place"
proof (rule lf_good_step [OF g fin t, where pc' = pc'])
  show "lf_pc s' = (lf_pc s)(t := pc')" by (simp add: s' lf_goto_def)
  show "lf_heap s' a = lf_heap s a \<and> place a = place a" for a by (simp add: s' lf_goto_def)
  show "lf_heap s' p \<noteq> None \<and> p \<notin> priv_nodes own' pc' \<and> (p \<in> set hs \<longrightarrow> p \<in> set hs \<and> lf_heap s' p = lf_heap s p)"
    if "u \<in> ts" "u \<noteq> t" "held (lf_pc s u) = Some p" for u p
    using priv [OF that] lf_goodD(10) [OF g that(1,3)] by (simp add: s' lf_goto_def)
  show "a \<in> set own' \<Longrightarrow> place a = OwnedBy t" for a using own'(1) lf_goodD(9) [OF g t] by blast
qed (use lf_goodD(1-6) [OF g] own' myheld mycas count in \<open>simp_all add: s' lf_goto_def\<close>)

text \<open>What a step of \<open>t\<close> does to the contents of the stack.\<close>

definition lf_effect :: "nat \<Rightarrow> 'c lf_sys \<Rightarrow> 'c lf_sys \<Rightarrow> 'c list \<Rightarrow> 'c list \<Rightarrow> bool" where
  "lf_effect t s s' xs xs' \<longleftrightarrow> xs' = xs
     \<or> (\<exists>a e x. lf_pc s t = PushCas a e \<and> lf_pc s' t = Idle \<and> map_option ln_data (lf_heap s a) = Some x \<and> xs' = x # xs)
     \<or> (\<exists>p n x. lf_pc s t = PopCas p n \<and> lf_pc s' t = DelCheck p \<and> lf_value s' t = Some x \<and> xs = x # xs')"

definition stack_data :: "'c lf_heap \<Rightarrow> nat list \<Rightarrow> 'c list" where
  "stack_data h hs = map (\<lambda>a. ln_data (the (h a))) hs"

definition lf_safe_step :: "nat set \<Rightarrow> bool \<Rightarrow> nat \<Rightarrow> 'c lf_sys \<Rightarrow> nat list \<Rightarrow> bool" where
  "lf_safe_step ts spur t s hs \<longleftrightarrow> (\<exists>s' hs' ps' own' place'. lf_step spur t s = Inr s' \<and> lf_good ts s' hs' ps' own' place'
     \<and> lf_effect t s s' (stack_data (lf_heap s) hs) (stack_data (lf_heap s') hs'))"

lemma lf_safe_stepI:
  assumes "lf_step spur t s = Inr s'" and "lf_good ts s' hs' ps' own' place'"
    and "lf_effect t s s' (stack_data (lf_heap s) hs) (stack_data (lf_heap s') hs')"
  shows "lf_safe_step ts spur t s hs"
  using assms unfolding lf_safe_step_def by blast

lemma stack_data_cong: "(\<And>a. a \<in> set hs \<Longrightarrow> h' a = h a) \<Longrightarrow> stack_data h' hs = stack_data h hs"
  by (simp add: stack_data_def)

lemma lf_effect_same: "lf_effect t s s' xs xs"
  by (simp add: lf_effect_def)

lemma head_in_stack: "lf_good ts s hs ps own place \<Longrightarrow> lf_head s = Some p \<Longrightarrow> \<exists>n rest. hs = p # rest \<and> lf_heap s p = Some n \<and> lseg (lf_heap s) (ln_next n) rest None"
  using lf_goodD(1) lseg_start by metis

lemma stack_not_private:
  assumes "lf_good ts s hs ps own place" and "p \<in> set hs" and "u \<in> ts"
  shows "p \<notin> priv_nodes (own u) (lf_pc s u)" and "p \<notin> set (own u)"
proof -
  show "p \<notin> set (own u)" using lf_goodD(3,9) [OF assms(1)] assms(2,3) by (metis place.distinct(3,6) place.distinct)
  then show "p \<notin> priv_nodes (own u) (lf_pc s u)" using priv_owned [OF lf_goodD(7) [OF assms(1,3)]] by blast
qed

lemma step_PopLoad:
  assumes g: "lf_good ts s hs ps own place" and fin: "finite ts" and t: "t \<in> ts" and pc: "lf_pc s t = PopLoad"
  shows "lf_safe_step ts spur t s hs"
proof (rule lf_safe_stepI [where s' = "lf_goto t (PopTest (lf_head s)) s" and hs' = hs])
  show "lf_step spur t s = Inr (lf_goto t (PopTest (lf_head s)) s)" by (simp add: lf_step_def pc)
  show "lf_good ts (lf_goto t (PopTest (lf_head s)) s) hs ps (own(t := [])) place"
  proof (rule lf_good_local [OF g fin t, where c = "lf_popCount s" and v = "lf_value s"])
    show "lf_heap s p \<noteq> None \<and> (\<forall>u\<in>ts. u \<noteq> t \<longrightarrow> p \<notin> priv_nodes (own u) (lf_pc s u))" if "held (PopTest (lf_head s)) = Some p" for p
      using head_in_stack [OF g, of p] stack_not_private(1) [OF g, of p] that by (auto simp: held_def)
  qed (simp_all add: pc_defs pc)
qed (simp add: lf_goto_def lf_effect_same)

lemma step_PopTest:
  assumes g: "lf_good ts s hs ps own place" and fin: "finite ts" and t: "t \<in> ts" and pc: "lf_pc s t = PopTest q"
  shows "lf_safe_step ts spur t s hs"
proof (cases q)
  case None
  have "lf_good ts (lf_goto t PopFail s) hs ps (own(t := [])) place"
    by (rule lf_good_local [OF g fin t, where pc' = PopFail and c = "lf_popCount s" and v = "lf_value s"]) (simp_all add: pc_defs pc)
  then show ?thesis
    by (intro lf_safe_stepI [where s' = "lf_goto t PopFail s" and hs' = hs]) (simp_all add: lf_step_def pc None lf_goto_def lf_effect_same)
next
  case (Some p)
  have h: "held (lf_pc s t) = Some p" by (simp add: pc Some held_def)
  obtain n where n: "lf_heap s p = Some n" using lf_goodD(10) [OF g t h] by blast
  have "lf_good ts (lf_goto t (PopCas p (ln_next n)) s) hs ps (own(t := [])) place"
    by (rule lf_good_local [OF g fin t, where pc' = "PopCas p (ln_next n)" and c = "lf_popCount s" and v = "lf_value s"])
      (use lf_goodD(11) [OF g t h] n in \<open>auto simp: pc_defs pc\<close>)
  then show ?thesis
    by (intro lf_safe_stepI [where s' = "lf_goto t (PopCas p (ln_next n)) s" and hs' = hs])
      (simp_all add: lf_step_def pc Some node_at_def n lf_goto_def lf_effect_same)
qed

lemma step_PopCas_fail:
  assumes g: "lf_good ts s hs ps own place" and fin: "finite ts" and t: "t \<in> ts" and pc: "lf_pc s t = PopCas p n"
    and no: "\<not> (lf_head s = Some p \<and> \<not> spur)"
  shows "lf_safe_step ts spur t s hs"
proof (rule lf_safe_stepI [where s' = "lf_goto t (PopTest (lf_head s)) s" and hs' = hs])
  show "lf_step spur t s = Inr (lf_goto t (PopTest (lf_head s)) s)" using no by (auto simp: lf_step_def pc)
  show "lf_good ts (lf_goto t (PopTest (lf_head s)) s) hs ps (own(t := [])) place"
  proof (rule lf_good_local [OF g fin t, where pc' = "PopTest (lf_head s)" and c = "lf_popCount s" and v = "lf_value s"])
    show "lf_heap s p \<noteq> None \<and> (\<forall>u\<in>ts. u \<noteq> t \<longrightarrow> p \<notin> priv_nodes (own u) (lf_pc s u))" if "held (PopTest (lf_head s)) = Some p" for p
      using head_in_stack [OF g, of p] stack_not_private(1) [OF g, of p] that by (auto simp: held_def)
  qed (simp_all add: pc_defs pc)
qed (simp add: lf_goto_def lf_effect_same)

lemma step_PopCas:
  assumes g: "lf_good ts s hs ps own place" and fin: "finite ts" and t: "t \<in> ts" and pc: "lf_pc s t = PopCas p n"
    and yes: "lf_head s = Some p" "\<not> spur"
  shows "lf_safe_step ts spur t s hs"
proof -
  obtain nd rest where p: "hs = p # rest" "lf_heap s p = Some nd" "lseg (lf_heap s) (ln_next nd) rest None"
    using head_in_stack [OF g yes(1)] by blast
  have n: "ln_next nd = n" using lf_goodD(12) [OF g t pc] p by simp
  define s' where "s' = lf_goto t (DelCheck p) (s\<lparr>lf_head := n, lf_value := (lf_value s)(t := Some (ln_data nd))\<rparr>)"
  have "lf_good ts s' rest ps (own(t := [p])) (place(p := OwnedBy t))"
  proof (rule lf_good_step [OF g fin t, where pc' = "DelCheck p"])
    fix u a assume u: "u \<in> ts" "u \<noteq> t" "a \<in> set (own u)"
    have "a \<noteq> p" using stack_not_private(2) [OF g, of p u] u p(1) by auto
    then show "lf_heap s' a = lf_heap s a \<and> (place(p := OwnedBy t)) a = place a" by (simp add: s'_def lf_goto_def)
  next
    fix u q assume u: "u \<in> ts" "u \<noteq> t" "held (lf_pc s u) = Some q"
    show "lf_heap s' q \<noteq> None \<and> q \<notin> priv_nodes [p] (DelCheck p) \<and> (q \<in> set rest \<longrightarrow> q \<in> set hs \<and> lf_heap s' q = lf_heap s q)"
      using lf_goodD(10) [OF g u(1,3)] p(1) by (simp add: s'_def lf_goto_def priv_nodes_def)
  next
    show "a \<in> set rest \<Longrightarrow> (place(p := OwnedBy t)) a = InStack" for a using lf_goodD(2,3) [OF g] p(1) by auto
    show "a \<in> set ps \<Longrightarrow> (place(p := OwnedBy t)) a = InPending" for a
      using lf_goodD(3) [OF g, of p] lf_goodD(6) [OF g, of a] p(1) by auto
  qed (use lf_goodD(2,4,5) [OF g] p n in \<open>auto simp: s'_def lf_goto_def pc_defs pc\<close>)
  moreover have "lf_step spur t s = Inr s'" using yes p(2) by (simp add: lf_step_def pc node_at_def s'_def)
  moreover have "lf_effect t s s' (stack_data (lf_heap s) hs) (stack_data (lf_heap s') rest)"
    using p by (simp add: lf_effect_def pc s'_def lf_goto_def stack_data_def)
  ultimately show ?thesis using lf_safe_stepI by blast
qed

lemma popCount_same: "lf_popCount s = k \<Longrightarrow> s\<lparr>lf_popCount := k\<rparr> = s"
  by auto

lemma step_simple:
  assumes g: "lf_good ts s hs ps own place" and fin: "finite ts" and t: "t \<in> ts"
    and step: "lf_step spur t s = Inr s'"
    and s': "s' = lf_goto t pc' (s\<lparr>lf_popCount := lf_popCount s - of_bool (counted (lf_pc s t)) + of_bool (counted pc')\<rparr>)"
    and own': "set own' \<subseteq> set (own t)" "distinct own'" "pc_owns (lf_heap s) pc' own'"
    and priv: "\<And>u p. u \<in> ts \<Longrightarrow> u \<noteq> t \<Longrightarrow> held (lf_pc s u) = Some p \<Longrightarrow> p \<notin> priv_nodes own' pc'" and none: "held pc' = None"
  shows "lf_safe_step ts spur t s hs"
proof (rule lf_safe_stepI [OF step])
  show "lf_good ts s' hs ps (own(t := own')) place"
    by (rule lf_good_local [OF g fin t, where v = "lf_value s"]) (use s' own' priv none in \<open>auto simp: held_def\<close>)
qed (simp add: s' lf_goto_def lf_effect_same)

lemma held_not_private:
  assumes "lf_good ts s hs ps own place" and "t \<in> ts" "u \<in> ts" and "held (lf_pc s u) = Some p"
  shows "p \<notin> priv_nodes (own t) (lf_pc s t)"
  using lf_goodD(11) [OF assms(1,3,4,2)] .

text \<open>When the popper counter is one, nobody else holds a pointer.\<close>

lemma nobody_holds:
  assumes g: "lf_good ts s hs ps own place" and fin: "finite ts" and t: "t \<in> ts" "counted (lf_pc s t)"
    and one: "lf_popCount s = 1" and u: "u \<in> ts" "u \<noteq> t"
  shows "held (lf_pc s u) = None"
  using lone_counted [OF fin lf_goodD(13) [OF g] one t u] held_counted by (cases "held (lf_pc s u)") auto

lemma step_DelCheck:
  assumes g: "lf_good ts s hs ps own place" and fin: "finite ts" and t: "t \<in> ts" and pc: "lf_pc s t = DelCheck p"
  shows "lf_safe_step ts spur t s hs"
proof -
  have own: "own t = [p]" "lf_heap s p \<noteq> None" using lf_goodD(7) [OF g t] by (auto simp: pc pc_owns_def)
  show ?thesis
  proof (cases "lf_popCount s = 1")
    case True
    then show ?thesis
      by (intro step_simple [OF g fin t, where pc' = "DelExchange p" and own' = "[p]"])
        (use nobody_holds [OF g fin t] own in \<open>auto simp: lf_step_def pc pc_defs popCount_same\<close>)
  next
    case False
    show ?thesis
      by (rule step_simple [OF g fin t, where pc' = "ChainStart p p None" and own' = "[p]"])
        (use False own in \<open>auto simp: lf_step_def pc pc_defs intro!: exI [of _ "[]"]\<close>)
  qed
qed

lemma step_DelDec:
  assumes g: "lf_good ts s hs ps own place" and fin: "finite ts" and t: "t \<in> ts" and pc: "lf_pc s t = DelDec p x"
  shows "lf_safe_step ts spur t s hs"
proof -
  obtain xs where own: "own t = p # xs" "lseg (lf_heap s) x xs None" "\<forall>a\<in>set (own t). lf_heap s a \<noteq> None"
    using lf_goodD(7) [OF g t] by (auto simp: pc pc_owns_def)
  have d: "distinct (p # xs)" using lf_goodD(8) [OF g t] own(1) by simp
  have priv: "q \<noteq> p" if "u \<in> ts" "held (lf_pc s u) = Some q" for u q
    using held_not_private [OF g t that] by (simp add: pc priv_nodes_def)
  show ?thesis
  proof (cases "lf_popCount s = 1")
    case True
    then show ?thesis
      by (intro step_simple [OF g fin t, where pc' = "DelNodes p x" and own' = "p # xs"])
        (use nobody_holds [OF g fin t] own d in \<open>auto simp: lf_step_def pc pc_defs\<close>)
  next
    case False
    show ?thesis
    proof (cases x)
      case None
      then show ?thesis
        by (intro step_simple [OF g fin t, where pc' = "DelHead p" and own' = "[p]"])
          (use False own d priv in \<open>auto simp: lf_step_def pc pc_defs\<close>)
    next
      case (Some y)
      then obtain ys where ys: "xs = y # ys" using own(2) lseg_start by metis
      have "\<exists>as bs. p # xs = p # as @ y # bs \<and> lseg (lf_heap s) (Some y) (as @ y # bs) None"
        using own(2) Some ys by (intro exI [of _ "[]"] exI [of _ ys]) simp
      then show ?thesis
        by (intro step_simple [OF g fin t, where pc' = "DelWalk p y y" and own' = "p # xs"])
          (use False own(1,3) d priv Some in \<open>auto simp: lf_step_def pc pc_defs\<close>)
    qed
  qed
qed

lemma step_DelWalk:
  assumes g: "lf_good ts s hs ps own place" and fin: "finite ts" and t: "t \<in> ts" and pc: "lf_pc s t = DelWalk p f l"
  shows "lf_safe_step ts spur t s hs"
proof -
  obtain xs ys where own: "own t = p # xs @ l # ys" "lseg (lf_heap s) (Some f) (xs @ l # ys) None"
    "\<forall>a\<in>set (own t). lf_heap s a \<noteq> None"
    using lf_goodD(7) [OF g t] by (auto simp: pc pc_owns_def)
  obtain n where n: "lf_heap s l = Some n" using own by auto
  have d: "distinct (p # xs @ l # ys)" using lf_goodD(8) [OF g t] own(1) by simp
  have priv: "q \<noteq> p" if "u \<in> ts" "held (lf_pc s u) = Some q" for u q
    using held_not_private [OF g t that] by (simp add: pc priv_nodes_def)
  have rest: "lseg (lf_heap s) (ln_next n) ys None" using own(2) n by (auto simp: lseg_append)
  show ?thesis
  proof (cases ys)
    case Nil
    have "ln_next n = None" using rest Nil by simp
    then show ?thesis
      by (intro step_simple [OF g fin t, where pc' = "ChainStart f l (Some p)" and own' = "p # xs @ [l]"])
        (use own d priv n Nil in \<open>auto simp: lf_step_def pc pc_defs node_at_def\<close>)
  next
    case (Cons y zs)
    have y: "ln_next n = Some y" using rest Cons by simp
    have "\<exists>as bs. own t = p # as @ y # bs \<and> lseg (lf_heap s) (Some f) (as @ y # bs) None"
      using own(1,2) Cons by (intro exI [of _ "xs @ [l]"] exI [of _ zs]) simp
    then show ?thesis
      by (intro step_simple [OF g fin t, where pc' = "DelWalk p f y" and own' = "own t"])
        (use own(1,3) d priv n y in \<open>auto simp: lf_step_def pc pc_defs node_at_def\<close>)
  qed
qed

text \<open>Steps that write or delete nodes of the thread itself.\<close>

lemma lf_good_heap:
  assumes g: "lf_good ts s hs ps own place" and fin: "finite ts" and t: "t \<in> ts"
    and s': "s' = lf_goto t pc' (s\<lparr>lf_heap := h'\<rparr>)" and same: "\<And>a. a \<notin> set (own t) \<Longrightarrow> h' a = lf_heap s a"
    and own': "set own' \<subseteq> set (own t)" "distinct own'" "pc_owns h' pc' own'"
    and holders: "\<And>u p. u \<in> ts \<Longrightarrow> u \<noteq> t \<Longrightarrow> held (lf_pc s u) = Some p \<Longrightarrow> h' p \<noteq> None \<and> p \<notin> priv_nodes own' pc'"
    and none: "held pc' = None" and count: "counted pc' = counted (lf_pc s t)"
  shows "lf_good ts s' hs ps (own(t := own')) place" and "stack_data (lf_heap s') hs = stack_data (lf_heap s) hs"
proof -
  have hs: "h' a = lf_heap s a" if "a \<in> set hs" for a using stack_not_private(2) [OF g that t] same by blast
  have ps: "h' a = lf_heap s a" if "a \<in> set ps" for a
    using lf_goodD(6) [OF g that] lf_goodD(9) [OF g t, of a] same by fastforce
  show "lf_good ts s' hs ps (own(t := own')) place"
  proof (rule lf_good_step [OF g fin t, where pc' = pc'])
    fix u a assume "u \<in> ts" "u \<noteq> t" "a \<in> set (own u)"
    then have "a \<notin> set (own t)" using lf_goodD(9) [OF g] t by (metis place.inject)
    then show "lf_heap s' a = lf_heap s a \<and> place a = place a" using same by (simp add: s' lf_goto_def)
  next
    show "lseg (lf_heap s') (lf_head s') hs None" using lf_goodD(1) [OF g] lseg_cong [of hs h' "lf_heap s"] hs by (simp add: s' lf_goto_def)
    show "lseg (lf_heap s') (lf_pendingList s') ps None" using lf_goodD(4) [OF g] lseg_cong [of ps h' "lf_heap s"] ps by (simp add: s' lf_goto_def)
    show "a \<in> set own' \<Longrightarrow> place a = OwnedBy t" for a using own'(1) lf_goodD(9) [OF g t] by blast
    show "map_option ln_next (lf_heap s' p) = Some n" if "pc' = PopCas p n" for p n using that none by (simp add: held_def)
  qed (use lf_goodD(2,3,5,6) [OF g] own' holders none count hs in \<open>auto simp: s' lf_goto_def\<close>)
  show "stack_data (lf_heap s') hs = stack_data (lf_heap s) hs" using hs by (simp add: s' lf_goto_def stack_data_def)
qed

lemma step_heap:
  assumes g: "lf_good ts s hs ps own place" and fin: "finite ts" and t: "t \<in> ts"
    and step: "lf_step spur t s = Inr (lf_goto t pc' (s\<lparr>lf_heap := h'\<rparr>))" and same: "\<And>a. a \<notin> set (own t) \<Longrightarrow> h' a = lf_heap s a"
    and own': "set own' \<subseteq> set (own t)" "distinct own'" "pc_owns h' pc' own'"
    and holders: "\<And>u p. u \<in> ts \<Longrightarrow> u \<noteq> t \<Longrightarrow> held (lf_pc s u) = Some p \<Longrightarrow> h' p \<noteq> None \<and> p \<notin> priv_nodes own' pc'"
    and none: "held pc' = None" and count: "counted pc' = counted (lf_pc s t)"
  shows "lf_safe_step ts spur t s hs"
proof (rule lf_safe_stepI [OF step])
  show "lf_good ts (lf_goto t pc' (s\<lparr>lf_heap := h'\<rparr>)) hs ps (own(t := own')) place"
    by (rule lf_good_heap(1) [OF g fin t refl same own' holders none count])
  have "stack_data (lf_heap (lf_goto t pc' (s\<lparr>lf_heap := h'\<rparr>))) hs = stack_data (lf_heap s) hs"
    by (rule lf_good_heap(2) [OF g fin t refl same own' holders none count])
  then show "lf_effect t s (lf_goto t pc' (s\<lparr>lf_heap := h'\<rparr>)) (stack_data (lf_heap s) hs) (stack_data (lf_heap (lf_goto t pc' (s\<lparr>lf_heap := h'\<rparr>))) hs)"
    by (simp add: lf_effect_same)
qed

lemma step_PushCas_fail:
  assumes g: "lf_good ts s hs ps own place" and fin: "finite ts" and t: "t \<in> ts" and pc: "lf_pc s t = PushCas a e"
    and no: "\<not> (lf_head s = e \<and> \<not> spur)"
  shows "lf_safe_step ts spur t s hs"
proof -
  obtain n where own: "own t = [a]" "lf_heap s a = Some n" using lf_goodD(7) [OF g t] by (auto simp: pc pc_owns_def)
  show ?thesis
  proof (rule step_heap [OF g fin t, where pc' = "PushCas a (lf_head s)" and h' = "(lf_heap s)(a \<mapsto> n\<lparr>ln_next := lf_head s\<rparr>)" and own' = "[a]"])
    show "lf_step spur t s = Inr (lf_goto t (PushCas a (lf_head s)) (s\<lparr>lf_heap := (lf_heap s)(a \<mapsto> n\<lparr>ln_next := lf_head s\<rparr>)\<rparr>))"
      using no own by (auto simp: lf_step_def pc set_next_def node_at_def)
    fix u q assume u: "u \<in> ts" "u \<noteq> t" "held (lf_pc s u) = Some q"
    show "((lf_heap s)(a \<mapsto> n\<lparr>ln_next := lf_head s\<rparr>)) q \<noteq> None \<and> q \<notin> priv_nodes [a] (PushCas a (lf_head s))"
      using held_not_private [OF g t u(1,3)] lf_goodD(10) [OF g u(1,3)] by (simp add: pc priv_nodes_def)
  qed (use own in \<open>auto simp: pc_owns_def held_def counted_def pc\<close>)
qed

lemma step_PushCas:
  assumes g: "lf_good ts s hs ps own place" and fin: "finite ts" and t: "t \<in> ts" and pc: "lf_pc s t = PushCas a e"
    and yes: "lf_head s = e" "\<not> spur"
  shows "lf_safe_step ts spur t s hs"
proof -
  obtain n where own: "own t = [a]" "lf_heap s a = Some n" "ln_next n = e"
    using lf_goodD(7) [OF g t] by (auto simp: pc pc_owns_def)
  have pa: "place a = OwnedBy t" using lf_goodD(9) [OF g t] own(1) by simp
  define s' where "s' = lf_goto t Idle (s\<lparr>lf_head := Some a\<rparr>)"
  have "lf_good ts s' (a # hs) ps (own(t := [])) (place(a := InStack))"
  proof (rule lf_good_step [OF g fin t, where pc' = Idle])
    fix u b assume u: "u \<in> ts" "u \<noteq> t" "b \<in> set (own u)"
    have "b \<noteq> a" using lf_goodD(9) [OF g u(1,3)] pa u(2) by auto
    then show "lf_heap s' b = lf_heap s b \<and> (place(a := InStack)) b = place b" by (simp add: s'_def lf_goto_def)
  next
    fix u q assume u: "u \<in> ts" "u \<noteq> t" "held (lf_pc s u) = Some q"
    have "q \<noteq> a" using held_not_private [OF g t u(1,3)] by (simp add: pc priv_nodes_def)
    then show "lf_heap s' q \<noteq> None \<and> q \<notin> priv_nodes [] Idle \<and> (q \<in> set (a # hs) \<longrightarrow> q \<in> set hs \<and> lf_heap s' q = lf_heap s q)"
      using lf_goodD(10) [OF g u(1,3)] by (simp add: s'_def lf_goto_def priv_nodes_def)
  next
    show "b \<in> set (a # hs) \<Longrightarrow> (place(a := InStack)) b = InStack" for b using lf_goodD(3) [OF g] by auto
    show "b \<in> set ps \<Longrightarrow> (place(a := InStack)) b = InPending" for b using lf_goodD(6) [OF g, of b] pa by auto
    show "distinct (a # hs)" using lf_goodD(2,3) [OF g] pa by auto
  qed (use lf_goodD(1,4,5) [OF g] own yes in \<open>auto simp: s'_def lf_goto_def pc_defs pc\<close>)
  moreover have "lf_step spur t s = Inr s'" using yes by (simp add: lf_step_def pc s'_def)
  moreover have "lf_effect t s s' (stack_data (lf_heap s) hs) (stack_data (lf_heap s') (a # hs))"
    using own(2) by (simp add: lf_effect_def pc s'_def lf_goto_def stack_data_def)
  ultimately show ?thesis using lf_safe_stepI by blast
qed

lemma step_DelExchange:
  assumes g: "lf_good ts s hs ps own place" and fin: "finite ts" and t: "t \<in> ts" and pc: "lf_pc s t = DelExchange p"
  shows "lf_safe_step ts spur t s hs"
proof -
  have own: "own t = [p]" "lf_heap s p \<noteq> None" using lf_goodD(7) [OF g t] by (auto simp: pc pc_owns_def)
  have pp: "place p = OwnedBy t" using lf_goodD(9) [OF g t] own(1) by simp
  define s' where "s' = lf_goto t (DelDec p (lf_pendingList s)) (s\<lparr>lf_pendingList := None\<rparr>)"
  define place' where "place' b = (if b \<in> set ps then OwnedBy t else place b)" for b
  have "lf_good ts s' hs [] (own(t := p # ps)) place'"
  proof (rule lf_good_step [OF g fin t, where pc' = "DelDec p (lf_pendingList s)"])
    fix u b assume "u \<in> ts" "u \<noteq> t" "b \<in> set (own u)"
    then show "lf_heap s' b = lf_heap s b \<and> place' b = place b"
      using lf_goodD(6) [OF g, of b] lf_goodD(9) [OF g, of u b] by (auto simp: s'_def lf_goto_def place'_def)
  next
    fix u q assume u: "u \<in> ts" "u \<noteq> t" "held (lf_pc s u) = Some q"
    show "lf_heap s' q \<noteq> None \<and> q \<notin> priv_nodes (p # ps) (DelDec p (lf_pendingList s)) \<and> (q \<in> set hs \<longrightarrow> q \<in> set hs \<and> lf_heap s' q = lf_heap s q)"
      using held_not_private [OF g t u(1,3)] lf_goodD(10) [OF g u(1,3)] by (simp add: pc s'_def lf_goto_def priv_nodes_def)
  next
    show "b \<in> set hs \<Longrightarrow> place' b = InStack" for b using lf_goodD(3,6) [OF g, of b] by (auto simp: place'_def)
    show "b \<in> set (p # ps) \<Longrightarrow> place' b = OwnedBy t" for b using pp by (auto simp: place'_def)
    show "distinct (p # ps)" using lf_goodD(5,6) [OF g] pp by auto
    show "pc_owns (lf_heap s') (DelDec p (lf_pendingList s)) (p # ps)"
      using own lf_goodD(4) [OF g] lseg_alloc by (fastforce simp: pc_owns_def s'_def lf_goto_def)
  qed (use lf_goodD(1,2) [OF g] in \<open>auto simp: s'_def lf_goto_def held_def counted_def pc\<close>)
  moreover have "lf_step spur t s = Inr s'" by (simp add: lf_step_def pc s'_def)
  moreover have "lf_effect t s s' (stack_data (lf_heap s) hs) (stack_data (lf_heap s') hs)"
    by (simp add: s'_def lf_goto_def lf_effect_same)
  ultimately show ?thesis using lf_safe_stepI by blast
qed

lemma step_DelNodes:
  assumes g: "lf_good ts s hs ps own place" and fin: "finite ts" and t: "t \<in> ts" and pc: "lf_pc s t = DelNodes p x"
  shows "lf_safe_step ts spur t s hs"
proof -
  obtain xs where own: "own t = p # xs" "lseg (lf_heap s) x xs None" "\<forall>a\<in>set (own t). lf_heap s a \<noteq> None"
    using lf_goodD(7) [OF g t] by (auto simp: pc pc_owns_def)
  have d: "distinct (p # xs)" using lf_goodD(8) [OF g t] own(1) by simp
  have priv: "q \<notin> set (p # xs)" if "u \<in> ts" "held (lf_pc s u) = Some q" for u q
    using held_not_private [OF g t that] own(1) by (simp add: pc priv_nodes_def)
  show ?thesis
  proof (cases x)
    case None
    then show ?thesis
      by (intro step_simple [OF g fin t, where pc' = "DelHead p" and own' = "[p]"])
        (use own d priv in \<open>auto simp: lf_step_def pc pc_defs popCount_same\<close>)
  next
    case (Some y)
    then obtain n ys where ys: "xs = y # ys" "lf_heap s y = Some n" "lseg (lf_heap s) (ln_next n) ys None"
      using own(2) lseg_start by metis
    let ?h = "(lf_heap s)(y := None)"
    have "lseg ?h (ln_next n) ys None" by (rule lseg_transfer [OF ys(3)]) (use ys(1) d in auto)
    then show ?thesis
      by (intro step_heap [OF g fin t, where pc' = "DelNodes p (ln_next n)" and h' = ?h and own' = "p # ys"])
        (use own d priv ys Some lf_goodD(10) [OF g] in \<open>auto simp: lf_step_def pc pc_defs node_at_def free_node_def\<close>)
  qed
qed

lemma step_DelHead:
  assumes g: "lf_good ts s hs ps own place" and fin: "finite ts" and t: "t \<in> ts" and pc: "lf_pc s t = DelHead p"
  shows "lf_safe_step ts spur t s hs"
proof -
  have own: "own t = [p]" "lf_heap s p \<noteq> None" using lf_goodD(7) [OF g t] by (auto simp: pc pc_owns_def)
  have priv: "q \<noteq> p" if "u \<in> ts" "held (lf_pc s u) = Some q" for u q
    using held_not_private [OF g t that] by (simp add: pc priv_nodes_def)
  show ?thesis
    by (rule step_heap [OF g fin t, where pc' = Idle and h' = "(lf_heap s)(p := None)" and own' = "[]"])
      (use own priv lf_goodD(10) [OF g] in \<open>auto simp: lf_step_def pc pc_owns_def priv_nodes_def counted_def held_def node_at_def free_node_def\<close>)
qed

text \<open>Both places that write \<open>last->next = _pendingList\<close>.\<close>

lemma step_chain_write:
  assumes g: "lf_good ts s hs ps own place" and fin: "finite ts" and t: "t \<in> ts"
    and pc: "lf_pc s t = ChainStart f l after \<or> (\<exists>e. lf_pc s t = ChainCas f l e after \<and> \<not> (lf_pendingList s = e \<and> \<not> spur))"
  shows "lf_safe_step ts spur t s hs"
proof -
  let ?pre = "case after of None \<Rightarrow> [] | Some p \<Rightarrow> [p]"
  obtain xs e where own: "own t = ?pre @ xs @ [l]" "lseg (lf_heap s) (Some f) (xs @ [l]) e" "\<forall>a\<in>set (own t). lf_heap s a \<noteq> None"
    using lf_goodD(7) [OF g t] pc by (auto simp: pc_owns_def)
  obtain n where n: "lf_heap s l = Some n" using own by auto
  have d: "distinct (?pre @ xs @ [l])" using lf_goodD(8) [OF g t] own(1) by simp
  have priv: "q \<notin> set_option after" if "u \<in> ts" "held (lf_pc s u) = Some q" for u q
    using held_not_private [OF g t that] pc by (auto simp: priv_nodes_def)
  let ?h = "(lf_heap s)(l \<mapsto> n\<lparr>ln_next := lf_pendingList s\<rparr>)" and ?pc = "ChainCas f l (lf_pendingList s) after"
  show ?thesis
  proof (rule step_heap [OF g fin t, where pc' = ?pc and h' = ?h and own' = "own t"])
    show "lf_step spur t s = Inr (lf_goto t ?pc (s\<lparr>lf_heap := ?h\<rparr>))"
      using pc n by (auto simp: lf_step_def set_next_def node_at_def)
    have "lseg ?h (Some f) (xs @ [l]) (lf_pendingList s)" using lseg_redirect [OF own(2) _ n] d by simp
    then show "pc_owns ?h ?pc (own t)" using own(1,3) by (auto simp: pc_owns_def)
    show "?h q \<noteq> None \<and> q \<notin> priv_nodes (own t) ?pc" if "u \<in> ts" "u \<noteq> t" "held (lf_pc s u) = Some q" for u q
      using priv [OF that(1,3)] lf_goodD(10) [OF g that(1,3)] by (simp add: priv_nodes_def)
    show "counted ?pc = counted (lf_pc s t)" using pc by (auto simp: counted_def)
    show "held ?pc = None" by (simp add: held_def)
    show "a \<notin> set (own t) \<Longrightarrow> ?h a = lf_heap s a" for a using own(1) by auto
  qed (use d own in auto)
qed

lemma step_ChainCas:
  assumes g: "lf_good ts s hs ps own place" and fin: "finite ts" and t: "t \<in> ts" and pc: "lf_pc s t = ChainCas f l e after"
    and yes: "lf_pendingList s = e" "\<not> spur"
  shows "lf_safe_step ts spur t s hs"
proof -
  let ?pre = "case after of None \<Rightarrow> [] | Some p \<Rightarrow> [p]" and ?pc = "case after of Some p \<Rightarrow> DelHead p | None \<Rightarrow> ChainDec"
  obtain xs where own: "own t = ?pre @ xs @ [l]" "lseg (lf_heap s) (Some f) (xs @ [l]) e" "\<forall>a\<in>set (own t). lf_heap s a \<noteq> None"
    using lf_goodD(7) [OF g t] by (auto simp: pc pc_owns_def)
  have d: "distinct (?pre @ xs @ [l])" using lf_goodD(8) [OF g t] own(1) by simp
  have pl: "place b = OwnedBy t" if "b \<in> set (?pre @ xs @ [l])" for b using lf_goodD(9) [OF g t] own(1) that by metis
  define s' where "s' = lf_goto t ?pc (s\<lparr>lf_pendingList := Some f\<rparr>)"
  define place' where "place' b = (if b \<in> set (xs @ [l]) then InPending else place b)" for b
  have "lf_good ts s' hs ((xs @ [l]) @ ps) (own(t := ?pre)) place'"
  proof (rule lf_good_step [OF g fin t, where pc' = ?pc])
    fix u b assume u: "u \<in> ts" "u \<noteq> t" "b \<in> set (own u)"
    have "b \<notin> set (xs @ [l])" using pl [of b] lf_goodD(9) [OF g u(1,3)] u(2) by auto
    then show "lf_heap s' b = lf_heap s b \<and> place' b = place b" by (simp add: s'_def lf_goto_def place'_def)
  next
    fix u q assume u: "u \<in> ts" "u \<noteq> t" "held (lf_pc s u) = Some q"
    have "q \<notin> set_option after" using held_not_private [OF g t u(1,3)] by (simp add: pc priv_nodes_def)
    then show "lf_heap s' q \<noteq> None \<and> q \<notin> priv_nodes ?pre ?pc \<and> (q \<in> set hs \<longrightarrow> q \<in> set hs \<and> lf_heap s' q = lf_heap s q)"
      using lf_goodD(10) [OF g u(1,3)] by (auto simp: s'_def lf_goto_def priv_nodes_def split: option.splits)
  next
    show "lseg (lf_heap s') (lf_pendingList s') ((xs @ [l]) @ ps) None"
      using own(2) lf_goodD(4) [OF g] yes(1) unfolding lseg_append [of _ _ "xs @ [l]"] by (auto simp: s'_def lf_goto_def)
    show "distinct ((xs @ [l]) @ ps)" using d lf_goodD(5) [OF g] lf_goodD(6) [OF g] pl by fastforce
    show "b \<in> set hs \<Longrightarrow> place' b = InStack" for b using lf_goodD(3) [OF g, of b] pl [of b] by (auto simp: place'_def)
    show "b \<in> set ((xs @ [l]) @ ps) \<Longrightarrow> place' b = InPending" for b using lf_goodD(6) [OF g, of b] by (auto simp: place'_def)
    show "b \<in> set ?pre \<Longrightarrow> place' b = OwnedBy t" for b using d pl [of b] by (auto simp: place'_def)
    show "pc_owns (lf_heap s') ?pc ?pre" using own(1,3) by (auto simp: pc_owns_def s'_def lf_goto_def split: option.splits)
    show "distinct ?pre" using d by simp
  qed (use lf_goodD(1,2) [OF g] in \<open>auto simp: s'_def lf_goto_def held_def counted_def pc split: option.splits\<close>)
  moreover have "lf_step spur t s = Inr s'" using yes by (simp add: lf_step_def pc s'_def)
  moreover have "lf_effect t s s' (stack_data (lf_heap s) hs) (stack_data (lf_heap s') hs)"
    by (simp add: s'_def lf_goto_def lf_effect_same)
  ultimately show ?thesis using lf_safe_stepI by blast
qed

theorem lf_step_safe:
  assumes g: "lf_good ts s hs ps own place" and fin: "finite ts" and t: "t \<in> ts"
  shows "lf_safe_step ts spur t s hs"
proof (cases "lf_pc s t")
  case Idle
  then have "lf_step spur t s = Inr s" by (simp add: lf_step_def)
  then show ?thesis using g lf_effect_same by (rule lf_safe_stepI)
next
  case (PushCas a e)
  then show ?thesis using step_PushCas [OF g fin t PushCas] step_PushCas_fail [OF g fin t PushCas] by blast
next
  case (PopCas p n)
  then show ?thesis using step_PopCas [OF g fin t PopCas] step_PopCas_fail [OF g fin t PopCas] by blast
next
  case PopFail
  have "own t = []" using lf_goodD(7) [OF g t] by (simp add: PopFail pc_owns_def)
  then show ?thesis
    by (intro step_simple [OF g fin t, where pc' = Idle and own' = "[]"]) (auto simp: lf_step_def PopFail pc_defs)
next
  case ChainDec
  have "own t = []" using lf_goodD(7) [OF g t] by (simp add: ChainDec pc_owns_def)
  then show ?thesis
    by (intro step_simple [OF g fin t, where pc' = Idle and own' = "[]"]) (auto simp: lf_step_def ChainDec pc_defs)
next
  case (ChainCas f l e after)
  then show ?thesis using step_ChainCas [OF g fin t ChainCas] step_chain_write [OF g fin t] by blast
next
  case (ChainStart f l after)
  then show ?thesis using step_chain_write [OF g fin t] by blast
qed (simp_all add: step_PopLoad [OF g fin t] step_PopTest [OF g fin t] step_DelCheck [OF g fin t] step_DelExchange [OF g fin t]
    step_DelDec [OF g fin t] step_DelNodes [OF g fin t] step_DelWalk [OF g fin t] step_DelHead [OF g fin t])

text \<open>Starting an operation.\<close>

lemma push_start_good:
  assumes g: "lf_good ts s hs ps own place" and fin: "finite ts" and t: "t \<in> ts" and pc: "lf_pc s t = Idle" and free: "lf_heap s a = None"
  shows "lf_good ts (push_start t a value s) hs ps (own(t := [a])) (place(a := OwnedBy t))"
    and "stack_data (lf_heap (push_start t a value s)) hs = stack_data (lf_heap s) hs"
proof -
  let ?h = "(lf_heap s)(a \<mapsto> \<lparr>ln_data = value, ln_next = None\<rparr>)"
  have hs: "a \<notin> set hs" and ps: "a \<notin> set ps" using lseg_alloc lf_goodD(1,4) [OF g] free by blast+
  have others: "a \<notin> set (own u)" if "u \<in> ts" for u using lf_goodD(7) [OF g that] free by (auto simp: pc_owns_def)
  show "lf_good ts (push_start t a value s) hs ps (own(t := [a])) (place(a := OwnedBy t))"
  proof (rule lf_good_step [OF g fin t, where pc' = "PushCas a None"])
    fix u b assume "u \<in> ts" "u \<noteq> t" "b \<in> set (own u)"
    then show "lf_heap (push_start t a value s) b = lf_heap s b \<and> (place(a := OwnedBy t)) b = place b"
      using others [of u] by (auto simp: push_start_def lf_goto_def)
  next
    fix u q assume u: "u \<in> ts" "u \<noteq> t" "held (lf_pc s u) = Some q"
    have "q \<noteq> a" using lf_goodD(10) [OF g u(1,3)] free by auto
    then show "lf_heap (push_start t a value s) q \<noteq> None \<and> q \<notin> priv_nodes [a] (PushCas a None)
      \<and> (q \<in> set hs \<longrightarrow> q \<in> set hs \<and> lf_heap (push_start t a value s) q = lf_heap s q)"
      using lf_goodD(10) [OF g u(1,3)] by (simp add: push_start_def lf_goto_def priv_nodes_def)
  next
    have "lseg ?h (lf_head s) hs None" "lseg ?h (lf_pendingList s) ps None"
      using lf_goodD(1,4) [OF g] hs ps by (auto intro: lseg_transfer)
    then show "lseg (lf_heap (push_start t a value s)) (lf_head (push_start t a value s)) hs None"
      "lseg (lf_heap (push_start t a value s)) (lf_pendingList (push_start t a value s)) ps None"
      by (simp_all add: push_start_def lf_goto_def)
  qed (use lf_goodD(2,3,5,6) [OF g] hs ps in \<open>auto simp: push_start_def lf_goto_def pc_defs pc\<close>)
  show "stack_data (lf_heap (push_start t a value s)) hs = stack_data (lf_heap s) hs"
    using hs by (auto simp: stack_data_def push_start_def lf_goto_def)
qed

lemma pop_start_good:
  assumes g: "lf_good ts s hs ps own place" and fin: "finite ts" and t: "t \<in> ts" and pc: "lf_pc s t = Idle"
  shows "lf_good ts (pop_start t s) hs ps (own(t := [])) place"
  by (rule lf_good_local [OF g fin t, where pc' = PopLoad and c = "lf_popCount s + 1" and v = "(lf_value s)(t := None)"])
    (auto simp: pop_start_def pc_defs pc)

section \<open>Memory safety and refinement\<close>

theorem lf_inv_step:
  assumes "lf_conc ts s s'" and "finite ts" and "lf_inv ts s"
  shows "lf_inv ts s'"
proof -
  obtain hs ps own place where g: "lf_good ts s hs ps own place" using assms(3) unfolding lf_inv_def by blast
  from assms(1) show ?thesis
  proof cases
    case (lf_push t a v)
    then show ?thesis using push_start_good(1) [OF g assms(2)] unfolding lf_inv_def by blast
  next
    case (lf_pop t)
    then show ?thesis using pop_start_good [OF g assms(2)] unfolding lf_inv_def by blast
  next
    case (lf_move t spur)
    then show ?thesis using lf_step_safe [OF g assms(2), of t spur] unfolding lf_inv_def lf_safe_step_def by auto
  qed
qed

lemma lf_reachable: "reaches (lf_conc ts) lf_init s \<Longrightarrow> finite ts \<Longrightarrow> lf_inv ts s"
  using reaches_invariant [of "lf_conc ts" lf_init s "lf_inv ts"] lf_inv_init lf_inv_step by blast

theorem lf_never_faults:
  assumes "lf_inv ts s" and "finite ts" and "t \<in> ts"
  shows "\<exists>s'. lf_step spur t s = Inr s'"
  using assms lf_step_safe unfolding lf_inv_def lf_safe_step_def by blast

text \<open>The chain of nodes determines the contents.\<close>

lemma lseg_unique: "lseg h q as None \<Longrightarrow> lseg h q bs None \<Longrightarrow> as = bs"
proof (induction as arbitrary: q bs)
  case (Cons a as)
  then show ?case by (cases bs) (auto split: option.splits)
qed (cases "bs"; auto)

definition lf_contents :: "'c lf_sys \<Rightarrow> 'c list \<Rightarrow> bool" where
  "lf_contents s xs \<longleftrightarrow> (\<exists>hs. lseg (lf_heap s) (lf_head s) hs None \<and> xs = stack_data (lf_heap s) hs)"

lemma lf_contents_good: "lf_good ts s hs ps own place \<Longrightarrow> lf_contents s xs \<longleftrightarrow> xs = stack_data (lf_heap s) hs"
  using lf_goodD(1) lseg_unique unfolding lf_contents_def by blast

theorem lf_refines_stack:
  assumes "lf_inv ts s" and "finite ts" and "t \<in> ts" and "lf_step spur t s = Inr s'"
  shows "\<exists>xs xs'. lf_contents s xs \<and> lf_contents s' xs' \<and> lf_effect t s s' xs xs'"
proof -
  obtain hs ps own place where g: "lf_good ts s hs ps own place" using assms(1) unfolding lf_inv_def by blast
  from lf_step_safe [OF g assms(2,3), of spur] obtain hs' ps' own' place' where
    g': "lf_good ts s' hs' ps' own' place'" "lf_effect t s s' (stack_data (lf_heap s) hs) (stack_data (lf_heap s') hs')"
    using assms(4) unfolding lf_safe_step_def by auto
  then show ?thesis using lf_contents_good [OF g] lf_contents_good [OF g'(1)] by blast
qed

end
