(* ===== verification/MemoryPool.thy ===== *)
theory MemoryPool imports Prelude begin

text \<open>
  ServerCore/MemoryPool.h as configured (USE_LOCK_FREE): New, Delete, xnew, xdelete, xreserve and the
  shared pointers of PoolAlloc. The pool is the contents of its LockFreeStack, newest first, as
  LockFreeStack.thy justifies; an address is memory of one object, \<open>mp_objs\<close> holds the constructed
  objects, and malloc gives an address never given before.
\<close>

section \<open>Operations\<close>

record 'v memory_pool =
  mp_pools :: "nat list"
  mp_poolSize :: int32
  mp_useSize :: int32
  mp_brk :: nat
  mp_objs :: "nat \<Rightarrow> 'v option"

definition new_MemoryPool :: "'v memory_pool" where
  "new_MemoryPool = \<lparr>mp_pools = [], mp_poolSize = 0, mp_useSize = 0, mp_brk = 0, mp_objs = Map.empty\<rparr>"

definition Pool_New :: "'v memory_pool \<Rightarrow> nat \<times> 'v memory_pool" where
  "Pool_New p =
     (let p1 = p\<lparr>mp_useSize := to_int32 (mp_useSize p + 1)\<rparr>
      in case mp_pools p1 of
           [] \<Rightarrow> (mp_brk p1, p1\<lparr>mp_brk := Suc (mp_brk p1)\<rparr>)
         | memory # rest \<Rightarrow> (memory, p1\<lparr>mp_pools := rest, mp_poolSize := to_int32 (mp_poolSize p1 - 1)\<rparr>))"

definition Pool_Delete :: "nat option \<Rightarrow> 'v memory_pool \<Rightarrow> 'v memory_pool" where
  "Pool_Delete memory p =
     (case memory of
        None \<Rightarrow> p
      | Some a \<Rightarrow> p\<lparr>mp_useSize := to_int32 (mp_useSize p - 1), mp_pools := a # mp_pools p,
                     mp_poolSize := to_int32 (mp_poolSize p + 1)\<rparr>)"

definition GetPoolSize :: "'v memory_pool \<Rightarrow> int32" where
  "GetPoolSize p = mp_poolSize p"

definition GetUsingCount :: "'v memory_pool \<Rightarrow> int32" where
  "GetUsingCount p = mp_useSize p"

definition xnew :: "'v \<Rightarrow> 'v memory_pool \<Rightarrow> nat \<times> 'v memory_pool" where
  "xnew v p = (let (mem, p') = Pool_New p in (mem, p'\<lparr>mp_objs := (mp_objs p')(mem \<mapsto> v)\<rparr>))"

text \<open>Running the destructor where no object lives is a fault: a double xdelete.\<close>

definition xdelete :: "nat \<Rightarrow> 'v memory_pool \<Rightarrow> 'v memory_pool result" where
  "xdelete ptr p =
     (case mp_objs p ptr of
        None \<Rightarrow> Inl (UndefinedBehaviour ''destructor of no object'')
      | Some v \<Rightarrow> Inr (Pool_Delete (Some ptr) (p\<lparr>mp_objs := (mp_objs p)(ptr := None)\<rparr>)))"

primrec xreserve_new :: "nat \<Rightarrow> 'v \<Rightarrow> 'v memory_pool \<Rightarrow> nat list \<times> 'v memory_pool" where
  "xreserve_new 0 v p = ([], p)"
| "xreserve_new (Suc n) v p = (let (mem, p1) = xnew v p; (vec, p2) = xreserve_new n v p1 in (mem # vec, p2))"

primrec xreserve_delete :: "nat list \<Rightarrow> 'v memory_pool \<Rightarrow> 'v memory_pool result" where
  "xreserve_delete [] p = Inr p"
| "xreserve_delete (mem # vec) p = bind_result (xdelete mem p) (xreserve_delete vec)"

definition xreserve :: "int32 \<Rightarrow> 'v \<Rightarrow> 'v memory_pool \<Rightarrow> 'v memory_pool result" where
  "xreserve n v p =
     (if n < 0 then Inl (CppException ''std::length_error'')
      else let (vec, p1) = xreserve_new (nat n) v p in xreserve_delete vec p1)"

section \<open>The invariant\<close>

definition mpool_inv :: "'v memory_pool \<Rightarrow> bool" where
  "mpool_inv p \<longleftrightarrow> distinct (mp_pools p) \<and> (\<forall>a\<in>set (mp_pools p). mp_objs p a = None \<and> a < mp_brk p)
     \<and> (\<forall>a. mp_objs p a \<noteq> None \<longrightarrow> a < mp_brk p)
     \<and> mp_poolSize p = to_int32 (int (length (mp_pools p))) \<and> mp_useSize p = to_int32 (int (card (dom (mp_objs p))))"

lemma to_int32_step: "to_int32 (to_int32 a + b) = to_int32 (a + b)"
  unfolding to_int32_def by (metis signed_take_bit_add signed_take_bit_signed_take_bit min.idem)

lemma to_int32_step_sub: "to_int32 (to_int32 a - b) = to_int32 (a - b)"
  using to_int32_step [of a "- b"] by simp

lemma to_int32_step_left: "to_int32 (b + to_int32 a) = to_int32 (b + a)"
  using to_int32_step [of a b] by (simp add: add.commute)

lemma mpool_inv_new: "mpool_inv new_MemoryPool"
  by (simp add: mpool_inv_def new_MemoryPool_def to_int32_def)

lemma pool_finite: "mpool_inv p \<Longrightarrow> finite (dom (mp_objs p))"
  unfolding mpool_inv_def by (rule finite_subset [of _ "{..<mp_brk p}"]) auto

text \<open>xnew gives memory nobody uses, and keeps the counters.\<close>

lemma xnew_ok:
  assumes "mpool_inv p" and "xnew v p = (a, p')"
  shows "mp_objs p a = None" and "mp_objs p' = (mp_objs p)(a \<mapsto> v)" and "mpool_inv p'"
    and "length (mp_pools p') = length (mp_pools p) - 1"
proof -
  have fin: "finite (dom (mp_objs p))" using pool_finite [OF assms(1)] .
  show free: "mp_objs p a = None" and objs: "mp_objs p' = (mp_objs p)(a \<mapsto> v)"
    and "length (mp_pools p') = length (mp_pools p) - 1"
    using assms by (cases "mp_pools p"; fastforce simp: xnew_def Pool_New_def mpool_inv_def)+
  then have card: "card (dom (mp_objs p')) = Suc (card (dom (mp_objs p)))" using fin by (simp add: domIff)
  have "mp_useSize p' = to_int32 (mp_useSize p + 1)"
    using assms(2) by (cases "mp_pools p") (auto simp: xnew_def Pool_New_def)
  then have use_size: "mp_useSize p' = to_int32 (int (card (dom (mp_objs p'))))"
    using assms(1) card by (simp add: mpool_inv_def to_int32_step to_int32_step_left add.commute [of "1 :: int"])
  show "mpool_inv p'"
  proof (cases "mp_pools p")
    case Nil
    then show ?thesis using assms use_size objs unfolding mpool_inv_def
      by (auto simp: xnew_def Pool_New_def less_Suc_eq)
  next
    case (Cons m rest)
    then have "to_int32 (mp_poolSize p - 1) = to_int32 (int (length rest))"
      using assms(1) by (simp add: mpool_inv_def to_int32_step_sub)
    then show ?thesis using assms use_size objs Cons unfolding mpool_inv_def
      by (auto simp: xnew_def Pool_New_def)
  qed
qed

lemma xdelete_ok:
  assumes "mpool_inv p" and "mp_objs p a = Some v"
  shows "\<exists>p'. xdelete a p = Inr p' \<and> mpool_inv p' \<and> mp_objs p' = (mp_objs p)(a := None) \<and> mp_pools p' = a # mp_pools p"
proof -
  have fin: "finite (dom (mp_objs p))" using pool_finite [OF assms(1)] .
  define p' where "p' = Pool_Delete (Some a) (p\<lparr>mp_objs := (mp_objs p)(a := None)\<rparr>)"
  have "card (dom (mp_objs p)) = Suc (card (dom ((mp_objs p)(a := None))))"
  proof -
    have "Suc (card (dom (mp_objs p) - {a})) = card (dom (mp_objs p))" by (rule card_Suc_Diff1 [OF fin]) (use assms(2) in auto)
    then show ?thesis by (metis dom_fun_upd)
  qed
  then have "mp_useSize p' = to_int32 (int (card (dom (mp_objs p'))))"
    using assms(1) by (simp add: p'_def Pool_Delete_def mpool_inv_def to_int32_step_sub)
  moreover have "mp_poolSize p' = to_int32 (int (length (mp_pools p')))"
    using assms(1) by (simp add: p'_def Pool_Delete_def mpool_inv_def to_int32_step to_int32_step_left add.commute [of "1 :: int"])
  ultimately have "mpool_inv p'"
    using assms unfolding mpool_inv_def by (auto simp: p'_def Pool_Delete_def)
  then show ?thesis using assms(2) by (simp add: xdelete_def p'_def Pool_Delete_def)
qed

section \<open>xreserve\<close>

lemma xreserve_new_ok:
  "mpool_inv p \<Longrightarrow> xreserve_new n v p = (vec, p') \<Longrightarrow>
   mpool_inv p' \<and> length vec = n \<and> distinct vec \<and> (\<forall>a\<in>set vec. mp_objs p a = None \<and> mp_objs p' a = Some v)
   \<and> (\<forall>a. a \<notin> set vec \<longrightarrow> mp_objs p' a = mp_objs p a) \<and> length (mp_pools p') = length (mp_pools p) - n"
proof (induction n arbitrary: p vec p')
  case (Suc n)
  obtain m p1 where x: "xnew v p = (m, p1)" by fastforce
  obtain ms where ms: "xreserve_new n v p1 = (ms, p')" "vec = m # ms"
    using Suc.prems(2) x by (auto split: prod.splits)
  note x' = xnew_ok [OF Suc.prems(1) x]
  have ih: "mpool_inv p' \<and> length ms = n \<and> distinct ms \<and> (\<forall>a\<in>set ms. mp_objs p1 a = None \<and> mp_objs p' a = Some v)
   \<and> (\<forall>a. a \<notin> set ms \<longrightarrow> mp_objs p' a = mp_objs p1 a) \<and> length (mp_pools p') = length (mp_pools p1) - n"
    using Suc.IH [OF x'(3) ms(1)] .
  have "m \<notin> set ms" using ih x'(2) by auto
  moreover from this have "mp_objs p b = None" if "b \<in> set ms" for b using ih x'(2) that by (metis fun_upd_other)
  ultimately show ?case using ih x' ms(2) by auto
qed simp

lemma xreserve_delete_ok:
  "mpool_inv p \<Longrightarrow> distinct vec \<Longrightarrow> (\<forall>a\<in>set vec. mp_objs p a \<noteq> None) \<Longrightarrow>
   \<exists>p'. xreserve_delete vec p = Inr p' \<and> mpool_inv p' \<and> mp_objs p' = (\<lambda>a. if a \<in> set vec then None else mp_objs p a)
     \<and> length (mp_pools p') = length (mp_pools p) + length vec"
proof (induction vec arbitrary: p)
  case (Cons m ms)
  obtain p1 where p1: "xdelete m p = Inr p1" "mpool_inv p1" "mp_objs p1 = (mp_objs p)(m := None)" "mp_pools p1 = m # mp_pools p"
    using xdelete_ok [OF Cons.prems(1)] Cons.prems(3) by fastforce
  then obtain p' where "xreserve_delete ms p1 = Inr p'" "mpool_inv p'" "mp_objs p' = (\<lambda>a. if a \<in> set ms then None else mp_objs p1 a)"
     "length (mp_pools p') = length (mp_pools p1) + length ms"
    using Cons.IH [OF p1(2)] Cons.prems(2,3) by fastforce
  then show ?case using p1 by (intro exI [of _ p']) (auto simp: fun_eq_iff)
qed auto

text \<open>Reserving leaves at least that many blocks in the pool and touches no object.\<close>

theorem xreserve_ok:
  assumes "mpool_inv p" and "0 \<le> n"
  shows "\<exists>p'. xreserve n v p = Inr p' \<and> mpool_inv p' \<and> mp_objs p' = mp_objs p
    \<and> length (mp_pools p') = max (length (mp_pools p)) (nat n)"
proof -
  obtain vec p1 where r: "xreserve_new (nat n) v p = (vec, p1)" by fastforce
  note r' = xreserve_new_ok [OF assms(1) r]
  obtain p' where p': "xreserve_delete vec p1 = Inr p'" "mpool_inv p'" "mp_objs p' = (\<lambda>a. if a \<in> set vec then None else mp_objs p1 a)"
     "length (mp_pools p') = length (mp_pools p1) + length vec"
    using xreserve_delete_ok [of p1 vec] r' by auto
  have "mp_objs p' = mp_objs p" using p'(3) r' by (auto simp: fun_eq_iff)
  then show ?thesis using p' r' r assms(2) by (simp add: xreserve_def)
qed

section \<open>Shared pointers\<close>

text \<open>PoolAlloc: the object lives while its reference count is positive, and the last copy to go
  calls xdelete.\<close>

record 'v pool_world =
  pw_pool :: "'v memory_pool"
  pw_refs :: "nat \<Rightarrow> nat"

definition PoolAlloc :: "'v \<Rightarrow> 'v pool_world \<Rightarrow> nat \<times> 'v pool_world" where
  "PoolAlloc v w = (let (a, p) = xnew v (pw_pool w) in (a, \<lparr>pw_pool = p, pw_refs = (pw_refs w)(a := 1)\<rparr>))"

definition share :: "nat \<Rightarrow> 'v pool_world \<Rightarrow> 'v pool_world" where
  "share a w = w\<lparr>pw_refs := (pw_refs w)(a := Suc (pw_refs w a))\<rparr>"

definition release :: "nat \<Rightarrow> 'v pool_world \<Rightarrow> 'v pool_world result" where
  "release a w =
     (let w1 = w\<lparr>pw_refs := (pw_refs w)(a := pw_refs w a - 1)\<rparr>
      in if pw_refs w1 a = 0 then bind_result (xdelete a (pw_pool w1)) (\<lambda>p. Inr (w1\<lparr>pw_pool := p\<rparr>)) else Inr w1)"

definition refs_inv :: "'v pool_world \<Rightarrow> bool" where
  "refs_inv w \<longleftrightarrow> mpool_inv (pw_pool w) \<and> (\<forall>a. 0 < pw_refs w a \<longleftrightarrow> mp_objs (pw_pool w) a \<noteq> None)"

lemma PoolAlloc_ok:
  assumes "refs_inv w" and "PoolAlloc v w = (a, w')"
  shows "refs_inv w'" and "pw_refs w a = 0" and "mp_objs (pw_pool w') = (mp_objs (pw_pool w))(a \<mapsto> v)" and "pw_refs w' = (pw_refs w)(a := 1)"
proof -
  obtain p where p: "xnew v (pw_pool w) = (a, p)" "w' = \<lparr>pw_pool = p, pw_refs = (pw_refs w)(a := 1)\<rparr>"
    using assms(2) by (auto simp: PoolAlloc_def split: prod.splits)
  have "mpool_inv (pw_pool w)" using assms(1) by (simp add: refs_inv_def)
  note x = xnew_ok [OF this p(1)]
  have refs: "0 < pw_refs w b \<longleftrightarrow> mp_objs (pw_pool w) b \<noteq> None" for b using assms(1) by (simp add: refs_inv_def)
  show zero: "pw_refs w a = 0" using refs [of a] unfolding x(1) by simp
  show "mp_objs (pw_pool w') = (mp_objs (pw_pool w))(a \<mapsto> v)" "pw_refs w' = (pw_refs w)(a := 1)"
    using x p(2) by simp_all
  then show "refs_inv w'" using x(3) p(2) refs by (simp add: refs_inv_def)
qed

text \<open>Dropping the last reference destroys the object; any other leaves it alone.\<close>

lemma release_ok:
  assumes "refs_inv w" and "0 < pw_refs w a"
  shows "\<exists>w'. release a w = Inr w' \<and> refs_inv w' \<and> pw_refs w' = (pw_refs w)(a := pw_refs w a - 1)
    \<and> mp_objs (pw_pool w') = (if pw_refs w a = 1 then (mp_objs (pw_pool w))(a := None) else mp_objs (pw_pool w))"
proof -
  obtain v where v: "mp_objs (pw_pool w) a = Some v" using assms by (auto simp: refs_inv_def)
  have inv: "mpool_inv (pw_pool w)" using assms(1) by (simp add: refs_inv_def)
  show ?thesis
  proof (cases "pw_refs w a = 1")
    case True
    obtain p' where "xdelete a (pw_pool w) = Inr p'" "mpool_inv p'" "mp_objs p' = (mp_objs (pw_pool w))(a := None)"
      using xdelete_ok [OF inv v] by blast
    then show ?thesis using assms True by (auto simp: release_def refs_inv_def)
  next
    case False
    then have many: "1 < pw_refs w a" using assms(2) by simp
    then have "release a w = Inr (w\<lparr>pw_refs := (pw_refs w)(a := pw_refs w a - 1)\<rparr>)" by (simp add: release_def Let_def)
    moreover have "refs_inv (w\<lparr>pw_refs := (pw_refs w)(a := pw_refs w a - 1)\<rparr>)"
      using assms(1) many v unfolding refs_inv_def by auto
    ultimately show ?thesis using False by simp
  qed
qed

lemma share_ok: "refs_inv w \<Longrightarrow> 0 < pw_refs w a \<Longrightarrow> refs_inv (share a w)"
  by (auto simp: refs_inv_def share_def)

end
