(* ===== verification/Network.thy ===== *)
theory Network imports SessionRIO begin

text \<open>
  The server as a whole: ServerCore/Listener.cpp (StartAccept, RegisterAccept, ProcessAccept,
  Dispatch), Service::CreateSession, ServerService::Start, ClientService::Start, CreateRIOCQ,
  Service::Dispatch and IocpCore::Dispatch, over many sessions that share one service and one
  monitor. The operating system's answers are parameters: a function of the attempt number for the
  listener, the \<open>system\<close> of Session.thy for the sessions.
\<close>

section \<open>What a session's handlers leave alone\<close>

text \<open>The calls of OnConnected and OnDisconnected in a trace, newest first.\<close>

definition connect_calls :: "io_call list \<Rightarrow> io_call list" where
  "connect_calls tr = filter (\<lambda>c. c = Cb_OnConnected \<or> c = Cb_OnDisconnected) tr"

lemma connect_calls_simps [simp]:
  "connect_calls [] = []" "connect_calls (Cb_OnConnected # tr) = Cb_OnConnected # connect_calls tr"
  "connect_calls (Cb_OnDisconnected # tr) = Cb_OnDisconnected # connect_calls tr"
  "c \<noteq> Cb_OnConnected \<Longrightarrow> c \<noteq> Cb_OnDisconnected \<Longrightarrow> connect_calls (c # tr) = connect_calls tr"
  by (simp_all add: connect_calls_def)

lemma in_connect_calls [simp]:
  "Cb_OnConnected \<in> set (connect_calls tr) \<longleftrightarrow> Cb_OnConnected \<in> set tr"
  "Cb_OnDisconnected \<in> set (connect_calls tr) \<longleftrightarrow> Cb_OnDisconnected \<in> set tr"
  by (auto simp: connect_calls_def)

definition keeps :: "world \<Rightarrow> world \<Rightarrow> bool" where
  "keeps w w' \<longleftrightarrow> wd_service w' = wd_service w \<and> mo_connectCount (wd_monitor w') = mo_connectCount (wd_monitor w)
     \<and> connect_calls (wd_trace w') = connect_calls (wd_trace w)
     \<and> se_self (wd_self w') = se_self (wd_self w) \<and> se_hasService (wd_self w') = se_hasService (wd_self w)
     \<and> wd_useRIO w' = wd_useRIO w"

lemma keeps_calls:
  assumes "keeps w w'"
  shows "Cb_OnConnected \<in> set (wd_trace w') \<longleftrightarrow> Cb_OnConnected \<in> set (wd_trace w)"
    "Cb_OnDisconnected \<in> set (wd_trace w') \<longleftrightarrow> Cb_OnDisconnected \<in> set (wd_trace w)"
  using assms unfolding keeps_def by (metis in_connect_calls)+

lemma keeps_refl [simp]: "keeps w w"
  by (simp add: keeps_def)

lemma keeps_trans: "keeps a b \<Longrightarrow> keeps b c \<Longrightarrow> keeps a c"
  by (simp add: keeps_def)

lemma keeps_emit [simp]: "c \<noteq> Cb_OnConnected \<Longrightarrow> c \<noteq> Cb_OnDisconnected \<Longrightarrow> keeps w0 (emit c w) = keeps w0 w"
  by (auto simp: keeps_def)

lemma keeps_upd [simp]:
  "se_self (f (wd_self w)) = se_self (wd_self w) \<Longrightarrow> se_hasService (f (wd_self w)) = se_hasService (wd_self w)
    \<Longrightarrow> keeps w0 (upd_self f w) = keeps w0 w"
  by (simp add: keeps_def)

lemma keeps_Disconnect [simp]: "keeps w0 (Disconnect sys c w) = keeps w0 w"
  by (simp add: disconnect_defs)

lemma keeps_HandleError [simp]: "keeps w0 (HandleError sys e w) = keeps w0 w"
  by (simp add: HandleError_def)

lemma keeps_RegisterRecv [simp]: "\<not> wd_useRIO w \<Longrightarrow> keeps w0 (RegisterRecv sys w) = keeps w0 w"
  by (simp add: RegisterRecv_def Let_def)

lemma keeps_RegisterSend [simp]: "\<not> wd_useRIO w \<Longrightarrow> keeps w0 (RegisterSend sys w) = keeps w0 w"
  by (simp add: RegisterSend_def Let_def)

lemma keeps_Send [simp]: "\<not> wd_useRIO w \<Longrightarrow> keeps w0 (Send sys b w) = keeps w0 w"
  by (simp add: Send_def Let_def)

lemma keeps_packets [simp]: "keeps w0 (fold (\<lambda>p. emit (Cb_OnRecvPacket p)) ps w) = keeps w0 w"
  by (induction ps arbitrary: w) simp_all

lemma keeps_ProcessSend:
  assumes "ProcessSend sys n w = Inr w'" and "\<not> wd_useRIO w"
  shows "keeps w w'"
  using assms by (auto simp: ProcessSend_def Let_def split: if_splits)

lemma keeps_ProcessRecv:
  assumes "ProcessRecv sys n w = Some (Inr w')" and "\<not> wd_useRIO w"
  shows "keeps w w'"
  using assms by (auto simp: ProcessRecv_def Let_def bind_result_Inr_iff split: if_splits option.splits prod.splits)

lemma keeps_monitor [simp]: "mo_connectCount m = mo_connectCount (wd_monitor w) \<Longrightarrow> keeps w0 (w\<lparr>wd_monitor := m\<rparr>) = keeps w0 w"
  by (simp add: keeps_def)

text \<open>The effect of a handler on what sessions share.\<close>

lemma handle_shared:
  assumes "handle sys ev w = Some (Inr w')" and "\<not> wd_useRIO w" and "ev \<noteq> EvtConnected" and "ev \<noteq> EvtDisconnected"
  shows "keeps w w'"
proof (cases ev)
  case (EvtReceived bs)
  let ?w = "upd_self (\<lambda>s. s\<lparr>se_recvBuffer := store_at_WritePos (se_recvBuffer s) bs\<rparr>) w"
  obtain w1 where "ProcessRecv sys (int (length bs)) ?w = Some (Inr w1)"
    "w' = w1\<lparr>wd_monitor := AddRecvCount 1 (int (length bs)) (wd_monitor w1)\<rparr>"
    using assms EvtReceived by (auto simp: handle_def Dispatch_iocp_def bind_result_Inr_iff)
  then show ?thesis using keeps_ProcessRecv [of sys _ ?w w1] assms(2) keeps_trans [of w ?w w1]
    by (simp add: AddRecvCount_def)
next
  case (EvtSent n)
  obtain w1 where "ProcessSend sys n w = Inr w1" "w' = w1\<lparr>wd_monitor := AddSendCount 1 n (wd_monitor w1)\<rparr>"
    using assms EvtSent by (auto simp: handle_def Dispatch_iocp_def bind_result_Inr_iff)
  then show ?thesis using keeps_ProcessSend [of sys n w w1] assms(2) by (simp add: AddSendCount_def)
qed (use assms in \<open>auto simp: handle_def\<close>)

lemma connect_shared:
  assumes "handle sys EvtConnected w = Some (Inr w')" and "\<not> wd_useRIO w"
  shows "wd_service w' = AddSession (se_self (wd_self w)) (wd_service w)" "wd_monitor w' = wd_monitor w"
    "Cb_OnConnected \<in> set (wd_trace w')" "Cb_OnDisconnected \<in> set (wd_trace w') \<longleftrightarrow> Cb_OnDisconnected \<in> set (wd_trace w)"
    "se_self (wd_self w') = se_self (wd_self w)" "se_hasService (wd_self w') = se_hasService (wd_self w)" "wd_useRIO w' = wd_useRIO w"
    "connect_calls (wd_trace w') = Cb_OnConnected # connect_calls (wd_trace w)"
proof -
  define w2 where "w2 = emit Cb_OnConnected (SetWorkId
    ((upd_self (\<lambda>s. s\<lparr>se_connected := True\<rparr>) w)\<lparr>wd_service := AddSession (se_self (wd_self w)) (wd_service w)\<rparr>))"
  have svc: "se_hasService (wd_self w)" using assms
    by (cases "se_hasService (wd_self w)") (auto simp: handle_def Dispatch_iocp_def ProcessConnect_def with_service_def Let_def)
  then have w': "w' = RegisterRecv sys w2"
    using assms by (simp add: handle_def Dispatch_iocp_def ProcessConnect_def with_service_def Let_def w2_def)
  have rio: "\<not> wd_useRIO w2" using assms(2) by (simp add: w2_def SetWorkId_def)
  have k: "keeps w2 w'" unfolding w' using rio by simp
  have m: "wd_monitor (RegisterRecv sys w2) = wd_monitor w2"
    using rio by (simp add: RegisterRecv_def Let_def HandleError_frame)
  show "wd_service w' = AddSession (se_self (wd_self w)) (wd_service w)" "wd_monitor w' = wd_monitor w"
    "Cb_OnConnected \<in> set (wd_trace w')" "Cb_OnDisconnected \<in> set (wd_trace w') \<longleftrightarrow> Cb_OnDisconnected \<in> set (wd_trace w)"
    "se_self (wd_self w') = se_self (wd_self w)" "se_hasService (wd_self w') = se_hasService (wd_self w)" "wd_useRIO w' = wd_useRIO w"
    "connect_calls (wd_trace w') = Cb_OnConnected # connect_calls (wd_trace w)"
    using k keeps_calls [OF k] m w' by (auto simp: keeps_def w2_def SetWorkId_def)
qed

lemma disconnect_shared:
  assumes "handle sys EvtDisconnected w = Some (Inr w')"
  shows "ReleaseSession (se_self (wd_self w)) (wd_service w) = Inr (wd_service w')"
    "wd_monitor w' = DecDisconnectCount (wd_monitor w)" "wd_trace w' = Cb_OnDisconnected # wd_trace w"
    "se_self (wd_self w') = se_self (wd_self w)" "se_hasService (wd_self w') = se_hasService (wd_self w)" "wd_useRIO w' = wd_useRIO w"
  using assms by (auto simp: handle_def Dispatch_iocp_def ProcessDisconnect_def with_service_def bind_result_Inr_iff Let_def split: if_splits)

section \<open>The network\<close>

text \<open>Answers of the operating system to the listener: the calls that set it up, by position, and the
  calls made for the session with a given number.\<close>

record accept_os =
  ao_setup :: "nat \<Rightarrow> bool"
  ao_register :: "nat \<Rightarrow> bool"
  ao_acceptEx :: "nat \<Rightarrow> int32 option"
  ao_update :: "nat \<Rightarrow> bool"
  ao_peer :: "nat \<Rightarrow> bool"

text \<open>
  Sessions are numbered in the order they are created; \<open>nw_accept\<close> is the session of an accept
  event, \<open>nw_posted\<close> the accept events that are outstanding, and each session has its own trace.
\<close>

record network =
  nw_session :: "nat \<Rightarrow> session option"
  nw_trace :: "nat \<Rightarrow> io_call list"
  nw_service :: service
  nw_monitor :: monitor
  nw_SWorkId :: int32
  nw_created :: nat
  nw_accept :: "nat \<Rightarrow> nat option"
  nw_posted :: "nat set"

definition new_network :: "service \<Rightarrow> network" where
  "new_network sv = \<lparr>nw_session = Map.empty, nw_trace = (\<lambda>_. []), nw_service = sv, nw_monitor = new_monitor,
     nw_SWorkId = 1, nw_created = 0, nw_accept = Map.empty, nw_posted = {}\<rparr>"

definition session_world :: "nat \<Rightarrow> session \<Rightarrow> network \<Rightarrow> world" where
  "session_world i s nw = \<lparr>wd_self = s, wd_service = nw_service nw, wd_monitor = nw_monitor nw,
     wd_SWorkId = nw_SWorkId nw, wd_useRIO = False, wd_trace = nw_trace nw i\<rparr>"

definition store_world :: "nat \<Rightarrow> world \<Rightarrow> network \<Rightarrow> network" where
  "store_world i w nw = nw\<lparr>nw_session := (nw_session nw)(i \<mapsto> wd_self w), nw_trace := (nw_trace nw)(i := wd_trace w),
     nw_service := wd_service w, nw_monitor := wd_monitor w, nw_SWorkId := wd_SWorkId w\<rparr>"

definition on_session :: "system \<Rightarrow> session_event \<Rightarrow> nat \<Rightarrow> network \<Rightarrow> network result option" where
  "on_session sys ev i nw =
     (case nw_session nw i of
        None \<Rightarrow> Some (Inl NullPointer)
      | Some s \<Rightarrow> map_option (\<lambda>r. bind_result r (\<lambda>w. Inr (store_world i w nw))) (handle sys ev (session_world i s nw)))"

text \<open>Service::CreateSession: null when the new session cannot be registered with the port.\<close>

definition CreateSession :: "accept_os \<Rightarrow> network \<Rightarrow> (nat option \<times> network) result" where
  "CreateSession ao nw =
     (let i = nw_created nw
      in bind_result (new_Session i) (\<lambda>s.
           let nw1 = nw\<lparr>nw_created := Suc i, nw_session := (nw_session nw)(i \<mapsto> s\<lparr>se_hasService := True\<rparr>)\<rparr>
           in if \<not> ao_register ao i then Inr (None, nw1) else Inr (Some i, nw1)))"

text \<open>RegisterAccept calls itself until AcceptEx takes the session: None, it never returns.\<close>

partial_function (option) RegisterAccept :: "accept_os \<Rightarrow> nat \<Rightarrow> network \<Rightarrow> network result option" where
  "RegisterAccept ao e nw =
     (case CreateSession ao nw of
        Inl f \<Rightarrow> Some (Inl f)
      | Inr (session, nw1) \<Rightarrow>
          (case session of
             None \<Rightarrow> Some (Inl NullPointer)
           | Some i \<Rightarrow>
               let nw2 = nw1\<lparr>nw_accept := (nw_accept nw1)(e \<mapsto> i)\<rparr>
               in if ao_acceptEx ao i \<noteq> None \<and> ao_acceptEx ao i \<noteq> Some WSA_IO_PENDING
                  then RegisterAccept ao e nw2
                  else Some (Inr (nw2\<lparr>nw_posted := insert e (nw_posted nw2)\<rparr>))))"

definition ProcessAccept :: "accept_os \<Rightarrow> system \<Rightarrow> nat \<Rightarrow> network \<Rightarrow> network result option" where
  "ProcessAccept ao sys e nw0 =
     (let nw = nw0\<lparr>nw_posted := nw_posted nw0 - {e}\<rparr>
      in case nw_accept nw e of
           None \<Rightarrow> Some (Inl NullPointer)
         | Some i \<Rightarrow>
             if \<not> ao_update ao i then RegisterAccept ao e nw
             else if \<not> ao_peer ao i then RegisterAccept ao e nw
             else (case on_session sys EvtConnected i nw of
                     None \<Rightarrow> None
                   | Some (Inl f) \<Rightarrow> Some (Inl f)
                   | Some (Inr nw1) \<Rightarrow> RegisterAccept ao e (nw1\<lparr>nw_monitor := IncAcceptCount (nw_monitor nw1)\<rparr>)))"

definition Listener_Dispatch :: "accept_os \<Rightarrow> system \<Rightarrow> EventType \<Rightarrow> nat \<Rightarrow> network \<Rightarrow> network result option" where
  "Listener_Dispatch ao sys eventType e nw =
     (if eventType \<noteq> EvAccept then Some (CRASH ''ASSERT_CRASH'') else ProcessAccept ao sys e nw)"

primrec start_loop :: "accept_os \<Rightarrow> nat list \<Rightarrow> network \<Rightarrow> network result option" where
  "start_loop ao [] nw = Some (Inr nw)"
| "start_loop ao (e # es) nw =
     (case RegisterAccept ao e nw of
        None \<Rightarrow> None
      | Some (Inl f) \<Rightarrow> Some (Inl f)
      | Some (Inr nw') \<Rightarrow> start_loop ao es nw')"

text \<open>The set-up calls: CreateSocket, Register, SetReuseAddress, SetLinger, Bind, Listen.\<close>

definition StartAccept :: "accept_os \<Rightarrow> bool \<Rightarrow> network \<Rightarrow> (bool \<times> network) result option" where
  "StartAccept ao hasService nw =
     (if \<not> hasService then Some (Inr (False, nw))
      else if \<not> ao_setup ao 0 then Some (Inr (False, nw))
      else if \<not> ao_setup ao 1 then Some (Inr (False, nw))
      else if \<not> ao_setup ao 2 then Some (Inr (False, nw))
      else if \<not> ao_setup ao 3 then Some (Inr (False, nw))
      else if \<not> ao_setup ao 4 then Some (Inr (False, nw))
      else if \<not> ao_setup ao 5 then Some (Inr (False, nw))
      else map_option (\<lambda>r. bind_result r (\<lambda>nw'. Inr (True, nw')))
             (start_loop ao [0..<nat (sv_maxSessionCount (nw_service nw))] nw))"

definition ServerService_Start :: "accept_os \<Rightarrow> bool \<Rightarrow> network \<Rightarrow> (bool \<times> network) result option" where
  "ServerService_Start ao hasListener nw =
     (if CanStart (nw_service nw) = False then Some (Inr (False, nw))
      else if \<not> hasListener then Some (Inr (False, nw))
      else StartAccept ao True nw)"

section \<open>Registering accepts\<close>

text \<open>Session \<open>n\<close> ends the recursion: it cannot be registered, or AcceptEx takes it.\<close>

definition accept_ends :: "accept_os \<Rightarrow> nat \<Rightarrow> bool" where
  "accept_ends ao n \<longleftrightarrow> \<not> ao_register ao n \<or> ao_acceptEx ao n = None \<or> ao_acceptEx ao n = Some WSA_IO_PENDING"

lemma CreateSession_ok:
  "\<exists>s. new_Session (nw_created nw) = Inr s \<and> CreateSession ao nw =
     Inr (if ao_register ao (nw_created nw) then Some (nw_created nw) else None,
          nw\<lparr>nw_created := Suc (nw_created nw), nw_session := (nw_session nw)(nw_created nw \<mapsto> s\<lparr>se_hasService := True\<rparr>)\<rparr>)"
  using new_Session_ok [of "nw_created nw"] by (auto simp: CreateSession_def Let_def)

text \<open>What one return of RegisterAccept has done: sessions up to a fresh last one, which is posted.\<close>

definition accept_posted :: "nat \<Rightarrow> network \<Rightarrow> network \<Rightarrow> bool" where
  "accept_posted e nw nw' \<longleftrightarrow> (\<exists>n ss. nw_created nw \<le> n \<and>
     (\<forall>i. nw_created nw \<le> i \<and> i \<le> n \<longrightarrow> new_Session i = Inr (ss i)) \<and>
     nw' = nw\<lparr>nw_created := Suc n, nw_accept := (nw_accept nw)(e \<mapsto> n), nw_posted := insert e (nw_posted nw),
       nw_session := (\<lambda>i. if nw_created nw \<le> i \<and> i \<le> n then Some ((ss i)\<lparr>se_hasService := True\<rparr>) else nw_session nw i)\<rparr>)"

lemma RegisterAccept_returns:
  "nw_created nw \<le> n \<Longrightarrow> accept_ends ao n \<Longrightarrow> \<exists>r. RegisterAccept ao e nw = Some r"
proof (induction "n - nw_created nw" arbitrary: nw)
  case 0
  obtain s where "CreateSession ao nw = Inr (if ao_register ao (nw_created nw) then Some (nw_created nw) else None,
          nw\<lparr>nw_created := Suc (nw_created nw), nw_session := (nw_session nw)(nw_created nw \<mapsto> s\<lparr>se_hasService := True\<rparr>)\<rparr>)"
    using CreateSession_ok by blast
  moreover have "n = nw_created nw" using 0 by simp
  ultimately show ?case using 0 by (subst RegisterAccept.simps) (auto simp: accept_ends_def Let_def)
next
  case (Suc k)
  obtain s where "CreateSession ao nw = Inr (if ao_register ao (nw_created nw) then Some (nw_created nw) else None,
          nw\<lparr>nw_created := Suc (nw_created nw), nw_session := (nw_session nw)(nw_created nw \<mapsto> s\<lparr>se_hasService := True\<rparr>)\<rparr>)"
    using CreateSession_ok by blast
  moreover have "\<exists>r. RegisterAccept ao e m = Some r" if "nw_created m = Suc (nw_created nw)" for m
    using Suc that by auto
  ultimately show ?case by (subst RegisterAccept.simps) (auto simp: Let_def)
qed

lemma accept_posted_here:
  assumes "new_Session (nw_created nw) = Inr s"
  shows "accept_posted e nw (nw\<lparr>nw_created := Suc (nw_created nw), nw_session := (nw_session nw)(nw_created nw \<mapsto> s\<lparr>se_hasService := True\<rparr>),
     nw_accept := (nw_accept nw)(e \<mapsto> nw_created nw), nw_posted := insert e (nw_posted nw)\<rparr>)"
  unfolding accept_posted_def using assms
  by (intro exI [of _ "nw_created nw"] exI [of _ "\<lambda>_. s"]) (auto simp: fun_eq_iff)

lemma accept_posted_later:
  assumes "new_Session (nw_created nw) = Inr s"
    and "accept_posted e (nw\<lparr>nw_created := Suc (nw_created nw), nw_session := (nw_session nw)(nw_created nw \<mapsto> s\<lparr>se_hasService := True\<rparr>),
     nw_accept := (nw_accept nw)(e \<mapsto> nw_created nw)\<rparr>) nw'"
  shows "accept_posted e nw nw'"
proof -
  obtain n ss where n: "Suc (nw_created nw) \<le> n" "\<forall>i. Suc (nw_created nw) \<le> i \<and> i \<le> n \<longrightarrow> new_Session i = Inr (ss i)"
    and nw': "nw' = nw\<lparr>nw_created := Suc n, nw_accept := (nw_accept nw)(e \<mapsto> n), nw_posted := insert e (nw_posted nw),
       nw_session := (\<lambda>i. if Suc (nw_created nw) \<le> i \<and> i \<le> n then Some ((ss i)\<lparr>se_hasService := True\<rparr>)
         else ((nw_session nw)(nw_created nw \<mapsto> s\<lparr>se_hasService := True\<rparr>)) i)\<rparr>"
    using assms(2) unfolding accept_posted_def by (auto cong: if_cong)
  show ?thesis unfolding accept_posted_def
  proof (intro exI [of _ n] exI [of _ "ss(nw_created nw := s)"] conjI)
    show "\<forall>i. nw_created nw \<le> i \<and> i \<le> n \<longrightarrow> new_Session i = Inr ((ss(nw_created nw := s)) i)"
    proof (intro allI impI)
      fix i assume i: "nw_created nw \<le> i \<and> i \<le> n"
      show "new_Session i = Inr ((ss(nw_created nw := s)) i)"
        using n(2) assms(1) i by (cases "i = nw_created nw") auto
    qed
    have "(\<lambda>i. if Suc (nw_created nw) \<le> i \<and> i \<le> n then Some ((ss i)\<lparr>se_hasService := True\<rparr>)
         else ((nw_session nw)(nw_created nw \<mapsto> s\<lparr>se_hasService := True\<rparr>)) i)
      = (\<lambda>i. if nw_created nw \<le> i \<and> i \<le> n then Some (((ss(nw_created nw := s)) i)\<lparr>se_hasService := True\<rparr>) else nw_session nw i)"
      using n(1) by (auto simp: fun_eq_iff)
    then show "nw' = nw\<lparr>nw_created := Suc n, nw_accept := (nw_accept nw)(e \<mapsto> n), nw_posted := insert e (nw_posted nw),
       nw_session := (\<lambda>i. if nw_created nw \<le> i \<and> i \<le> n then Some (((ss(nw_created nw := s)) i)\<lparr>se_hasService := True\<rparr>) else nw_session nw i)\<rparr>"
      using nw' by simp
  qed (use n(1) in simp)
qed

definition accept_result :: "accept_os \<Rightarrow> nat \<Rightarrow> network \<Rightarrow> network result \<Rightarrow> bool" where
  "accept_result ao e nw r \<longleftrightarrow> (\<exists>n\<ge>nw_created nw. accept_ends ao n)
     \<and> ((r = Inl NullPointer \<and> (\<exists>n\<ge>nw_created nw. \<not> ao_register ao n)) \<or> (\<exists>nw'. r = Inr nw' \<and> accept_posted e nw nw'))"

lemma RegisterAccept_result:
  assumes "RegisterAccept ao e nw = Some r"
  shows "accept_result ao e nw r"
  using assms
proof (rule RegisterAccept.raw_induct [rotated])
  fix f ao e nw r
  assume ih: "\<And>ao e nw r. f ao e nw = Some r \<Longrightarrow> accept_result ao e nw r"
    and body: "(case CreateSession ao nw of Inl f \<Rightarrow> Some (Inl f)
      | Inr (session, nw1) \<Rightarrow> (case session of None \<Rightarrow> Some (Inl NullPointer)
           | Some i \<Rightarrow> let nw2 = nw1\<lparr>nw_accept := (nw_accept nw1)(e \<mapsto> i)\<rparr>
               in if ao_acceptEx ao i \<noteq> None \<and> ao_acceptEx ao i \<noteq> Some WSA_IO_PENDING
                  then f ao e nw2 else Some (Inr (nw2\<lparr>nw_posted := insert e (nw_posted nw2)\<rparr>)))) = Some r"
  obtain s where s: "new_Session (nw_created nw) = Inr s"
    and c: "CreateSession ao nw = Inr (if ao_register ao (nw_created nw) then Some (nw_created nw) else None,
          nw\<lparr>nw_created := Suc (nw_created nw), nw_session := (nw_session nw)(nw_created nw \<mapsto> s\<lparr>se_hasService := True\<rparr>)\<rparr>)"
    using CreateSession_ok by blast
  let ?nw2 = "nw\<lparr>nw_created := Suc (nw_created nw), nw_session := (nw_session nw)(nw_created nw \<mapsto> s\<lparr>se_hasService := True\<rparr>),
     nw_accept := (nw_accept nw)(e \<mapsto> nw_created nw)\<rparr>"
  show "accept_result ao e nw r"
  proof (cases "ao_register ao (nw_created nw)")
    case False
    then show ?thesis using body c by (auto simp: accept_result_def accept_ends_def)
  next
    case reg: True
    show ?thesis
    proof (cases "accept_ends ao (nw_created nw)")
      case True
      then show ?thesis using body c reg accept_posted_here [OF s, of e]
        by (auto simp: accept_result_def accept_ends_def Let_def)
    next
      case False
      then have "f ao e ?nw2 = Some r" using body c reg by (auto simp: accept_ends_def Let_def)
      then show ?thesis using ih [of ao e ?nw2 r] accept_posted_later [OF s, of e]
        by (auto simp: accept_result_def intro: Suc_leD)
    qed
  qed
qed

text \<open>RegisterAccept returns exactly when some later session ends the recursion.\<close>

lemma RegisterAccept_returns_iff:
  "(\<exists>r. RegisterAccept ao e nw = Some r) \<longleftrightarrow> (\<exists>n\<ge>nw_created nw. accept_ends ao n)"
  using RegisterAccept_returns RegisterAccept_result unfolding accept_result_def by blast

lemma RegisterAccept_at_once:
  assumes "ao_register ao (nw_created nw)" and "ao_acceptEx ao (nw_created nw) = None"
  shows "\<exists>nw'. RegisterAccept ao e nw = Some (Inr nw') \<and> nw_created nw' = Suc (nw_created nw)"
  using CreateSession_ok [of nw ao] assms by (subst RegisterAccept.simps) (auto simp: Let_def)

section \<open>The sessions of the service\<close>

text \<open>Sessions between OnConnected and OnDisconnected.\<close>

definition live :: "network \<Rightarrow> nat set" where
  "live nw = {i. Cb_OnConnected \<in> set (nw_trace nw i) \<and> Cb_OnDisconnected \<notin> set (nw_trace nw i)}"

definition sessions_inv :: "system \<Rightarrow> network \<Rightarrow> bool" where
  "sessions_inv sys nw \<longleftrightarrow>
     (\<forall>i s. nw_session nw i = Some s \<longrightarrow> i < nw_created nw \<and> se_self s = i \<and> se_hasService s \<and> session_inv sys (session_world i s nw))
     \<and> (\<forall>i. nw_session nw i = None \<longrightarrow> nw_trace nw i = [])
     \<and> (\<forall>i. Cb_OnDisconnected \<in> set (nw_trace nw i) \<longrightarrow> Cb_OnConnected \<in> set (nw_trace nw i))"

definition counts_inv :: "network \<Rightarrow> bool" where
  "counts_inv nw \<longleftrightarrow> sv_sessions (nw_service nw) = live nw \<and> sv_sessionCount (nw_service nw) = int (card (live nw))
     \<and> mo_connectCount (nw_monitor nw) = int (card (live nw)) \<and> nw_created nw < 2 ^ 31"

definition slots_inv :: "network \<Rightarrow> bool" where
  "slots_inv nw \<longleftrightarrow>
     (\<forall>e\<in>nw_posted nw. \<exists>i. nw_accept nw e = Some i \<and> nw_session nw i \<noteq> None \<and> Cb_OnConnected \<notin> set (nw_trace nw i))
     \<and> (\<forall>e\<in>nw_posted nw. \<forall>e'\<in>nw_posted nw. nw_accept nw e = nw_accept nw e' \<longrightarrow> e = e')"

definition net_inv :: "system \<Rightarrow> network \<Rightarrow> bool" where
  "net_inv sys nw \<longleftrightarrow> sessions_inv sys nw \<and> counts_inv nw \<and> slots_inv nw"

lemma live_bounded: "sessions_inv sys nw \<Longrightarrow> live nw \<subseteq> {..<nw_created nw}"
proof
  fix i assume inv: "sessions_inv sys nw" and i: "i \<in> live nw"
  then have "nw_session nw i \<noteq> None" unfolding sessions_inv_def live_def by auto
  then show "i \<in> {..<nw_created nw}" using inv unfolding sessions_inv_def by auto
qed

lemma live_card: "sessions_inv sys nw \<Longrightarrow> finite (live nw) \<and> card (live nw) \<le> nw_created nw"
  using live_bounded [of sys nw] card_mono [of "{..<nw_created nw}" "live nw"] finite_subset by auto

text \<open>A session's invariant depends on the service only through its own membership.\<close>

lemma session_inv_shared:
  assumes "session_inv sys (session_world i s nw)" and "nw_trace nw' i = nw_trace nw i" and "se_self s = i"
    and "i \<in> sv_sessions (nw_service nw) \<longrightarrow> i \<in> sv_sessions (nw_service nw')"
  shows "session_inv sys (session_world i s nw')"
  using assms by (auto simp: session_inv_defs session_world_def)

lemma new_session_inv:
  assumes "new_Session i = Inr s" and "nw_trace nw i = []"
  shows "session_inv sys (session_world i (s\<lparr>se_hasService := True\<rparr>) nw)" and "se_self s = i"
proof -
  have s: "recv_inv s" "flags_inv s" "\<not> se_connected s" "\<not> se_disconnectOwner s" "\<not> se_sendRegistered s"
    using new_Session_ok [of i] assms(1) by auto
  then show "session_inv sys (session_world i (s\<lparr>se_hasService := True\<rparr>) nw)"
    using assms(2) by (simp add: session_inv_defs session_world_def)
  show "se_self s = i" using assms(1) by (auto simp: new_Session_def bind_result_Inr_iff)
qed

lemma accept_posted_inv:
  assumes inv: "net_inv sys nw" and acc: "accept_posted e nw nw'" and e: "e \<notin> nw_posted nw" and bnd: "nw_created nw' < 2 ^ 31"
  shows "net_inv sys nw'"
proof -
  obtain n ss where n: "nw_created nw \<le> n" "\<And>i. nw_created nw \<le> i \<Longrightarrow> i \<le> n \<Longrightarrow> new_Session i = Inr (ss i)"
    and nw': "nw' = nw\<lparr>nw_created := Suc n, nw_accept := (nw_accept nw)(e \<mapsto> n), nw_posted := insert e (nw_posted nw),
       nw_session := (\<lambda>i. if nw_created nw \<le> i \<and> i \<le> n then Some ((ss i)\<lparr>se_hasService := True\<rparr>) else nw_session nw i)\<rparr>"
    using acc unfolding accept_posted_def by blast
  have S: "sessions_inv sys nw" using inv by (simp add: net_inv_def)
  have none: "nw_session nw i = None" if "nw_created nw \<le> i" for i
    using S that unfolding sessions_inv_def by (cases "nw_session nw i") fastforce+
  then have empty: "nw_trace nw i = []" if "nw_created nw \<le> i" for i using S that unfolding sessions_inv_def by blast
  have tr: "nw_trace nw' = nw_trace nw" "nw_service nw' = nw_service nw" "nw_monitor nw' = nw_monitor nw" by (simp_all add: nw')
  then have lv: "live nw' = live nw" by (simp add: live_def)
  have "sessions_inv sys nw'" unfolding sessions_inv_def
  proof (intro conjI allI impI)
    fix i s assume s: "nw_session nw' i = Some s"
    have "i < nw_created nw' \<and> se_self s = i \<and> se_hasService s \<and> session_inv sys (session_world i s nw')"
    proof (cases "nw_created nw \<le> i \<and> i \<le> n")
      case True
      then have "s = (ss i)\<lparr>se_hasService := True\<rparr>" using s by (simp add: nw')
      then show ?thesis using new_session_inv [OF n(2) [of i], of nw'] True empty [of i] tr by (simp add: nw')
    next
      case False
      then have o: "nw_session nw i = Some s" using s by (simp add: nw' split: if_splits)
      then have "i < nw_created nw" "se_self s = i" "se_hasService s" "session_inv sys (session_world i s nw)"
        using S unfolding sessions_inv_def by blast+
      then show ?thesis using session_inv_shared [of sys i s nw nw'] tr n(1) by (simp add: nw')
    qed
    then show "i < nw_created nw'" "se_self s = i" "se_hasService s" "session_inv sys (session_world i s nw')" by blast+
  next
    fix i assume "nw_session nw' i = None"
    then have "nw_session nw i = None" by (simp add: nw' split: if_splits)
    then show "nw_trace nw' i = []" using S tr unfolding sessions_inv_def by simp
  qed (use S tr in \<open>auto simp: sessions_inv_def\<close>)
  moreover have "counts_inv nw'" using inv bnd lv tr by (simp add: net_inv_def counts_inv_def)
  moreover have "slots_inv nw'" unfolding slots_inv_def
  proof (intro conjI ballI impI)
    fix d assume d: "d \<in> nw_posted nw'"
    show "\<exists>i. nw_accept nw' d = Some i \<and> nw_session nw' i \<noteq> None \<and> Cb_OnConnected \<notin> set (nw_trace nw' i)"
    proof (cases "d = e")
      case True
      then show ?thesis using empty [OF n(1)] n(1) by (simp add: nw')
    next
      case False
      then have "d \<in> nw_posted nw" using d by (simp add: nw')
      then obtain i where "nw_accept nw d = Some i" "nw_session nw i \<noteq> None" "Cb_OnConnected \<notin> set (nw_trace nw i)"
        using inv unfolding net_inv_def slots_inv_def by blast
      then show ?thesis using False by (intro exI [of _ i]) (simp add: nw')
    qed
  next
    fix d d' assume d: "d \<in> nw_posted nw'" "d' \<in> nw_posted nw'" "nw_accept nw' d = nw_accept nw' d'"
    have old: "nw_accept nw c \<noteq> Some n" if "c \<in> nw_posted nw" for c
      using inv none [OF n(1)] that unfolding net_inv_def slots_inv_def by auto
    show "d = d'" using d inv e old [of d] old [of d'] by (auto simp: nw' net_inv_def slots_inv_def split: if_splits)
  qed
  ultimately show ?thesis by (simp add: net_inv_def)
qed

text \<open>An event on one session leaves the others as they were.\<close>

lemma store_world_inv:
  assumes inv: "net_inv sys nw" and s: "nw_session nw i = Some s" and w': "session_inv sys w'"
    and rio: "\<not> wd_useRIO w'" and self: "se_self (wd_self w') = i" "se_hasService (wd_self w')"
    and order: "Cb_OnDisconnected \<in> set (wd_trace w') \<longrightarrow> Cb_OnConnected \<in> set (wd_trace w')"
    and members: "sv_sessions (wd_service w') = live (store_world i w' nw)"
    and others: "\<And>j. j \<noteq> i \<Longrightarrow> j \<in> sv_sessions (nw_service nw) \<Longrightarrow> j \<in> sv_sessions (wd_service w')"
  shows "sessions_inv sys (store_world i w' nw)"
proof -
  let ?nw = "store_world i w' nw"
  have S: "sessions_inv sys nw" using inv by (simp add: net_inv_def)
  show ?thesis unfolding sessions_inv_def
  proof (intro conjI allI impI)
    fix j t assume t: "nw_session ?nw j = Some t"
    have "j < nw_created ?nw \<and> se_self t = j \<and> se_hasService t \<and> session_inv sys (session_world j t ?nw)"
    proof (cases "j = i")
      case True
      then have tw: "t = wd_self w'" using t by (simp add: store_world_def)
      have "session_world i (wd_self w') ?nw = w'" using rio by (simp add: session_world_def store_world_def)
      then show ?thesis using S s w' self tw True unfolding sessions_inv_def by (auto simp: store_world_def)
    next
      case False
      then have o: "nw_session nw j = Some t" "nw_trace ?nw j = nw_trace nw j" using t by (simp_all add: store_world_def)
      then have "j < nw_created nw" "se_self t = j" "se_hasService t" "session_inv sys (session_world j t nw)"
        using S unfolding sessions_inv_def by blast+
      then show ?thesis using session_inv_shared [of sys j t nw ?nw] others [OF False] o by (simp add: store_world_def)
    qed
    then show "j < nw_created ?nw" "se_self t = j" "se_hasService t" "session_inv sys (session_world j t ?nw)" by blast+
  next
    fix j assume "nw_session ?nw j = None"
    then have "j \<noteq> i" "nw_session nw j = None" by (simp_all add: store_world_def split: if_splits)
    then show "nw_trace ?nw j = []" using S unfolding sessions_inv_def by (simp add: store_world_def)
  next
    fix j assume "Cb_OnDisconnected \<in> set (nw_trace ?nw j)"
    then show "Cb_OnConnected \<in> set (nw_trace ?nw j)"
      using order S unfolding sessions_inv_def by (cases "j = i") (auto simp: store_world_def)
  qed
qed

lemma live_store:
  "live (store_world i w' nw) = (if Cb_OnConnected \<in> set (wd_trace w') \<and> Cb_OnDisconnected \<notin> set (wd_trace w')
     then insert i (live nw) else live nw - {i})"
  by (auto simp: live_def store_world_def split: if_splits)

lemma slots_store:
  assumes "slots_inv nw" and "Cb_OnConnected \<in> set (wd_trace w') \<Longrightarrow> Cb_OnConnected \<in> set (nw_trace nw i)"
  shows "slots_inv (store_world i w' nw)"
proof -
  have tr: "Cb_OnConnected \<notin> set (nw_trace nw j) \<longrightarrow> Cb_OnConnected \<notin> set (nw_trace (store_world i w' nw) j)" for j
    using assms(2) by (auto simp: store_world_def)
  have ss: "nw_session nw j \<noteq> None \<longrightarrow> nw_session (store_world i w' nw) j \<noteq> None" for j by (simp add: store_world_def)
  have same: "nw_posted (store_world i w' nw) = nw_posted nw" "nw_accept (store_world i w' nw) = nw_accept nw"
    by (simp_all add: store_world_def)
  show ?thesis using assms(1) tr ss unfolding slots_inv_def same by blast
qed

lemma session_event_inv:
  assumes inv: "net_inv sys nw" and s: "nw_session nw i = Some s" and ev: "ev \<noteq> EvtConnected"
    and en: "enabled ev (session_world i s nw)" and h: "on_session sys ev i nw = Some (Inr nw')"
  shows "net_inv sys nw'"
proof -
  let ?w = "session_world i s nw"
  obtain w' where w': "handle sys ev ?w = Some (Inr w')" "nw' = store_world i w' nw"
    using h s by (auto simp: on_session_def bind_result_Inr_iff)
  have old: "se_self s = i" "se_hasService s" "session_inv sys ?w" "i < nw_created nw"
    using inv s unfolding net_inv_def sessions_inv_def by blast+
  have rio: "\<not> wd_useRIO ?w" by (simp add: session_world_def)
  have good: "session_inv sys w'" using handle_ok [OF old(3) en] w'(1) by (auto simp: good_step_def handler_fault_def Let_def)
  have C: "sv_sessions (nw_service nw) = live nw" "sv_sessionCount (nw_service nw) = int (card (live nw))"
    "mo_connectCount (nw_monitor nw) = int (card (live nw))" "nw_created nw < 2 ^ 31"
    using inv by (simp_all add: net_inv_def counts_inv_def)
  have ord: "Cb_OnDisconnected \<in> set (nw_trace nw i) \<longrightarrow> Cb_OnConnected \<in> set (nw_trace nw i)"
    using inv by (auto simp: net_inv_def sessions_inv_def)
  have slots: "slots_inv nw" using inv by (simp add: net_inv_def)
  show ?thesis
  proof (cases "ev = EvtDisconnected")
    case False
    have k: "keeps ?w w'" using handle_shared [OF w'(1) rio ev False] .
    then have same: "wd_service w' = nw_service nw" "mo_connectCount (wd_monitor w') = mo_connectCount (nw_monitor nw)"
      "Cb_OnConnected \<in> set (wd_trace w') \<longleftrightarrow> Cb_OnConnected \<in> set (nw_trace nw i)"
      "Cb_OnDisconnected \<in> set (wd_trace w') \<longleftrightarrow> Cb_OnDisconnected \<in> set (nw_trace nw i)"
      "se_self (wd_self w') = i" "se_hasService (wd_self w')" "\<not> wd_useRIO w'"
      using old keeps_calls [OF k] by (auto simp: keeps_def session_world_def)
    have lv: "live (store_world i w' nw) = live nw" using same unfolding live_store by (auto simp: live_def)
    have "sessions_inv sys nw'" unfolding w'(2)
      by (rule store_world_inv [OF inv s good same(7,5,6)]) (use same ord lv C in auto)
    moreover have "counts_inv nw'" using same lv C unfolding w'(2) counts_inv_def by (simp add: store_world_def)
    moreover have "slots_inv nw'" unfolding w'(2) using slots_store [OF slots] same by blast
    ultimately show ?thesis by (simp add: net_inv_def)
  next
    case True
    note d = disconnect_shared [OF w'(1) [unfolded True]]
    have rel: "ReleaseSession i (nw_service nw) = Inr (wd_service w')" "wd_monitor w' = DecDisconnectCount (nw_monitor nw)"
      "wd_trace w' = Cb_OnDisconnected # nw_trace nw i" "se_self (wd_self w') = i" "se_hasService (wd_self w')" "\<not> wd_useRIO w'"
      using d old by (simp_all add: session_world_def)
    have mem: "i \<in> live nw" and sv: "sv_sessions (wd_service w') = live nw - {i}"
      "sv_sessionCount (wd_service w') = to_int32 (int (card (live nw)) - 1)"
    proof -
      have "i \<in> sv_sessions (nw_service nw)" and "wd_service w' = (nw_service nw)\<lparr>sv_sessions := sv_sessions (nw_service nw) - {i},
          sv_sessionCount := to_int32 (sv_sessionCount (nw_service nw) - 1)\<rparr>"
        using rel(1) by (auto simp: ReleaseSession_def ASSERT_CRASH_Inr_iff)
      then show "i \<in> live nw" "sv_sessions (wd_service w') = live nw - {i}"
        "sv_sessionCount (wd_service w') = to_int32 (int (card (live nw)) - 1)" by (simp_all add: C)
    qed
    have lv: "live (store_world i w' nw) = live nw - {i}" unfolding live_store rel(3) by simp
    have fin: "finite (live nw)" "card (live nw) \<le> nw_created nw" using live_card inv by (auto simp: net_inv_def)
    have card: "int (card (live nw - {i})) = int (card (live nw)) - 1" "0 < card (live nw)"
      using card_Suc_Diff1 [OF fin(1) mem] by linarith+
    have "sessions_inv sys nw'" unfolding w'(2)
      by (rule store_world_inv [OF inv s good rel(6,4,5)]) (use rel(3) ord lv sv C mem in \<open>auto simp: live_def\<close>)
    moreover have "counts_inv nw'"
      using sv lv C card fin rel(2) unfolding w'(2) counts_inv_def
      by (simp add: store_world_def DecDisconnectCount_def to_int32_id)
    moreover have "slots_inv nw'" unfolding w'(2) by (rule slots_store [OF slots]) (use rel(3) in auto)
    ultimately show ?thesis by (simp add: net_inv_def)
  qed
qed

lemma session_world_monitor: "session_inv sys (session_world i s (nw\<lparr>nw_monitor := m\<rparr>)) = session_inv sys (session_world i s nw)"
  by (simp add: session_inv_defs session_world_def)

lemma session_connect_inv:
  assumes inv: "net_inv sys nw" and i: "nw_accept nw e = Some i" "nw_session nw i = Some s" "Cb_OnConnected \<notin> set (nw_trace nw i)"
    and fresh: "\<And>d. d \<in> nw_posted nw \<Longrightarrow> nw_accept nw d \<noteq> Some i"
  shows "\<exists>nw1. on_session sys EvtConnected i nw = Some (Inr nw1) \<and> nw_posted nw1 = nw_posted nw \<and> nw_created nw1 = nw_created nw
    \<and> net_inv sys (nw1\<lparr>nw_monitor := IncAcceptCount (nw_monitor nw1)\<rparr>)"
proof -
  let ?w = "session_world i s nw"
  have old: "se_self s = i" "se_hasService s" "session_inv sys ?w" "i < nw_created nw"
    using inv i(2) unfolding net_inv_def sessions_inv_def by blast+
  have rio: "\<not> wd_useRIO ?w" by (simp add: session_world_def)
  have en: "enabled EvtConnected ?w" using i(3) old(2) by (simp add: enabled_def session_world_def)
  obtain w' where w': "handle sys EvtConnected ?w = Some (Inr w')" "session_inv sys w'"
    using ProcessConnect_ok [OF old(3) en] by (auto simp: handle_def Dispatch_iocp_def)
  note c = connect_shared [OF w'(1) rio]
  define nw1 where "nw1 = store_world i w' nw"
  let ?nw2 = "nw1\<lparr>nw_monitor := IncAcceptCount (nw_monitor nw1)\<rparr>"
  have on: "on_session sys EvtConnected i nw = Some (Inr nw1)" using i(2) w'(1) by (simp add: on_session_def nw1_def)
  have C: "sv_sessions (nw_service nw) = live nw" "sv_sessionCount (nw_service nw) = int (card (live nw))"
    "mo_connectCount (nw_monitor nw) = int (card (live nw))" "nw_created nw < 2 ^ 31"
    using inv by (simp_all add: net_inv_def counts_inv_def)
  have nodis: "Cb_OnDisconnected \<notin> set (nw_trace nw i)"
    using inv i(3) unfolding net_inv_def sessions_inv_def by blast
  have same: "wd_service w' = AddSession i (nw_service nw)" "wd_monitor w' = nw_monitor nw" "Cb_OnConnected \<in> set (wd_trace w')"
    "Cb_OnDisconnected \<notin> set (wd_trace w')" "se_self (wd_self w') = i" "se_hasService (wd_self w')" "\<not> wd_useRIO w'"
    using c old nodis by (simp_all add: session_world_def)
  have notin: "i \<notin> live nw" using i(3) by (simp add: live_def)
  have lv: "live nw1 = insert i (live nw)" unfolding nw1_def live_store using same by simp
  have fin: "finite (live nw)" using live_card inv by (auto simp: net_inv_def)
  have "live nw1 \<subseteq> {..<nw_created nw}" using lv live_bounded [of sys nw] inv old(4) by (auto simp: net_inv_def)
  then have "card (live nw1) \<le> nw_created nw" using card_mono [of "{..<nw_created nw}"] by auto
  then have small: "card (live nw) + 1 < 2147483648" "card (live nw1) = Suc (card (live nw))" using lv fin notin C(4) by auto
  have "sessions_inv sys nw1" unfolding nw1_def
    by (rule store_world_inv [OF inv i(2) w'(2) same(7,5,6)])
      (use same(1,3) lv C(1) in \<open>auto simp: AddSession_def nw1_def\<close>)
  then have "sessions_inv sys ?nw2" unfolding sessions_inv_def session_world_monitor by simp
  moreover have "live ?nw2 = live nw1" by (simp add: live_def)
  then have "counts_inv ?nw2"
    using small C same(1,2) lv by (simp add: counts_inv_def) (simp add: nw1_def store_world_def AddSession_def IncAcceptCount_def to_int32_id)
  moreover have "slots_inv ?nw2"
  proof -
    have "slots_inv nw" using inv by (simp add: net_inv_def)
    moreover have "nw_posted ?nw2 = nw_posted nw" "nw_accept ?nw2 = nw_accept nw"
      "j \<noteq> i \<Longrightarrow> nw_trace ?nw2 j = nw_trace nw j" "nw_session nw j \<noteq> None \<Longrightarrow> nw_session ?nw2 j \<noteq> None" for j
      by (simp_all add: nw1_def store_world_def)
    ultimately show ?thesis using fresh unfolding slots_inv_def by metis
  qed
  ultimately show ?thesis using on by (simp add: net_inv_def nw1_def store_world_def)
qed

lemma unpost_inv: "net_inv sys nw \<Longrightarrow> net_inv sys (nw\<lparr>nw_posted := nw_posted nw - {e}\<rparr>)"
  by (simp add: net_inv_def sessions_inv_def counts_inv_def slots_inv_def session_world_def live_def)

lemma RegisterAccept_inv:
  assumes inv: "net_inv sys nw" and e: "e \<notin> nw_posted nw" and r: "RegisterAccept ao e nw = Some (Inr nw')"
    and bnd: "nw_created nw' < 2 ^ 31"
  shows "net_inv sys nw'" and "nw_posted nw' = insert e (nw_posted nw)"
proof -
  have acc: "accept_posted e nw nw'" using RegisterAccept_result [OF r] by (auto simp: accept_result_def)
  show "net_inv sys nw'" by (rule accept_posted_inv [OF inv acc e bnd])
  show "nw_posted nw' = insert e (nw_posted nw)" using acc by (auto simp: accept_posted_def)
qed

text \<open>An accept that completes is posted again, whatever happened to its session.\<close>

theorem ProcessAccept_inv:
  assumes inv: "net_inv sys nw" and e: "e \<in> nw_posted nw" and r: "ProcessAccept ao sys e nw = Some (Inr nw')"
    and bnd: "nw_created nw' < 2 ^ 31"
  shows "net_inv sys nw' \<and> nw_posted nw' = nw_posted nw"
proof -
  let ?nw = "nw\<lparr>nw_posted := nw_posted nw - {e}\<rparr>"
  have inv0: "net_inv sys ?nw" using unpost_inv [OF inv] .
  have posted: "insert e (nw_posted ?nw) = nw_posted nw" using e by auto
  obtain i where i: "nw_accept nw e = Some i" "nw_session nw i \<noteq> None" "Cb_OnConnected \<notin> set (nw_trace nw i)"
    using inv e unfolding net_inv_def slots_inv_def by blast
  then obtain s where s: "nw_session nw i = Some s" by blast
  have fresh: "nw_accept ?nw d \<noteq> Some i" if "d \<in> nw_posted ?nw" for d
    using inv e that i(1) unfolding net_inv_def slots_inv_def by auto
  show ?thesis
  proof (cases "ao_update ao i \<and> ao_peer ao i")
    case False
    then have again: "RegisterAccept ao e ?nw = Some (Inr nw')" using r i(1) by (auto simp: ProcessAccept_def Let_def split: if_splits)
    have "e \<notin> nw_posted ?nw" by simp
    from RegisterAccept_inv [OF inv0 this again bnd] show ?thesis using posted by simp
  next
    case True
    obtain nw1 where nw1: "on_session sys EvtConnected i ?nw = Some (Inr nw1)" "nw_posted nw1 = nw_posted ?nw"
      "net_inv sys (nw1\<lparr>nw_monitor := IncAcceptCount (nw_monitor nw1)\<rparr>)"
      using session_connect_inv [OF inv0, of e i s] i s fresh by auto
    then have again: "RegisterAccept ao e (nw1\<lparr>nw_monitor := IncAcceptCount (nw_monitor nw1)\<rparr>) = Some (Inr nw')"
      using r i(1) True by (simp add: ProcessAccept_def Let_def)
    have "e \<notin> nw_posted (nw1\<lparr>nw_monitor := IncAcceptCount (nw_monitor nw1)\<rparr>)" using nw1(2) by simp
    from RegisterAccept_inv [OF nw1(3) this again bnd] show ?thesis using posted nw1(2) by simp
  qed
qed

section \<open>The life of the server\<close>

inductive net_step :: "accept_os \<Rightarrow> system \<Rightarrow> network \<Rightarrow> network \<Rightarrow> bool" for ao sys where
  net_accept: "e \<in> nw_posted nw \<Longrightarrow> ProcessAccept ao sys e nw = Some (Inr nw') \<Longrightarrow> nw_created nw' < 2 ^ 31 \<Longrightarrow> net_step ao sys nw nw'"
| net_event: "ev \<noteq> EvtConnected \<Longrightarrow> nw_session nw i = Some s \<Longrightarrow> enabled ev (session_world i s nw)
    \<Longrightarrow> on_session sys ev i nw = Some (Inr nw') \<Longrightarrow> net_step ao sys nw nw'"

inductive_simps on_session_step: "net_step ao sys nw nw'"

lemma new_network_inv:
  assumes "sv = new_Service ty f n"
  shows "net_inv sys (new_network sv)"
  using assms by (simp add: net_inv_def sessions_inv_def counts_inv_def slots_inv_def new_network_def live_def new_Service_def new_monitor_def)

lemma start_loop_inv:
  "net_inv sys nw \<Longrightarrow> distinct es \<Longrightarrow> set es \<inter> nw_posted nw = {} \<Longrightarrow> start_loop ao es nw = Some (Inr nw') \<Longrightarrow> nw_created nw' < 2 ^ 31
   \<Longrightarrow> net_inv sys nw' \<and> nw_posted nw' = set es \<union> nw_posted nw"
proof (induction es arbitrary: nw)
  case (Cons e es)
  obtain nw1 where nw1: "RegisterAccept ao e nw = Some (Inr nw1)" "start_loop ao es nw1 = Some (Inr nw')"
    using Cons.prems(4) by (auto split: option.splits sum.splits)
  have mono: "nw_created m \<le> nw_created m'" if "start_loop ao xs m = Some (Inr m')" for xs m m'
    using that
  proof (induction xs arbitrary: m)
    case (Cons x xs)
    then obtain m1 where m1: "RegisterAccept ao x m = Some (Inr m1)" "start_loop ao xs m1 = Some (Inr m')"
      by (auto split: option.splits sum.splits)
    then have "nw_created m \<le> nw_created m1"
      using RegisterAccept_result [OF m1(1)] by (auto simp: accept_result_def accept_posted_def)
    then show ?case using Cons.IH [OF m1(2)] by simp
  qed simp
  have "nw_created nw1 < 2 ^ 31" using mono [OF nw1(2)] Cons.prems(5) by simp
  then have "net_inv sys nw1" "nw_posted nw1 = insert e (nw_posted nw)"
    using RegisterAccept_inv [OF Cons.prems(1) _ nw1(1)] Cons.prems(3) by auto
  then show ?case using Cons.IH [OF _ _ _ nw1(2)] Cons.prems(2,3,5) by auto
qed simp

lemma StartAccept_inv:
  assumes "StartAccept ao True (new_network (new_Service Server f n)) = Some (Inr (True, nw))" and "nw_created nw < 2 ^ 31"
  shows "net_inv sys nw \<and> nw_posted nw = {..<nat n}"
proof -
  let ?nw0 = "new_network (new_Service Server f n)"
  have "start_loop ao [0..<nat (sv_maxSessionCount (nw_service ?nw0))] ?nw0 = Some (Inr nw)"
    using assms(1) by (auto simp: StartAccept_def bind_result_Inr_iff split: if_splits)
  moreover have "sv_maxSessionCount (nw_service ?nw0) = n" "nw_posted ?nw0 = {}" by (simp_all add: new_network_def new_Service_def)
  ultimately show ?thesis
    using start_loop_inv [OF new_network_inv [OF refl, of sys Server f n] _ _ _ assms(2), of "[0..<nat n]" ao]
    by (simp add: atLeast0LessThan)
qed

theorem net_reachable:
  assumes "reaches (net_step ao sys) nw0 nw" and "net_inv sys nw0"
  shows "net_inv sys nw \<and> nw_posted nw = nw_posted nw0"
  using assms(1)
proof (rule reaches_invariant)
  show "net_inv sys nw0 \<and> nw_posted nw0 = nw_posted nw0" using assms(2) by simp
next
  fix x y assume x: "net_inv sys x \<and> nw_posted x = nw_posted nw0" and st: "net_step ao sys x y"
  from st show "net_inv sys y \<and> nw_posted y = nw_posted nw0"
  proof cases
    case (net_accept e)
    then show ?thesis using ProcessAccept_inv [of sys x e ao y] x by simp
  next
    case (net_event ev i s)
    have "nw_posted y = nw_posted x"
      using net_event(2,4) by (auto simp: on_session_def bind_result_Inr_iff store_world_def)
    then show ?thesis using session_event_inv [OF _ net_event(2,1,3,4)] x by simp
  qed
qed

end
