(* ===== verification/Dispatch.thy ===== *)
theory Dispatch imports Network begin

text \<open>
  ServerCore/IOCP.cpp (IocpCore::Dispatch), Service::Dispatch with the results of registered I/O,
  ClientService::Start, ServerService::CreateRIOCQ and the byte order of NetAddress. The objects
  completions are handed to are reached through a virtual Dispatch: it is a parameter here.
\<close>

section \<open>Results of registered I/O\<close>

definition RIO_DISPATCH_RESULT_COUNT :: nat where "RIO_DISPATCH_RESULT_COUNT = 256"
definition RIO_CORRUPT_CQ :: uint32 where "RIO_CORRUPT_CQ = 0xFFFFFFFF"
definition RIO_IOCP_COMPLETION :: int where "RIO_IOCP_COMPLETION = 1"
definition WAIT_TIMEOUT :: int32 where "WAIT_TIMEOUT = 258"

text \<open>RIORESULT: the event the request was made with, its owner, and the bytes moved.\<close>

record rio_result =
  rr_owner :: nat
  rr_eventType :: EventType
  rr_BytesTransferred :: uint32

record rio_tally =
  rt_recvCount :: int32
  rt_sendCount :: int32
  rt_recvSize :: int64
  rt_sendSize :: int64

definition new_tally :: rio_tally where
  "new_tally = \<lparr>rt_recvCount = 0, rt_sendCount = 0, rt_recvSize = 0, rt_sendSize = 0\<rparr>"

definition tally_one :: "rio_result \<Rightarrow> rio_tally \<Rightarrow> rio_tally" where
  "tally_one r t =
     (case rr_eventType r of
        EvRecv \<Rightarrow> t\<lparr>rt_recvCount := to_int32 (rt_recvCount t + 1), rt_recvSize := to_int64 (rt_recvSize t + uint (rr_BytesTransferred r))\<rparr>
      | EvSend \<Rightarrow> t\<lparr>rt_sendCount := to_int32 (rt_sendCount t + 1), rt_sendSize := to_int64 (rt_sendSize t + uint (rr_BytesTransferred r))\<rparr>
      | _ \<Rightarrow> t)"

text \<open>The handler gets BytesTransferred as an int32.\<close>

primrec rio_loop :: "(nat \<Rightarrow> EventType \<Rightarrow> int32 \<Rightarrow> 'w \<Rightarrow> 'w result option) \<Rightarrow> rio_result list \<Rightarrow> rio_tally \<Rightarrow> 'w \<Rightarrow> (rio_tally \<times> 'w) result option" where
  "rio_loop handler [] t w = Some (Inr (t, w))"
| "rio_loop handler (r # rs) t w =
     (case handler (rr_owner r) (rr_eventType r) (to_int32 (uint (rr_BytesTransferred r))) w of
        None \<Rightarrow> None
      | Some (Inl f) \<Rightarrow> Some (Inl f)
      | Some (Inr w') \<Rightarrow> rio_loop handler rs (tally_one r t) w')"

text \<open>\<open>results\<close> is what RIODequeueCompletion filled in; the count it returned is separate, because
  RIO_CORRUPT_CQ is a count too.\<close>

definition Service_Dispatch :: "(nat \<Rightarrow> EventType \<Rightarrow> int32 \<Rightarrow> 'w \<Rightarrow> 'w result option) \<Rightarrow> bool \<Rightarrow> uint32 \<Rightarrow> rio_result list
    \<Rightarrow> monitor \<Rightarrow> 'w \<Rightarrow> (monitor \<times> 'w) result option" where
  "Service_Dispatch handler hasEvent numResult results m w =
     (if \<not> hasEvent then Some (Inr (m, w))
      else if numResult = 0 \<or> numResult = RIO_CORRUPT_CQ then Some (Inr (m, w))
      else if length results < unat numResult then Some (Inl OutOfBounds)
      else map_option (\<lambda>r. bind_result r (\<lambda>(t, w').
             Inr (AddSendCount (rt_sendCount t) (to_int32 (rt_sendSize t))
                    (AddRecvCount (rt_recvCount t) (to_int32 (rt_recvSize t)) m), w')))
             (rio_loop handler (take (unat numResult) results) new_tally w))"

definition kind_count :: "EventType \<Rightarrow> rio_result list \<Rightarrow> int" where
  "kind_count ty rs = int (length (filter (\<lambda>r. rr_eventType r = ty) rs))"

definition kind_bytes :: "EventType \<Rightarrow> rio_result list \<Rightarrow> int" where
  "kind_bytes ty rs = sum_list (map (\<lambda>r. uint (rr_BytesTransferred r)) (filter (\<lambda>r. rr_eventType r = ty) rs))"

lemma kind_simps [simp]:
  "kind_count ty [] = 0" "kind_bytes ty [] = 0"
  "kind_count ty (r # rs) = (if rr_eventType r = ty then 1 else 0) + kind_count ty rs"
  "kind_bytes ty (r # rs) = (if rr_eventType r = ty then uint (rr_BytesTransferred r) else 0) + kind_bytes ty rs"
  by (simp_all add: kind_count_def kind_bytes_def)

lemma uint_32_bound: "uint (x :: uint32) \<le> 4294967295"
  using unsigned_less [of x, where ?'a = int] by simp

lemma kind_bytes_bound: "0 \<le> kind_bytes ty rs \<and> kind_bytes ty rs \<le> 4294967295 * int (length rs)"
proof (induction rs)
  case (Cons r rs)
  have "uint (rr_BytesTransferred r) \<le> 4294967295" by (rule uint_32_bound)
  then show ?case using Cons by auto
qed simp

lemma kind_count_bound: "0 \<le> kind_count ty rs \<and> kind_count ty rs \<le> int (length rs)"
  by (simp add: kind_count_def)

text \<open>A batch of at most 256 results is counted without wrapping.\<close>

lemma rio_loop_tally:
  assumes "rio_loop handler rs t w = Some (Inr (t', w'))"
    and "0 \<le> rt_recvCount t" "0 \<le> rt_sendCount t" "0 \<le> rt_recvSize t" "0 \<le> rt_sendSize t"
    and "rt_recvCount t + int (length rs) < 2147483648" "rt_sendCount t + int (length rs) < 2147483648"
    and "rt_recvSize t + 4294967295 * int (length rs) < 9223372036854775808" "rt_sendSize t + 4294967295 * int (length rs) < 9223372036854775808"
  shows "t' = \<lparr>rt_recvCount = rt_recvCount t + kind_count EvRecv rs, rt_sendCount = rt_sendCount t + kind_count EvSend rs,
    rt_recvSize = rt_recvSize t + kind_bytes EvRecv rs, rt_sendSize = rt_sendSize t + kind_bytes EvSend rs\<rparr>"
  using assms
proof (induction rs arbitrary: t w)
  case (Cons r rs)
  obtain w1 where w1: "rio_loop handler rs (tally_one r t) w1 = Some (Inr (t', w'))"
    using Cons.prems(1) by (auto split: option.splits sum.splits)
  have u: "0 \<le> uint (rr_BytesTransferred r)" "uint (rr_BytesTransferred r) \<le> 4294967295"
    using uint_32_bound [of "rr_BytesTransferred r"] by auto
  have in64: "to_int64 (a + uint (rr_BytesTransferred r)) = a + uint (rr_BytesTransferred r)"
    if "0 \<le> a" "a + 4294967295 * int (length (r # rs)) < 9223372036854775808" for a
  proof (rule to_int64_id)
    show "- 9223372036854775808 \<le> a + uint (rr_BytesTransferred r)" using that(1) u(1) by linarith
  qed (use that u in auto)
  have one: "tally_one r t = \<lparr>rt_recvCount = rt_recvCount t + kind_count EvRecv [r], rt_sendCount = rt_sendCount t + kind_count EvSend [r],
    rt_recvSize = rt_recvSize t + kind_bytes EvRecv [r], rt_sendSize = rt_sendSize t + kind_bytes EvSend [r]\<rparr>"
    using Cons.prems(2-) u by (cases "rr_eventType r") (simp_all add: tally_one_def to_int32_id in64 [OF Cons.prems(4,8)] in64 [OF Cons.prems(5,9)])
  have "t' = \<lparr>rt_recvCount = rt_recvCount (tally_one r t) + kind_count EvRecv rs, rt_sendCount = rt_sendCount (tally_one r t) + kind_count EvSend rs,
    rt_recvSize = rt_recvSize (tally_one r t) + kind_bytes EvRecv rs, rt_sendSize = rt_sendSize (tally_one r t) + kind_bytes EvSend rs\<rparr>"
    by (rule Cons.IH [OF w1]) (use Cons.prems(2-) u in \<open>auto simp: one\<close>)
  then show ?case by (simp add: one)
qed simp

text \<open>The monitor is told the exact number of receives and sends, and their bytes modulo 2^32.\<close>

theorem Service_Dispatch_counts:
  assumes "Service_Dispatch handler True numResult results m w = Some (Inr (m', w'))"
    and "numResult \<noteq> 0" "numResult \<noteq> RIO_CORRUPT_CQ" "unat numResult = length results" "length results \<le> RIO_DISPATCH_RESULT_COUNT"
  shows "m' = AddSendCount (kind_count EvSend results) (to_int32 (kind_bytes EvSend results))
    (AddRecvCount (kind_count EvRecv results) (to_int32 (kind_bytes EvRecv results)) m)"
proof -
  obtain t where t: "rio_loop handler results new_tally w = Some (Inr (t, w'))"
    "m' = AddSendCount (rt_sendCount t) (to_int32 (rt_sendSize t)) (AddRecvCount (rt_recvCount t) (to_int32 (rt_recvSize t)) m)"
    using assms by (auto simp: Service_Dispatch_def bind_result_Inr_iff split: prod.splits)
  have "t = \<lparr>rt_recvCount = rt_recvCount new_tally + kind_count EvRecv results, rt_sendCount = rt_sendCount new_tally + kind_count EvSend results,
    rt_recvSize = rt_recvSize new_tally + kind_bytes EvRecv results, rt_sendSize = rt_sendSize new_tally + kind_bytes EvSend results\<rparr>"
    by (rule rio_loop_tally [OF t(1)]) (use assms(5) in \<open>simp_all add: new_tally_def RIO_DISPATCH_RESULT_COUNT_def\<close>)
  then show ?thesis using t(2) by (simp add: new_tally_def)
qed

section \<open>The completion port\<close>

text \<open>What GetQueuedCompletionStatus returned; the event is null when nothing was dequeued.\<close>

record queued_status =
  qs_ok :: bool
  qs_error :: int32
  qs_key :: int
  qs_event :: "(nat \<times> EventType) option"
  qs_numOfBytes :: uint32

text \<open>The second component of the outcome: true for the service, false for the owner of the event.\<close>

datatype dispatched = ToNobody | ToService nat | ToOwner nat EventType int32

definition dispatch_event :: "bool \<Rightarrow> queued_status \<Rightarrow> dispatched result" where
  "dispatch_event useRIO q =
     (if useRIO \<and> qs_key q = RIO_IOCP_COMPLETION
      then (case qs_event q of None \<Rightarrow> Inl NullPointer | Some (owner, ty) \<Rightarrow> Inr (ToService owner))
      else (case qs_event q of None \<Rightarrow> Inl NullPointer
            | Some (owner, ty) \<Rightarrow> Inr (ToOwner owner ty (to_int32 (uint (qs_numOfBytes q))))))"

definition IocpCore_Dispatch :: "bool \<Rightarrow> queued_status \<Rightarrow> (bool \<times> dispatched) result" where
  "IocpCore_Dispatch useRIO q =
     (if qs_ok q then bind_result (dispatch_event useRIO q) (\<lambda>d. Inr (True, d))
      else if qs_error q = WAIT_TIMEOUT then Inr (False, ToNobody)
      else bind_result (dispatch_event useRIO q) (\<lambda>d. Inr (True, d)))"

text \<open>A failed completion reaches its owner like a successful one; only a timeout returns false.\<close>

lemma IocpCore_Dispatch_owner:
  assumes "qs_event q = Some (owner, ty)" and "qs_ok q \<or> qs_error q \<noteq> WAIT_TIMEOUT" and "\<not> useRIO \<or> qs_key q \<noteq> RIO_IOCP_COMPLETION"
  shows "IocpCore_Dispatch useRIO q = Inr (True, ToOwner owner ty (to_int32 (uint (qs_numOfBytes q))))"
  using assms by (auto simp: IocpCore_Dispatch_def dispatch_event_def)

lemma IocpCore_Dispatch_null:
  assumes "qs_event q = None" and "\<not> qs_ok q" and "qs_error q \<noteq> WAIT_TIMEOUT"
  shows "IocpCore_Dispatch useRIO q = Inl NullPointer"
  using assms by (simp add: IocpCore_Dispatch_def dispatch_event_def)

section \<open>Starting a client\<close>

definition connect_session :: "system \<Rightarrow> nat \<Rightarrow> network \<Rightarrow> (bool \<times> network) result" where
  "connect_session sys i nw =
     (case nw_session nw i of
        None \<Rightarrow> Inl NullPointer
      | Some s \<Rightarrow> bind_result (Connect sys (session_world i s nw)) (\<lambda>(ok, w). Inr (ok, store_world i w nw)))"

primrec client_loop :: "accept_os \<Rightarrow> system \<Rightarrow> nat \<Rightarrow> network \<Rightarrow> (bool \<times> network) result" where
  "client_loop ao sys 0 nw = Inr (True, nw)"
| "client_loop ao sys (Suc n) nw =
     bind_result (CreateSession ao nw) (\<lambda>(session, nw1).
       case session of
         None \<Rightarrow> Inl NullPointer
       | Some i \<Rightarrow> bind_result (connect_session sys i nw1) (\<lambda>(ok, nw2).
           if ok = False then Inr (False, nw2) else client_loop ao sys n nw2))"

definition ClientService_Start :: "accept_os \<Rightarrow> system \<Rightarrow> network \<Rightarrow> (bool \<times> network) result" where
  "ClientService_Start ao sys nw =
     (if CanStart (nw_service nw) = False then Inr (False, nw)
      else client_loop ao sys (nat (sv_maxSessionCount (nw_service nw))) nw)"

lemma connect_session_ok:
  assumes "nw_session nw i = Some s" and "se_hasService s" and "\<not> se_connected s" and "sv_type (nw_service nw) = Client" and "\<And>tr. sy_ok sys tr"
  shows "\<exists>w. connect_session sys i nw = Inr (True, store_world i w nw) \<and> Sys_ConnectEx \<in> set (wd_trace w)
    \<and> wd_service w = nw_service nw"
  using assms unfolding connect_session_def Connect_def RegisterConnect_def with_service_def
  by (auto simp: session_world_def Let_def call_ok_def)

text \<open>Every session is created and starts to connect, when the system takes the calls.\<close>

theorem client_loop_ok:
  assumes "\<And>tr. sy_ok sys tr" and "\<And>i. ao_register ao i" and "sv_type (nw_service nw) = Client"
  shows "\<exists>nw'. client_loop ao sys n nw = Inr (True, nw') \<and> nw_created nw' = nw_created nw + n
    \<and> (\<forall>i. nw_created nw \<le> i \<and> i < nw_created nw + n \<longrightarrow> Sys_ConnectEx \<in> set (nw_trace nw' i))
    \<and> (\<forall>i < nw_created nw. nw_trace nw' i = nw_trace nw i)"
  using assms(3)
proof (induction n arbitrary: nw)
  case (Suc n)
  let ?i = "nw_created nw"
  obtain s where s: "new_Session ?i = Inr s" and c: "CreateSession ao nw = Inr (Some ?i,
      nw\<lparr>nw_created := Suc ?i, nw_session := (nw_session nw)(?i \<mapsto> s\<lparr>se_hasService := True\<rparr>)\<rparr>)"
    using CreateSession_ok [of nw ao] assms(2) by auto
  define nw1 where "nw1 = nw\<lparr>nw_created := Suc ?i, nw_session := (nw_session nw)(?i \<mapsto> s\<lparr>se_hasService := True\<rparr>)\<rparr>"
  have "\<not> se_connected s" using new_Session_ok [of ?i] s by auto
  then obtain w where w: "connect_session sys ?i nw1 = Inr (True, store_world ?i w nw1)" "Sys_ConnectEx \<in> set (wd_trace w)"
    "wd_service w = nw_service nw1"
    using connect_session_ok [of nw1 ?i "s\<lparr>se_hasService := True\<rparr>" sys] Suc.prems assms(1) by (auto simp: nw1_def)
  define nw2 where "nw2 = store_world ?i w nw1"
  have nw2: "nw_created nw2 = Suc ?i" "sv_type (nw_service nw2) = Client" "Sys_ConnectEx \<in> set (nw_trace nw2 ?i)"
    "\<forall>i < ?i. nw_trace nw2 i = nw_trace nw i"
    using w Suc.prems by (simp_all add: nw2_def nw1_def store_world_def)
  obtain nw' where nw': "client_loop ao sys n nw2 = Inr (True, nw')" "nw_created nw' = Suc ?i + n"
    "\<forall>i. Suc ?i \<le> i \<and> i < Suc ?i + n \<longrightarrow> Sys_ConnectEx \<in> set (nw_trace nw' i)" "\<forall>i < Suc ?i. nw_trace nw' i = nw_trace nw2 i"
    using Suc.IH [OF nw2(2)] nw2(1) by auto
  have "client_loop ao sys (Suc n) nw = Inr (True, nw')" using c w(1) nw'(1) by (simp add: nw1_def nw2_def)
  moreover have "Sys_ConnectEx \<in> set (nw_trace nw' i)" if "?i \<le> i" "i < ?i + Suc n" for i
    using nw'(3,4) nw2(3) that by (cases "i = ?i") auto
  ultimately show ?case using nw'(2,4) nw2(4) by auto
qed auto

text \<open>When a session cannot be registered with the port, Start dereferences a null session.\<close>

lemma client_start_null:
  assumes "CanStart (nw_service nw)" and "0 < sv_maxSessionCount (nw_service nw)" and "\<not> ao_register ao (nw_created nw)"
  shows "ClientService_Start ao sys nw = Inl NullPointer"
proof -
  obtain k where "nat (sv_maxSessionCount (nw_service nw)) = Suc k" using assms(2) by (metis gr0_implies_Suc zero_less_nat_eq)
  moreover obtain x where "CreateSession ao nw = Inr (None, x)" using CreateSession_ok [of nw ao] assms(3) by auto
  ultimately show ?thesis using assms(1) by (simp add: ClientService_Start_def)
qed

section \<open>Completion queues and addresses\<close>

definition RIO_INVALID_CQ :: int where "RIO_INVALID_CQ = 0"

text \<open>\<open>cq\<close> is the handle RIOCreateCompletionQueue returned, \<open>notified\<close> whether RIONotify succeeded.\<close>

definition CreateRIOCQ :: "int \<Rightarrow> bool \<Rightarrow> service \<Rightarrow> bool \<times> service" where
  "CreateRIOCQ cq notified s =
     (if cq = RIO_INVALID_CQ then (False, s)
      else if \<not> notified then (False, s)
      else (True, s\<lparr>sv_rioCQEventList := sv_rioCQEventList s @ [cq]\<rparr>))"

text \<open>htons and ntohs on the little-endian machines Windows runs on.\<close>

definition htons :: "uint16 \<Rightarrow> uint16" where
  "htons p = (push_bit 8 p OR drop_bit 8 p)"

record net_address =
  na_port :: uint16
  na_addr :: uint32

definition new_NetAddress :: "uint32 \<Rightarrow> uint16 \<Rightarrow> net_address" where
  "new_NetAddress ip port = \<lparr>na_port = htons port, na_addr = ip\<rparr>"

definition GetPort :: "net_address \<Rightarrow> uint16" where
  "GetPort a = htons (na_port a)"

lemma GetPort_new [simp]: "GetPort (new_NetAddress ip port) = port"
  by (rule bit_word_eqI) (auto simp: GetPort_def new_NetAddress_def htons_def bit_simps)

text \<open>Every created queue can be reached by some work id, and a service without queues faults.\<close>

lemma CreateRIOCQ_GetRIOCQ:
  assumes "CreateRIOCQ cq notified s = (True, s')" and "length (sv_rioCQEventList s') < 2147483648"
  shows "GetRIOCQ (int (length (sv_rioCQEventList s))) s' = Inr cq"
  using assms by (auto simp: CreateRIOCQ_def GetRIOCQ_def Let_def to_size_t_id nth_append split: if_splits)

end
