(* ===== verification/ProtoWire.thy ===== *)
theory ProtoWire imports Prelude begin

text \<open>
  The wire primitives of the protobuf runtime in Include/Protobuf: varints (io/coded_stream.h,
  parse_context.h and .cc), tags, sizes, fixed-width integers, ZigZag (wire_format_lite.h) and the
  bit scan of stubs/port.h. A reader gets the readable bytes from its pointer on and returns how
  many it took; reading behind them is \<open>Overread\<close>, a null pointer is \<open>Null\<close>.
\<close>

section \<open>Outcomes of the parser\<close>

datatype 'a parsed = Overread | Fuel | Abort | Null | Parsed 'a

primrec bind_parsed :: "'a parsed \<Rightarrow> ('a \<Rightarrow> 'b parsed) \<Rightarrow> 'b parsed" where
  "bind_parsed Overread f = Overread"
| "bind_parsed Fuel f = Fuel"
| "bind_parsed Abort f = Abort"
| "bind_parsed Null f = Null"
| "bind_parsed (Parsed x) f = f x"

lemma bind_parsed_Parsed_iff: "bind_parsed m f = Parsed r \<longleftrightarrow> (\<exists>x. m = Parsed x \<and> f x = Parsed r)"
  by (cases m) auto

definition byte_at :: "BYTE list \<Rightarrow> nat \<Rightarrow> BYTE parsed" where
  "byte_at p i = (if i < length p then Parsed (p ! i) else Overread)"

lemma byte_at_in [simp]: "i < length p \<Longrightarrow> byte_at p i = Parsed (p ! i)"
  by (simp add: byte_at_def)

section \<open>Varints\<close>

function UnsafeVarint :: "'w :: len word \<Rightarrow> BYTE list" where
  "UnsafeVarint v =
     (if unat v < 0x80 then [ucast v]
      else (ucast v OR 0x80) # UnsafeVarint (drop_bit 7 v))"
  by pat_completeness auto
termination
proof (relation "measure unat")
  fix v :: "'w :: len word" assume "\<not> unat v < 0x80"
  then show "(drop_bit 7 v, v) \<in> measure unat" by (simp add: unat_drop_bit_eq drop_bit_nat_def)
qed simp

declare UnsafeVarint.simps [simp del]

text \<open>The loops of the slow readers: \<open>k\<close> bytes from index \<open>i\<close> on, ending early (\<open>Inl\<close>) on a byte
  without the continuation bit, else handing the sum on (\<open>Inr\<close>).\<close>

primrec varint_scan :: "BYTE list \<Rightarrow> nat \<Rightarrow> nat \<Rightarrow> 'w :: len word \<Rightarrow> ((nat \<times> 'w word) + 'w word) parsed" where
  "varint_scan p 0 i res = Parsed (Inr res)"
| "varint_scan p (Suc k) i res =
     bind_parsed (byte_at p i) (\<lambda>b.
       let res' = res + push_bit (7 * i) (ucast b - 1)
       in if unat b < 128 then Parsed (Inl (i + 1, res')) else varint_scan p k (Suc i) res')"

definition VarintParseSlow64 :: "BYTE list \<Rightarrow> uint32 \<Rightarrow> (nat \<times> uint64) parsed" where
  "VarintParseSlow64 p res32 =
     bind_parsed (varint_scan p 8 2 (ucast res32)) (\<lambda>r. case r of Inl x \<Rightarrow> Parsed x | Inr _ \<Rightarrow> Null)"

text \<open>The 32-bit reader accepts ten bytes too and drops the last five.\<close>

primrec skip_scan :: "BYTE list \<Rightarrow> nat \<Rightarrow> nat \<Rightarrow> 'a \<Rightarrow> (nat \<times> 'a) parsed" where
  "skip_scan p 0 i res = Null"
| "skip_scan p (Suc k) i res =
     bind_parsed (byte_at p i) (\<lambda>b. if unat b < 128 then Parsed (i + 1, res) else skip_scan p k (Suc i) res)"

definition VarintParseSlow32 :: "BYTE list \<Rightarrow> uint32 \<Rightarrow> (nat \<times> uint32) parsed" where
  "VarintParseSlow32 p res0 =
     bind_parsed (varint_scan p 3 2 res0) (\<lambda>r. case r of Inl x \<Rightarrow> Parsed x | Inr res \<Rightarrow> skip_scan p 5 5 res)"

text \<open>VarintParse for a 64-bit and a 32-bit result: its first two bytes are added in 32 bits.\<close>

definition VarintParse :: "BYTE list \<Rightarrow> (nat \<times> uint64) parsed" where
  "VarintParse p =
     bind_parsed (byte_at p 0) (\<lambda>b0.
       let res = ucast b0 :: uint32
       in if res AND 0x80 = 0 then Parsed (1, ucast res)
          else bind_parsed (byte_at p 1) (\<lambda>b1.
            let b = ucast b1 :: uint32; res' = res + push_bit 7 (b - 1)
            in if b AND 0x80 = 0 then Parsed (2, ucast res') else VarintParseSlow64 p res'))"

definition VarintParse32 :: "BYTE list \<Rightarrow> (nat \<times> uint32) parsed" where
  "VarintParse32 p =
     bind_parsed (byte_at p 0) (\<lambda>b0.
       let res = ucast b0 :: uint32
       in if res AND 0x80 = 0 then Parsed (1, res)
          else bind_parsed (byte_at p 1) (\<lambda>b1.
            let b = ucast b1 :: uint32; res' = res + push_bit 7 (b - 1)
            in if b AND 0x80 = 0 then Parsed (2, res') else VarintParseSlow32 p res'))"

definition ReadTagFallback :: "BYTE list \<Rightarrow> uint32 \<Rightarrow> (nat \<times> uint32) parsed" where
  "ReadTagFallback p res0 =
     bind_parsed (varint_scan p 3 2 res0) (\<lambda>r. case r of Inl x \<Rightarrow> Parsed x | Inr _ \<Rightarrow> Null)"

definition ReadTag :: "BYTE list \<Rightarrow> (nat \<times> uint32) parsed" where
  "ReadTag p =
     bind_parsed (byte_at p 0) (\<lambda>b0.
       let res = ucast b0 :: uint32
       in if res < 128 then Parsed (1, res)
          else bind_parsed (byte_at p 1) (\<lambda>b1.
            let b = ucast b1 :: uint32; res' = res + push_bit 7 (b - 1)
            in if b < 128 then Parsed (2, res') else ReadTagFallback p res'))"

definition kSlopBytes :: nat where "kSlopBytes = 16"
definition INT_MAX :: nat where "INT_MAX = 2147483647"

definition ReadSizeFallback :: "BYTE list \<Rightarrow> uint32 \<Rightarrow> (nat \<times> uint32) parsed" where
  "ReadSizeFallback p res0 =
     bind_parsed (varint_scan p 3 1 res0) (\<lambda>r. case r of
       Inl x \<Rightarrow> Parsed x
     | Inr res1 \<Rightarrow> bind_parsed (byte_at p 4) (\<lambda>b.
         if 8 \<le> unat b then Null
         else let res = res1 + push_bit 28 (ucast b - 1)
              in if INT_MAX - kSlopBytes < unat res then Null else Parsed (5, res)))"

definition ReadSize :: "BYTE list \<Rightarrow> (nat \<times> nat) parsed" where
  "ReadSize p =
     bind_parsed (byte_at p 0) (\<lambda>b0.
       let res = ucast b0 :: uint32
       in if res < 128 then Parsed (1, unat res)
          else bind_parsed (ReadSizeFallback p res) (\<lambda>(n, x). Parsed (n, unat x)))"

section \<open>Sizes\<close>

text \<open>The portable bit scan; the intrinsics of the compilers compute the same.\<close>

definition log2_step :: "nat \<Rightarrow> uint32 \<times> nat \<Rightarrow> uint32 \<times> nat" where
  "log2_step i = (\<lambda>(v, log). let shift = 2 ^ i; x = drop_bit shift v
                             in if x \<noteq> 0 then (x, log + shift) else (v, log))"

definition Log2FloorNonZero :: "uint32 \<Rightarrow> nat" where
  "Log2FloorNonZero n = snd (fold log2_step [4, 3, 2, 1, 0] (n, 0))"

definition Log2FloorNonZero64 :: "uint64 \<Rightarrow> nat" where
  "Log2FloorNonZero64 n =
     (let topbits = ucast (drop_bit 32 n) :: uint32
      in if topbits = 0 then Log2FloorNonZero (ucast n) else 32 + Log2FloorNonZero topbits)"

definition VarintSize32 :: "uint32 \<Rightarrow> nat" where
  "VarintSize32 v = (Log2FloorNonZero (v OR 1) * 9 + 73) div 64"

definition VarintSize64 :: "uint64 \<Rightarrow> nat" where
  "VarintSize64 v = (Log2FloorNonZero64 (v OR 1) * 9 + 73) div 64"

definition VarintSize32PlusOne :: "uint32 \<Rightarrow> nat" where
  "VarintSize32PlusOne v = (Log2FloorNonZero (v OR 1) * 9 + 73 + 64) div 64"

definition VarintSize64PlusOne :: "uint64 \<Rightarrow> nat" where
  "VarintSize64PlusOne v = (Log2FloorNonZero64 (v OR 1) * 9 + 73 + 64) div 64"

definition LengthDelimitedSize :: "nat \<Rightarrow> nat" where
  "LengthDelimitedSize n = n + VarintSize32 (word_of_nat n)"

section \<open>Tags and fixed-width integers\<close>

definition MakeTag :: "uint32 \<Rightarrow> uint32 \<Rightarrow> uint32" where
  "MakeTag field_number type = (push_bit 3 field_number OR type)"

definition WriteLittleEndian32ToArray :: "uint32 \<Rightarrow> BYTE list" where
  "WriteLittleEndian32ToArray v = [ucast v, ucast (drop_bit 8 v), ucast (drop_bit 16 v), ucast (drop_bit 24 v)]"

definition WriteLittleEndian64ToArray :: "uint64 \<Rightarrow> BYTE list" where
  "WriteLittleEndian64ToArray v =
     (let part0 = ucast v :: uint32; part1 = ucast (drop_bit 32 v) :: uint32
      in WriteLittleEndian32ToArray part0 @ WriteLittleEndian32ToArray part1)"

fun load_le :: "BYTE list \<Rightarrow> 'w :: len word" where
  "load_le [] = 0"
| "load_le (b # bs) = ucast b OR push_bit 8 (load_le bs)"

text \<open>UnalignedLoad of a 32-bit and a 64-bit value.\<close>

definition UnalignedLoad32 :: "BYTE list \<Rightarrow> uint32 parsed" where
  "UnalignedLoad32 p = (if length p < 4 then Overread else Parsed (load_le (take 4 p)))"

definition UnalignedLoad64 :: "BYTE list \<Rightarrow> uint64 parsed" where
  "UnalignedLoad64 p = (if length p < 8 then Overread else Parsed (load_le (take 8 p)))"

section \<open>ZigZag\<close>

definition ZigZagEncode32 :: "uint32 \<Rightarrow> uint32" where
  "ZigZagEncode32 n = (push_bit 1 n XOR signed_drop_bit 31 n)"

definition ZigZagDecode32 :: "uint32 \<Rightarrow> uint32" where
  "ZigZagDecode32 n = (drop_bit 1 n XOR (NOT (n AND 1) + 1))"

definition ZigZagEncode64 :: "uint64 \<Rightarrow> uint64" where
  "ZigZagEncode64 n = (push_bit 1 n XOR signed_drop_bit 63 n)"

definition ZigZagDecode64 :: "uint64 \<Rightarrow> uint64" where
  "ZigZagDecode64 n = (drop_bit 1 n XOR (NOT (n AND 1) + 1))"

lemma bit_ZigZagEncode32: "bit (ZigZagEncode32 n) i \<longleftrightarrow> i < 32 \<and> (0 < i \<and> bit n (i - 1)) \<noteq> bit n 31"
proof -
  have "bit (signed_drop_bit 31 n) i \<longleftrightarrow> i < 32 \<and> bit n 31" for n :: uint32
    by (cases "i = 0") (auto simp: bit_signed_drop_bit_iff min_def not_le le_less_Suc_eq dest: bit_imp_le_length)
  moreover have "bit (push_bit 1 n) i \<longleftrightarrow> i < 32 \<and> 0 < i \<and> bit n (i - 1)" for n :: uint32
    by (simp only: bit_push_bit_iff) (auto simp: Suc_le_eq)
  ultimately show ?thesis unfolding ZigZagEncode32_def bit_xor_iff by blast
qed

lemma ZigZagDecode32_Encode32 [simp]: "ZigZagDecode32 (ZigZagEncode32 n) = n"
proof -
  have "NOT (ZigZagEncode32 n AND 1) + 1 = (if bit n 31 then - 1 else 0)"
    using bit_ZigZagEncode32 [of n 0] by (auto simp: and_one_eq bit_0 odd_iff_mod_2_eq_one)
  then have "bit (ZigZagDecode32 (ZigZagEncode32 n)) i \<longleftrightarrow> bit n i" if "i < 32" for i
    using that unfolding ZigZagDecode32_def by (cases "i = 31") (auto simp: bit_ZigZagEncode32 bit_xor_iff bit_drop_bit_eq)
  then show ?thesis by (intro bit_word_eqI) simp
qed

lemma bit_ZigZagEncode64: "bit (ZigZagEncode64 n) i \<longleftrightarrow> i < 64 \<and> (0 < i \<and> bit n (i - 1)) \<noteq> bit n 63"
proof -
  have "bit (signed_drop_bit 63 n) i \<longleftrightarrow> i < 64 \<and> bit n 63" for n :: uint64
    by (cases "i = 0") (auto simp: bit_signed_drop_bit_iff min_def not_le le_less_Suc_eq dest: bit_imp_le_length)
  moreover have "bit (push_bit 1 n) i \<longleftrightarrow> i < 64 \<and> 0 < i \<and> bit n (i - 1)" for n :: uint64
    by (simp only: bit_push_bit_iff) (auto simp: Suc_le_eq)
  ultimately show ?thesis unfolding ZigZagEncode64_def bit_xor_iff by blast
qed

lemma ZigZagDecode64_Encode64 [simp]: "ZigZagDecode64 (ZigZagEncode64 n) = n"
proof -
  have "NOT (ZigZagEncode64 n AND 1) + 1 = (if bit n 63 then - 1 else 0)"
    using bit_ZigZagEncode64 [of n 0] by (auto simp: and_one_eq bit_0 odd_iff_mod_2_eq_one)
  then have "bit (ZigZagDecode64 (ZigZagEncode64 n)) i \<longleftrightarrow> bit n i" if "i < 64" for i
    using that unfolding ZigZagDecode64_def by (cases "i = 63") (auto simp: bit_ZigZagEncode64 bit_xor_iff bit_drop_bit_eq)
  then show ?thesis by (intro bit_word_eqI) simp
qed

section \<open>Reading back what was written\<close>

lemma unat_ucast_mod: "unat (ucast (v :: 'a :: len word) :: 'b :: len word) = unat v mod 2 ^ LENGTH('b)"
  by transfer (simp add: take_bit_eq_mod nat_mod_distrib nat_power_eq)

lemma ucast_last_byte:
  assumes "unat (v :: 'w :: len word) < 128" and "8 \<le> LENGTH('w)"
  shows "ucast (ucast v :: BYTE) = v" and "unat (ucast v :: BYTE) = unat v"
proof -
  show u: "unat (ucast v :: BYTE) = unat v" using assms(1) by (simp add: unat_ucast_mod)
  have "unat (ucast (ucast v :: BYTE) :: 'w word) = unat (ucast v :: BYTE) mod 2 ^ LENGTH('w)" by (rule unat_ucast_mod)
  also have "\<dots> = unat v" unfolding u by simp
  finally show "ucast (ucast v :: BYTE) = v" by (simp add: word_unat_eq_iff)
qed

lemma bit_128: "bit (0x80 :: 'w :: len word) n \<longleftrightarrow> n = 7 \<and> 7 < LENGTH('w)"
proof -
  have "(0x80 :: 'w word) = 2 ^ 7" by simp
  then show ?thesis by (simp only: bit_exp_iff possible_bit_word) auto
qed

lemma ucast_cont_byte:
  assumes "8 \<le> LENGTH('w :: len)"
  shows "(ucast (ucast (v :: 'w word) OR 0x80 :: BYTE) :: 'w word) = v - 128 * drop_bit 7 v + 128"
    and "128 \<le> unat (ucast v OR 0x80 :: BYTE)"
proof -
  have "(ucast (ucast v OR 0x80 :: BYTE) :: 'w word) = take_bit 7 v OR 0x80"
    using assms by (intro bit_word_eqI) (auto simp: bit_unsigned_iff bit_or_iff bit_take_bit_iff bit_128 less_Suc_eq simp del: bit_numeral_word_iff)
  also have "\<dots> = take_bit 7 v + 0x80" by (rule disjunctive_add [symmetric]) (auto simp: bit_take_bit_iff bit_128 simp del: bit_numeral_word_iff)
  also have "take_bit 7 v = v - 128 * drop_bit 7 v"
    using bits_ident [of 7 v] by (simp add: push_bit_eq_mult algebra_simps)
  finally show "(ucast (ucast v OR 0x80 :: BYTE) :: 'w word) = v - 128 * drop_bit 7 v + 128" .
  have "(ucast v OR 0x80 :: BYTE) = take_bit 7 (ucast v) OR 0x80"
    by (intro bit_word_eqI) (auto simp: bit_or_iff bit_take_bit_iff bit_128 less_Suc_eq simp del: bit_numeral_word_iff)
  also have "\<dots> = take_bit 7 (ucast v) + 0x80" by (rule disjunctive_add [symmetric]) (auto simp: bit_take_bit_iff bit_128 simp del: bit_numeral_word_iff)
  also have "unat \<dots> = unat (take_bit 7 (ucast v :: BYTE)) + 128"
  proof -
    have "unat (take_bit 7 (ucast v :: BYTE)) < 2 ^ 7" by (simp only: unsigned_take_bit_eq take_bit_nat_less_exp)
    then show ?thesis by (subst unat_add_lem [THEN iffD1]) simp_all
  qed
  finally show "128 \<le> unat (ucast v OR 0x80 :: BYTE)" by simp
qed

lemma UnsafeVarint_last: "unat v < 128 \<Longrightarrow> UnsafeVarint v = [ucast v]"
  by (simp add: UnsafeVarint.simps [of v])

lemma UnsafeVarint_more: "128 \<le> unat v \<Longrightarrow> UnsafeVarint v = (ucast v OR 0x80) # UnsafeVarint (drop_bit 7 v)"
  by (simp add: UnsafeVarint.simps [of v])

lemma UnsafeVarint_nonempty [simp]: "UnsafeVarint v \<noteq> []"
  by (simp add: UnsafeVarint.simps [of v])

lemma unat_drop_7: "unat (drop_bit 7 v) = unat v div 128"
  by (simp add: unat_drop_bit_eq drop_bit_nat_def)

lemma length_UnsafeVarint: "unat v < 128 ^ k \<Longrightarrow> 0 < k \<Longrightarrow> length (UnsafeVarint v) \<le> k"
proof (induction k arbitrary: v)
  case (Suc k)
  show ?case
  proof (cases "unat v < 128")
    case False
    then have "0 < k" using Suc.prems(1) by (cases k) auto
    moreover have "unat (drop_bit 7 v) < 128 ^ k" using Suc.prems(1) by (simp add: unat_drop_7 less_mult_imp_div_less mult.commute)
    ultimately show ?thesis using Suc.IH False by (simp add: UnsafeVarint_more)
  qed (simp add: UnsafeVarint_last)
qed simp

lemma length_UnsafeVarint_32: "length (UnsafeVarint (v :: uint32)) \<le> 5"
  using unat_less_32 [of v] by (intro length_UnsafeVarint) simp_all

lemma length_UnsafeVarint_64: "length (UnsafeVarint (v :: uint64)) \<le> 10"
  using unat_less_64 [of v] by (intro length_UnsafeVarint) simp_all

text \<open>The encoding of a 32-bit value is that of its 64-bit widening.\<close>

lemma UnsafeVarint_ucast: "UnsafeVarint (ucast (v :: uint32) :: uint64) = UnsafeVarint v"
proof (induction v rule: UnsafeVarint.induct)
  case (1 v)
  have u: "unat (ucast v :: uint64) = unat v" using unat_less_32 [of v] by (simp add: unat_ucast_mod)
  have b: "(ucast (ucast v :: uint64) :: BYTE) = ucast v" by (intro bit_word_eqI) (simp add: bit_simps)
  have d: "drop_bit 7 (ucast v :: uint64) = ucast (drop_bit 7 v)" by (rule bit_word_eqI) (auto simp: bit_simps dest: bit_imp_le_length)
  show ?case using 1 by (cases "unat v < 128") (simp_all add: UnsafeVarint_last UnsafeVarint_more u b d not_less)
qed

text \<open>Scanning from byte \<open>i\<close> on, where \<open>w\<close> is what is left of the value.\<close>

lemma varint_scan_enc:
  assumes "8 \<le> LENGTH('w :: len)"
  shows "drop i p = UnsafeVarint (w :: 'w word) @ rest \<Longrightarrow> R + push_bit (7 * i) (w - 1) = v \<Longrightarrow> varint_scan p k i R =
    (if length (UnsafeVarint w) \<le> k then Parsed (Inl (i + length (UnsafeVarint w), v)) else Parsed (Inr (v - push_bit (7 * (i + k)) (drop_bit (7 * k) w - 1))))"
proof (induction k arbitrary: i w R)
  case 0
  then show ?case by (simp add: algebra_simps)
next
  case (Suc k)
  have "i < length p" using Suc.prems(1) by (metis append_is_Nil_conv drop_eq_Nil2 linorder_not_le UnsafeVarint_nonempty)
  then have at: "byte_at p i = Parsed (hd (UnsafeVarint w))" "drop (Suc i) p = tl (UnsafeVarint w) @ rest"
    using Suc.prems(1) hd_drop_conv_nth [of i p] tl_drop [of i p] by (simp_all add: drop_Suc)
  show ?case
  proof (cases "unat w < 128")
    case True
    then show ?thesis using at(1) Suc.prems(2) ucast_last_byte [OF True assms] by (simp add: UnsafeVarint_last)
  next
    case False
    let ?b = "ucast w OR 0x80 :: BYTE"
    have b: "(ucast ?b :: 'w word) = w - 128 * drop_bit 7 w + 128" "128 \<le> unat ?b"
      using ucast_cont_byte [OF assms] by blast+
    have pw: "push_bit (7 * Suc i) x = 128 * push_bit (7 * i) x" for x :: "'w word"
      by (simp add: push_bit_eq_mult power_add)
    have R: "R + push_bit (7 * i) (ucast ?b - 1) + push_bit (7 * Suc i) (drop_bit 7 w - 1) = v"
      using Suc.prems(2) unfolding pw b(1) by (simp add: push_bit_eq_mult algebra_simps)
    have enc: "UnsafeVarint w = ?b # UnsafeVarint (drop_bit 7 w)" using False by (intro UnsafeVarint_more) simp
    have "varint_scan p (Suc k) i R = varint_scan p k (Suc i) (R + push_bit (7 * i) (ucast ?b - 1))"
      using at(1) b(2) by (simp add: enc)
    then show ?thesis using Suc.IH [OF _ R] at(2) by (simp add: enc algebra_simps)
  qed
qed

text \<open>The readers share their shape: one byte, then a scan.\<close>

lemma scan_first:
  "varint_scan p (Suc k) 1 R = bind_parsed (byte_at p 1) (\<lambda>b1. let res' = R + push_bit 7 (ucast b1 - 1)
     in if unat b1 < 128 then Parsed (Inl (2, res')) else varint_scan p k 2 res')"
  by (simp only: varint_scan.simps mult_1_right one_add_one Suc_1)

lemma ReadTag_scan:
  "ReadTag p = bind_parsed (byte_at p 0) (\<lambda>b. if unat b < 128 then Parsed (1, ucast b)
     else bind_parsed (varint_scan p 4 1 (ucast b)) (\<lambda>r. case r of Inl x \<Rightarrow> Parsed x | Inr _ \<Rightarrow> Null))"
proof -
  have u: "(ucast (b :: BYTE) :: uint32) < 128 \<longleftrightarrow> unat b < 128" for b
    using unat_less_8 [of b] by (simp add: word_less_nat_alt unat_ucast_mod)
  have four: "(4 :: nat) = Suc 3" by simp
  show ?thesis unfolding ReadTag_def ReadTagFallback_def u Let_def four scan_first
    by (cases "byte_at p 0"; cases "byte_at p 1") (auto simp del: push_bit_numeral)
qed

lemma and_128: "(ucast (b :: BYTE) :: uint32) AND 0x80 = 0 \<longleftrightarrow> unat b < 128"
proof -
  have bits: "bit ((ucast b :: uint32) AND 0x80) n \<longleftrightarrow> n = 7 \<and> bit b 7" for n
    by (auto simp: bit_and_iff bit_128 bit_unsigned_iff simp del: bit_numeral_word_iff)
  have "(ucast b :: uint32) AND 0x80 = 0 \<longleftrightarrow> \<not> bit b 7"
  proof
    assume "(ucast b :: uint32) AND 0x80 = 0"
    then show "\<not> bit b 7" using bits [of 7] by (metis bit_0_eq bot_apply bot_bool_def)
  next
    assume "\<not> bit b 7"
    then have "bit ((ucast b :: uint32) AND 0x80) n \<longleftrightarrow> bit (0 :: uint32) n" for n unfolding bits by simp
    then show "(ucast b :: uint32) AND 0x80 = 0" by (rule bit_word_eqI)
  qed
  also have "bit b 7 \<longleftrightarrow> odd (unat b div 128)"
    using bit_unsigned_iff [where ?'a = nat, of b 7] by (simp add: bit_iff_odd)
  also have "\<dots> \<longleftrightarrow> \<not> unat b < 128"
  proof -
    have "unat b div 128 = 0 \<or> unat b div 128 = 1" using unat_less_8 [of b] by linarith
    then show ?thesis by (auto simp: div_eq_0_iff)
  qed
  finally show ?thesis by simp
qed

text \<open>Two bytes of a varint can be added up in 32 bits and widened afterwards.\<close>

lemma widen_two_bytes:
  assumes "128 \<le> unat (b0 :: BYTE)"
  shows "(ucast (ucast b0 + push_bit 7 (ucast (b1 :: BYTE) - 1) :: uint32) :: uint64) = ucast b0 + push_bit 7 (ucast b1 - 1)"
proof -
  have p7: "push_bit 7 (x - 1) = 128 * x - 128" for x :: "'x :: len word" by (simp add: push_bit_eq_mult algebra_simps)
  define k where "k = uint b0 + (128 * uint b1 - 128)"
  have w: "ucast b0 + push_bit 7 (ucast b1 - 1) = (word_of_int k :: 'x :: len word)"
    unfolding k_def p7 ucast_eq [of b0] ucast_eq [of b1] by (simp only: of_int_add of_int_diff of_int_mult of_int_1 of_int_numeral)
  have "int (unat b0) \<ge> 128" "int (unat b0) < 256" "0 \<le> int (unat b1)" "int (unat b1) < 256"
    using assms unat_less_8 [of b0] unat_less_8 [of b1] by linarith+
  then have k: "0 \<le> k" "k < 4294967296" by (simp_all only: k_def uint_nat)
  have "uint (word_of_int k :: uint32) = k" using k by (simp add: unsigned_of_int take_bit_int_eq_self)
  then show ?thesis unfolding w by (subst ucast_eq) simp
qed

lemma VarintParse_scan:
  "VarintParse p = bind_parsed (byte_at p 0) (\<lambda>b. if unat b < 128 then Parsed (1, ucast b)
     else bind_parsed (varint_scan p 9 1 (ucast b)) (\<lambda>r. case r of Inl x \<Rightarrow> Parsed x | Inr _ \<Rightarrow> Null))"
proof -
  have nine: "(9 :: nat) = Suc 8" by simp
  have cc: "(ucast (ucast (b :: BYTE) :: uint32) :: uint64) = ucast b" for b
    by (intro bit_word_eqI) (auto simp: bit_simps dest: bit_imp_le_length)
  show ?thesis unfolding VarintParse_def VarintParseSlow64_def and_128 Let_def nine scan_first
    by (cases "byte_at p 0"; cases "byte_at p 1") (auto simp: cc widen_two_bytes simp del: push_bit_numeral)
qed

lemma VarintParse32_scan:
  "VarintParse32 p = bind_parsed (byte_at p 0) (\<lambda>b. if unat b < 128 then Parsed (1, ucast b)
     else bind_parsed (varint_scan p 4 1 (ucast b)) (\<lambda>r. case r of Inl x \<Rightarrow> Parsed x | Inr res \<Rightarrow> skip_scan p 5 5 res))"
proof -
  have four: "(4 :: nat) = Suc 3" by simp
  show ?thesis unfolding VarintParse32_def VarintParseSlow32_def and_128 Let_def four scan_first
    by (cases "byte_at p 0"; cases "byte_at p 1") (auto simp del: push_bit_numeral)
qed

text \<open>All readers on the encoding of a value.\<close>

lemma scan_from_first:
  assumes "8 \<le> LENGTH('w :: len)" and "128 \<le> unat (v :: 'w word)" and "length (UnsafeVarint v) \<le> Suc k"
  shows "varint_scan (UnsafeVarint v @ rest) k 1 (ucast (hd (UnsafeVarint v))) = Parsed (Inl (length (UnsafeVarint v), v))"
    and "byte_at (UnsafeVarint v @ rest) 0 = Parsed (hd (UnsafeVarint v))" and "128 \<le> unat (hd (UnsafeVarint v))"
proof -
  let ?b = "ucast v OR 0x80 :: BYTE"
  have enc: "UnsafeVarint v = ?b # UnsafeVarint (drop_bit 7 v)" using assms(2) by (rule UnsafeVarint_more)
  have b: "(ucast ?b :: 'w word) = v - 128 * drop_bit 7 v + 128" "128 \<le> unat ?b" using ucast_cont_byte [OF assms(1)] by blast+
  show "varint_scan (UnsafeVarint v @ rest) k 1 (ucast (hd (UnsafeVarint v))) = Parsed (Inl (length (UnsafeVarint v), v))"
    using varint_scan_enc [OF assms(1), of 1 "UnsafeVarint v @ rest" "drop_bit 7 v" rest "ucast ?b" v k] assms(3)
    by (simp add: enc b(1) push_bit_eq_mult algebra_simps)
  show "byte_at (UnsafeVarint v @ rest) 0 = Parsed (hd (UnsafeVarint v))" "128 \<le> unat (hd (UnsafeVarint v))" using b(2) by (simp_all add: enc)
qed

theorem ReadTag_write: "ReadTag (UnsafeVarint v @ rest) = Parsed (length (UnsafeVarint v), v)"
proof (cases "unat v < 128")
  case True
  then show ?thesis using ucast_last_byte [of v] by (simp add: ReadTag_scan UnsafeVarint_last)
next
  case False
  then show ?thesis using scan_from_first(1) [of v 4 rest] scan_from_first(2) [of v 4 rest] scan_from_first(3) [of v 4] length_UnsafeVarint_32 [of v] by (simp add: ReadTag_scan)
qed

theorem VarintParse_write: "VarintParse (UnsafeVarint v @ rest) = Parsed (length (UnsafeVarint v), v)"
proof (cases "unat v < 128")
  case True
  then show ?thesis using ucast_last_byte [of v] by (simp add: VarintParse_scan UnsafeVarint_last)
next
  case False
  then show ?thesis using scan_from_first(1) [of v 9 rest] scan_from_first(2) [of v 9 rest] scan_from_first(3) [of v 9] length_UnsafeVarint_64 [of v] by (simp add: VarintParse_scan)
qed

theorem VarintParse32_write: "VarintParse32 (UnsafeVarint v @ rest) = Parsed (length (UnsafeVarint v), v)"
proof (cases "unat v < 128")
  case True
  then show ?thesis using ucast_last_byte [of v] by (simp add: VarintParse32_scan UnsafeVarint_last)
next
  case False
  then show ?thesis using scan_from_first(1) [of v 4 rest] scan_from_first(2) [of v 4 rest] scan_from_first(3) [of v 4] length_UnsafeVarint_32 [of v] by (simp add: VarintParse32_scan)
qed

theorem ReadSize_write:
  assumes "n \<le> INT_MAX - kSlopBytes"
  shows "ReadSize (UnsafeVarint (word_of_nat n :: uint32) @ rest) = Parsed (length (UnsafeVarint (word_of_nat n :: uint32)), n)"
proof -
  define v where "v = (word_of_nat n :: uint32)"
  have v: "unat v = n" "unat v \<le> 2147483631"
    using assms by (simp_all add: v_def unat_of_nat take_bit_nat_eq_self INT_MAX_def kSlopBytes_def)
  have u: "(ucast (b :: BYTE) :: uint32) < 128 \<longleftrightarrow> unat b < 128" for b
    using unat_less_8 [of b] by (simp add: word_less_nat_alt unat_ucast_mod)
  have "ReadSize (UnsafeVarint v @ rest) = Parsed (length (UnsafeVarint v), unat v)"
  proof (cases "unat v < 128")
    case True
    then show ?thesis using ucast_last_byte [of v] by (simp add: ReadSize_def u UnsafeVarint_last)
  next
    case False
    let ?b = "ucast v OR 0x80 :: BYTE" and ?w = "drop_bit 7 v" and ?p = "UnsafeVarint v @ rest"
    have enc: "UnsafeVarint v = ?b # UnsafeVarint ?w" using False by (intro UnsafeVarint_more) simp
    have b: "(ucast ?b :: uint32) = v - 128 * ?w + 128" "128 \<le> unat ?b" using ucast_cont_byte [of v] by simp_all
    have size: "ReadSize ?p = bind_parsed (ReadSizeFallback ?p (ucast ?b)) (\<lambda>(n, x). Parsed (n, unat x))"
      using b(2) by (simp add: ReadSize_def u enc)
    have scan: "varint_scan ?p 3 1 (ucast ?b) = (if length (UnsafeVarint ?w) \<le> 3 then Parsed (Inl (1 + length (UnsafeVarint ?w), v))
        else Parsed (Inr (v - push_bit 28 (drop_bit 28 v - 1))))"
      using varint_scan_enc [of 1 ?p ?w rest "ucast ?b" v 3] by (simp add: enc b(1) push_bit_eq_mult algebra_simps)
    show ?thesis
    proof (cases "length (UnsafeVarint ?w) \<le> 3")
      case True
      then show ?thesis unfolding size ReadSizeFallback_def scan by (simp add: enc)
    next
      case long: False
      have big: "2097152 \<le> unat ?w" using long length_UnsafeVarint [of ?w 3] by (cases "unat ?w < 128 ^ 3") simp_all
      let ?w2 = "drop_bit 7 ?w" let ?w3 = "drop_bit 7 ?w2" let ?w4 = "drop_bit 7 ?w3"
      have top: "unat ?w4 < 8" "128 \<le> unat ?w" "128 \<le> unat ?w2" "128 \<le> unat ?w3"
        using v(2) big unfolding unat_drop_7 by linarith+
      have four: "UnsafeVarint v = [?b, ucast ?w OR 0x80, ucast ?w2 OR 0x80, ucast ?w3 OR 0x80, ucast ?w4]"
        using enc UnsafeVarint_more [OF top(2)] UnsafeVarint_more [OF top(3)] UnsafeVarint_more [OF top(4)] UnsafeVarint_last [of ?w4] top(1) by simp
      define t where "t = ?w4"
      have t: "drop_bit 28 v = t" by (simp add: t_def)
      have at: "byte_at ?p 4 = Parsed (ucast t)" "unat (ucast t :: BYTE) < 8" "ucast (ucast t :: BYTE) = t" "length (UnsafeVarint v) = 5"
        using four top(1) ucast_last_byte [of t] unfolding t_def by (simp_all add: byte_at_def)
      have fb: "varint_scan ?p 3 1 (ucast ?b) = Parsed (Inr (v - push_bit 28 (t - 1)))" using scan long t by simp
      show ?thesis unfolding size ReadSizeFallback_def fb using at v(2)
        by (simp add: INT_MAX_def kSlopBytes_def del: push_bit_numeral)
    qed
  qed
  then show ?thesis by (simp add: v(1)) (simp add: v_def)
qed

section \<open>Sizes are the lengths of the encodings\<close>

definition log2_inv :: "uint32 \<Rightarrow> nat \<Rightarrow> uint32 \<times> nat \<Rightarrow> bool" where
  "log2_inv n k = (\<lambda>(v, log). v \<noteq> 0 \<and> unat v < 2 ^ 2 ^ k \<and> v = drop_bit log n)"

lemma log2_step_inv:
  assumes "log2_inv n (Suc i) s"
  shows "log2_inv n i (log2_step i s)"
proof -
  obtain v log where s: "s = (v, log)" by (cases s)
  have v: "v \<noteq> 0" "unat v < 2 ^ 2 ^ Suc i" "v = drop_bit log n" using assms unfolding s log2_inv_def prod.case by blast+
  have d: "unat (drop_bit (2 ^ i) v) = unat v div 2 ^ 2 ^ i" by (simp add: unat_drop_bit_eq drop_bit_nat_def)
  have sq: "(2 :: nat) ^ 2 ^ Suc i = 2 ^ 2 ^ i * 2 ^ 2 ^ i" by (simp add: mult_2 power_add)
  show ?thesis
  proof (cases "drop_bit (2 ^ i) v = 0")
    case True
    then have "unat v div 2 ^ 2 ^ i = 0" using d by simp
    then have "unat v < 2 ^ 2 ^ i" by (simp add: div_eq_0_iff)
    then show ?thesis using True v(1,3) by (simp add: s log2_step_def log2_inv_def Let_def)
  next
    case False
    have "unat v div 2 ^ 2 ^ i < 2 ^ 2 ^ i" using v(2) unfolding sq by (rule less_mult_imp_div_less)
    then have "unat (drop_bit (2 ^ i) v) < 2 ^ 2 ^ i" unfolding d .
    moreover have "drop_bit (2 ^ i) v = drop_bit (log + 2 ^ i) n" unfolding v(3) by (simp add: add.commute)
    ultimately show ?thesis using False by (auto simp: s log2_step_def log2_inv_def Let_def)
  qed
qed

definition floor_log2 :: "nat \<Rightarrow> nat \<Rightarrow> bool" where
  "floor_log2 k n \<longleftrightarrow> 2 ^ k \<le> n \<and> n < 2 * 2 ^ k"

lemma Log2FloorNonZero_ok: "n \<noteq> 0 \<Longrightarrow> floor_log2 (Log2FloorNonZero n) (unat n)"
proof -
  assume n: "n \<noteq> 0"
  have "log2_inv n 5 (n, 0)" using n unat_less_32 [of n] by (simp add: log2_inv_def)
  then have "log2_inv n 0 (fold log2_step [4, 3, 2, 1, 0] (n, 0))"
    using log2_step_inv [of n 4] log2_step_inv [of n 3] log2_step_inv [of n 2] log2_step_inv [of n 1] log2_step_inv [of n 0]
    by (simp add: numeral_eq_Suc del: power_Suc)
  then obtain v where v: "v \<noteq> 0" "unat v < 2" "v = drop_bit (Log2FloorNonZero n) n"
    by (auto simp: log2_inv_def Log2FloorNonZero_def split: prod.splits)
  have "unat v = 1" using v(1,2) unat_eq_zero [of v] by (metis One_nat_def less_2_cases)
  then have "unat n div 2 ^ Log2FloorNonZero n = 1" using v(3) by (simp add: unat_drop_bit_eq drop_bit_nat_def)
  then show ?thesis unfolding floor_log2_def
    by (metis div_eq_0_iff dividend_less_times_div leI mult.commute nat_1_add_1 one_neq_zero zero_less_numeral zero_less_power mult_Suc_right Suc_1 plus_1_eq_Suc)
qed

lemma Log2FloorNonZero64_ok:
  assumes "n \<noteq> 0"
  shows "floor_log2 (Log2FloorNonZero64 n) (unat n)"
proof (cases "ucast (drop_bit 32 n) = (0 :: uint32)")
  case True
  have "unat (drop_bit 32 n) = unat n div 2 ^ 32" by (simp add: unat_drop_bit_eq drop_bit_nat_def)
  moreover have "unat (ucast (drop_bit 32 n) :: uint32) = 0" using True by simp
  ultimately have "unat n div 2 ^ 32 mod 2 ^ 32 = 0" by (simp add: unat_ucast_mod)
  moreover have "unat n div 2 ^ 32 < 2 ^ 32" using unat_less_64 [of n] by (simp add: less_mult_imp_div_less)
  ultimately have "unat n < 2 ^ 32" by (simp add: div_eq_0_iff)
  then have u: "unat (ucast n :: uint32) = unat n" by (simp add: unat_ucast_mod)
  then have "(ucast n :: uint32) \<noteq> 0" using assms by (metis unat_0 unat_eq_zero)
  then show ?thesis using Log2FloorNonZero_ok [of "ucast n"] True u by (simp add: Log2FloorNonZero64_def Let_def)
next
  case False
  let ?t = "ucast (drop_bit 32 n) :: uint32"
  have "unat n div 2 ^ 32 < 2 ^ 32" using unat_less_64 [of n] by (simp add: less_mult_imp_div_less)
  then have u: "unat ?t = unat n div 2 ^ 32" by (simp add: unat_ucast_mod unat_drop_bit_eq drop_bit_nat_def)
  have "floor_log2 (Log2FloorNonZero ?t) (unat n div 2 ^ 32)" using Log2FloorNonZero_ok [OF False] u by simp
  then have "2 ^ 32 * 2 ^ Log2FloorNonZero ?t \<le> unat n" "unat n < 2 ^ 32 * (2 * 2 ^ Log2FloorNonZero ?t)"
    unfolding floor_log2_def by (simp_all add: less_eq_div_iff_mult_less_eq div_less_iff_less_mult mult.commute)
  then show ?thesis using False by (simp add: Log2FloorNonZero64_def Let_def floor_log2_def power_add)
qed

lemma length_UnsafeVarint_log2: "floor_log2 k (unat v) \<Longrightarrow> length (UnsafeVarint v) = k div 7 + 1"
proof (induction v arbitrary: k rule: UnsafeVarint.induct)
  case (1 v)
  show ?case
  proof (cases "unat v < 128")
    case True
    have "k < 7"
    proof (rule ccontr)
      assume "\<not> k < 7"
      then have "(2 :: nat) ^ 7 \<le> 2 ^ k" by (intro power_increasing) simp_all
      then show False using True 1(2) by (simp add: floor_log2_def)
    qed
    then show ?thesis using True by (simp add: UnsafeVarint_last)
  next
    case False
    have "7 \<le> k"
    proof (rule ccontr)
      assume "\<not> 7 \<le> k"
      then have "(2 :: nat) ^ k \<le> 2 ^ 6" by (intro power_increasing) simp_all
      then show False using False 1(2) by (simp add: floor_log2_def)
    qed
    then obtain j where j: "k = 7 + j" using le_Suc_ex by blast
    have "floor_log2 j (unat (drop_bit 7 v))" using 1(2)
      by (simp add: j unat_drop_7 floor_log2_def power_add less_eq_div_iff_mult_less_eq div_less_iff_less_mult)
    then have "length (UnsafeVarint (drop_bit 7 v)) = j div 7 + 1" using 1(1) False by simp
    then show ?thesis using False by (simp add: UnsafeVarint_more j)
  qed
qed

lemma length_UnsafeVarint_or_1:
  assumes "8 \<le> LENGTH('w :: len)"
  shows "length (UnsafeVarint ((v :: 'w word) OR 1)) = length (UnsafeVarint v)"
proof -
  have d: "drop_bit 7 (v OR 1) = drop_bit 7 v" by (rule bit_word_eqI) (auto simp: bit_simps)
  then have "unat (v OR 1) div 128 = unat v div 128" by (metis unat_drop_7)
  then have "unat (v OR 1) < 128 \<longleftrightarrow> unat v < 128" by (metis div_eq_0_iff zero_neq_numeral)
  then show ?thesis using d by (cases "unat v < 128") (simp_all add: UnsafeVarint_last UnsafeVarint_more not_less)
qed

text \<open>The multiplication that stands for the division by seven.\<close>

lemma size_formula:
  assumes "k < 64"
  shows "(k * 9 + 73) div 64 = k div 7 + (1 :: nat)"
proof -
  define q r where "q = k div 7" and "r = k mod 7"
  then have k: "k = 7 * q + r" "r < 7" "q \<le> 9" using assms by auto
  have "(k * 9 + 73) div 64 = q + 1" unfolding k(1) by (rule div_nat_eqI) (use k(2,3) in simp_all)
  then show ?thesis by (simp add: q_def)
qed

lemma floor_log2_less: "floor_log2 k n \<Longrightarrow> n < 2 ^ m \<Longrightarrow> k < m"
  unfolding floor_log2_def by (rule power_less_imp_less_exp [of "2 :: nat"]) (simp, erule conjE, erule (1) le_less_trans)

theorem VarintSize32_length: "VarintSize32 v = length (UnsafeVarint v)"
proof -
  have nz: "v OR 1 \<noteq> 0" by (metis bit_0_eq bit_or_iff bot_apply bot_bool_def bit_1_iff possible_bit_word len_gt_0)
  have "floor_log2 (Log2FloorNonZero (v OR 1)) (unat (v OR 1))" using Log2FloorNonZero_ok [OF nz] .
  then show ?thesis
    using length_UnsafeVarint_log2 floor_log2_less [of _ "unat (v OR 1)" 32] unat_less_32 [of "v OR 1"] length_UnsafeVarint_or_1 [of v]
    by (fastforce simp: VarintSize32_def size_formula)
qed

theorem VarintSize64_length: "VarintSize64 v = length (UnsafeVarint v)"
proof -
  have nz: "v OR 1 \<noteq> 0" by (metis bit_0_eq bit_or_iff bot_apply bot_bool_def bit_1_iff possible_bit_word len_gt_0)
  have "floor_log2 (Log2FloorNonZero64 (v OR 1)) (unat (v OR 1))" using Log2FloorNonZero64_ok [OF nz] .
  then show ?thesis
    using length_UnsafeVarint_log2 floor_log2_less [of _ "unat (v OR 1)" 64] unat_less_64 [of "v OR 1"] length_UnsafeVarint_or_1 [of v]
    by (fastforce simp: VarintSize64_def size_formula)
qed

lemma VarintSizePlusOne:
  "VarintSize32PlusOne v = Suc (length (UnsafeVarint v))" "VarintSize64PlusOne w = Suc (length (UnsafeVarint w))"
  using VarintSize32_length [of v] VarintSize64_length [of w]
  by (simp_all add: VarintSize32PlusOne_def VarintSize64PlusOne_def VarintSize32_def VarintSize64_def)

section \<open>Fixed-width integers\<close>

lemma bit_load_le: "bit (load_le bs :: 'w :: len word) i \<longleftrightarrow> i < LENGTH('w) \<and> i div 8 < length bs \<and> bit (bs ! (i div 8)) (i mod 8)"
proof (induction bs arbitrary: i)
  case (Cons b bs)
  show ?case
  proof (cases "i < 8")
    case True
    then show ?thesis by (auto simp: bit_or_iff bit_unsigned_iff bit_push_bit_iff dest: bit_imp_le_length)
  next
    case False
    then obtain j where j: "i = 8 + j" using le_Suc_ex not_less by blast
    have "\<not> bit b i" using False bit_imp_le_length [of b i] by auto
    moreover have "i div 8 = Suc (j div 8)" "i mod 8 = j mod 8" by (simp_all add: j add.commute [of 8])
    ultimately show ?thesis using Cons.IH [of j] by (auto simp: j bit_or_iff bit_unsigned_iff bit_push_bit_iff)
  qed
qed simp

lemma bytes_le_32: "n < 4 \<Longrightarrow> WriteLittleEndian32ToArray v ! n = ucast (drop_bit (8 * n) v)"
  by (auto simp: WriteLittleEndian32ToArray_def less_Suc_eq numeral_eq_Suc)

theorem UnalignedLoad32_write: "UnalignedLoad32 (WriteLittleEndian32ToArray v @ rest) = Parsed v"
proof -
  have len: "length (WriteLittleEndian32ToArray v) = 4" by (simp add: WriteLittleEndian32ToArray_def)
  have "bit (load_le (WriteLittleEndian32ToArray v) :: uint32) i \<longleftrightarrow> bit v i" if "i < 32" for i
  proof -
    have "i div 8 < 4" using that by auto
    then show ?thesis using that by (simp add: bit_load_le len bytes_le_32 bit_unsigned_iff bit_drop_bit_eq)
  qed
  then have "load_le (WriteLittleEndian32ToArray v) = v" by (intro bit_word_eqI) simp
  then show ?thesis using len by (simp add: UnalignedLoad32_def)
qed

lemma length_WriteLittleEndian [simp]: "length (WriteLittleEndian32ToArray v) = 4" "length (WriteLittleEndian64ToArray w) = 8"
  by (simp_all add: WriteLittleEndian32ToArray_def WriteLittleEndian64ToArray_def Let_def)

theorem UnalignedLoad64_write: "UnalignedLoad64 (WriteLittleEndian64ToArray v @ rest) = Parsed v"
proof -
  have "bit (load_le (WriteLittleEndian64ToArray v) :: uint64) i \<longleftrightarrow> bit v i" if "i < 64" for i
  proof (cases "i < 32")
    case True
    then have "i div 8 < 4" by auto
    then show ?thesis using that True
      by (simp add: bit_load_le WriteLittleEndian64ToArray_def Let_def nth_append bytes_le_32 bit_unsigned_iff bit_drop_bit_eq)
  next
    case False
    then obtain j where j: "i = 32 + j" using le_Suc_ex not_less by blast
    have "(j + 8 * 4) div 8 = 4 + j div 8" "(j + 8 * 4) mod 8 = j mod 8" by (rule div_mult_self2, simp, rule mod_mult_self2)
    then have d: "i div 8 = 4 + j div 8" "j div 8 < 4" "i mod 8 = j mod 8" using that j by (simp_all add: add.commute)
    then show ?thesis using that j d
      by (simp add: bit_load_le WriteLittleEndian64ToArray_def Let_def nth_append bytes_le_32 bit_unsigned_iff bit_drop_bit_eq)
  qed
  then have "load_le (WriteLittleEndian64ToArray v) = v" by (intro bit_word_eqI) simp
  then show ?thesis by (simp add: UnalignedLoad64_def)
qed

section \<open>The readers stay within the bytes they are promised\<close>

text \<open>An outcome that reads no further than \<open>m\<close> bytes and, when it succeeds, takes one at least.\<close>

definition takes :: "nat \<Rightarrow> (nat \<times> 'a) parsed \<Rightarrow> bool" where
  "takes m r \<longleftrightarrow> (case r of Parsed (n, _) \<Rightarrow> 0 < n \<and> n \<le> m | Null \<Rightarrow> True | _ \<Rightarrow> False)"

lemma takes_simps [simp]: "takes m (Parsed (n, x)) \<longleftrightarrow> 0 < n \<and> n \<le> m" "takes m Null"
  by (simp_all add: takes_def)

lemma takesE: "takes m r \<Longrightarrow> (r = Null \<Longrightarrow> P) \<Longrightarrow> (\<And>n x. r = Parsed (n, x) \<Longrightarrow> 0 < n \<Longrightarrow> n \<le> m \<Longrightarrow> P) \<Longrightarrow> P"
  by (cases r) (auto simp: takes_def)

lemma takes_mono: "takes m r \<Longrightarrow> m \<le> m' \<Longrightarrow> takes m' r"
  by (auto elim: takesE)

lemma varint_scan_takes:
  "i + k \<le> length p \<Longrightarrow> (\<exists>n v. varint_scan p k i R = Parsed (Inl (n, v)) \<and> i < n \<and> n \<le> i + k) \<or> (\<exists>v. varint_scan p k i R = Parsed (Inr v))"
proof (induction k arbitrary: i R)
  case (Suc k)
  have "i < length p" using Suc.prems by simp
  then show ?case using Suc.IH [of "Suc i" "R + push_bit (7 * i) (ucast (p ! i) - 1)"] Suc.prems by (auto simp: Let_def)
qed simp

lemma skip_scan_takes: "i + k \<le> length p \<Longrightarrow> takes (i + k) (skip_scan p k i R)"
proof (induction k arbitrary: i)
  case (Suc k)
  then show ?case using Suc.IH [of "Suc i"] by simp
qed simp

lemma scan_reader_takes:
  fixes g :: "'w :: len word \<Rightarrow> (nat \<times> 'w word) parsed"
  assumes "Suc k \<le> length p" and "\<And>R. takes m (g R)" and "Suc k \<le> m"
  shows "takes m (bind_parsed (byte_at p 0) (\<lambda>b. if unat b < 128 then Parsed (1, ucast b)
     else bind_parsed (varint_scan p k 1 (ucast b)) (\<lambda>r. case r of Inl x \<Rightarrow> Parsed x | Inr res \<Rightarrow> g res)))"
proof -
  have at: "byte_at p 0 = Parsed (p ! 0)" using assms(1) by (cases p) simp_all
  have "1 + k \<le> length p" using assms(1) by simp
  then have "(\<exists>n v. varint_scan p k 1 (ucast (p ! 0) :: 'w word) = Parsed (Inl (n, v)) \<and> 1 < n \<and> n \<le> 1 + k)
      \<or> (\<exists>v. varint_scan p k 1 (ucast (p ! 0) :: 'w word) = Parsed (Inr v))" by (rule varint_scan_takes)
  then show ?thesis by (elim disjE exE conjE) (use assms(2,3) at in simp_all)
qed

lemma ReadTag_takes: "5 \<le> length p \<Longrightarrow> takes 5 (ReadTag p)"
  unfolding ReadTag_scan by (rule scan_reader_takes) simp_all

lemma VarintParse_takes: "10 \<le> length p \<Longrightarrow> takes 10 (VarintParse p)"
  unfolding VarintParse_scan by (rule scan_reader_takes) simp_all

lemma VarintParse32_takes: "10 \<le> length p \<Longrightarrow> takes 10 (VarintParse32 p)"
  unfolding VarintParse32_scan using skip_scan_takes [of 5 5 p] by (intro scan_reader_takes) simp_all

lemma ReadSize_takes:
  assumes p: "5 \<le> length p"
  shows "takes 5 (ReadSize p)"
proof -
  let ?r = "ucast (p ! 0) :: uint32"
  have at: "byte_at p 0 = Parsed (p ! 0)" "byte_at p 4 = Parsed (p ! 4)" using p by (cases p; simp)+
  have "1 + 3 \<le> length p" using p by simp
  then have scan: "(\<exists>n v. varint_scan p 3 1 ?r = Parsed (Inl (n, v)) \<and> 1 < n \<and> n \<le> 1 + 3) \<or> (\<exists>v. varint_scan p 3 1 ?r = Parsed (Inr v))"
    by (rule varint_scan_takes)
  have "takes 5 (ReadSizeFallback p ?r)"
    using scan by (elim disjE exE conjE) (simp_all add: ReadSizeFallback_def at Let_def del: push_bit_numeral)
  then have "takes 5 (bind_parsed (ReadSizeFallback p ?r) (\<lambda>(n, x). Parsed (n, unat x)))"
    by (auto elim: takesE)
  then show ?thesis by (simp add: ReadSize_def at Let_def del: push_bit_numeral)
qed

end
