(* ===== verification/ProtoStream.thy ===== *)
theory ProtoStream imports ProtoWire begin

text \<open>
  The input side of the protobuf runtime when it parses an array (parse_context.h and .cc):
  EpsCopyInputStream with its limits and its two buffers, ParseContext with its depth limit, the
  parser of unknown fields (unknown_field_set.cc) and the loop every generated message parser runs.

  A position in the stream is the list of bytes from it to the end of the message and the 16 slop
  bytes behind it. In the array itself (\<open>cx_first\<close>, only for messages of more than 16 bytes) the
  last 16 bytes of the message are the slop region; after the flip to the patch buffer they are
  followed by 16 bytes with whatever the buffer holds. \<open>limit_\<close> and \<open>buffer_end_\<close> become
  distances from the position.
\<close>

section \<open>The stream\<close>

record ctx =
  cx_bytes :: "BYTE list"
  cx_first :: bool
  cx_left :: int
  cx_depth :: int
  cx_last_tag_minus_1 :: uint32

definition to_end :: "ctx \<Rightarrow> int" where
  "to_end c = int (length (cx_bytes c)) - int kSlopBytes"

text \<open>\<open>buffer_end_ - ptr\<close>, and the bytes that may be read from \<open>ptr\<close> on.\<close>

definition to_buffer_end :: "ctx \<Rightarrow> int" where
  "to_buffer_end c = to_end c - (if cx_first c then int kSlopBytes else 0)"

definition readable :: "ctx \<Rightarrow> BYTE list" where
  "readable c = take (nat (to_buffer_end c + int kSlopBytes)) (cx_bytes c)"

definition advance :: "nat \<Rightarrow> ctx \<Rightarrow> ctx" where
  "advance n c = c\<lparr>cx_bytes := drop n (cx_bytes c), cx_left := cx_left c - int n\<rparr>"

text \<open>InitFrom(flat): \<open>slop\<close> is what lies behind the message in the patch buffer.\<close>

definition InitFrom :: "BYTE list \<Rightarrow> BYTE list \<Rightarrow> int \<Rightarrow> ctx" where
  "InitFrom slop flat depth = \<lparr>cx_bytes = flat @ slop, cx_first = (kSlopBytes < length flat), cx_left = int (length flat),
     cx_depth = depth, cx_last_tag_minus_1 = 0\<rparr>"

definition EndedAtLimit :: "ctx \<Rightarrow> bool" where
  "EndedAtLimit c \<longleftrightarrow> cx_last_tag_minus_1 c = 0"

definition SetLastTag :: "uint32 \<Rightarrow> ctx \<Rightarrow> ctx" where
  "SetLastTag tag c = c\<lparr>cx_last_tag_minus_1 := tag - 1\<rparr>"

definition SetEndOfStream :: "ctx \<Rightarrow> ctx" where
  "SetEndOfStream c = c\<lparr>cx_last_tag_minus_1 := 1\<rparr>"

definition ConsumeEndGroup :: "uint32 \<Rightarrow> ctx \<Rightarrow> bool \<times> ctx" where
  "ConsumeEndGroup start_tag c = (cx_last_tag_minus_1 c = start_tag, c\<lparr>cx_last_tag_minus_1 := 0\<rparr>)"

definition DataAvailable :: "ctx \<Rightarrow> bool" where
  "DataAvailable c \<longleftrightarrow> 0 < to_buffer_end c + min 0 (cx_left c - to_buffer_end c)"

text \<open>NextBuffer on an array: from the array to the patch buffer, then the end of the stream.\<close>

definition NextBuffer :: "ctx \<Rightarrow> ctx option" where
  "NextBuffer c = (if \<not> cx_first c then None else Some (c\<lparr>cx_first := False\<rparr>))"

definition at_stream_end :: "ctx \<Rightarrow> (bool \<times> ctx) parsed" where
  "at_stream_end c = (if - to_buffer_end c \<noteq> 0 then Null else Parsed (True, SetEndOfStream c))"

text \<open>The loop of DoneFallback runs at most twice: the second NextBuffer is the end of the stream.\<close>

definition DoneFallback :: "ctx \<Rightarrow> (bool \<times> ctx) parsed" where
  "DoneFallback c =
     (if cx_left c < 0 then Null
      else (case NextBuffer c of
              None \<Rightarrow> at_stream_end c
            | Some c1 \<Rightarrow>
                if 0 \<le> - to_buffer_end c1
                then (case NextBuffer c1 of None \<Rightarrow> at_stream_end c1 | Some c2 \<Rightarrow> Parsed (False, c2))
                else Parsed (False, c1)))"

definition Done :: "ctx \<Rightarrow> (bool \<times> ctx) parsed" where
  "Done c =
     (if DataAvailable c then Parsed (False, c)
      else let overrun = - to_buffer_end c; limit = cx_left c - to_buffer_end c
           in if overrun = limit
              then (if 0 < overrun \<and> NextBuffer c = None then Null else Parsed (True, c))
              else DoneFallback c)"

definition ReadString :: "nat \<Rightarrow> ctx \<Rightarrow> (BYTE list \<times> ctx) parsed" where
  "ReadString sz c =
     (let chunk_size = nat (to_buffer_end c + int kSlopBytes)
      in if sz \<le> chunk_size then Parsed (take sz (cx_bytes c), advance sz c)
         else (case NextBuffer c of
                 None \<Rightarrow> Null
               | Some c1 \<Rightarrow>
                   if cx_left c - to_buffer_end c \<le> int kSlopBytes then Null
                   else let c2 = advance chunk_size c1; rest = sz - chunk_size
                        in if rest \<le> nat (to_buffer_end c2 + int kSlopBytes)
                           then Parsed (take chunk_size (cx_bytes c) @ take rest (cx_bytes c2), advance rest c2)
                           else Null))"

definition PushLimit :: "nat \<Rightarrow> ctx \<Rightarrow> int \<times> ctx" where
  "PushLimit limit c = (cx_left c - int limit, c\<lparr>cx_left := int limit\<rparr>)"

definition PopLimit :: "int \<Rightarrow> ctx \<Rightarrow> ctx parsed" where
  "PopLimit delta c = (if \<not> EndedAtLimit c then Null else Parsed (c\<lparr>cx_left := cx_left c + delta\<rparr>))"

section \<open>Nested messages and groups\<close>

definition ReadSizeAndPushLimitAndDepth :: "ctx \<Rightarrow> (int \<times> ctx) parsed" where
  "ReadSizeAndPushLimitAndDepth c =
     bind_parsed (ReadSize (readable c)) (\<lambda>(n, sz).
       let (old, c1) = PushLimit sz (advance n c); c2 = c1\<lparr>cx_depth := cx_depth c1 - 1\<rparr>
       in if cx_depth c2 < 0 then Null else Parsed (old, c2))"

definition ParseMessage :: "('m \<Rightarrow> ctx \<Rightarrow> ('m \<times> ctx) parsed) \<Rightarrow> 'm \<Rightarrow> ctx \<Rightarrow> ('m \<times> ctx) parsed" where
  "ParseMessage InternalParse m c =
     bind_parsed (ReadSizeAndPushLimitAndDepth c) (\<lambda>(old, c1).
       bind_parsed (InternalParse m c1) (\<lambda>(m', c2).
         bind_parsed (PopLimit old (c2\<lparr>cx_depth := cx_depth c2 + 1\<rparr>)) (\<lambda>c3. Parsed (m', c3))))"

definition ParseGroup :: "(ctx \<Rightarrow> ('m \<times> ctx) parsed) \<Rightarrow> uint32 \<Rightarrow> ctx \<Rightarrow> ('m \<times> ctx) parsed" where
  "ParseGroup InternalParse tag c =
     (let c1 = c\<lparr>cx_depth := cx_depth c - 1\<rparr>
      in if cx_depth c1 < 0 then Null
         else bind_parsed (InternalParse c1) (\<lambda>(m, c2).
                let (ok, c3) = ConsumeEndGroup tag (c2\<lparr>cx_depth := cx_depth c2 + 1\<rparr>)
                in if \<not> ok then Null else Parsed (m, c3)))"

section \<open>Unknown fields\<close>

datatype unknown_field =
    UF_Varint uint32 uint64
  | UF_Fixed32 uint32 uint32
  | UF_Fixed64 uint32 uint64
  | UF_LengthDelimited uint32 "BYTE list"
  | UF_Group uint32 "unknown_field list"

definition ParseLengthDelimited :: "uint32 \<Rightarrow> ctx \<Rightarrow> (unknown_field \<times> ctx) parsed" where
  "ParseLengthDelimited num c =
     bind_parsed (ReadSize (readable c)) (\<lambda>(n, sz).
       bind_parsed (ReadString sz (advance n c)) (\<lambda>(s, c1). Parsed (UF_LengthDelimited num s, c1)))"

definition FieldParser :: "(uint32 \<Rightarrow> ctx \<Rightarrow> (unknown_field \<times> ctx) parsed) \<Rightarrow> uint32 \<Rightarrow> ctx \<Rightarrow> (unknown_field \<times> ctx) parsed" where
  "FieldParser parse_group tag c =
     (let number = drop_bit 3 tag; wire_type = tag AND 7
      in if number = 0 then Null
         else if wire_type = 0 then
           bind_parsed (VarintParse (readable c)) (\<lambda>(n, v). Parsed (UF_Varint number v, advance n c))
         else if wire_type = 1 then
           bind_parsed (UnalignedLoad64 (readable c)) (\<lambda>v. Parsed (UF_Fixed64 number v, advance 8 c))
         else if wire_type = 2 then ParseLengthDelimited number c
         else if wire_type = 3 then parse_group number c
         else if wire_type = 4 then Abort
         else if wire_type = 5 then
           bind_parsed (UnalignedLoad32 (readable c)) (\<lambda>v. Parsed (UF_Fixed32 number v, advance 4 c))
         else Null)"

text \<open>The loop calls itself for the fields of a group, so both recursions spend the same fuel.\<close>

primrec WireFormatParser :: "nat \<Rightarrow> unknown_field list \<Rightarrow> ctx \<Rightarrow> (unknown_field list \<times> ctx) parsed" where
  "WireFormatParser 0 us c = Fuel"
| "WireFormatParser (Suc k) us c =
     bind_parsed (Done c) (\<lambda>(done, c1).
       if done then Parsed (us, c1)
       else bind_parsed (ReadTag (readable c1)) (\<lambda>(n, tag).
         let c2 = advance n c1
         in if tag = 0 \<or> tag AND 7 = 4 then Parsed (us, SetLastTag tag c2)
            else bind_parsed
                   (FieldParser (\<lambda>num c. bind_parsed (ParseGroup (WireFormatParser k []) (num * 8 + 3) c)
                                           (\<lambda>(g, c'). Parsed (UF_Group num g, c'))) tag c2)
                   (\<lambda>(u, c3). WireFormatParser k (us @ [u]) c3)))"

definition UnknownFieldParse :: "nat \<Rightarrow> uint32 \<Rightarrow> ctx \<Rightarrow> (unknown_field \<times> ctx) parsed" where
  "UnknownFieldParse k tag c =
     FieldParser (\<lambda>num c. bind_parsed (ParseGroup (WireFormatParser k []) (num * 8 + 3) c)
                            (\<lambda>(g, c'). Parsed (UF_Group num g, c'))) tag c"

section \<open>The loop of a generated parser\<close>

text \<open>
  \<open>field\<close> is the switch of the message: \<open>None\<close> is the jump to \<open>handle_unusual\<close>. Its first argument is
  fuel for what it calls; \<open>add\<close> appends an unknown field to the message.
\<close>

primrec message_loop :: "(nat \<Rightarrow> uint32 \<Rightarrow> 'm \<Rightarrow> ctx \<Rightarrow> ('m \<times> ctx) parsed option) \<Rightarrow> (unknown_field \<Rightarrow> 'm \<Rightarrow> 'm)
    \<Rightarrow> nat \<Rightarrow> 'm \<Rightarrow> ctx \<Rightarrow> ('m \<times> ctx) parsed" where
  "message_loop field add 0 m c = Fuel"
| "message_loop field add (Suc k) m c =
     bind_parsed (Done c) (\<lambda>(done, c1).
       if done then Parsed (m, c1)
       else bind_parsed (ReadTag (readable c1)) (\<lambda>(n, tag).
         let c2 = advance n c1
         in case field k tag m c2 of
              Some r \<Rightarrow> bind_parsed r (\<lambda>(m', c3). message_loop field add k m' c3)
            | None \<Rightarrow>
                if tag = 0 \<or> tag AND 7 = 4 then Parsed (m, SetLastTag tag c2)
                else bind_parsed (UnknownFieldParse k tag c2) (\<lambda>(u, c3). message_loop field add k (add u m) c3)))"

text \<open>MergeFromImpl on an array, with the default recursion limit of CodedInputStream.\<close>

definition default_recursion_limit :: int where "default_recursion_limit = 100"

definition MergeFromArray :: "BYTE list \<Rightarrow> (nat \<Rightarrow> 'm \<Rightarrow> ctx \<Rightarrow> ('m \<times> ctx) parsed) \<Rightarrow> BYTE list \<Rightarrow> 'm \<Rightarrow> 'm parsed" where
  "MergeFromArray slop InternalParse input m =
     bind_parsed (InternalParse (length input + kSlopBytes + 1) m (InitFrom slop input default_recursion_limit)) (\<lambda>(m', c).
       if EndedAtLimit c then Parsed m' else Null)"

section \<open>The parser never reads behind its buffers and always ends\<close>

text \<open>While the array itself is read, its last 16 bytes are still ahead.\<close>

definition ctx_ok :: "ctx \<Rightarrow> bool" where
  "ctx_ok c \<longleftrightarrow> (cx_first c \<longrightarrow> kSlopBytes \<le> length (cx_bytes c))"

text \<open>An outcome that is no fault and, when it is a success, has moved forward.\<close>

definition within :: "ctx \<Rightarrow> ('a \<times> ctx) parsed \<Rightarrow> bool" where
  "within c r \<longleftrightarrow> (case r of Parsed (_, c') \<Rightarrow> ctx_ok c' \<and> length (cx_bytes c') \<le> length (cx_bytes c) | Null \<Rightarrow> True | _ \<Rightarrow> False)"

lemma within_simps [simp]:
  "within c Null" "within c (Parsed (x, c')) \<longleftrightarrow> ctx_ok c' \<and> length (cx_bytes c') \<le> length (cx_bytes c)"
  "\<not> within c Overread" "\<not> within c Fuel" "\<not> within c Abort"
  by (simp_all add: within_def)

lemma within_bind:
  assumes "within c r" and "\<And>x c'. r = Parsed (x, c') \<Longrightarrow> ctx_ok c' \<Longrightarrow> length (cx_bytes c') \<le> length (cx_bytes c) \<Longrightarrow> within c' (f (x, c'))"
  shows "within c (bind_parsed r f)"
  using assms by (cases r) (auto simp: within_def split: parsed.splits)

lemma within_le: "within c' r \<Longrightarrow> length (cx_bytes c') \<le> length (cx_bytes c) \<Longrightarrow> within c r"
  by (auto simp: within_def split: parsed.splits)

lemma within_if: "(b \<Longrightarrow> within c x) \<Longrightarrow> (\<not> b \<Longrightarrow> within c y) \<Longrightarrow> within c (if b then x else y)"
  by simp

lemma within_advance: "within (advance n c) r \<Longrightarrow> within c r"
  by (erule within_le) (simp add: advance_def)

lemma length_readable: "ctx_ok c \<Longrightarrow> length (readable c) = length (cx_bytes c) - (if cx_first c then kSlopBytes else 0)"
  by (auto simp: ctx_ok_def readable_def to_buffer_end_def to_end_def kSlopBytes_def)

lemma advance_ok:
  assumes "ctx_ok c" and "n \<le> length (readable c)"
  shows "ctx_ok (advance n c)" and "length (cx_bytes (advance n c)) = length (cx_bytes c) - n"
    and "length (readable (advance n c)) = length (readable c) - n"
proof -
  show ok: "ctx_ok (advance n c)"
    using assms length_readable [OF assms(1)] by (auto simp: ctx_ok_def advance_def split: if_splits)
  show "length (cx_bytes (advance n c)) = length (cx_bytes c) - n" by (simp add: advance_def)
  show "length (readable (advance n c)) = length (readable c) - n"
    using length_readable [OF assms(1)] length_readable [OF ok] by (auto simp: advance_def)
qed

text \<open>When a field may begin, at least 17 bytes can be read.\<close>

lemma Done_cases:
  assumes "ctx_ok c"
  shows "Done c = Null \<or> (\<exists>c1. Done c = Parsed (True, c1) \<and> ctx_ok c1 \<and> cx_bytes c1 = cx_bytes c)
    \<or> (\<exists>c1. Done c = Parsed (False, c1) \<and> ctx_ok c1 \<and> cx_bytes c1 = cx_bytes c \<and> 17 \<le> length (readable c1))"
proof -
  have len: "length (readable c1) = length (cx_bytes c1) - (if cx_first c1 then 16 else 0)" if "ctx_ok c1" for c1
    using length_readable [OF that] by (simp add: kSlopBytes_def)
  have patch: "ctx_ok (c\<lparr>cx_first := False\<rparr>)" "ctx_ok (c\<lparr>cx_first := False, cx_last_tag_minus_1 := 1\<rparr>)" by (simp_all add: ctx_ok_def)
  have eos: "ctx_ok (c\<lparr>cx_last_tag_minus_1 := 1\<rparr>)" using assms by (simp add: ctx_ok_def)
  show ?thesis
    using assms len [OF assms] len [OF patch(1)] patch eos
    by (auto simp: Done_def DoneFallback_def NextBuffer_def at_stream_end_def SetEndOfStream_def DataAvailable_def Let_def
      to_buffer_end_def to_end_def kSlopBytes_def)
qed

lemma Done_within: "ctx_ok c \<Longrightarrow> within c (Done c)"
  using Done_cases [of c] by auto

lemma Done_bind_within:
  assumes "ctx_ok c" and "\<And>c1. ctx_ok c1 \<Longrightarrow> cx_bytes c1 = cx_bytes c \<Longrightarrow> within c1 (f (True, c1))"
    and "\<And>c1. ctx_ok c1 \<Longrightarrow> cx_bytes c1 = cx_bytes c \<Longrightarrow> 17 \<le> length (readable c1) \<Longrightarrow> within c1 (f (False, c1))"
  shows "within c (bind_parsed (Done c) f)"
proof -
  have "within c (f (True, c1))" if "ctx_ok c1" "cx_bytes c1 = cx_bytes c" for c1
    by (rule within_le [OF assms(2) [OF that]]) (simp add: that)
  moreover have "within c (f (False, c1))" if "ctx_ok c1" "cx_bytes c1 = cx_bytes c" "17 \<le> length (readable c1)" for c1
    by (rule within_le [OF assms(3) [OF that]]) (simp add: that)
  ultimately show ?thesis using Done_cases [OF assms(1)] by auto
qed

lemma ReadString_within: "ctx_ok c \<Longrightarrow> within c (ReadString n c)"
proof -
  assume ok: "ctx_ok c"
  have "ctx_ok (advance (nat (to_buffer_end c + int kSlopBytes)) (c\<lparr>cx_first := False\<rparr>))" by (simp add: ctx_ok_def advance_def)
  then show ?thesis using ok
    by (auto simp: ReadString_def NextBuffer_def Let_def advance_def ctx_ok_def to_buffer_end_def to_end_def kSlopBytes_def split: option.splits)
qed

lemma SetLastTag_ok [simp]: "ctx_ok (SetLastTag t c) = ctx_ok c" "cx_bytes (SetLastTag t c) = cx_bytes c"
  by (simp_all add: SetLastTag_def ctx_ok_def)

lemma ctx_upd_ok [simp]: "ctx_ok (c\<lparr>cx_left := l\<rparr>) = ctx_ok c" "ctx_ok (c\<lparr>cx_depth := d\<rparr>) = ctx_ok c"
    "ctx_ok (c\<lparr>cx_last_tag_minus_1 := t\<rparr>) = ctx_ok c"
  by (simp_all add: ctx_ok_def)

text \<open>A reader that takes bytes, and the step it makes.\<close>

lemma reader_within:
  assumes "ctx_ok c" and "takes m r" and "m \<le> length (readable c)"
    and "\<And>n x. r = Parsed (n, x) \<Longrightarrow> 0 < n \<Longrightarrow> n \<le> m \<Longrightarrow> ctx_ok (advance n c) \<Longrightarrow> length (cx_bytes (advance n c)) = length (cx_bytes c) - n
      \<Longrightarrow> length (readable (advance n c)) = length (readable c) - n \<Longrightarrow> within c (f (n, x))"
  shows "within c (bind_parsed r f)"
  using assms(2)
proof (rule takesE)
  fix n x assume r: "r = Parsed (n, x)" "0 < n" "n \<le> m"
  then have "n \<le> length (readable c)" using assms(3) by simp
  then show ?thesis using assms(4) [OF r] advance_ok [OF assms(1)] by (simp add: r(1))
qed simp

lemma ReadSizeAndPushLimitAndDepth_within:
  assumes "ctx_ok c" and "5 \<le> length (readable c)"
  shows "within c (ReadSizeAndPushLimitAndDepth c)"
  unfolding ReadSizeAndPushLimitAndDepth_def
  by (rule reader_within [OF assms(1) ReadSize_takes [OF assms(2)] assms(2)]) (auto simp: PushLimit_def Let_def)

lemma ParseMessage_within:
  assumes "ctx_ok c" and "5 \<le> length (readable c)"
    and "\<And>m c1. ctx_ok c1 \<Longrightarrow> length (cx_bytes c1) \<le> length (cx_bytes c) \<Longrightarrow> within c1 (parse m c1)"
  shows "within c (ParseMessage parse m c)"
  unfolding ParseMessage_def
proof (rule within_bind [OF ReadSizeAndPushLimitAndDepth_within [OF assms(1,2)]], clarify)
  fix old c1 assume "ctx_ok c1" "length (cx_bytes c1) \<le> length (cx_bytes c)"
  then show "within c1 (bind_parsed (parse m c1) (\<lambda>(m', c2). bind_parsed (PopLimit old (c2\<lparr>cx_depth := cx_depth c2 + 1\<rparr>)) (\<lambda>c3. Parsed (m', c3))))"
    by (intro within_bind assms(3)) (auto simp: PopLimit_def EndedAtLimit_def)
qed

lemma ParseGroup_within:
  assumes "ctx_ok c" and "\<And>c1. ctx_ok c1 \<Longrightarrow> length (cx_bytes c1) \<le> length (cx_bytes c) \<Longrightarrow> within c1 (parse c1)"
  shows "within c (ParseGroup parse tag c)"
proof -
  have "within (c\<lparr>cx_depth := cx_depth c - 1\<rparr>) (parse (c\<lparr>cx_depth := cx_depth c - 1\<rparr>))" using assms by simp
  then have "within (c\<lparr>cx_depth := cx_depth c - 1\<rparr>) (bind_parsed (parse (c\<lparr>cx_depth := cx_depth c - 1\<rparr>)) (\<lambda>(m, c2).
      let (ok, c3) = ConsumeEndGroup tag (c2\<lparr>cx_depth := cx_depth c2 + 1\<rparr>) in if \<not> ok then Null else Parsed (m, c3)))"
    by (rule within_bind) (auto simp: ConsumeEndGroup_def Let_def)
  then show ?thesis by (auto simp: ParseGroup_def Let_def elim: within_le)
qed

lemma FieldParser_within:
  assumes ok: "ctx_ok c" and len: "12 \<le> length (readable c)" and wt: "tag AND 7 \<noteq> 4"
    and grp: "\<And>num. within c (parse_group num c)"
  shows "within c (FieldParser parse_group tag c)"
proof -
  have v: "within c (bind_parsed (VarintParse (readable c)) (\<lambda>(n, v). Parsed (UF_Varint num v, advance n c)))" for num
    by (rule reader_within [OF ok VarintParse_takes]) (use len in simp_all)
  have f8: "within c (bind_parsed (UnalignedLoad64 (readable c)) (\<lambda>v. Parsed (UF_Fixed64 num v, advance 8 c)))" for num
    using len advance_ok [OF ok, of 8] by (simp add: UnalignedLoad64_def)
  have f4: "within c (bind_parsed (UnalignedLoad32 (readable c)) (\<lambda>v. Parsed (UF_Fixed32 num v, advance 4 c)))" for num
    using len advance_ok [OF ok, of 4] by (simp add: UnalignedLoad32_def)
  have ld: "within c (ParseLengthDelimited num c)" for num
    unfolding ParseLengthDelimited_def
  proof (rule reader_within [OF ok ReadSize_takes])
    fix n sz assume "ctx_ok (advance n c)" "length (cx_bytes (advance n c)) = length (cx_bytes c) - n"
    then have "within c (bind_parsed (ReadString sz (advance n c)) (\<lambda>(s, c1). Parsed (UF_LengthDelimited num s, c1)))"
      by (intro within_advance [of n c] within_bind [OF ReadString_within]) simp_all
    then show "within c (case (n, sz) of (n, sz) \<Rightarrow> bind_parsed (ReadString sz (advance n c)) (\<lambda>(s, c1). Parsed (UF_LengthDelimited num s, c1)))"
      by simp
  qed (use len in simp_all)
  show ?thesis unfolding FieldParser_def Let_def
    by (intro within_if v f8 f4 ld grp within_simps(1)) (erule notE [OF wt])
qed

lemma WireFormatParser_within: "ctx_ok c \<Longrightarrow> length (cx_bytes c) < k \<Longrightarrow> within c (WireFormatParser k us c)"
proof (induction k arbitrary: us c)
  case (Suc k)
  let ?grp = "\<lambda>num c. bind_parsed (ParseGroup (WireFormatParser k []) (num * 8 + 3) c) (\<lambda>(g, c'). Parsed (UF_Group num g, c'))"
  have step: "within c1 (bind_parsed (ReadTag (readable c1)) (\<lambda>(n, tag). let c2 = advance n c1
      in if tag = 0 \<or> tag AND 7 = 4 then Parsed (us, SetLastTag tag c2)
         else bind_parsed (FieldParser ?grp tag c2) (\<lambda>(u, c3). WireFormatParser k (us @ [u]) c3)))"
    if c1: "ctx_ok c1" "cx_bytes c1 = cx_bytes c" "17 \<le> length (readable c1)" for c1
  proof (rule reader_within [OF c1(1) ReadTag_takes])
    fix n tag
    let ?c2 = "advance n c1"
    assume n: "0 < n" "n \<le> 5" and c2: "ctx_ok ?c2" "length (cx_bytes ?c2) = length (cx_bytes c1) - n"
      "length (readable ?c2) = length (readable c1) - n"
    have less: "length (cx_bytes ?c2) < k" using Suc.prems(2) c1 c2 n length_readable [OF c1(1)] by (simp split: if_splits)
    have grp: "within ?c2 (?grp num ?c2)" for num
      by (rule within_bind [OF ParseGroup_within [OF c2(1)]]) (use less Suc.IH in auto)
    have "within ?c2 (bind_parsed (FieldParser ?grp tag ?c2) (\<lambda>(u, c3). WireFormatParser k (us @ [u]) c3))" if "tag AND 7 \<noteq> 4"
    proof (rule within_bind)
      show "within ?c2 (FieldParser ?grp tag ?c2)"
        by (rule FieldParser_within [OF c2(1) _ that]) (use c2(3) c1(3) n grp in simp_all)
    qed (use less Suc.IH in auto)
    then show "within c1 (case (n, tag) of (n, tag) \<Rightarrow> let c2 = advance n c1
      in if tag = 0 \<or> tag AND 7 = 4 then Parsed (us, SetLastTag tag c2)
         else bind_parsed (FieldParser ?grp tag c2) (\<lambda>(u, c3). WireFormatParser k (us @ [u]) c3))"
      using c2 by (auto simp: Let_def dest: within_advance)
  qed (use c1 in simp_all)
  show ?case unfolding WireFormatParser.simps by (rule Done_bind_within [OF Suc.prems(1)]) (simp_all add: step)
qed simp

lemma UnknownFieldParse_within:
  assumes ok: "ctx_ok c" and len: "12 \<le> length (readable c)" and wt: "tag AND 7 \<noteq> 4" and fuel: "length (cx_bytes c) < k"
  shows "within c (UnknownFieldParse k tag c)"
  unfolding UnknownFieldParse_def
proof (rule FieldParser_within [OF ok len wt])
  fix num
  show "within c (bind_parsed (ParseGroup (WireFormatParser k []) (num * 8 + 3) c) (\<lambda>(g, c'). Parsed (UF_Group num g, c')))"
    by (rule within_bind [OF ParseGroup_within [OF ok]]) (use fuel WireFormatParser_within in auto)
qed

text \<open>The loop of a message is as safe as its switch.\<close>

definition safe_field :: "(nat \<Rightarrow> uint32 \<Rightarrow> 'm \<Rightarrow> ctx \<Rightarrow> ('m \<times> ctx) parsed option) \<Rightarrow> bool" where
  "safe_field field \<longleftrightarrow> (\<forall>k tag m c r. ctx_ok c \<longrightarrow> 12 \<le> length (readable c) \<longrightarrow> length (cx_bytes c) < k
     \<longrightarrow> field k tag m c = Some r \<longrightarrow> within c r)"

lemma message_loop_within:
  assumes "safe_field field"
  shows "ctx_ok c \<Longrightarrow> length (cx_bytes c) < k \<Longrightarrow> within c (message_loop field add k m c)"
proof (induction k arbitrary: m c)
  case (Suc k)
  let ?rest = "\<lambda>c1 (n, tag). let c2 = advance n c1
      in case field k tag m c2 of
           Some r \<Rightarrow> bind_parsed r (\<lambda>(m', c3). message_loop field add k m' c3)
         | None \<Rightarrow> if tag = 0 \<or> tag AND 7 = 4 then Parsed (m, SetLastTag tag c2)
             else bind_parsed (UnknownFieldParse k tag c2) (\<lambda>(u, c3). message_loop field add k (add u m) c3)"
  have step: "within c1 (bind_parsed (ReadTag (readable c1)) (?rest c1))"
    if c1: "ctx_ok c1" "cx_bytes c1 = cx_bytes c" "17 \<le> length (readable c1)" for c1
  proof (rule reader_within [OF c1(1) ReadTag_takes])
    fix n tag
    let ?c2 = "advance n c1"
    assume n: "0 < n" "n \<le> 5" and c2: "ctx_ok ?c2" "length (cx_bytes ?c2) = length (cx_bytes c1) - n"
      "length (readable ?c2) = length (readable c1) - n"
    have less: "length (cx_bytes ?c2) < k" using Suc.prems(2) c1 c2 n length_readable [OF c1(1)] by (simp split: if_splits)
    have twelve: "12 \<le> length (readable ?c2)" using c2(3) c1(3) n by simp
    have known: "within ?c2 (bind_parsed r (\<lambda>(m', c3). message_loop field add k m' c3))" if "field k tag m ?c2 = Some r" for r
    proof (rule within_bind)
      show "within ?c2 r" using assms c2(1) twelve less that unfolding safe_field_def by blast
    qed (use less Suc.IH in auto)
    have unknown: "within ?c2 (bind_parsed (UnknownFieldParse k tag ?c2) (\<lambda>(u, c3). message_loop field add k (add u m) c3))" if "tag AND 7 \<noteq> 4"
      by (rule within_bind [OF UnknownFieldParse_within [OF c2(1) twelve that less]]) (use less Suc.IH in auto)
    show "within c1 (?rest c1 (n, tag))"
    proof (cases "field k tag m ?c2")
      case None
      then show ?thesis using unknown c2 by (auto simp: Let_def dest: within_advance)
    next
      case (Some r)
      have "within c1 (bind_parsed r (\<lambda>(m', c3). message_loop field add k m' c3))"
        using known [OF Some] by (rule within_advance)
      then show ?thesis by (simp add: Let_def Some)
    qed
  qed (use c1 in simp_all)
  show ?case unfolding message_loop.simps by (rule Done_bind_within [OF Suc.prems(1)]) (simp_all add: step)
qed simp

end
