(* ===== verification/ProtoCodec.thy ===== *)
theory ProtoCodec imports ProtoStream begin

text \<open>
  The output side of the protobuf runtime (io/coded_stream.h, wire_format_lite.h, the unknown fields
  of wire_format.cc) and the proof that the parser reads it back: one predicate, \<open>parses_as\<close>, says
  that a run of bytes takes a message parser from one message to another, wherever the bytes stand in
  the stream, and is composed field by field.
\<close>

section \<open>Writing fields\<close>

function UnsafeWriteSize :: "uint32 \<Rightarrow> BYTE list" where
  "UnsafeWriteSize v =
     (if 0x80 \<le> unat v then ucast (v OR 0x80) # UnsafeWriteSize (drop_bit 7 v)
      else [ucast v])"
  by pat_completeness auto
termination
proof (relation "measure unat")
  fix v :: uint32 assume "0x80 \<le> unat v"
  then show "(drop_bit 7 v, v) \<in> measure unat" by (simp add: unat_drop_7)
qed simp

declare UnsafeWriteSize.simps [simp del]

definition WIRETYPE_VARINT :: uint32 where "WIRETYPE_VARINT = 0"
definition WIRETYPE_FIXED64 :: uint32 where "WIRETYPE_FIXED64 = 1"
definition WIRETYPE_LENGTH_DELIMITED :: uint32 where "WIRETYPE_LENGTH_DELIMITED = 2"
definition WIRETYPE_START_GROUP :: uint32 where "WIRETYPE_START_GROUP = 3"
definition WIRETYPE_END_GROUP :: uint32 where "WIRETYPE_END_GROUP = 4"
definition WIRETYPE_FIXED32 :: uint32 where "WIRETYPE_FIXED32 = 5"

definition WriteTagToArray :: "uint32 \<Rightarrow> uint32 \<Rightarrow> BYTE list" where
  "WriteTagToArray field_number type = UnsafeVarint (MakeTag field_number type)"

definition WriteUInt64ToArray :: "uint32 \<Rightarrow> uint64 \<Rightarrow> BYTE list" where
  "WriteUInt64ToArray num v = WriteTagToArray num WIRETYPE_VARINT @ UnsafeVarint v"

definition WriteInt64ToArray :: "uint32 \<Rightarrow> uint64 \<Rightarrow> BYTE list" where
  "WriteInt64ToArray num v = WriteTagToArray num WIRETYPE_VARINT @ UnsafeVarint v"

definition WriteBoolToArray :: "uint32 \<Rightarrow> bool \<Rightarrow> BYTE list" where
  "WriteBoolToArray num b = WriteTagToArray num WIRETYPE_VARINT @ UnsafeVarint (if b then 1 else 0 :: uint32)"

definition WriteFixed32ToArray :: "uint32 \<Rightarrow> uint32 \<Rightarrow> BYTE list" where
  "WriteFixed32ToArray num v = WriteTagToArray num WIRETYPE_FIXED32 @ WriteLittleEndian32ToArray v"

definition WriteFixed64ToArray :: "uint32 \<Rightarrow> uint64 \<Rightarrow> BYTE list" where
  "WriteFixed64ToArray num v = WriteTagToArray num WIRETYPE_FIXED64 @ WriteLittleEndian64ToArray v"

text \<open>A float is written as its 32 raw bits.\<close>

definition WriteFloatToArray :: "uint32 \<Rightarrow> uint32 \<Rightarrow> BYTE list" where
  "WriteFloatToArray num v = WriteTagToArray num WIRETYPE_FIXED32 @ WriteLittleEndian32ToArray v"

definition WriteLengthDelim :: "uint32 \<Rightarrow> uint32 \<Rightarrow> BYTE list" where
  "WriteLengthDelim num sz = UnsafeVarint (push_bit 3 num OR 2) @ UnsafeWriteSize sz"

definition WriteStringOutline :: "uint32 \<Rightarrow> BYTE list \<Rightarrow> BYTE list" where
  "WriteStringOutline num s = WriteLengthDelim num (word_of_nat (length s)) @ s"

text \<open>\<open>fits\<close>: whether the string ends before the slop region of the output buffer does.\<close>

definition WriteString :: "bool \<Rightarrow> uint32 \<Rightarrow> BYTE list \<Rightarrow> BYTE list" where
  "WriteString fits num s =
     (if 128 \<le> length s \<or> \<not> fits then WriteStringOutline num s
      else UnsafeVarint (push_bit 3 num OR 2) @ [word_of_nat (length s)] @ s)"

primrec SerializeUnknownField :: "unknown_field \<Rightarrow> BYTE list" where
  "SerializeUnknownField (UF_Varint num v) = WriteUInt64ToArray num v"
| "SerializeUnknownField (UF_Fixed32 num v) = WriteFixed32ToArray num v"
| "SerializeUnknownField (UF_Fixed64 num v) = WriteFixed64ToArray num v"
| "SerializeUnknownField (UF_LengthDelimited num s) = WriteString True num s"
| "SerializeUnknownField (UF_Group num us) =
     WriteTagToArray num WIRETYPE_START_GROUP @ concat (map SerializeUnknownField us) @ WriteTagToArray num WIRETYPE_END_GROUP"

definition InternalSerializeUnknownFieldsToArray :: "unknown_field list \<Rightarrow> BYTE list" where
  "InternalSerializeUnknownFieldsToArray us = concat (map SerializeUnknownField us)"

primrec UnknownFieldSize :: "unknown_field \<Rightarrow> nat" where
  "UnknownFieldSize (UF_Varint num v) = VarintSize32 (MakeTag num WIRETYPE_VARINT) + VarintSize64 v"
| "UnknownFieldSize (UF_Fixed32 num v) = VarintSize32 (MakeTag num WIRETYPE_FIXED32) + 4"
| "UnknownFieldSize (UF_Fixed64 num v) = VarintSize32 (MakeTag num WIRETYPE_FIXED64) + 8"
| "UnknownFieldSize (UF_LengthDelimited num s) =
     VarintSize32 (MakeTag num WIRETYPE_LENGTH_DELIMITED) + VarintSize32 (word_of_nat (length s)) + length s"
| "UnknownFieldSize (UF_Group num us) =
     VarintSize32 (MakeTag num WIRETYPE_START_GROUP) + sum_list (map UnknownFieldSize us) + VarintSize32 (MakeTag num WIRETYPE_END_GROUP)"

definition ComputeUnknownFieldsSize :: "unknown_field list \<Rightarrow> nat" where
  "ComputeUnknownFieldsSize us = sum_list (map UnknownFieldSize us)"

lemma UnsafeWriteSize_varint: "UnsafeWriteSize v = UnsafeVarint v"
proof (induction v rule: UnsafeWriteSize.induct)
  case (1 v)
  have "(ucast (v OR 0x80) :: BYTE) = ucast v OR 0x80" by (intro bit_word_eqI) (auto simp: bit_simps)
  then show ?case using 1 by (simp add: UnsafeWriteSize.simps [of v] UnsafeVarint.simps [of v])
qed

lemma WriteString_eq: "WriteString fits num s = WriteTagToArray num WIRETYPE_LENGTH_DELIMITED @ UnsafeVarint (word_of_nat (length s) :: uint32) @ s"
proof (cases "length s < 128")
  case True
  then have "unat (word_of_nat (length s) :: uint32) = length s" by (simp add: unat_of_nat take_bit_nat_eq_self)
  moreover have "(ucast (word_of_nat (length s) :: uint32) :: BYTE) = word_of_nat (length s)"
    by (rule bit_word_eqI) (simp add: bit_simps)
  ultimately show ?thesis using True
    by (simp add: WriteString_def WriteStringOutline_def WriteLengthDelim_def UnsafeWriteSize_varint WriteTagToArray_def MakeTag_def
      WIRETYPE_LENGTH_DELIMITED_def UnsafeVarint_last)
qed (simp add: WriteString_def WriteStringOutline_def WriteLengthDelim_def UnsafeWriteSize_varint WriteTagToArray_def MakeTag_def
      WIRETYPE_LENGTH_DELIMITED_def)

lemma length_WriteTag: "length (WriteTagToArray num wt) = VarintSize32 (MakeTag num wt)"
  by (simp add: WriteTagToArray_def VarintSize32_length)

text \<open>The size of the unknown fields is the number of bytes they are written in.\<close>

lemma UnknownFieldSize_length: "UnknownFieldSize u = length (SerializeUnknownField u)"
proof (induction u)
  case (UF_Group num us)
  then have "sum_list (map UnknownFieldSize us) = length (concat (map SerializeUnknownField us))"
    by (simp add: length_concat comp_def cong: map_cong)
  then show ?case by (simp add: length_WriteTag)
qed (simp_all add: WriteUInt64ToArray_def WriteFixed32ToArray_def WriteFixed64ToArray_def WriteString_eq length_WriteTag
    VarintSize32_length VarintSize64_length)

theorem ComputeUnknownFieldsSize_length: "ComputeUnknownFieldsSize us = length (InternalSerializeUnknownFieldsToArray us)"
  by (simp add: ComputeUnknownFieldsSize_def InternalSerializeUnknownFieldsToArray_def length_concat comp_def UnknownFieldSize_length cong: map_cong)

section \<open>Moving through the stream\<close>

text \<open>\<open>c'\<close> is \<open>c\<close> after the bytes \<open>s\<close>; on the way the parser may have flipped to the patch buffer.\<close>

definition consumed :: "BYTE list \<Rightarrow> ctx \<Rightarrow> ctx \<Rightarrow> bool" where
  "consumed s c c' \<longleftrightarrow> cx_bytes c = s @ cx_bytes c' \<and> cx_left c' = cx_left c - int (length s) \<and> cx_depth c' = cx_depth c
     \<and> cx_last_tag_minus_1 c' = cx_last_tag_minus_1 c \<and> ctx_ok c'"

text \<open>At least \<open>n\<close> bytes are left within the current limit and within the stream.\<close>

definition room :: "nat \<Rightarrow> ctx \<Rightarrow> bool" where
  "room n c \<longleftrightarrow> ctx_ok c \<and> int n \<le> cx_left c \<and> int n \<le> to_end c"

lemma consumed_refl [simp]: "consumed [] c c \<longleftrightarrow> ctx_ok c"
  by (simp add: consumed_def)

lemma consumed_trans: "consumed s c c' \<Longrightarrow> consumed t c' c'' \<Longrightarrow> consumed (s @ t) c c''"
  by (simp add: consumed_def)

lemma consumed_room: "consumed s c c' \<Longrightarrow> room (length s + n) c \<Longrightarrow> room n c'"
  by (auto simp: consumed_def room_def to_end_def)

lemma room_le: "room n c \<Longrightarrow> m \<le> n \<Longrightarrow> room m c"
  by (auto simp: room_def)

lemma readable_prefix:
  assumes "cx_bytes c = s @ t" and "length s \<le> length (readable c)"
  shows "\<exists>u. readable c = s @ u"
  using assms by (auto simp: readable_def)

lemma advance_consumed:
  assumes "ctx_ok c" and "cx_bytes c = s @ t" and "length s \<le> length (readable c)"
  shows "consumed s c (advance (length s) c)" and "cx_bytes (advance (length s) c) = t"
  using assms(2) advance_ok(1) [OF assms(1,3)] by (simp_all add: consumed_def advance_def)

lemma Done_more:
  assumes "room n c" and "0 < n"
  shows "\<exists>c1. Done c = Parsed (False, c1) \<and> consumed [] c c1 \<and> 17 \<le> length (readable c1)"
proof -
  have ok: "ctx_ok c" "0 < cx_left c" "0 < to_end c" using assms by (auto simp: room_def)
  show ?thesis
  proof (cases "cx_first c \<and> to_end c \<le> 16")
    case False
    then have "0 < to_buffer_end c" using ok(3) by (auto simp: to_buffer_end_def kSlopBytes_def)
    then have "DataAvailable c" "17 \<le> length (readable c)"
      using ok length_readable [OF ok(1)] by (auto simp: DataAvailable_def to_buffer_end_def to_end_def kSlopBytes_def)
    then show ?thesis using ok(1) by (simp add: Done_def)
  next
    case True
    let ?c = "c\<lparr>cx_first := False\<rparr>"
    have okc: "ctx_ok ?c" by (simp add: ctx_ok_def)
    have e: "to_buffer_end c \<le> 0" "to_buffer_end ?c = to_end c" using True by (simp_all add: to_buffer_end_def kSlopBytes_def to_end_def)
    then have "Done c = Parsed (False, ?c)"
      using True ok by (auto simp: Done_def DoneFallback_def NextBuffer_def DataAvailable_def Let_def)
    moreover have "17 \<le> length (readable ?c)" using length_readable [OF okc] ok(3) by (simp add: to_end_def kSlopBytes_def)
    ultimately show ?thesis using okc by (auto simp: consumed_def)
  qed
qed

lemma Done_limit:
  assumes "room 0 c" and "cx_left c = 0"
  shows "Done c = Parsed (True, c)"
  using assms by (auto simp: room_def Done_def NextBuffer_def DataAvailable_def Let_def to_buffer_end_def)

section \<open>Runs of fields\<close>

text \<open>
  \<open>s\<close> takes the parser from \<open>m\<close> to \<open>m'\<close>, wherever it stands: the loop passes over it with fuel to
  spare. \<open>d\<close> is the depth the run needs.
\<close>

definition parses_as :: "(nat \<Rightarrow> uint32 \<Rightarrow> 'm \<Rightarrow> ctx \<Rightarrow> ('m \<times> ctx) parsed option) \<Rightarrow> (unknown_field \<Rightarrow> 'm \<Rightarrow> 'm)
    \<Rightarrow> nat \<Rightarrow> BYTE list \<Rightarrow> 'm \<Rightarrow> 'm \<Rightarrow> bool" where
  "parses_as field add d s m m' \<longleftrightarrow> (\<forall>k c rest. cx_bytes c = s @ rest \<longrightarrow> room (length s) c \<longrightarrow> int d \<le> cx_depth c
     \<longrightarrow> cx_last_tag_minus_1 c = 0 \<longrightarrow> length (cx_bytes c) < k
     \<longrightarrow> (\<exists>k' c'. message_loop field add k m c = message_loop field add k' m' c' \<and> consumed s c c' \<and> length (cx_bytes c') < k'))"

lemma parses_asD:
  "parses_as field add d s m m' \<Longrightarrow> cx_bytes c = s @ rest \<Longrightarrow> room (length s) c \<Longrightarrow> int d \<le> cx_depth c \<Longrightarrow> cx_last_tag_minus_1 c = 0
   \<Longrightarrow> length (cx_bytes c) < k
   \<Longrightarrow> \<exists>k' c'. message_loop field add k m c = message_loop field add k' m' c' \<and> consumed s c c' \<and> length (cx_bytes c') < k'"
  unfolding parses_as_def by blast

lemma parses_as_empty [simp]: "parses_as field add d [] m m"
  unfolding parses_as_def
proof (intro allI impI)
  fix k :: nat and c rest assume "room (length []) c" "length (cx_bytes c) < k"
  then show "\<exists>k' c'. message_loop field add k m c = message_loop field add k' m c' \<and> consumed [] c c' \<and> length (cx_bytes c') < k'"
    by (intro exI [of _ k] exI [of _ c]) (simp add: room_def)
qed

lemma parses_as_append:
  assumes "parses_as field add d s m m1" and "parses_as field add d' t m1 m2"
  shows "parses_as field add (max d d') (s @ t) m m2"
  unfolding parses_as_def
proof (intro allI impI)
  fix k c rest
  assume c: "cx_bytes c = (s @ t) @ rest" "room (length (s @ t)) c" "int (max d d') \<le> cx_depth c" "cx_last_tag_minus_1 c = 0" "length (cx_bytes c) < k"
  have d: "int d \<le> cx_depth c" "int d' \<le> cx_depth c" using c(3) by (simp_all add: of_nat_max)
  have "room (length s) c" by (rule room_le [OF c(2)]) simp
  then obtain k1 c1 where 1: "message_loop field add k m c = message_loop field add k1 m1 c1" "consumed s c c1" "length (cx_bytes c1) < k1"
    using parses_asD [OF assms(1), of c "t @ rest" k] c d by auto
  have "room (length t) c1" using consumed_room [OF 1(2)] c(2) by simp
  moreover have "cx_bytes c1 = t @ rest" "cx_depth c1 = cx_depth c" "cx_last_tag_minus_1 c1 = 0" using 1(2) c(1,4) by (simp_all add: consumed_def)
  ultimately obtain k2 c2 where 2: "message_loop field add k1 m1 c1 = message_loop field add k2 m2 c2" "consumed t c1 c2" "length (cx_bytes c2) < k2"
    using parses_asD [OF assms(2), of c1 rest k1] 1(3) d by auto
  then show "\<exists>k' c'. message_loop field add k m c = message_loop field add k' m2 c' \<and> consumed (s @ t) c c' \<and> length (cx_bytes c') < k'"
    using 1(1) consumed_trans [OF 1(2) 2(2)] by metis
qed

lemma parses_as_depth: "parses_as field add d s m m' \<Longrightarrow> d \<le> d' \<Longrightarrow> parses_as field add d' s m m'"
  unfolding parses_as_def by fastforce

lemma parses_as_append_same:
  "parses_as field add d s m m1 \<Longrightarrow> parses_as field add d t m1 m2 \<Longrightarrow> parses_as field add d (s @ t) m m2"
  using parses_as_append [of field add d s m m1 d t m2] by simp

text \<open>One field: a tag, then bytes that the switch or the parser of unknown fields takes.\<close>

definition field_takes :: "(ctx \<Rightarrow> ('a \<times> ctx) parsed) \<Rightarrow> nat \<Rightarrow> BYTE list \<Rightarrow> 'a \<Rightarrow> bool" where
  "field_takes parse d p x \<longleftrightarrow> (\<forall>c rest. cx_bytes c = p @ rest \<longrightarrow> room (length p) c \<longrightarrow> 12 \<le> length (readable c) \<longrightarrow> int d \<le> cx_depth c
     \<longrightarrow> cx_last_tag_minus_1 c = 0 \<longrightarrow> (\<exists>c'. parse c = Parsed (x, c') \<and> consumed p c c'))"

text \<open>The same for parsers that are given fuel for what is left of the stream.\<close>

definition fueled_takes :: "(nat \<Rightarrow> ctx \<Rightarrow> ('a \<times> ctx) parsed) \<Rightarrow> nat \<Rightarrow> BYTE list \<Rightarrow> 'a \<Rightarrow> bool" where
  "fueled_takes parse d p x \<longleftrightarrow> (\<forall>k c rest. cx_bytes c = p @ rest \<longrightarrow> room (length p) c \<longrightarrow> 12 \<le> length (readable c) \<longrightarrow> int d \<le> cx_depth c
     \<longrightarrow> cx_last_tag_minus_1 c = 0 \<longrightarrow> length (cx_bytes c) < k \<longrightarrow> (\<exists>c'. parse k c = Parsed (x, c') \<and> consumed p c c'))"

lemma read_tag:
  assumes "cx_bytes c = UnsafeVarint tag @ rest" and "ctx_ok c" and "17 \<le> length (readable c)"
  shows "\<exists>c2. bind_parsed (ReadTag (readable c)) f = f (length (UnsafeVarint tag), tag) \<and> c2 = advance (length (UnsafeVarint tag)) c
    \<and> consumed (UnsafeVarint tag) c c2 \<and> cx_bytes c2 = rest \<and> 12 \<le> length (readable c2) \<and> length (cx_bytes c2) < length (cx_bytes c)"
proof -
  have len: "length (UnsafeVarint tag) \<le> 5" "0 < length (UnsafeVarint tag)" using length_UnsafeVarint_32 by auto
  then obtain u where "readable c = UnsafeVarint tag @ u" using readable_prefix [OF assms(1)] assms(3) by auto
  then show ?thesis using ReadTag_write [of tag u] advance_consumed [OF assms(2,1)] advance_ok(3) [OF assms(2), of "length (UnsafeVarint tag)"] len assms(1,3)
    by auto
qed

lemma parses_as_field:
  assumes "(\<exists>h. (\<forall>k c. field k tag m c = Some (h k c)) \<and> fueled_takes h d p m')
    \<or> ((\<forall>k c. field k tag m c = None) \<and> tag \<noteq> 0 \<and> tag AND 7 \<noteq> 4 \<and> (\<exists>u. fueled_takes (\<lambda>k. UnknownFieldParse k tag) d p u \<and> m' = add u m))"
  shows "parses_as field add d (UnsafeVarint tag @ p) m m'"
  unfolding parses_as_def
proof (intro allI impI)
  fix k c rest
  assume c: "cx_bytes c = (UnsafeVarint tag @ p) @ rest" "room (length (UnsafeVarint tag @ p)) c" "int d \<le> cx_depth c"
    "cx_last_tag_minus_1 c = 0" "length (cx_bytes c) < k"
  obtain k0 where k: "k = Suc k0" using c(5) by (cases k) auto
  have "0 < length (UnsafeVarint tag @ p)" by simp
  then obtain c1 where c1: "Done c = Parsed (False, c1)" "consumed [] c c1" "17 \<le> length (readable c1)" using Done_more [OF c(2)] by blast
  have b1: "cx_bytes c1 = UnsafeVarint tag @ p @ rest" "ctx_ok c1" using c1(2) c(1) by (simp_all add: consumed_def)
  let ?c2 = "advance (length (UnsafeVarint tag)) c1"
  have tagged: "bind_parsed (ReadTag (readable c1)) f = f (length (UnsafeVarint tag), tag)" for f :: "nat \<times> uint32 \<Rightarrow> ('m \<times> ctx) parsed"
    using read_tag [OF b1 c1(3)] by blast
  have c2: "consumed (UnsafeVarint tag) c1 ?c2" "cx_bytes ?c2 = p @ rest" "12 \<le> length (readable ?c2)" "length (cx_bytes ?c2) < length (cx_bytes c1)"
    using read_tag [OF b1 c1(3)] by blast+
  have to2: "consumed (UnsafeVarint tag) c ?c2" using consumed_trans [OF c1(2) c2(1)] by simp
  have r2: "room (length p) ?c2" using consumed_room [OF to2] c(2) by simp
  have d2: "int d \<le> cx_depth ?c2" "cx_last_tag_minus_1 ?c2 = 0" using to2 c(3,4) by (simp_all add: consumed_def)
  have k2: "length (cx_bytes ?c2) < k0" using c2(4) c1(2) c(5) k by (simp add: consumed_def)
  have "\<exists>c'. message_loop field add k m c = message_loop field add k0 m' c' \<and> consumed p ?c2 c'"
    using assms
  proof (elim disjE exE conjE)
    fix h assume h: "\<forall>k c. field k tag m c = Some (h k c)" "fueled_takes h d p m'"
    then obtain c' where "h k0 ?c2 = Parsed (m', c')" "consumed p ?c2 c'" using c2(2,3) r2 d2 k2 unfolding fueled_takes_def by blast
    then show ?thesis using h(1) by (auto simp: k c1(1) tagged Let_def)
  next
    fix u assume u: "\<forall>k c. field k tag m c = None" "tag \<noteq> 0" "tag AND 7 \<noteq> 4" "fueled_takes (\<lambda>k. UnknownFieldParse k tag) d p u" "m' = add u m"
    then obtain c' where "UnknownFieldParse k0 tag ?c2 = Parsed (u, c')" "consumed p ?c2 c'" using c2(2,3) r2 d2 k2 unfolding fueled_takes_def by blast
    then show ?thesis using u by (auto simp: k c1(1) tagged Let_def)
  qed
  then obtain c' where c': "message_loop field add k m c = message_loop field add k0 m' c'" "consumed p ?c2 c'" by blast
  moreover have "length (cx_bytes c') \<le> length (cx_bytes ?c2)" using c'(2) by (simp add: consumed_def)
  ultimately show "\<exists>k' c'. message_loop field add k m c = message_loop field add k' m' c' \<and> consumed (UnsafeVarint tag @ p) c c' \<and> length (cx_bytes c') < k'"
    using consumed_trans [OF to2 c'(2)] k2 by (metis le_less_trans)
qed

text \<open>A run up to the limit is a whole message.\<close>

lemma parses_as_message:
  assumes "parses_as field add d s m m'" and "cx_bytes c = s @ rest" and "room (length s) c" and "cx_left c = int (length s)"
    and "int d \<le> cx_depth c" and "cx_last_tag_minus_1 c = 0" and "length (cx_bytes c) < k"
  shows "\<exists>c'. message_loop field add k m c = Parsed (m', c') \<and> consumed s c c'"
proof -
  obtain k' c' where c': "message_loop field add k m c = message_loop field add k' m' c'" "consumed s c c'" "length (cx_bytes c') < k'"
    using assms unfolding parses_as_def by blast
  have "room 0 c'" using consumed_room [OF c'(2), of 0] assms(3) by simp
  moreover have "cx_left c' = 0" using c'(2) assms(4) by (simp add: consumed_def)
  ultimately have "Done c' = Parsed (True, c')" by (rule Done_limit)
  then have "message_loop field add k' m' c' = Parsed (m', c')" using c'(3) by (cases k') simp_all
  then show ?thesis using c' by auto
qed

section \<open>The fields\<close>

lemma field_takes_reader:
  assumes "\<And>u. r (p @ u) = Parsed (length p, x)" and "length p \<le> 12"
  shows "field_takes (\<lambda>c. bind_parsed (r (readable c)) (\<lambda>(n, v). Parsed (f v, advance n c))) d p (f x)"
  unfolding field_takes_def
proof (intro allI impI)
  fix c rest
  assume c: "cx_bytes c = p @ rest" "room (length p) c" "12 \<le> length (readable c)"
  then have len: "length p \<le> length (readable c)" using assms(2) by simp
  obtain u where "readable c = p @ u" using readable_prefix [OF c(1) len] by blast
  then show "\<exists>c'. bind_parsed (r (readable c)) (\<lambda>(n, v). Parsed (f v, advance n c)) = Parsed (f x, c') \<and> consumed p c c'"
    using assms(1) advance_consumed(1) [OF _ c(1) len] c(2) by (simp add: room_def)
qed

lemma field_takes_varint: "field_takes (\<lambda>c. bind_parsed (VarintParse (readable c)) (\<lambda>(n, v). Parsed (f v, advance n c))) d (UnsafeVarint x) (f x)"
  using length_UnsafeVarint_64 [of x] by (intro field_takes_reader VarintParse_write) simp

lemma field_takes_fixed32:
  "field_takes (\<lambda>c. bind_parsed (UnalignedLoad32 (readable c)) (\<lambda>v. Parsed (f v, advance 4 c))) d (WriteLittleEndian32ToArray x) (f x)"
proof -
  have "field_takes (\<lambda>c. bind_parsed (bind_parsed (UnalignedLoad32 (readable c)) (\<lambda>v. Parsed (4, v))) (\<lambda>(n, v). Parsed (f v, advance n c))) d
      (WriteLittleEndian32ToArray x) (f x)"
    by (rule field_takes_reader) (simp_all add: UnalignedLoad32_write)
  moreover have "bind_parsed (bind_parsed r (\<lambda>v. Parsed (4 :: nat, v))) (\<lambda>(n, v). Parsed (f v, advance n c)) = bind_parsed r (\<lambda>v. Parsed (f v, advance 4 c))"
    for r :: "uint32 parsed" and c by (cases r) simp_all
  ultimately show ?thesis by simp
qed

lemma field_takes_fixed64:
  "field_takes (\<lambda>c. bind_parsed (UnalignedLoad64 (readable c)) (\<lambda>v. Parsed (f v, advance 8 c))) d (WriteLittleEndian64ToArray x) (f x)"
proof -
  have "field_takes (\<lambda>c. bind_parsed (bind_parsed (UnalignedLoad64 (readable c)) (\<lambda>v. Parsed (8, v))) (\<lambda>(n, v). Parsed (f v, advance n c))) d
      (WriteLittleEndian64ToArray x) (f x)"
    by (rule field_takes_reader) (simp_all add: UnalignedLoad64_write)
  moreover have "bind_parsed (bind_parsed r (\<lambda>v. Parsed (8 :: nat, v))) (\<lambda>(n, v). Parsed (f v, advance n c)) = bind_parsed r (\<lambda>v. Parsed (f v, advance 8 c))"
    for r :: "uint64 parsed" and c by (cases r) simp_all
  ultimately show ?thesis by simp
qed

text \<open>A string within the limit always lies in the buffer that is being read.\<close>

lemma ReadString_room:
  assumes "cx_bytes c = s @ rest" and "room (length s) c"
  shows "ReadString (length s) c = Parsed (s, advance (length s) c)" and "consumed s c (advance (length s) c)"
proof -
  have "length s \<le> nat (to_buffer_end c + int kSlopBytes)" using assms(2) by (auto simp: room_def to_buffer_end_def)
  then show "ReadString (length s) c = Parsed (s, advance (length s) c)" using assms(1) by (simp add: ReadString_def Let_def)
  have "length s \<le> length (readable c)" using assms length_readable [of c] by (auto simp: room_def to_end_def kSlopBytes_def)
  then show "consumed s c (advance (length s) c)" using advance_consumed(1) [OF _ assms(1)] assms(2) by (simp add: room_def)
qed

abbreviation size_prefix :: "nat \<Rightarrow> BYTE list" where
  "size_prefix n \<equiv> UnsafeVarint (word_of_nat n :: uint32)"

lemma read_size:
  assumes "cx_bytes c = size_prefix n @ rest" and "ctx_ok c" and "12 \<le> length (readable c)" and "n \<le> INT_MAX - kSlopBytes"
  shows "ReadSize (readable c) = Parsed (length (size_prefix n), n)" and "consumed (size_prefix n) c (advance (length (size_prefix n)) c)"
    and "cx_bytes (advance (length (size_prefix n)) c) = rest"
proof -
  have len: "length (size_prefix n) \<le> length (readable c)" using length_UnsafeVarint_32 [of "word_of_nat n"] assms(3) by simp
  then obtain u where "readable c = size_prefix n @ u" using readable_prefix [OF assms(1)] by blast
  then show "ReadSize (readable c) = Parsed (length (size_prefix n), n)" using ReadSize_write [OF assms(4)] by simp
  show "consumed (size_prefix n) c (advance (length (size_prefix n)) c)" "cx_bytes (advance (length (size_prefix n)) c) = rest"
    using advance_consumed [OF assms(2,1) len] by simp_all
qed

lemma field_takes_string:
  assumes "length s \<le> INT_MAX - kSlopBytes" and "g s = Parsed y"
  shows "field_takes (\<lambda>c. bind_parsed (ReadSize (readable c)) (\<lambda>(n, sz). bind_parsed (ReadString sz (advance n c))
    (\<lambda>(s, c1). bind_parsed (g s) (\<lambda>y. Parsed (y, c1))))) d (size_prefix (length s) @ s) y"
  unfolding field_takes_def
proof (intro allI impI)
  fix c rest
  let ?n = "length (size_prefix (length s))"
  assume c: "cx_bytes c = (size_prefix (length s) @ s) @ rest" "room (length (size_prefix (length s) @ s)) c" "12 \<le> length (readable c)"
  have b: "cx_bytes c = size_prefix (length s) @ s @ rest" "ctx_ok c" using c(1,2) by (simp_all add: room_def)
  note r = read_size [OF b c(3) assms(1)]
  have rm: "room (length s) (advance ?n c)" using consumed_room [OF r(2)] c(2) by simp
  note t = ReadString_room [OF r(3) rm]
  show "\<exists>c'. bind_parsed (ReadSize (readable c)) (\<lambda>(n, sz). bind_parsed (ReadString sz (advance n c))
      (\<lambda>(s, c1). bind_parsed (g s) (\<lambda>y. Parsed (y, c1)))) = Parsed (y, c') \<and> consumed (size_prefix (length s) @ s) c c'"
    using r(1) t(1) assms(2) consumed_trans [OF r(2) t(2)] by simp
qed

lemma fueled_of_field: "field_takes parse d p x \<Longrightarrow> fueled_takes (\<lambda>k. parse) d p x"
  unfolding field_takes_def fueled_takes_def by blast

text \<open>A nested message needs one more level of depth than its fields.\<close>

lemma fueled_takes_message:
  assumes run: "parses_as field add d s m m'" and n: "length s \<le> INT_MAX - kSlopBytes"
  shows "fueled_takes (\<lambda>k. ParseMessage (message_loop field add k) m) (Suc d) (size_prefix (length s) @ s) m'"
  unfolding fueled_takes_def
proof (intro allI impI)
  fix k c rest
  let ?p = "size_prefix (length s)"
  assume c: "cx_bytes c = (?p @ s) @ rest" "room (length (?p @ s)) c" "12 \<le> length (readable c)" "int (Suc d) \<le> cx_depth c"
    "cx_last_tag_minus_1 c = 0" "length (cx_bytes c) < k"
  have b: "cx_bytes c = ?p @ s @ rest" "ctx_ok c" using c(1,2) by (simp_all add: room_def)
  note r = read_size [OF b c(3) n]
  let ?c1 = "advance (length ?p) c"
  let ?c2 = "?c1\<lparr>cx_left := int (length s), cx_depth := cx_depth c - 1\<rparr>"
  have rm: "room (length s) ?c1" using consumed_room [OF r(2)] c(2) by simp
  have dep: "cx_depth ?c1 = cx_depth c" by (simp add: advance_def)
  have push: "ReadSizeAndPushLimitAndDepth c = Parsed (cx_left ?c1 - int (length s), ?c2)"
    using r(1) c(4) by (simp add: ReadSizeAndPushLimitAndDepth_def PushLimit_def dep)
  have "room (length s) ?c2" using rm by (auto simp: room_def to_end_def ctx_ok_def)
  moreover have "cx_bytes ?c2 = s @ rest" "cx_left ?c2 = int (length s)" "int d \<le> cx_depth ?c2" "cx_last_tag_minus_1 ?c2 = 0" "length (cx_bytes ?c2) < k"
    using r(3) c by (simp_all add: advance_def)
  ultimately obtain c3 where c3: "message_loop field add k m ?c2 = Parsed (m', c3)" "consumed s ?c2 c3"
    using parses_as_message [OF run] by blast
  have last0: "cx_last_tag_minus_1 c3 = 0" using c3(2) c(5) by (simp add: consumed_def advance_def)
  let ?c4 = "c3\<lparr>cx_depth := cx_depth c3 + 1, cx_left := cx_left c3 + (cx_left ?c1 - int (length s))\<rparr>"
  have "ParseMessage (message_loop field add k) m c = Parsed (m', ?c4)"
    using push c3(1) last0 by (simp add: ParseMessage_def PopLimit_def EndedAtLimit_def)
  moreover have "consumed s ?c1 ?c4" using c3(2) by (auto simp: consumed_def ctx_ok_def advance_def)
  ultimately show "\<exists>c'. ParseMessage (message_loop field add k) m c = Parsed (m', c') \<and> consumed (?p @ s) c c'"
    using consumed_trans [OF r(2)] by blast
qed

section \<open>Unknown fields\<close>

lemma take_bit_eq_self: "unat (v :: 'w :: len word) < 2 ^ n \<Longrightarrow> take_bit n v = v"
  by (simp add: word_unat_eq_iff unsigned_take_bit_eq take_bit_nat_eq_self)

lemma MakeTag_parts:
  assumes "unat num < 2 ^ 29" and "unat wt < 8"
  shows "drop_bit 3 (MakeTag num wt) = num" and "MakeTag num wt AND 7 = wt"
proof -
  have n: "bit num i \<Longrightarrow> i < 29" for i using take_bit_eq_self [OF assms(1)] by (metis bit_take_bit_iff)
  have w3: "take_bit 3 wt = wt" by (rule take_bit_eq_self) (use assms(2) in simp)
  have w: "bit wt i \<Longrightarrow> i < 3" for i using w3 by (metis bit_take_bit_iff)
  show "drop_bit 3 (MakeTag num wt) = num"
    by (rule bit_word_eqI) (auto simp: MakeTag_def bit_drop_bit_eq bit_or_iff bit_push_bit_iff dest: n w)
  have "MakeTag num wt AND 7 = take_bit 3 (MakeTag num wt)" by (simp add: take_bit_eq_mask mask_eq_exp_minus_1)
  also have "\<dots> = wt" by (rule bit_word_eqI) (auto simp: MakeTag_def bit_take_bit_iff bit_or_iff bit_push_bit_iff dest: w)
  finally show "MakeTag num wt AND 7 = wt" .
qed

text \<open>What the runtime accepts as an unknown field, and how deep its groups nest.\<close>

definition number_ok :: "uint32 \<Rightarrow> bool" where
  "number_ok num \<longleftrightarrow> num \<noteq> 0 \<and> unat num < 2 ^ 29"

primrec uf_tag :: "unknown_field \<Rightarrow> uint32" where
  "uf_tag (UF_Varint num v) = MakeTag num WIRETYPE_VARINT"
| "uf_tag (UF_Fixed32 num v) = MakeTag num WIRETYPE_FIXED32"
| "uf_tag (UF_Fixed64 num v) = MakeTag num WIRETYPE_FIXED64"
| "uf_tag (UF_LengthDelimited num s) = MakeTag num WIRETYPE_LENGTH_DELIMITED"
| "uf_tag (UF_Group num us) = MakeTag num WIRETYPE_START_GROUP"

primrec uf_ok :: "unknown_field \<Rightarrow> bool" where
  "uf_ok (UF_Varint num v) = number_ok num"
| "uf_ok (UF_Fixed32 num v) = number_ok num"
| "uf_ok (UF_Fixed64 num v) = number_ok num"
| "uf_ok (UF_LengthDelimited num s) = (number_ok num \<and> length s \<le> INT_MAX - kSlopBytes)"
| "uf_ok (UF_Group num us) = (number_ok num \<and> list_all (\<lambda>b. b) (map uf_ok us))"

primrec uf_depth :: "unknown_field \<Rightarrow> nat" where
  "uf_depth (UF_Varint num v) = 0"
| "uf_depth (UF_Fixed32 num v) = 0"
| "uf_depth (UF_Fixed64 num v) = 0"
| "uf_depth (UF_LengthDelimited num s) = 0"
| "uf_depth (UF_Group num us) = Suc (fold max (map uf_depth us) 0)"

lemma fold_max_ge: "x \<le> fold max xs x \<and> (\<forall>y\<in>set xs. y \<le> fold max xs (x :: nat))"
proof (induction xs arbitrary: x)
  case (Cons a xs)
  have "max a x \<le> fold max xs (max a x)" "\<forall>y\<in>set xs. y \<le> fold max xs (max a x)" using Cons.IH [of "max a x"] by blast+
  then show ?case by (auto elim: max.boundedE)
qed simp

lemma wire_types:
  "unat WIRETYPE_VARINT < 8" "unat WIRETYPE_FIXED32 < 8" "unat WIRETYPE_FIXED64 < 8" "unat WIRETYPE_LENGTH_DELIMITED < 8"
  "unat WIRETYPE_START_GROUP < 8" "unat WIRETYPE_END_GROUP < 8"
  by (simp_all add: WIRETYPE_VARINT_def WIRETYPE_FIXED32_def WIRETYPE_FIXED64_def WIRETYPE_LENGTH_DELIMITED_def
    WIRETYPE_START_GROUP_def WIRETYPE_END_GROUP_def)

lemma tag_parts:
  assumes "number_ok num" and "unat wt < 8"
  shows "drop_bit 3 (MakeTag num wt) = num" and "MakeTag num wt AND 7 = wt" and "MakeTag num wt \<noteq> 0"
proof -
  show "drop_bit 3 (MakeTag num wt) = num" "MakeTag num wt AND 7 = wt" using MakeTag_parts assms by (simp_all add: number_ok_def)
  then show "MakeTag num wt \<noteq> 0" using assms(1) by (metis drop_bit_of_0 number_ok_def)
qed

lemma WireFormatParser_loop: "WireFormatParser k us c = message_loop (\<lambda>_ _ _ _. None) (\<lambda>u us. us @ [u]) k us c"
proof (induction k arbitrary: us c)
  case (Suc k)
  have "WireFormatParser k = (\<lambda>us c. message_loop (\<lambda>_ _ _ _. None) (\<lambda>u us. us @ [u]) k us c)"
    using Suc by (intro ext) simp
  then show ?case by (simp only: WireFormatParser.simps message_loop.simps option.case UnknownFieldParse_def)
qed simp

text \<open>The end tag of a group stops the loop and is remembered.\<close>

lemma group_end:
  assumes "cx_bytes c = UnsafeVarint tag @ rest" and "room (length (UnsafeVarint tag)) c" and "tag AND 7 = 4" and "0 < k"
  shows "\<exists>c'. message_loop (\<lambda>_ _ _ _. None) add k us c = Parsed (us, SetLastTag tag c') \<and> consumed (UnsafeVarint tag) c c'"
proof -
  obtain k0 where k: "k = Suc k0" using assms(4) by (cases k) auto
  obtain c1 where c1: "Done c = Parsed (False, c1)" "consumed [] c c1" "17 \<le> length (readable c1)" using Done_more [OF assms(2)] by auto
  have b1: "cx_bytes c1 = UnsafeVarint tag @ rest" "ctx_ok c1" using c1(2) assms(1) by (simp_all add: consumed_def)
  have tagged: "bind_parsed (ReadTag (readable c1)) f = f (length (UnsafeVarint tag), tag)" for f :: "nat \<times> uint32 \<Rightarrow> ('a \<times> ctx) parsed"
    using read_tag [OF b1 c1(3)] by blast
  have c2: "consumed (UnsafeVarint tag) c1 (advance (length (UnsafeVarint tag)) c1)" using read_tag [OF b1 c1(3)] by blast
  show ?thesis using c1(1) tagged consumed_trans [OF c1(2) c2] assms(3) by (auto simp: k Let_def)
qed

lemma fueled_takes_group:
  assumes run: "parses_as (\<lambda>_ _ _ _. None) (\<lambda>u us. us @ [u]) d s [] us" and num: "number_ok num"
  shows "fueled_takes (\<lambda>k c. bind_parsed (ParseGroup (WireFormatParser k []) (num * 8 + 3) c) (\<lambda>(g, c'). Parsed (UF_Group num g, c')))
    (Suc d) (s @ WriteTagToArray num WIRETYPE_END_GROUP) (UF_Group num us)"
  unfolding fueled_takes_def
proof (intro allI impI)
  fix k rest and c :: ctx
  let ?e = "UnsafeVarint (MakeTag num WIRETYPE_END_GROUP)"
  let ?c1 = "c\<lparr>cx_depth := cx_depth c - 1\<rparr>"
  assume c: "cx_bytes c = (s @ WriteTagToArray num WIRETYPE_END_GROUP) @ rest" "room (length (s @ WriteTagToArray num WIRETYPE_END_GROUP)) c"
    "int (Suc d) \<le> cx_depth c" "cx_last_tag_minus_1 c = 0" "length (cx_bytes c) < k"
  have "room (length s) ?c1" using c(2) by (auto simp: room_def to_end_def ctx_ok_def)
  then obtain k2 c2 where c2: "message_loop (\<lambda>_ _ _ _. None) (\<lambda>u us. us @ [u]) k [] ?c1 = message_loop (\<lambda>_ _ _ _. None) (\<lambda>u us. us @ [u]) k2 us c2"
    "consumed s ?c1 c2" "length (cx_bytes c2) < k2"
    using parses_asD [OF run, of ?c1 "?e @ rest" k] c by (auto simp: WriteTagToArray_def)
  have b2: "cx_bytes c2 = ?e @ rest" using c2(2) c(1) by (simp add: consumed_def WriteTagToArray_def)
  have to2: "consumed s c (c2\<lparr>cx_depth := cx_depth c\<rparr>)" using c2(2) by (simp add: consumed_def ctx_ok_def)
  have r2: "room (length ?e) c2" using consumed_room [OF to2] c(2) by (auto simp: WriteTagToArray_def room_def to_end_def ctx_ok_def)
  have wt: "MakeTag num WIRETYPE_END_GROUP AND 7 = 4" using tag_parts(2) [OF num wire_types(6)] by (simp add: WIRETYPE_END_GROUP_def)
  obtain c3 where c3: "message_loop (\<lambda>_ _ _ _. None) (\<lambda>u us. us @ [u]) k2 us c2 = Parsed (us, SetLastTag (MakeTag num WIRETYPE_END_GROUP) c3)"
    "consumed ?e c2 c3"
    using group_end [OF b2 r2 wt] c2(3) by (metis gr_zeroI not_less_zero)
  have "MakeTag num WIRETYPE_END_GROUP = num * 8 + 4"
  proof -
    have "(4 :: uint32) = 2 ^ 2" by simp
    then have four: "bit (4 :: uint32) n \<longleftrightarrow> n = 2" for n by (simp only: bit_exp_iff possible_bit_word) auto
    have "MakeTag num WIRETYPE_END_GROUP = push_bit 3 num + 4" unfolding MakeTag_def WIRETYPE_END_GROUP_def
      by (rule disjunctive_add [symmetric]) (auto simp: bit_push_bit_iff four simp del: bit_numeral_word_iff)
    then show ?thesis by (simp add: push_bit_eq_mult)
  qed
  then have end_tag: "MakeTag num WIRETYPE_END_GROUP - 1 = num * 8 + 3" by simp
  have inner: "WireFormatParser k [] ?c1 = Parsed (us, SetLastTag (MakeTag num WIRETYPE_END_GROUP) c3)"
    using c2(1) c3(1) by (simp add: WireFormatParser_loop)
  let ?c4 = "c3\<lparr>cx_depth := cx_depth c3 + 1, cx_last_tag_minus_1 := 0\<rparr>"
  have "ParseGroup (WireFormatParser k []) (num * 8 + 3) c = Parsed (us, ?c4)"
    using inner c(3) end_tag by (simp add: ParseGroup_def ConsumeEndGroup_def SetLastTag_def Let_def)
  moreover have "consumed (s @ ?e) c ?c4" using c2(2) c3(2) c(4) by (auto simp: consumed_def ctx_ok_def)
  ultimately show "\<exists>c'. bind_parsed (ParseGroup (WireFormatParser k []) (num * 8 + 3) c) (\<lambda>(g, c'). Parsed (UF_Group num g, c')) = Parsed (UF_Group num us, c')
      \<and> consumed (s @ WriteTagToArray num WIRETYPE_END_GROUP) c c'"
    by (simp add: WriteTagToArray_def)
qed

definition wire_value :: "uint32 \<Rightarrow> uint32 \<Rightarrow> nat \<Rightarrow> ctx \<Rightarrow> (unknown_field \<times> ctx) parsed" where
  "wire_value num wt k c =
     (if wt = 0 then bind_parsed (VarintParse (readable c)) (\<lambda>(n, v). Parsed (UF_Varint num v, advance n c))
      else if wt = 1 then bind_parsed (UnalignedLoad64 (readable c)) (\<lambda>v. Parsed (UF_Fixed64 num v, advance 8 c))
      else if wt = 2 then ParseLengthDelimited num c
      else if wt = 3 then bind_parsed (ParseGroup (WireFormatParser k []) (num * 8 + 3) c) (\<lambda>(g, c'). Parsed (UF_Group num g, c'))
      else if wt = 4 then Abort
      else if wt = 5 then bind_parsed (UnalignedLoad32 (readable c)) (\<lambda>v. Parsed (UF_Fixed32 num v, advance 4 c))
      else Null)"

lemma UnknownFieldParse_value:
  assumes "number_ok num" and "unat wt < 8"
  shows "UnknownFieldParse k (MakeTag num wt) = wire_value num wt k"
proof
  fix c
  have "num \<noteq> 0" using assms(1) by (simp add: number_ok_def)
  then show "UnknownFieldParse k (MakeTag num wt) c = wire_value num wt k c"
    unfolding UnknownFieldParse_def FieldParser_def Let_def tag_parts(1,2) [OF assms] wire_value_def by (rule if_not_P)
qed

primrec uf_payload :: "unknown_field \<Rightarrow> BYTE list" where
  "uf_payload (UF_Varint num v) = UnsafeVarint v"
| "uf_payload (UF_Fixed32 num v) = WriteLittleEndian32ToArray v"
| "uf_payload (UF_Fixed64 num v) = WriteLittleEndian64ToArray v"
| "uf_payload (UF_LengthDelimited num s) = size_prefix (length s) @ s"
| "uf_payload (UF_Group num us) = concat (map SerializeUnknownField us) @ WriteTagToArray num WIRETYPE_END_GROUP"

lemma SerializeUnknownField_payload: "SerializeUnknownField u = UnsafeVarint (uf_tag u) @ uf_payload u"
  by (cases u) (simp_all add: WriteUInt64ToArray_def WriteFixed32ToArray_def WriteFixed64ToArray_def WriteString_eq WriteTagToArray_def)

lemma uf_tag_ok: "uf_ok u \<Longrightarrow> uf_tag u \<noteq> 0 \<and> uf_tag u AND 7 \<noteq> 4"
  using tag_parts(2,3) wire_types
  by (cases u) (simp_all add: WIRETYPE_VARINT_def WIRETYPE_FIXED32_def WIRETYPE_FIXED64_def WIRETYPE_LENGTH_DELIMITED_def WIRETYPE_START_GROUP_def)

lemma unknown_parses_as:
  assumes "uf_ok u" and "\<And>k m c. field k (uf_tag u) m c = None"
    and "fueled_takes (\<lambda>k. UnknownFieldParse k (uf_tag u)) (uf_depth u) (uf_payload u) u"
  shows "parses_as field add (uf_depth u) (SerializeUnknownField u) m (add u m)"
  unfolding SerializeUnknownField_payload by (rule parses_as_field) (use assms uf_tag_ok [OF assms(1)] in blast)

text \<open>Every unknown field that was written is read back.\<close>

lemma unknown_payload_takes: "uf_ok u \<Longrightarrow> fueled_takes (\<lambda>k. UnknownFieldParse k (uf_tag u)) (uf_depth u) (uf_payload u) u"
proof (induction u)
  case (UF_Varint num v)
  then have num: "number_ok num" by simp
  show ?case unfolding uf_tag.simps uf_depth.simps uf_payload.simps UnknownFieldParse_value [OF num wire_types(1)]
    by (simp add: wire_value_def [abs_def] WIRETYPE_VARINT_def fueled_of_field [OF field_takes_varint])
next
  case (UF_Fixed32 num v)
  then have num: "number_ok num" by simp
  show ?case unfolding uf_tag.simps uf_depth.simps uf_payload.simps UnknownFieldParse_value [OF num wire_types(2)]
    by (simp add: wire_value_def [abs_def] WIRETYPE_FIXED32_def fueled_of_field [OF field_takes_fixed32])
next
  case (UF_Fixed64 num v)
  then have num: "number_ok num" by simp
  show ?case unfolding uf_tag.simps uf_depth.simps uf_payload.simps UnknownFieldParse_value [OF num wire_types(3)]
    by (simp add: wire_value_def [abs_def] WIRETYPE_FIXED64_def fueled_of_field [OF field_takes_fixed64])
next
  case (UF_LengthDelimited num s)
  then have num: "number_ok num" by simp
  have ld: "ParseLengthDelimited num = (\<lambda>c. bind_parsed (ReadSize (readable c)) (\<lambda>(n, sz). bind_parsed (ReadString sz (advance n c))
      (\<lambda>(s, c1). bind_parsed (Parsed (UF_LengthDelimited num s)) (\<lambda>y. Parsed (y, c1)))))"
    by (simp add: ParseLengthDelimited_def fun_eq_iff)
  have "field_takes (ParseLengthDelimited num) 0 (size_prefix (length s) @ s) (UF_LengthDelimited num s)"
    unfolding ld by (rule field_takes_string) (use UF_LengthDelimited in simp_all)
  then have "fueled_takes (\<lambda>k c. ParseLengthDelimited num c) 0 (size_prefix (length s) @ s) (UF_LengthDelimited num s)"
    by (rule fueled_of_field)
  then show ?case unfolding uf_tag.simps uf_depth.simps uf_payload.simps UnknownFieldParse_value [OF num wire_types(4)]
    by (simp add: wire_value_def [abs_def] WIRETYPE_LENGTH_DELIMITED_def)
next
  case (UF_Group num us)
  let ?d = "fold max (map uf_depth us) 0"
  have num: "number_ok num" using UF_Group.prems by simp
  have run: "set vs \<subseteq> set us \<Longrightarrow> parses_as (\<lambda>_ _ _ _. None) (\<lambda>u us. us @ [u]) ?d (concat (map SerializeUnknownField vs)) acc (acc @ vs)" for vs acc
  proof (induction vs arbitrary: acc)
    case (Cons v vs)
    have v: "uf_ok v" "uf_depth v \<le> ?d" using Cons.prems UF_Group.prems fold_max_ge [of 0 "map uf_depth us"] by (auto simp: list_all_iff)
    have "parses_as (\<lambda>_ _ _ _. None) (\<lambda>u us. us @ [u]) (uf_depth v) (SerializeUnknownField v) acc (acc @ [v])"
      by (rule unknown_parses_as [OF v(1)]) (use UF_Group.IH [of v] v Cons.prems in auto)
    then have "parses_as (\<lambda>_ _ _ _. None) (\<lambda>u us. us @ [u]) ?d (SerializeUnknownField v) acc (acc @ [v])"
      using v(2) by (rule parses_as_depth)
    then show ?case using parses_as_append_same [OF _ Cons.IH [of "acc @ [v]"]] Cons.prems by simp
  qed simp
  have "fueled_takes (\<lambda>k c. bind_parsed (ParseGroup (WireFormatParser k []) (num * 8 + 3) c) (\<lambda>(g, c'). Parsed (UF_Group num g, c'))) (Suc ?d)
      (concat (map SerializeUnknownField us) @ WriteTagToArray num WIRETYPE_END_GROUP) (UF_Group num us)"
    using fueled_takes_group [OF run [of us "[]"] num] by simp
  then show ?case unfolding uf_tag.simps uf_depth.simps uf_payload.simps UnknownFieldParse_value [OF num wire_types(5)]
    by (simp add: wire_value_def [abs_def] WIRETYPE_START_GROUP_def)
qed

lemma unknown_fields_parse:
  "(\<And>u. u \<in> set us \<Longrightarrow> uf_ok u \<and> uf_depth u \<le> d \<and> (\<forall>k m c. field k (uf_tag u) m c = None))
   \<Longrightarrow> parses_as field add d (InternalSerializeUnknownFieldsToArray us) m (fold add us m)"
proof (induction us arbitrary: m)
  case (Cons u us)
  have u: "uf_ok u" "uf_depth u \<le> d" "\<And>k m c. field k (uf_tag u) m c = None" using Cons.prems [of u] by auto
  have "parses_as field add (uf_depth u) (SerializeUnknownField u) m (add u m)"
    using u unknown_payload_takes [OF u(1)] by (intro unknown_parses_as)
  then have "parses_as field add d (SerializeUnknownField u) m (add u m)" using u(2) by (rule parses_as_depth)
  moreover have "parses_as field add d (InternalSerializeUnknownFieldsToArray us) (add u m) (fold add us (add u m))"
    using Cons by simp
  ultimately show ?case using parses_as_append_same by (simp add: InternalSerializeUnknownFieldsToArray_def)
qed (simp add: InternalSerializeUnknownFieldsToArray_def)

end
