(* ===== verification/ProtoUtf8.thy ===== *)
theory ProtoUtf8 imports ProtoWire begin

text \<open>
  Include/Protobuf stubs/structurally_valid.cc: the table-driven scan that decides whether a string
  field holds UTF-8, with its word-at-a-time shortcuts for ASCII, and the proof that it accepts
  exactly the encodings of sequences of Unicode scalar values (RFC 3629) and otherwise stops at the
  end of the longest such prefix. A pointer into the string is the list of the bytes from it on,
  together with its address where alignment matters.
\<close>

section \<open>The state table\<close>

definition kExitIllegalStructure :: nat where "kExitIllegalStructure = 240"
definition kExitOK :: nat where "kExitOK = 241"
definition kExitReject :: nat where "kExitReject = 242"
definition kExitDoAgain :: nat where "kExitDoAgain = 253"

abbreviation XX :: nat where "XX \<equiv> kExitIllegalStructure"
abbreviation RJ :: nat where "RJ \<equiv> kExitReject"

text \<open>The nine blocks of 256 entries, run-length encoded.\<close>

definition utf8acceptnonsurrogates :: "nat list list" where
  "utf8acceptnonsurrogates =
    [replicate 128 0 @ replicate 66 XX @ replicate 30 1 @ [2] @ replicate 12 3 @ [7, 3, 3, 4, 5, 5, 5, 6] @ replicate 11 XX,
     replicate 128 XX @ replicate 64 0 @ replicate 64 XX,
     replicate 160 XX @ replicate 32 1 @ replicate 64 XX,
     replicate 128 XX @ replicate 64 1 @ replicate 64 XX,
     replicate 144 XX @ replicate 48 3 @ replicate 64 XX,
     replicate 128 XX @ replicate 64 3 @ replicate 64 XX,
     replicate 128 XX @ replicate 16 3 @ replicate 112 XX,
     replicate 128 XX @ replicate 32 1 @ replicate 32 8 @ replicate 64 XX,
     replicate 128 XX @ replicate 64 RJ @ replicate 64 XX]"

definition table_entry :: "nat \<Rightarrow> BYTE \<Rightarrow> nat" where
  "table_entry state c = utf8acceptnonsurrogates ! state ! unat c"

definition utf8acceptnonsurrogates_fast :: "nat list" where
  "utf8acceptnonsurrogates_fast = replicate 128 0 @ replicate 128 1"

definition fast_entry :: "BYTE \<Rightarrow> nat" where
  "fast_entry c = utf8acceptnonsurrogates_fast ! unat c"

definition losub :: uint32 where "losub = 0x20202020"
definition hiadd :: uint32 where "hiadd = 0"

section \<open>The scan\<close>

text \<open>Bytes up to an aligned address.\<close>

primrec align_skip :: "nat \<Rightarrow> BYTE list \<Rightarrow> nat" where
  "align_skip a [] = 0"
| "align_skip a (c # cs) = (if a mod 8 \<noteq> 0 \<and> fast_entry c = 0 then Suc (align_skip (a + 1) cs) else 0)"

text \<open>Groups of eight bytes; a pointer is before \<open>srclimit8\<close> when eight bytes are left.\<close>

function group_skip :: "BYTE list \<Rightarrow> nat" where
  "group_skip src =
     (if length src < 8 then 0
      else let s0123 = load_le (take 4 src) :: uint32; s4567 = load_le (take 4 (drop 4 src)) :: uint32;
               temp = (((s0123 - losub) OR (s0123 + hiadd)) OR (s4567 - losub)) OR (s4567 + hiadd)
           in if temp AND 0x80808080 \<noteq> 0
              then if \<exists>i<4. fast_entry (src ! i) \<noteq> 0 then 0
                   else if \<exists>i<4. fast_entry (src ! (4 + i)) \<noteq> 0 then 4
                   else 8 + group_skip (drop 8 src)
              else 8 + group_skip (drop 8 src))"
  by pat_completeness auto
termination by (relation "measure length") auto

declare group_skip.simps [simp del]

text \<open>The loop over the table: the last entry read, the state before it, the bytes behind it.\<close>

primrec table_loop :: "nat \<Rightarrow> nat \<Rightarrow> BYTE list \<Rightarrow> nat \<times> nat \<times> BYTE list" where
  "table_loop e state [] = (e, state, [])"
| "table_loop e state (c # cs) =
     (let e' = table_entry state c
      in if kExitIllegalStructure \<le> e' then (e', state, cs) else table_loop e' e' cs)"

definition continuation :: "BYTE \<Rightarrow> bool" where
  "continuation c \<longleftrightarrow> c AND 0xC0 = 0x80"

text \<open>\<open>do src-- while (src > isrc && continuation)\<close>, on the index into the string.\<close>

fun back_up :: "BYTE list \<Rightarrow> nat \<Rightarrow> nat" where
  "back_up str 0 = 0"
| "back_up str (Suc n) = (if 0 < n \<and> continuation (str ! n) then back_up str n else n)"

definition UTF8GenericScan :: "nat \<Rightarrow> BYTE list \<Rightarrow> nat \<times> nat" where
  "UTF8GenericScan addr str =
     (if str = [] then (kExitOK, 0)
      else let n0 = align_skip addr str;
               n1 = (if (addr + n0) mod 8 = 0 then n0 + group_skip (drop n0 str) else n0);
               (e, state, rest) = table_loop 0 0 (drop n1 str);
               n = length str - length rest
           in if kExitIllegalStructure \<le> e
              then (e, if state \<noteq> 0 then back_up str (n - 1) else n - 1)
              else if state \<noteq> 0 then (kExitIllegalStructure, back_up str n)
              else (kExitOK, n))"

primrec ascii_align_skip :: "nat \<Rightarrow> BYTE list \<Rightarrow> nat" where
  "ascii_align_skip a [] = 0"
| "ascii_align_skip a (c # cs) = (if a mod 8 \<noteq> 0 \<and> unat c < 0x80 then Suc (ascii_align_skip (a + 1) cs) else 0)"

function ascii_group_skip :: "BYTE list \<Rightarrow> nat" where
  "ascii_group_skip src =
     (if 8 \<le> length src \<and> (load_le (take 4 src) OR load_le (take 4 (drop 4 src)) :: uint32) AND 0x80808080 = 0
      then 8 + ascii_group_skip (drop 8 src) else 0)"
  by pat_completeness auto
termination by (relation "measure length") auto

declare ascii_group_skip.simps [simp del]

primrec ascii_skip :: "BYTE list \<Rightarrow> nat" where
  "ascii_skip [] = 0"
| "ascii_skip (c # cs) = (if unat c < 0x80 then Suc (ascii_skip cs) else 0)"

text \<open>The outer loop runs again on kExitDoAgain, which no table entry is.\<close>

definition UTF8GenericScanFastAscii :: "nat \<Rightarrow> BYTE list \<Rightarrow> nat \<times> nat" where
  "UTF8GenericScanFastAscii addr str =
     (if str = [] then (kExitOK, 0)
      else let n0 = ascii_align_skip addr str;
               n1 = (if (addr + n0) mod 8 = 0 then n0 + ascii_group_skip (drop n0 str) else n0);
               n2 = n1 + ascii_skip (drop n1 str);
               (exit_reason, rest_consumed) = UTF8GenericScan (addr + n2) (drop n2 str)
           in (exit_reason, n2 + rest_consumed))"

definition IsStructurallyValidUTF8 :: "nat \<Rightarrow> BYTE list \<Rightarrow> bool" where
  "IsStructurallyValidUTF8 addr buf \<longleftrightarrow> snd (UTF8GenericScanFastAscii addr buf) = length buf"

definition UTF8SpnStructurallyValid :: "nat \<Rightarrow> BYTE list \<Rightarrow> nat" where
  "UTF8SpnStructurallyValid addr str = snd (UTF8GenericScanFastAscii addr str)"

text \<open>UTF8CoerceToStructurallyValid: the bytes written to \<open>idst\<close>, or the string itself.\<close>

function coerce_loop :: "BYTE \<Rightarrow> nat \<Rightarrow> BYTE list \<Rightarrow> BYTE list" where
  "coerce_loop replace_char addr [] = []"
| "coerce_loop replace_char addr (c # src) =
     (let n = UTF8SpnStructurallyValid (addr + 1) src
      in replace_char # take n src @ coerce_loop replace_char (addr + 1 + n) (drop n src))"
  by pat_completeness auto
termination by (relation "measure (\<lambda>(_, _, src). length src)") auto

definition UTF8CoerceToStructurallyValid :: "nat \<Rightarrow> BYTE list \<Rightarrow> BYTE \<Rightarrow> BYTE list" where
  "UTF8CoerceToStructurallyValid addr src_str replace_char =
     (let n = UTF8SpnStructurallyValid addr src_str
      in if n = length src_str then src_str
         else take n src_str @ coerce_loop replace_char (addr + n) (drop n src_str))"

section \<open>The reference: encodings of Unicode scalar values\<close>

definition scalar_value :: "nat \<Rightarrow> bool" where
  "scalar_value cp \<longleftrightarrow> cp < 0xD800 \<or> 0xDFFF < cp \<and> cp \<le> 0x10FFFF"

definition utf8_encode :: "nat \<Rightarrow> BYTE list" where
  "utf8_encode cp =
     (if cp < 0x80 then [word_of_nat cp]
      else if cp < 0x800 then [word_of_nat (0xC0 + cp div 64), word_of_nat (0x80 + cp mod 64)]
      else if cp < 0x10000 then [word_of_nat (0xE0 + cp div 4096), word_of_nat (0x80 + cp div 64 mod 64), word_of_nat (0x80 + cp mod 64)]
      else [word_of_nat (0xF0 + cp div 262144), word_of_nat (0x80 + cp div 4096 mod 64), word_of_nat (0x80 + cp div 64 mod 64),
            word_of_nat (0x80 + cp mod 64)])"

definition utf8_valid :: "BYTE list \<Rightarrow> bool" where
  "utf8_valid s \<longleftrightarrow> (\<exists>cps. list_all scalar_value cps \<and> s = concat (map utf8_encode cps))"

section \<open>The rows of the table\<close>

lemma table_0: "table_entry 0 c = (let n = unat c in if n < 128 then 0 else if n < 194 then 240 else if n < 224 then 1
    else if n = 224 then 2 else if n < 237 then 3 else if n = 237 then 7 else if n < 240 then 3 else if n = 240 then 4
    else if n < 244 then 5 else if n = 244 then 6 else 240)"
proof -
  have "n < 256 \<Longrightarrow> (replicate 128 0 @ replicate 66 240 @ replicate 30 1 @ [2] @ replicate 12 3 @ [7, 3, 3, 4, 5, 5, 5, 6] @ replicate 11 240) ! n
    = (if n < 128 then 0 else if n < 194 then 240 else if n < 224 then 1 else if n = 224 then 2 else if n < 237 then 3
       else if n = 237 then 7 else if n < 240 then 3 else if n = 240 then 4 else if n < 244 then 5 else if n = 244 then 6 else 240 :: nat)" for n :: nat
    by (auto simp: nth_append nth_Cons')
  then show ?thesis using unat_less_8 [of c]
    by (simp add: table_entry_def utf8acceptnonsurrogates_def kExitIllegalStructure_def Let_def)
qed

lemma table_rows:
  "table_entry 1 c = (if 128 \<le> unat c \<and> unat c < 192 then 0 else 240)"
  "table_entry 2 c = (if 160 \<le> unat c \<and> unat c < 192 then 1 else 240)"
  "table_entry 3 c = (if 128 \<le> unat c \<and> unat c < 192 then 1 else 240)"
  "table_entry 4 c = (if 144 \<le> unat c \<and> unat c < 192 then 3 else 240)"
  "table_entry 5 c = (if 128 \<le> unat c \<and> unat c < 192 then 3 else 240)"
  "table_entry 6 c = (if 128 \<le> unat c \<and> unat c < 144 then 3 else 240)"
  "table_entry 7 c = (if 128 \<le> unat c \<and> unat c < 160 then 1 else if 160 \<le> unat c \<and> unat c < 192 then 8 else 240)"
  "table_entry 8 c = (if 128 \<le> unat c \<and> unat c < 192 then 242 else 240)"
  using unat_less_8 [of c]
  by (auto simp: table_entry_def utf8acceptnonsurrogates_def kExitIllegalStructure_def kExitReject_def nth_append nth_Cons')

lemma fast_entry_0: "fast_entry c = 0 \<longleftrightarrow> unat c < 128"
  using unat_less_8 [of c] by (auto simp: fast_entry_def utf8acceptnonsurrogates_fast_def nth_append)

lemma continuation_iff: "continuation c \<longleftrightarrow> 128 \<le> unat c \<and> unat c < 192"
proof -
  have bits: "bit (0xC0 :: BYTE) n \<longleftrightarrow> n = 6 \<or> n = 7" for n
  proof -
    have "(0xC0 :: BYTE) = push_bit 6 (mask 2)" by (simp add: mask_eq_exp_minus_1)
    then show ?thesis by (simp only: bit_push_bit_iff bit_mask_iff possible_bit_word) auto
  qed
  have "c AND 0xC0 = push_bit 6 (drop_bit 6 c)"
    by (rule bit_word_eqI) (simp only: bit_and_iff bits bit_push_bit_iff bit_drop_bit_eq, auto)
  moreover have "unat (push_bit 6 (drop_bit 6 c)) = 64 * (unat c div 64)"
    using unat_less_8 [of c] by (simp add: unsigned_push_bit_eq unat_drop_bit_eq push_bit_nat_def drop_bit_nat_def take_bit_nat_eq_self)
  moreover have "unat (0x80 :: BYTE) = 128" by simp
  ultimately have "continuation c \<longleftrightarrow> 64 * (unat c div 64) = 128"
    unfolding continuation_def by (metis word_unat_eq_iff)
  then show ?thesis by auto
qed

section \<open>Characters\<close>

text \<open>The well-formed byte sequences of RFC 3629, section 4.\<close>

fun utf8_char :: "BYTE list \<Rightarrow> bool" where
  "utf8_char [a] \<longleftrightarrow> unat a < 128"
| "utf8_char [a, b] \<longleftrightarrow> 194 \<le> unat a \<and> unat a < 224 \<and> continuation b"
| "utf8_char [a, b, c] \<longleftrightarrow>
     (unat a = 224 \<and> 160 \<le> unat b \<and> continuation b \<or> 225 \<le> unat a \<and> unat a < 237 \<and> continuation b
      \<or> unat a = 237 \<and> unat b < 160 \<and> continuation b \<or> 238 \<le> unat a \<and> unat a < 240 \<and> continuation b) \<and> continuation c"
| "utf8_char [a, b, c, d] \<longleftrightarrow>
     (unat a = 240 \<and> 144 \<le> unat b \<and> continuation b \<or> 241 \<le> unat a \<and> unat a < 244 \<and> continuation b
      \<or> unat a = 244 \<and> unat b < 144 \<and> continuation b) \<and> continuation c \<and> continuation d"
| "utf8_char _ \<longleftrightarrow> False"

lemma utf8_char_cases:
  assumes "utf8_char p"
  obtains a where "p = [a]" "unat a < 128"
  | a b where "p = [a, b]" "194 \<le> unat a" "unat a < 224" "continuation b"
  | a b c where "p = [a, b, c]" "utf8_char [a, b, c]" "224 \<le> unat a" "unat a < 240"
  | a b c d where "p = [a, b, c, d]" "utf8_char [a, b, c, d]" "240 \<le> unat a" "unat a < 245"
  using assms by (cases p rule: utf8_char.cases) auto

lemma table_loop_char:
  assumes "utf8_char p"
  shows "table_loop e 0 (p @ t) = table_loop 0 0 t"
proof -
  have zero: "table_loop e 0 cs = table_loop 0 0 cs \<or> cs = []" for e cs by (cases cs) simp_all
  show ?thesis using assms
    by (cases rule: utf8_char_cases) (auto simp: Let_def table_0 table_rows table_rows(1) [unfolded One_nat_def] continuation_iff kExitIllegalStructure_def split: if_splits)
qed

lemma utf8_char_length: "utf8_char p \<Longrightarrow> p \<noteq> [] \<and> length p =
    (let n = unat (hd p) in if n < 128 then 1 else if n < 224 then 2 else if n < 240 then 3 else 4)"
  by (cases p rule: utf8_char.cases) auto

definition starts_char :: "BYTE list \<Rightarrow> bool" where
  "starts_char t \<longleftrightarrow> (\<exists>p u. t = p @ u \<and> utf8_char p)"

text \<open>Within a character: the loop from a state other than zero ends without coming back to zero.\<close>

definition ends_within :: "nat \<Rightarrow> BYTE list \<Rightarrow> bool" where
  "ends_within st t \<longleftrightarrow> (\<forall>e<240. \<exists>e' state rest. table_loop e st t = (e', state, rest) \<and> state \<noteq> 0 \<and>
     ((e' = 240 \<or> e' = 242) \<and> (\<exists>j. length rest = length t - Suc j \<and> j < length t \<and> (\<forall>i<j. continuation (t ! i)))
      \<or> e' < 240 \<and> rest = [] \<and> (\<forall>i<length t. continuation (t ! i))))"

lemma ends_within_nil: "st \<noteq> 0 \<Longrightarrow> ends_within st []"
  by (simp add: ends_within_def)

lemma ends_within_error: "st \<noteq> 0 \<Longrightarrow> table_entry st c = 240 \<or> table_entry st c = 242 \<Longrightarrow> ends_within st (c # cs)"
  by (auto simp: ends_within_def kExitIllegalStructure_def Let_def intro!: exI [of _ 0])

lemma ends_within_step:
  assumes "table_entry st c = st'" and "st' < 240" and "continuation c" and "ends_within st' cs"
  shows "ends_within st (c # cs)"
  unfolding ends_within_def
proof (intro allI impI)
  fix e :: nat
  obtain e' state rest where r: "table_loop st' st' cs = (e', state, rest)" "state \<noteq> 0"
    "(e' = 240 \<or> e' = 242) \<and> (\<exists>j. length rest = length cs - Suc j \<and> j < length cs \<and> (\<forall>i<j. continuation (cs ! i)))
      \<or> e' < 240 \<and> rest = [] \<and> (\<forall>i<length cs. continuation (cs ! i))"
    using assms(4) [unfolded ends_within_def, rule_format, OF assms(2)] by blast
  have "table_loop e st (c # cs) = (e', state, rest)" using r(1) assms(1,2) by (simp add: kExitIllegalStructure_def Let_def)
  moreover have "(\<exists>j. length rest = length (c # cs) - Suc j \<and> j < length (c # cs) \<and> (\<forall>i<j. continuation ((c # cs) ! i)))"
    if "\<exists>j. length rest = length cs - Suc j \<and> j < length cs \<and> (\<forall>i<j. continuation (cs ! i))"
  proof -
    from that obtain j where "length rest = length cs - Suc j" "j < length cs" "\<forall>i<j. continuation (cs ! i)" by blast
    then show ?thesis using assms(3) by (intro exI [of _ "Suc j"]) (auto simp: nth_Cons' less_Suc_eq_0_disj)
  qed
  moreover have "\<forall>i<length (c # cs). continuation ((c # cs) ! i)" if "\<forall>i<length cs. continuation (cs ! i)"
    using that assms(3) by (auto simp: nth_Cons')
  ultimately show "\<exists>e' state rest. table_loop e st (c # cs) = (e', state, rest) \<and> state \<noteq> 0 \<and>
     ((e' = 240 \<or> e' = 242) \<and> (\<exists>j. length rest = length (c # cs) - Suc j \<and> j < length (c # cs) \<and> (\<forall>i<j. continuation ((c # cs) ! i)))
      \<or> e' < 240 \<and> rest = [] \<and> (\<forall>i<length (c # cs). continuation ((c # cs) ! i)))"
    using r(2,3) by blast
qed

lemmas rows = table_rows table_rows(1) [unfolded One_nat_def]

lemma ends_1: "(\<And>b u. t = b # u \<Longrightarrow> \<not> continuation b) \<Longrightarrow> ends_within 1 t"
  by (cases t) (auto intro!: ends_within_nil ends_within_error simp: rows continuation_iff)

lemma ends_8: "ends_within 8 t"
  by (cases t) (auto intro!: ends_within_nil ends_within_error simp: rows)

lemma ends_3:
  assumes "\<And>b c u. t = b # c # u \<Longrightarrow> \<not> (continuation b \<and> continuation c)"
  shows "ends_within 3 t"
proof (cases t)
  case (Cons b u)
  show ?thesis
  proof (cases "continuation b")
    case True
    have "ends_within 1 u" using assms Cons True by (intro ends_1) auto
    then show ?thesis unfolding Cons by (intro ends_within_step [of 3 b 1]) (use True in \<open>auto simp: rows continuation_iff\<close>)
  qed (auto simp: Cons rows continuation_iff intro!: ends_within_error)
qed (simp add: ends_within_nil)

text \<open>The second byte of a longer character.\<close>

lemma ends_second:
  assumes "t = b # u \<Longrightarrow> ends_within (table_entry st b) u \<or> 240 \<le> table_entry st b"
    and "st \<in> {2, 3, 4, 5, 6, 7}" and "t = [] \<or> t = b # u"
  shows "ends_within st t"
proof (cases "t = []")
  case True
  then show ?thesis using assms(2) by (auto intro: ends_within_nil)
next
  case False
  then have t: "t = b # u" using assms(3) by simp
  have st: "st \<noteq> 0" using assms(2) by auto
  have e: "table_entry st b = 240 \<or> table_entry st b < 240 \<and> continuation b"
    using assms(2) by (auto simp: rows continuation_iff split: if_splits)
  show ?thesis
  proof (cases "table_entry st b = 240")
    case True
    then show ?thesis unfolding t by (intro ends_within_error st) simp
  next
    case False
    then show ?thesis using e assms(1) t unfolding t by (intro ends_within_step [of st b "table_entry st b"]) auto
  qed
qed

lemma broken_lead:
  assumes "\<not> starts_char (a # t)" and "table_entry 0 a \<noteq> 240"
  shows "0 < table_entry 0 a \<and> table_entry 0 a < 240 \<and> ends_within (table_entry 0 a) t \<and> \<not> continuation a"
proof -
  have a: "128 \<le> unat a" using assms(1) unfolding starts_char_def by (metis append_Cons append_Nil not_le utf8_char.simps(1))
  have no2: "t = b # u \<Longrightarrow> \<not> utf8_char [a, b]" for b u
    using assms(1) unfolding starts_char_def by (metis append_Cons append_Nil)
  have no3: "t = b # c # u \<Longrightarrow> \<not> utf8_char [a, b, c]" for b c u
    using assms(1) unfolding starts_char_def by (metis append_Cons append_Nil)
  have no4: "t = b # c # d # u \<Longrightarrow> \<not> utf8_char [a, b, c, d]" for b c d u
    using assms(1) unfolding starts_char_def by (metis append_Cons append_Nil)
  have r: "194 \<le> unat a" "unat a < 245" using assms(2) a by (auto simp: table_0 Let_def split: if_splits)
  obtain b u where bu: "t = [] \<or> t = b # u" by (cases t) auto
  have within: "ends_within (table_entry 0 a) t"
  proof -
    consider "unat a < 224" | "unat a = 224" | "225 \<le> unat a" "unat a < 237 \<or> 238 \<le> unat a" "unat a < 240" | "unat a = 237"
      | "unat a = 240" | "241 \<le> unat a" "unat a < 244" | "unat a = 244" using r by linarith
    then show ?thesis
    proof cases
      case 1
      then have "table_entry 0 a = 1" using r by (simp add: table_0 Let_def)
      moreover have "ends_within 1 t" by (rule ends_1) (use no2 1 r in auto)
      ultimately show ?thesis by simp
    next
      case 2
      then have "table_entry 0 a = 2" by (simp add: table_0 Let_def)
      moreover have "ends_within 2 t"
        by (rule ends_second [OF _ _ bu]) (use no3 2 in \<open>auto simp: rows continuation_iff intro!: ends_1 [unfolded One_nat_def]\<close>)
      ultimately show ?thesis by simp
    next
      case 3
      then have "table_entry 0 a = 3" by (auto simp: table_0 Let_def)
      moreover have "ends_within 3 t"
        by (rule ends_second [OF _ _ bu]) (use no3 3 in \<open>auto simp: rows continuation_iff intro!: ends_1 [unfolded One_nat_def]\<close>)
      ultimately show ?thesis by simp
    next
      case 4
      then have "table_entry 0 a = 7" by (simp add: table_0 Let_def)
      moreover have "ends_within 7 t"
        by (rule ends_second [OF _ _ bu]) (use no3 4 in \<open>auto simp: rows continuation_iff intro!: ends_1 [unfolded One_nat_def] ends_8\<close>)
      ultimately show ?thesis by simp
    next
      case 5
      then have "table_entry 0 a = 4" by (simp add: table_0 Let_def)
      moreover have "ends_within 4 t"
        by (rule ends_second [OF _ _ bu]) (use no4 5 in \<open>auto simp: rows continuation_iff intro!: ends_3\<close>)
      ultimately show ?thesis by simp
    next
      case 6
      then have "table_entry 0 a = 5" by (auto simp: table_0 Let_def)
      moreover have "ends_within 5 t"
        by (rule ends_second [OF _ _ bu]) (use no4 6 in \<open>auto simp: rows continuation_iff intro!: ends_3\<close>)
      ultimately show ?thesis by simp
    next
      case 7
      then have "table_entry 0 a = 6" by (simp add: table_0 Let_def)
      moreover have "ends_within 6 t"
        by (rule ends_second [OF _ _ bu]) (use no4 7 in \<open>auto simp: rows continuation_iff intro!: ends_3\<close>)
      ultimately show ?thesis by simp
    qed
  qed
  then show ?thesis using r by (auto simp: table_0 Let_def continuation_iff)
qed

section \<open>The shortcuts skip ASCII only\<close>

definition ascii_prefix :: "nat \<Rightarrow> BYTE list \<Rightarrow> bool" where
  "ascii_prefix n s \<longleftrightarrow> n \<le> length s \<and> (\<forall>i<n. unat (s ! i) < 128)"

lemma ascii_prefix_0 [simp]: "ascii_prefix 0 s"
  by (simp add: ascii_prefix_def)

lemma ascii_prefix_Suc: "ascii_prefix (Suc n) (c # cs) \<longleftrightarrow> unat c < 128 \<and> ascii_prefix n cs"
  by (auto simp: ascii_prefix_def less_Suc_eq_0_disj)

lemma ascii_prefix_add: "ascii_prefix m s \<Longrightarrow> ascii_prefix n (drop m s) \<Longrightarrow> ascii_prefix (m + n) s"
  unfolding ascii_prefix_def
proof (intro conjI allI impI; elim conjE)
  fix i assume m: "\<forall>i<m. unat (s ! i) < 128" "m \<le> length s" and n: "\<forall>i<n. unat (drop m s ! i) < 128" and i: "i < m + n"
  show "unat (s ! i) < 128"
  proof (cases "i < m")
    case False
    then obtain j where "i = m + j" using le_Suc_ex not_less by blast
    then show ?thesis using n m(2) i by auto
  qed (use m in simp)
qed simp

lemma align_skip_ascii: "ascii_prefix (align_skip a s) s"
  by (induction s arbitrary: a) (simp_all add: ascii_prefix_Suc fast_entry_0)

lemma ascii_align_skip_ascii: "ascii_prefix (ascii_align_skip a s) s"
  by (induction s arbitrary: a) (simp_all add: ascii_prefix_Suc)

lemma ascii_skip_ascii: "ascii_prefix (ascii_skip s) s"
  by (induction s) (simp_all add: ascii_prefix_Suc)

lemma bit_7_iff: "bit (b :: BYTE) 7 \<longleftrightarrow> 128 \<le> unat b"
proof -
  have "bit b 7 \<longleftrightarrow> odd (unat b div 128)" using bit_unsigned_iff [where ?'a = nat, of b 7] by (simp add: bit_iff_odd)
  moreover have "unat b div 128 = 0 \<or> unat b div 128 = 1" using unat_less_8 [of b] by linarith
  ultimately show ?thesis by (auto simp: div_eq_0_iff)
qed

lemma bit_80808080: "bit (0x80808080 :: uint32) n \<longleftrightarrow> n \<in> {7, 15, 23, 31}"
proof -
  have "(0x80808080 :: uint32) = ((push_bit 7 1 OR push_bit 15 1) OR push_bit 23 1) OR push_bit 31 1" by simp
  then show ?thesis by (simp only: bit_or_iff bit_push_bit_iff bit_1_iff possible_bit_word) auto
qed

text \<open>A clean word holds four ASCII bytes.\<close>

lemma clean_word:
  assumes "load_le bs AND (0x80808080 :: uint32) = 0" and "i < 4" and "i < length bs"
  shows "unat (bs ! i) < 128"
proof (rule ccontr)
  assume "\<not> unat (bs ! i) < 128"
  then have "bit (bs ! i) 7" by (simp add: bit_7_iff)
  then have "bit (load_le bs :: uint32) (8 * i + 7)" using assms(2,3) by (simp add: bit_load_le)
  moreover have "bit (0x80808080 :: uint32) (8 * i + 7)" using assms(2) by (auto simp: bit_80808080 less_Suc_eq numeral_eq_Suc simp del: bit_numeral_word_iff)
  ultimately have "bit (load_le bs AND (0x80808080 :: uint32)) (8 * i + 7)" by (simp add: bit_and_iff del: bit_numeral_word_iff)
  then show False using assms(1) by simp
qed

lemma eight_ascii:
  assumes "8 \<le> length src" and "load_le (take 4 src) AND (0x80808080 :: uint32) = 0"
    and "load_le (take 4 (drop 4 src)) AND (0x80808080 :: uint32) = 0"
  shows "ascii_prefix 8 src"
  unfolding ascii_prefix_def
proof (intro conjI allI impI)
  fix i :: nat assume i: "i < 8"
  show "unat (src ! i) < 128"
  proof (cases "i < 4")
    case True
    then show ?thesis using clean_word [OF assms(2), of i] assms(1) by simp
  next
    case False
    then show ?thesis using clean_word [OF assms(3), of "i - 4"] assms(1) i by simp
  qed
qed (use assms in simp)

lemma or_and_0: "((a :: uint32) OR b) AND m = 0 \<longleftrightarrow> a AND m = 0 \<and> b AND m = 0"
  by (auto simp: bit_eq_iff bit_simps)

lemma ascii_group_skip_ascii: "ascii_prefix (ascii_group_skip s) s"
proof (induction s rule: ascii_group_skip.induct)
  case (1 src)
  show ?case
  proof (cases "8 \<le> length src \<and> (load_le (take 4 src) OR load_le (take 4 (drop 4 src)) :: uint32) AND 0x80808080 = 0")
    case True
    then have "ascii_prefix 8 src" using eight_ascii [of src] by (simp add: or_and_0)
    then show ?thesis using ascii_prefix_add 1 True by (subst ascii_group_skip.simps) auto
  qed (subst ascii_group_skip.simps, auto)
qed

lemma four_fast: "n + 4 \<le> length src \<Longrightarrow> \<not> (\<exists>i<4. fast_entry (src ! (n + i)) \<noteq> 0) \<Longrightarrow> ascii_prefix 4 (drop n src)"
  by (auto simp: ascii_prefix_def fast_entry_0)

lemma group_skip_ascii: "ascii_prefix (group_skip s) s"
proof (induction s rule: group_skip.induct)
  case (1 src)
  let ?a = "load_le (take 4 src) :: uint32" and ?b = "load_le (take 4 (drop 4 src)) :: uint32"
  let ?temp = "(((?a - losub) OR (?a + hiadd)) OR (?b - losub)) OR (?b + hiadd)"
  show ?case
  proof (cases "length src < 8")
    case False
    have more: "ascii_prefix (8 + group_skip (drop 8 src)) src" if "ascii_prefix 8 src" "ascii_prefix (group_skip (drop 8 src)) (drop 8 src)"
      using that by (rule ascii_prefix_add)
    show ?thesis
    proof (cases "?temp AND 0x80808080 = 0")
      case True
      then have "ascii_prefix 8 src" using eight_ascii [of src] False by (simp add: or_and_0 hiadd_def)
      then show ?thesis using more 1 True False by (subst group_skip.simps) (simp add: Let_def)
    next
      case dirty: False
      consider "\<exists>i<4. fast_entry (src ! i) \<noteq> 0" | "\<not> (\<exists>i<4. fast_entry (src ! i) \<noteq> 0)" "\<exists>i<4. fast_entry (src ! (4 + i)) \<noteq> 0"
        | "\<not> (\<exists>i<4. fast_entry (src ! i) \<noteq> 0)" "\<not> (\<exists>i<4. fast_entry (src ! (4 + i)) \<noteq> 0)" by blast
      then show ?thesis
      proof cases
        case 1
        then have "group_skip src = 0" using False dirty by (subst group_skip.simps) (simp only: Let_def if_False if_True not_False_eq_True simp_thms)
        then show ?thesis by simp
      next
        case 2
        then have "group_skip src = 4" using False dirty by (subst group_skip.simps) (simp only: Let_def if_False if_True not_False_eq_True simp_thms)
        then show ?thesis using four_fast [of 0 src] 2 False by simp
      next
        case 3
        then have "group_skip src = 8 + group_skip (drop 8 src)" using False dirty
          by (subst group_skip.simps) (simp only: Let_def if_False if_True not_False_eq_True simp_thms)
        moreover have "ascii_prefix (4 + 4) src" by (rule ascii_prefix_add) (use four_fast [of 0 src] four_fast [of 4 src] 3 False in simp_all)
        ultimately show ?thesis using more 1 False dirty 3 by (simp only: Let_def) auto
      qed
    qed
  qed (subst group_skip.simps, simp)
qed

section \<open>The scan stops at the end of the longest valid prefix\<close>

definition utf8_chars :: "BYTE list \<Rightarrow> bool" where
  "utf8_chars p \<longleftrightarrow> (\<exists>cs. list_all utf8_char cs \<and> p = concat cs)"

lemma utf8_chars_Nil [simp]: "utf8_chars []"
  by (auto simp: utf8_chars_def intro: exI [of _ "[]"])

lemma utf8_chars_Cons: "utf8_char c \<Longrightarrow> utf8_chars p \<Longrightarrow> utf8_chars (c @ p)"
proof -
  assume "utf8_char c" "utf8_chars p"
  then obtain cs where "list_all utf8_char cs" "p = concat cs" by (auto simp: utf8_chars_def)
  then show ?thesis using \<open>utf8_char c\<close> unfolding utf8_chars_def by (intro exI [of _ "c # cs"]) simp
qed

lemma utf8_chars_append: "utf8_chars p \<Longrightarrow> utf8_chars q \<Longrightarrow> utf8_chars (p @ q)"
proof -
  assume "utf8_chars p" "utf8_chars q"
  then obtain cs ds where "list_all utf8_char cs" "p = concat cs" "list_all utf8_char ds" "q = concat ds" by (auto simp: utf8_chars_def)
  then show ?thesis unfolding utf8_chars_def by (intro exI [of _ "cs @ ds"]) simp
qed

lemma ascii_chars: "ascii_prefix n s \<Longrightarrow> utf8_chars (take n s)"
proof (induction n arbitrary: s)
  case (Suc n)
  then obtain c cs where s: "s = c # cs" by (cases s) (auto simp: ascii_prefix_def)
  then have "utf8_char [c]" "ascii_prefix n cs" using Suc.prems by (simp_all add: ascii_prefix_Suc)
  then show ?case using utf8_chars_Cons [of "[c]"] Suc.IH s by simp
qed simp

lemma decompose_chars: "\<exists>p t. s = p @ t \<and> utf8_chars p \<and> (t = [] \<or> \<not> starts_char t)"
proof (induction "length s" arbitrary: s rule: less_induct)
  case less
  show ?case
  proof (cases "starts_char s")
    case True
    then obtain c u where c: "s = c @ u" "utf8_char c" by (auto simp: starts_char_def)
    have "c \<noteq> []" using utf8_char_length [OF c(2)] by blast
    then have "length u < length s" by (simp add: c(1))
    then obtain p t where "u = p @ t" "utf8_chars p" "t = [] \<or> \<not> starts_char t" using less by blast
    then show ?thesis using c utf8_chars_Cons by (metis append.assoc)
  qed (use utf8_chars_Nil in fastforce)
qed

lemma table_loop_chars: "list_all utf8_char cs \<Longrightarrow> table_loop 0 0 (concat cs @ t) = table_loop 0 0 t"
  by (induction cs) (simp_all add: table_loop_char)

lemma back_up_to:
  "(\<And>i. m < i \<Longrightarrow> i < n \<Longrightarrow> continuation (str ! i)) \<Longrightarrow> m = 0 \<or> \<not> continuation (str ! m) \<Longrightarrow> m < n \<Longrightarrow> back_up str n = m"
proof (induction n)
  case (Suc n)
  show ?case
  proof (cases "m = n")
    case False
    then have "continuation (str ! n)" "0 < n" using Suc.prems by auto
    then show ?thesis using Suc False by simp
  qed (use Suc.prems in auto)
qed simp

definition scan_result :: "BYTE list \<Rightarrow> nat \<times> nat \<Rightarrow> bool" where
  "scan_result str r \<longleftrightarrow> (\<exists>p t. str = p @ t \<and> utf8_chars p \<and> snd r = length p \<and>
     (t = [] \<and> fst r = kExitOK \<or> t \<noteq> [] \<and> \<not> starts_char t \<and> (fst r = kExitIllegalStructure \<or> fst r = kExitReject)))"

lemma table_scan_result:
  assumes "utf8_chars q" and "str = q @ r"
  shows "scan_result str (let (e, state, rest) = table_loop 0 0 r; n = length str - length rest
    in if kExitIllegalStructure \<le> e then (e, if state \<noteq> 0 then back_up str (n - 1) else n - 1)
       else if state \<noteq> 0 then (kExitIllegalStructure, back_up str n) else (kExitOK, n))" (is "scan_result str ?r")
proof -
  obtain p t where pt: "r = p @ t" "utf8_chars p" "t = [] \<or> \<not> starts_char t" using decompose_chars by blast
  let ?L = "length (q @ p)"
  have loop: "table_loop 0 0 r = table_loop 0 0 t" using pt(1,2) table_loop_chars by (auto simp: utf8_chars_def)
  have str: "str = (q @ p) @ t" using assms(2) pt(1) by simp
  have qp: "utf8_chars (q @ p)" using assms(1) pt(2) by (rule utf8_chars_append)
  have "snd ?r = ?L \<and> (t = [] \<and> fst ?r = kExitOK \<or> t \<noteq> [] \<and> \<not> starts_char t \<and> (fst ?r = kExitIllegalStructure \<or> fst ?r = kExitReject))"
  proof (cases t)
    case Nil
    then show ?thesis using str by (simp add: loop kExitIllegalStructure_def)
  next
    case (Cons a u)
    then have no: "\<not> starts_char (a # u)" using pt(3) by simp
    have at: "str ! (?L + i) = (a # u) ! i" for i unfolding str Cons by (simp add: nth_append)
    have len: "length str = Suc (?L + length u)" by (simp add: str Cons)
    show ?thesis
    proof (cases "table_entry 0 a = 240")
      case True
      then show ?thesis using no len by (simp add: loop Cons kExitIllegalStructure_def Let_def)
    next
      case False
      let ?st = "table_entry 0 a"
      have lead: "?st \<noteq> 0" "?st < 240" "ends_within ?st u" "\<not> continuation a" using broken_lead [OF no False] by auto
      obtain e state rest where e: "table_loop ?st ?st u = (e, state, rest)" "state \<noteq> 0"
        "(e = 240 \<or> e = 242) \<and> (\<exists>j. length rest = length u - Suc j \<and> j < length u \<and> (\<forall>i<j. continuation (u ! i)))
          \<or> e < 240 \<and> rest = [] \<and> (\<forall>i<length u. continuation (u ! i))"
        using lead(3) [unfolded ends_within_def, rule_format, OF lead(2)] by blast
      have l: "table_loop 0 0 r = (e, state, rest)" using lead(2) e(1) by (simp add: loop Cons kExitIllegalStructure_def Let_def)
      have start: "\<not> continuation (str ! ?L)" using at [of 0] lead(4) by simp
      have backs: "back_up str (?L + Suc k) = ?L" if "\<forall>i<k. continuation (u ! i)" for k
      proof (rule back_up_to)
        fix i assume "?L < i" "i < ?L + Suc k"
        then obtain j where "i = ?L + Suc j" "j < k" using less_imp_Suc_add by (metis add_Suc_right add_less_cancel_left Suc_less_eq)
        then show "continuation (str ! i)" using that at [of "Suc j"] by simp
      qed (use start in simp_all)
      from e(3) show ?thesis
      proof
        assume bad: "(e = 240 \<or> e = 242) \<and> (\<exists>j. length rest = length u - Suc j \<and> j < length u \<and> (\<forall>i<j. continuation (u ! i)))"
        then obtain j where j: "length rest = length u - Suc j" "j < length u" "\<forall>i<j. continuation (u ! i)" by blast
        then have "length str - length rest - 1 = ?L + Suc j" using len by simp
        then have "back_up str (length str - length rest - 1) = ?L" using backs [OF j(3)] by simp
        then show ?thesis using l e(2) bad no Cons by (auto simp: kExitIllegalStructure_def kExitReject_def)
      next
        assume rest: "e < 240 \<and> rest = [] \<and> (\<forall>i<length u. continuation (u ! i))"
        then have "back_up str (length str - length rest) = ?L" using backs [of "length u"] len by simp
        then show ?thesis using l e(2) rest no Cons by (simp add: kExitIllegalStructure_def)
      qed
    qed
  qed
  then show ?thesis unfolding scan_result_def using str qp by blast
qed

theorem UTF8GenericScan_result: "scan_result str (UTF8GenericScan addr str)"
proof (cases "str = []")
  case True
  then show ?thesis by (auto simp: scan_result_def UTF8GenericScan_def)
next
  case False
  define n0 where "n0 = align_skip addr str"
  define n1 where "n1 = (if (addr + n0) mod 8 = 0 then n0 + group_skip (drop n0 str) else n0)"
  have "ascii_prefix n0 str" by (simp add: n0_def align_skip_ascii)
  then have "ascii_prefix n1 str" using ascii_prefix_add [OF _ group_skip_ascii] by (simp add: n1_def)
  then have q: "utf8_chars (take n1 str)" by (rule ascii_chars)
  have "scan_result str (let (e, state, rest) = table_loop 0 0 (drop n1 str); n = length str - length rest
    in if kExitIllegalStructure \<le> e then (e, if state \<noteq> 0 then back_up str (n - 1) else n - 1)
       else if state \<noteq> 0 then (kExitIllegalStructure, back_up str n) else (kExitOK, n))"
    by (rule table_scan_result [OF q]) simp
  then show ?thesis unfolding UTF8GenericScan_def n1_def n0_def Let_def using False by (simp only: if_False)
qed

theorem UTF8GenericScanFastAscii_result: "scan_result str (UTF8GenericScanFastAscii addr str)"
proof (cases "str = []")
  case True
  then show ?thesis by (auto simp: scan_result_def UTF8GenericScanFastAscii_def)
next
  case False
  define n0 where "n0 = ascii_align_skip addr str"
  define n1 where "n1 = (if (addr + n0) mod 8 = 0 then n0 + ascii_group_skip (drop n0 str) else n0)"
  define n2 where "n2 = n1 + ascii_skip (drop n1 str)"
  have "ascii_prefix n0 str" by (simp add: n0_def ascii_align_skip_ascii)
  then have "ascii_prefix n1 str" using ascii_prefix_add [OF _ ascii_group_skip_ascii] by (simp add: n1_def)
  then have n2: "ascii_prefix n2 str" using ascii_prefix_add [OF _ ascii_skip_ascii] by (simp add: n2_def)
  then have q: "utf8_chars (take n2 str)" "n2 \<le> length str" by (auto intro: ascii_chars simp: ascii_prefix_def)
  have r: "UTF8GenericScanFastAscii addr str = (fst (UTF8GenericScan (addr + n2) (drop n2 str)), n2 + snd (UTF8GenericScan (addr + n2) (drop n2 str)))"
    using False by (simp add: UTF8GenericScanFastAscii_def n0_def n1_def n2_def Let_def split: prod.splits)
  obtain p t where pt: "drop n2 str = p @ t" "utf8_chars p" "snd (UTF8GenericScan (addr + n2) (drop n2 str)) = length p"
    "t = [] \<and> fst (UTF8GenericScan (addr + n2) (drop n2 str)) = kExitOK \<or> t \<noteq> [] \<and> \<not> starts_char t
      \<and> (fst (UTF8GenericScan (addr + n2) (drop n2 str)) = kExitIllegalStructure \<or> fst (UTF8GenericScan (addr + n2) (drop n2 str)) = kExitReject)"
    using UTF8GenericScan_result [of "drop n2 str" "addr + n2"] unfolding scan_result_def by blast
  have "str = (take n2 str @ p) @ t" using append_take_drop_id [of n2 str] pt(1) by simp
  moreover have "utf8_chars (take n2 str @ p)" using q(1) pt(2) by (rule utf8_chars_append)
  moreover have "snd (UTF8GenericScanFastAscii addr str) = length (take n2 str @ p)" using r pt(3) q(2) by simp
  ultimately show ?thesis using pt(4) unfolding scan_result_def r fst_conv by blast
qed

section \<open>Characters are the encodings of scalar values\<close>

lemma unat_byte: "n < 256 \<Longrightarrow> unat (word_of_nat n :: BYTE) = n"
  by (simp add: unat_of_nat take_bit_nat_eq_self)

lemma byte_eq: "n < 256 \<Longrightarrow> (word_of_nat n :: BYTE) = b \<longleftrightarrow> n = unat b"
  using unat_byte by (metis word_unat_eq_iff)

lemma div_mod_digits:
  fixes a b c d :: nat
  assumes "b < 64" and "c < 64" and "d < 64"
  shows "(64 * a + d) div 64 = a" "(64 * a + d) mod 64 = d"
    "(4096 * a + 64 * c + d) div 4096 = a" "(4096 * a + 64 * c + d) div 64 mod 64 = c" "(4096 * a + 64 * c + d) mod 64 = d"
    "(262144 * a + 4096 * b + 64 * c + d) div 262144 = a" "(262144 * a + 4096 * b + 64 * c + d) div 4096 mod 64 = b"
    "(262144 * a + 4096 * b + 64 * c + d) div 64 mod 64 = c" "(262144 * a + 4096 * b + 64 * c + d) mod 64 = d"
proof -
  have q: "(64 * a + d) div 64 = a" "(64 * a + d) mod 64 = d" for a :: nat using assms(3) by simp_all
  have 3: "(4096 * a + 64 * c + d) div 64 = 64 * a + c" for a :: nat using q(1) [of "64 * a + c"] by (simp add: algebra_simps)
  have 4: "(262144 * a + 4096 * b + 64 * c + d) div 64 = 4096 * a + 64 * b + c" using q(1) [of "4096 * a + 64 * b + c"] by (simp add: algebra_simps)
  show "(64 * a + d) div 64 = a" "(64 * a + d) mod 64 = d" by (rule q)+
  show "(4096 * a + 64 * c + d) div 64 mod 64 = c" unfolding 3 using assms(2) by simp
  show "(4096 * a + 64 * c + d) mod 64 = d" using q(2) [of "64 * a + c"] by (simp add: algebra_simps)
  show "(4096 * a + 64 * c + d) div 4096 = a"
    by (rule div_nat_eqI) (use assms in simp_all)
  show "(262144 * a + 4096 * b + 64 * c + d) div 262144 = a" by (rule div_nat_eqI) (use assms in simp_all)
  show "(262144 * a + 4096 * b + 64 * c + d) div 64 mod 64 = c"
    unfolding 4 using assms(2) by (simp add: mod_add_eq [symmetric] mod_mult_right_eq)
  have "(262144 * a + 4096 * b + 64 * c + d) div 4096 = 64 * a + b" by (rule div_nat_eqI) (use assms in simp_all)
  then show "(262144 * a + 4096 * b + 64 * c + d) div 4096 mod 64 = b" using assms(1) by simp
  show "(262144 * a + 4096 * b + 64 * c + d) mod 64 = d" using q(2) [of "4096 * a + 64 * b + c"] by (simp add: algebra_simps)
qed

lemma continuation_nat: "continuation b \<longleftrightarrow> (\<exists>x<64. unat b = 128 + x)"
  unfolding continuation_iff by (auto intro: exI [of _ "unat b - 128"])

lemma utf8_char_encode: "utf8_char p \<Longrightarrow> \<exists>cp. scalar_value cp \<and> p = utf8_encode cp"
proof (cases p rule: utf8_char.cases)
  case (1 a)
  moreover assume "utf8_char p"
  ultimately have "scalar_value (unat a) \<and> p = utf8_encode (unat a)" by (simp add: scalar_value_def utf8_encode_def)
  then show ?thesis by blast
next
  case (2 a b)
  moreover assume "utf8_char p"
  ultimately obtain x where x: "x < 64" "unat b = 128 + x" "194 \<le> unat a" "unat a < 224" by (auto simp: continuation_nat)
  define y where "y = unat a - 192"
  have y: "unat a = 192 + y" "2 \<le> y" "y < 32" using x by (simp_all add: y_def)
  have "scalar_value (64 * y + x) \<and> p = utf8_encode (64 * y + x)"
    using x y 2 by (simp add: scalar_value_def utf8_encode_def div_mod_digits byte_eq eq_commute [of _ "word_of_nat _"] del: of_nat_add)
  then show ?thesis by blast
next
  case (3 a b c)
  moreover assume "utf8_char p"
  ultimately obtain x y where x: "x < 64" "unat c = 128 + x" "y < 64" "unat b = 128 + y"
    and a: "unat a = 224 \<and> 32 \<le> y \<or> 225 \<le> unat a \<and> unat a < 237 \<or> unat a = 237 \<and> y < 32 \<or> 238 \<le> unat a \<and> unat a < 240"
    by (auto simp: continuation_nat)
  define z where "z = unat a - 224"
  have z: "unat a = 224 + z" "z < 16" "z = 0 \<longrightarrow> 32 \<le> y" "z = 13 \<longrightarrow> y < 32" using a by (auto simp: z_def)
  have range: "2048 \<le> 4096 * z + 64 * y + x" "4096 * z + 64 * y + x < 65536" using x z by (cases "z = 0"; simp)+
  have "4096 * z + 64 * y + x < 55296 \<or> 57343 < 4096 * z + 64 * y + x" using x z by (cases "z < 13"; cases "z = 13") auto
  then have "scalar_value (4096 * z + 64 * y + x)" using range by (auto simp: scalar_value_def)
  moreover have "p = utf8_encode (4096 * z + 64 * y + x)"
    using x z range 3 by (simp add: utf8_encode_def div_mod_digits byte_eq eq_commute [of _ "word_of_nat _"] del: of_nat_add)
  ultimately show ?thesis by blast
next
  case (4 a b c d)
  moreover assume "utf8_char p"
  ultimately obtain x y w where x: "x < 64" "unat d = 128 + x" "y < 64" "unat c = 128 + y" "w < 64" "unat b = 128 + w"
    and a: "unat a = 240 \<and> 16 \<le> w \<or> 241 \<le> unat a \<and> unat a < 244 \<or> unat a = 244 \<and> w < 16"
    by (auto simp: continuation_nat)
  define z where "z = unat a - 240"
  have z: "unat a = 240 + z" "z \<le> 4" "z = 0 \<longrightarrow> 16 \<le> w" "z = 4 \<longrightarrow> w < 16" using a by (auto simp: z_def)
  let ?cp = "262144 * z + 4096 * w + 64 * y + x"
  have range: "65536 \<le> ?cp" using x z by (cases "z = 0") auto
  have "?cp \<le> 1114111" using x z by (cases "z = 4") auto
  then have "scalar_value ?cp" using range by (auto simp: scalar_value_def)
  moreover have "p = utf8_encode ?cp" using x z range 4 by (simp add: utf8_encode_def div_mod_digits byte_eq eq_commute [of _ "word_of_nat _"] del: of_nat_add)
  ultimately show ?thesis by blast
qed auto

lemma utf8_encode_char: "scalar_value cp \<Longrightarrow> utf8_char (utf8_encode cp)"
proof -
  assume cp: "scalar_value cp"
  have cont: "continuation (word_of_nat (128 + x))" if "x < 64" for x
    using that unat_byte [of "128 + x"] by (simp add: continuation_iff)
  have "cp < 1114112" using cp by (auto simp: scalar_value_def)
  consider "cp < 128" | "128 \<le> cp" "cp < 2048" | "2048 \<le> cp" "cp < 65536" | "65536 \<le> cp" by linarith
  then show ?thesis
  proof cases
    case 1
    then show ?thesis using unat_byte [of cp] by (simp add: utf8_encode_def)
  next
    case 2
    have "2 \<le> cp div 64" "cp div 64 < 32" using 2 by (simp_all add: less_eq_div_iff_mult_less_eq div_less_iff_less_mult)
    then show ?thesis using 2 unat_byte [of "192 + cp div 64"] cont by (simp add: utf8_encode_def)
  next
    case 3
    define z y where "z = cp div 4096" and "y = cp div 64 mod 64"
    have e: "utf8_encode cp = [word_of_nat (224 + z), word_of_nat (128 + y), word_of_nat (128 + cp mod 64)]"
      using 3 by (simp add: utf8_encode_def z_def y_def)
    have cp4: "cp = 4096 * z + 64 * y + cp mod 64"
    proof -
      have "cp div 64 = 64 * z + y" unfolding z_def y_def using div_mult_mod_eq [of "cp div 64" 64] by (simp add: div_mult2_eq [symmetric])
      then show ?thesis using div_mult_mod_eq [of cp 64] by simp
    qed
    have m: "cp mod 64 < 64" "y < 64" by (simp_all add: y_def)
    have z: "z < 16" "z = 0 \<longrightarrow> 32 \<le> y" using 3 cp4 m by auto
    have s: "z = 13 \<longrightarrow> y < 32" using cp cp4 m by (auto simp: scalar_value_def)
    have u: "unat (word_of_nat (224 + z) :: BYTE) = 224 + z" "unat (word_of_nat (128 + y) :: BYTE) = 128 + y" using z m unat_byte [of "224 + z"] unat_byte [of "128 + y"] by simp_all
    show ?thesis unfolding e using u z s cont m by auto
  next
    case 4
    define z w y where "z = cp div 262144" and "w = cp div 4096 mod 64" and "y = cp div 64 mod 64"
    have e: "utf8_encode cp = [word_of_nat (240 + z), word_of_nat (128 + w), word_of_nat (128 + y), word_of_nat (128 + cp mod 64)]"
      using 4 by (simp add: utf8_encode_def z_def y_def w_def)
    have cp4: "cp = 262144 * z + 4096 * w + 64 * y + cp mod 64"
    proof -
      have a: "cp div 64 = 64 * (cp div 4096) + y" unfolding y_def using div_mult_mod_eq [of "cp div 64" 64] by (simp add: div_mult2_eq [symmetric])
      have b: "cp div 4096 = 64 * z + w" unfolding z_def w_def using div_mult_mod_eq [of "cp div 4096" 64] by (simp add: div_mult2_eq [symmetric])
      show ?thesis using div_mult_mod_eq [of cp 64] a b by simp
    qed
    have m: "cp mod 64 < 64" "y < 64" "w < 64" by (simp_all add: y_def w_def)
    have z: "z \<le> 4" "z = 0 \<longrightarrow> 16 \<le> w" "z = 4 \<longrightarrow> w < 16" using 4 \<open>cp < 1114112\<close> cp4 m by auto
    have u: "unat (word_of_nat (240 + z) :: BYTE) = 240 + z" "unat (word_of_nat (128 + w) :: BYTE) = 128 + w" using z m unat_byte [of "240 + z"] unat_byte [of "128 + w"] by simp_all
    show ?thesis unfolding e using u z cont m by auto
  qed
qed

lemma utf8_chars_valid: "utf8_chars s \<longleftrightarrow> utf8_valid s"
proof
  assume "utf8_chars s"
  then obtain cs where cs: "list_all utf8_char cs" "s = concat cs" by (auto simp: utf8_chars_def)
  have "\<exists>cps. list_all scalar_value cps \<and> cs = map utf8_encode cps"
    using cs(1)
  proof (induction cs)
    case (Cons c cs)
    then have "utf8_char c" by simp
    then obtain cp where "scalar_value cp" "c = utf8_encode cp" using utf8_char_encode by blast
    moreover obtain cps where "list_all scalar_value cps" "cs = map utf8_encode cps" using Cons by auto
    ultimately have "scalar_value cp" "c = utf8_encode cp" "list_all scalar_value cps" "cs = map utf8_encode cps" .
    then show ?case by (intro exI [of _ "cp # cps"]) simp
  qed simp
  then show "utf8_valid s" using cs(2) by (auto simp: utf8_valid_def)
next
  assume "utf8_valid s"
  then obtain cps where "list_all scalar_value cps" "s = concat (map utf8_encode cps)" by (auto simp: utf8_valid_def)
  then show "utf8_chars s" unfolding utf8_chars_def
    by (intro exI [of _ "map utf8_encode cps"]) (auto simp: list_all_iff intro: utf8_encode_char)
qed

section \<open>The scan against the reference\<close>

text \<open>The first byte fixes the length of a character, so a text is cut in one way only.\<close>

lemma utf8_char_unique:
  assumes "utf8_char c" and "utf8_char d" and "c @ x = d @ y"
  shows "c = d"
proof -
  have "hd c = hd d" using assms utf8_char_length by (metis hd_append2)
  then have "length c = length d" using utf8_char_length [OF assms(1)] utf8_char_length [OF assms(2)] by simp
  then show ?thesis using assms(3) by simp
qed

lemma utf8_chars_drop: "utf8_chars p \<Longrightarrow> utf8_chars (p @ u) \<Longrightarrow> utf8_chars u"
proof -
  assume "utf8_chars p" "utf8_chars (p @ u)"
  then obtain cs ds where cs: "list_all utf8_char cs" "p = concat cs" and ds: "list_all utf8_char ds" "p @ u = concat ds"
    by (auto simp: utf8_chars_def)
  have "list_all utf8_char cs \<Longrightarrow> list_all utf8_char ds \<Longrightarrow> concat cs @ u = concat ds \<Longrightarrow> utf8_chars u" for cs ds
  proof (induction cs arbitrary: ds)
    case Nil
    then show ?case by (auto simp: utf8_chars_def)
  next
    case (Cons c cs)
    then obtain d ds' where d: "ds = d # ds'" using utf8_char_length by (cases ds) auto
    then have "c = d" using Cons.prems utf8_char_unique [of c d "concat cs @ u" "concat ds'"] by simp
    then show ?case using Cons d by simp
  qed
  then show ?thesis using cs ds by auto
qed

lemma utf8_chars_starts: "utf8_chars u \<Longrightarrow> u \<noteq> [] \<Longrightarrow> starts_char (u @ v)"
proof -
  assume u: "utf8_chars u" "u \<noteq> []"
  then obtain cs where "list_all utf8_char cs" "u = concat cs" by (auto simp: utf8_chars_def)
  then obtain c cs' where "utf8_char c" "u = c @ concat cs'" using u(2) by (cases cs) auto
  then show ?thesis unfolding starts_char_def by (metis append.assoc)
qed

theorem IsStructurallyValidUTF8_iff: "IsStructurallyValidUTF8 addr buf \<longleftrightarrow> utf8_valid buf"
proof -
  obtain p t where pt: "buf = p @ t" "utf8_chars p" "snd (UTF8GenericScanFastAscii addr buf) = length p" "t = [] \<or> \<not> starts_char t"
    using UTF8GenericScanFastAscii_result [of buf addr] unfolding scan_result_def by blast
  have "utf8_chars buf \<longleftrightarrow> t = []"
  proof
    assume "utf8_chars buf"
    then have "utf8_chars t" using utf8_chars_drop [OF pt(2)] pt(1) by simp
    then show "t = []" using pt(4) utf8_chars_starts [of t "[]"] by auto
  qed (use pt in simp)
  then show ?thesis using pt by (auto simp: IsStructurallyValidUTF8_def utf8_chars_valid [symmetric])
qed

theorem UTF8SpnStructurallyValid_longest:
  "UTF8SpnStructurallyValid addr str \<le> length str \<and> utf8_valid (take (UTF8SpnStructurallyValid addr str) str)
   \<and> (\<forall>m. UTF8SpnStructurallyValid addr str < m \<longrightarrow> m \<le> length str \<longrightarrow> \<not> utf8_valid (take m str))"
proof -
  obtain p t where pt: "str = p @ t" "utf8_chars p" "snd (UTF8GenericScanFastAscii addr str) = length p" "t = [] \<or> \<not> starts_char t"
    using UTF8GenericScanFastAscii_result [of str addr] unfolding scan_result_def by blast
  have n: "UTF8SpnStructurallyValid addr str = length p" using pt(3) by (simp add: UTF8SpnStructurallyValid_def)
  have "\<not> utf8_chars (take m str)" if "length p < m" "m \<le> length str" for m
  proof
    assume chars: "utf8_chars (take m str)"
    have m: "take m str = p @ take (m - length p) t" using that pt(1) by simp
    then have "utf8_chars (take (m - length p) t)" using utf8_chars_drop [OF pt(2)] chars by simp
    moreover have "take (m - length p) t \<noteq> []" "t \<noteq> []" using that pt(1) by auto
    ultimately have "starts_char t" using utf8_chars_starts [of "take (m - length p) t" "drop (m - length p) t"] by simp
    then show False using pt(4) \<open>t \<noteq> []\<close> by simp
  qed
  then show ?thesis using n pt(1,2) by (simp add: utf8_chars_valid)
qed

text \<open>Coercing replaces bytes one for one and yields valid text when the replacement is ASCII.\<close>

lemma coerce_loop_ok:
  "unat r < 128 \<Longrightarrow> length (coerce_loop r addr src) = length src \<and> utf8_chars (coerce_loop r addr src)"
proof (induction r addr src rule: coerce_loop.induct)
  case (2 r addr c src)
  let ?n = "UTF8SpnStructurallyValid (addr + 1) src"
  have n: "?n \<le> length src" "utf8_chars (take ?n src)"
    using UTF8SpnStructurallyValid_longest [of "addr + 1" src] by (simp_all add: utf8_chars_valid)
  have "utf8_char [r]" using 2(2) by simp
  then have "utf8_chars ([r] @ take ?n src @ coerce_loop r (addr + 1 + ?n) (drop ?n src))"
    using 2 n(2) by (intro utf8_chars_Cons utf8_chars_append) simp_all
  then show ?case using 2 n(1) by (simp add: Let_def)
qed simp

theorem UTF8CoerceToStructurallyValid_ok:
  assumes "unat replace_char < 128"
  shows "utf8_valid (UTF8CoerceToStructurallyValid addr s replace_char) \<and> length (UTF8CoerceToStructurallyValid addr s replace_char) = length s
    \<and> (utf8_valid s \<longrightarrow> UTF8CoerceToStructurallyValid addr s replace_char = s)"
proof -
  let ?n = "UTF8SpnStructurallyValid addr s"
  have n: "?n \<le> length s" "utf8_valid (take ?n s)" "?n < length s \<Longrightarrow> \<not> utf8_valid s"
    using UTF8SpnStructurallyValid_longest [of addr s] by auto
  show ?thesis
  proof (cases "?n = length s")
    case True
    then show ?thesis using n(2) by (simp add: UTF8CoerceToStructurallyValid_def)
  next
    case False
    have "utf8_chars (take ?n s @ coerce_loop replace_char (addr + ?n) (drop ?n s))"
      using n(2) coerce_loop_ok [OF assms] by (intro utf8_chars_append) (simp_all add: utf8_chars_valid)
    then show ?thesis using False n(1,3) coerce_loop_ok [OF assms, of "addr + ?n" "drop ?n s"]
      by (simp add: UTF8CoerceToStructurallyValid_def Let_def utf8_chars_valid)
  qed
qed

end
