(* ===== verification/ProtoMessage.thy ===== *)
theory ProtoMessage imports ProtoCodec ProtoUtf8 begin

text \<open>
  What every generated message owes to the runtime, as one interface: its switch never faults and does
  not depend on the fuel, its serialiser writes what its parser reads and what its MergeFrom merges,
  and what it parses is well formed. The consequences (parsing an array always ends, round trips,
  merging by concatenation) are proved once, for any message.
\<close>

section \<open>The fuel does not matter\<close>

lemma bind_parsed_cong: "(\<And>x. r = Parsed x \<Longrightarrow> f x = g x) \<Longrightarrow> bind_parsed r f = bind_parsed r g"
  by (cases r) simp_all

lemma within_Parsed: "within c r \<Longrightarrow> r = Parsed (x, c') \<Longrightarrow> ctx_ok c' \<and> length (cx_bytes c') \<le> length (cx_bytes c)"
  by simp

text \<open>What a field may rely on: 12 readable bytes, in a context that is shorter than the one the loop started in.\<close>

lemma loop_step:
  assumes "ctx_ok c" and "length (cx_bytes c) < Suc k" and "Done c = Parsed (False, c1)" and "ReadTag (readable c1) = Parsed (n, tag)"
  shows "ctx_ok (advance n c1)" and "length (cx_bytes (advance n c1)) < k" and "12 \<le> length (readable (advance n c1))"
    and "length (cx_bytes (advance n c1)) < length (cx_bytes c)"
proof -
  have c1: "ctx_ok c1" "cx_bytes c1 = cx_bytes c" "17 \<le> length (readable c1)" using Done_cases [OF assms(1)] assms(3) by auto
  have "takes 5 (ReadTag (readable c1))" by (rule ReadTag_takes) (use c1 in simp)
  then have n: "0 < n" "n \<le> 5" using assms(4) by auto
  have le: "n \<le> length (readable c1)" "length (readable c1) \<le> length (cx_bytes c)"
    using n c1 length_readable [OF c1(1)] by simp_all
  note a = advance_ok [OF c1(1) le(1)]
  show "ctx_ok (advance n c1)" "length (cx_bytes (advance n c1)) < length (cx_bytes c)" "12 \<le> length (readable (advance n c1))"
    using a c1 n le by simp_all
  then show "length (cx_bytes (advance n c1)) < k" using assms(2) by simp
qed

lemma Done_bytes: "ctx_ok c \<Longrightarrow> Done c = Parsed (b, c1) \<Longrightarrow> ctx_ok c1 \<and> cx_bytes c1 = cx_bytes c"
  using Done_cases [of c] by auto

definition steady_field :: "(nat \<Rightarrow> uint32 \<Rightarrow> 'm \<Rightarrow> ctx \<Rightarrow> ('m \<times> ctx) parsed option) \<Rightarrow> bool" where
  "steady_field field \<longleftrightarrow> (\<forall>k k' tag m c. ctx_ok c \<longrightarrow> 12 \<le> length (readable c) \<longrightarrow> length (cx_bytes c) < k \<longrightarrow> length (cx_bytes c) < k'
     \<longrightarrow> field k tag m c = field k' tag m c)"

lemma FieldParser_cong: "(\<And>num. g num c = h num c) \<Longrightarrow> FieldParser g tag c = FieldParser h tag c"
  by (simp add: FieldParser_def Let_def)

lemma ParseGroup_cong: "g (c\<lparr>cx_depth := cx_depth c - 1\<rparr>) = h (c\<lparr>cx_depth := cx_depth c - 1\<rparr>) \<Longrightarrow> ParseGroup g tag c = ParseGroup h tag c"
  by (simp add: ParseGroup_def Let_def)

lemma ParseMessage_cong:
  assumes "ctx_ok c" and "5 \<le> length (readable c)"
    and "\<And>c1. ctx_ok c1 \<Longrightarrow> length (cx_bytes c1) \<le> length (cx_bytes c) \<Longrightarrow> g m c1 = h m c1"
  shows "ParseMessage g m c = ParseMessage h m c"
  unfolding ParseMessage_def
proof (rule bind_parsed_cong, clarify)
  fix old c1 assume "ReadSizeAndPushLimitAndDepth c = Parsed (old, c1)"
  then have "ctx_ok c1" "length (cx_bytes c1) \<le> length (cx_bytes c)"
    using within_Parsed [OF ReadSizeAndPushLimitAndDepth_within [OF assms(1,2)]] by blast+
  then show "bind_parsed (g m c1) (\<lambda>(m', c2). bind_parsed (PopLimit old (c2\<lparr>cx_depth := cx_depth c2 + 1\<rparr>)) (\<lambda>c3. Parsed (m', c3)))
      = bind_parsed (h m c1) (\<lambda>(m', c2). bind_parsed (PopLimit old (c2\<lparr>cx_depth := cx_depth c2 + 1\<rparr>)) (\<lambda>c3. Parsed (m', c3)))"
    using assms(3) by simp
qed

lemma UnknownFieldParse_fuel:
  assumes "\<And>us c. ctx_ok c \<Longrightarrow> length (cx_bytes c) < k \<Longrightarrow> length (cx_bytes c) < k' \<Longrightarrow> WireFormatParser k us c = WireFormatParser k' us c"
    and "ctx_ok c" and "length (cx_bytes c) < k" and "length (cx_bytes c) < k'"
  shows "UnknownFieldParse k tag c = UnknownFieldParse k' tag c"
  unfolding UnknownFieldParse_def
proof (rule FieldParser_cong)
  fix num
  have "ParseGroup (WireFormatParser k []) (num * 8 + 3) c = ParseGroup (WireFormatParser k' []) (num * 8 + 3) c"
    by (rule ParseGroup_cong) (use assms in simp)
  then show "bind_parsed (ParseGroup (WireFormatParser k []) (num * 8 + 3) c) (\<lambda>(g, c'). Parsed (UF_Group num g, c'))
      = bind_parsed (ParseGroup (WireFormatParser k' []) (num * 8 + 3) c) (\<lambda>(g, c'). Parsed (UF_Group num g, c'))"
    by simp
qed

text \<open>With more fuel than there are bytes, the loop of a message does the same.\<close>

lemma message_loop_fuel_step:
  assumes ok: "ctx_ok c" and k: "length (cx_bytes c) < Suc k" and k': "length (cx_bytes c) < Suc k'"
    and steady: "steady_field field" and safe: "safe_field field"
    and unk: "\<And>tag c. ctx_ok c \<Longrightarrow> length (cx_bytes c) < k \<Longrightarrow> length (cx_bytes c) < k' \<Longrightarrow> UnknownFieldParse k tag c = UnknownFieldParse k' tag c"
    and IH: "\<And>m c. ctx_ok c \<Longrightarrow> length (cx_bytes c) < k \<Longrightarrow> length (cx_bytes c) < k' \<Longrightarrow> message_loop field add k m c = message_loop field add k' m c"
  shows "message_loop field add (Suc k) m c = message_loop field add (Suc k') m c"
proof -
  have "bind_parsed (ReadTag (readable c1)) (\<lambda>(n, tag). let c2 = advance n c1
         in case field k tag m c2 of
              Some r \<Rightarrow> bind_parsed r (\<lambda>(m', c3). message_loop field add k m' c3)
            | None \<Rightarrow> if tag = 0 \<or> tag AND 7 = 4 then Parsed (m, SetLastTag tag c2)
                else bind_parsed (UnknownFieldParse k tag c2) (\<lambda>(u, c3). message_loop field add k (add u m) c3))
     = bind_parsed (ReadTag (readable c1)) (\<lambda>(n, tag). let c2 = advance n c1
         in case field k' tag m c2 of
              Some r \<Rightarrow> bind_parsed r (\<lambda>(m', c3). message_loop field add k' m' c3)
            | None \<Rightarrow> if tag = 0 \<or> tag AND 7 = 4 then Parsed (m, SetLastTag tag c2)
                else bind_parsed (UnknownFieldParse k' tag c2) (\<lambda>(u, c3). message_loop field add k' (add u m) c3))"
    if d1: "Done c = Parsed (False, c1)" for c1
  proof (rule bind_parsed_cong, clarify)
    fix n tag assume tag: "ReadTag (readable c1) = Parsed (n, tag)"
    let ?c2 = "advance n c1"
    note s = loop_step [OF ok k d1 tag] loop_step(2) [OF ok k' d1 tag]
    have same: "field k tag m ?c2 = field k' tag m ?c2" using steady s unfolding steady_field_def by blast
    have known: "bind_parsed r (\<lambda>(m', c3). message_loop field add k m' c3) = bind_parsed r (\<lambda>(m', c3). message_loop field add k' m' c3)"
      if "field k tag m ?c2 = Some r" for r
    proof (rule bind_parsed_cong, clarify)
      fix m' c3 assume r: "r = Parsed (m', c3)"
      have w: "within ?c2 r" using safe s that unfolding safe_field_def by blast
      show "message_loop field add k m' c3 = message_loop field add k' m' c3" using within_Parsed [OF w r] s(2,5) by (intro IH) simp_all
    qed
    have unknown: "bind_parsed (UnknownFieldParse k tag ?c2) (\<lambda>(u, c3). message_loop field add k (add u m) c3)
        = bind_parsed (UnknownFieldParse k' tag ?c2) (\<lambda>(u, c3). message_loop field add k' (add u m) c3)" if "tag AND 7 \<noteq> 4"
      unfolding unk [OF s(1,2,5), symmetric]
    proof (rule bind_parsed_cong, clarify)
      fix u c3 assume "UnknownFieldParse k tag ?c2 = Parsed (u, c3)"
      then show "message_loop field add k (add u m) c3 = message_loop field add k' (add u m) c3"
        using within_Parsed [OF UnknownFieldParse_within [OF s(1,3) that s(2)]] s by (intro IH) auto
    qed
    show "(let c2 = ?c2 in case field k tag m c2 of
              Some r \<Rightarrow> bind_parsed r (\<lambda>(m', c3). message_loop field add k m' c3)
            | None \<Rightarrow> if tag = 0 \<or> tag AND 7 = 4 then Parsed (m, SetLastTag tag c2)
                else bind_parsed (UnknownFieldParse k tag c2) (\<lambda>(u, c3). message_loop field add k (add u m) c3))
      = (let c2 = ?c2 in case field k' tag m c2 of
              Some r \<Rightarrow> bind_parsed r (\<lambda>(m', c3). message_loop field add k' m' c3)
            | None \<Rightarrow> if tag = 0 \<or> tag AND 7 = 4 then Parsed (m, SetLastTag tag c2)
                else bind_parsed (UnknownFieldParse k' tag c2) (\<lambda>(u, c3). message_loop field add k' (add u m) c3))"
      using known unknown by (simp add: Let_def same split: option.split)
  qed
  then show ?thesis unfolding message_loop.simps by (intro bind_parsed_cong) auto
qed

lemma no_field: "steady_field (\<lambda>_ _ _ _. None)" "safe_field (\<lambda>_ _ _ _. None)"
  by (simp_all add: steady_field_def safe_field_def)

lemma WireFormatParser_fuel:
  "ctx_ok c \<Longrightarrow> length (cx_bytes c) < k \<Longrightarrow> length (cx_bytes c) < k' \<Longrightarrow> WireFormatParser k us c = WireFormatParser k' us c"
proof (induction k arbitrary: k' us c)
  case (Suc k)
  then obtain j where j: "k' = Suc j" by (cases k') auto
  have unk: "UnknownFieldParse k tag c = UnknownFieldParse j tag c"
    if "ctx_ok c" "length (cx_bytes c) < k" "length (cx_bytes c) < j" for tag c
    by (rule UnknownFieldParse_fuel [OF _ that]) (rule Suc.IH)
  have IH: "message_loop (\<lambda>_ _ _ _. None) (\<lambda>u us. us @ [u]) k us c = message_loop (\<lambda>_ _ _ _. None) (\<lambda>u us. us @ [u]) j us c"
    if "ctx_ok c" "length (cx_bytes c) < k" "length (cx_bytes c) < j" for us c
    using Suc.IH [OF that, of us] by (simp only: WireFormatParser_loop)
  show ?case unfolding WireFormatParser_loop j
    by (rule message_loop_fuel_step [OF Suc.prems(1,2) Suc.prems(3) [unfolded j] no_field unk IH])
qed simp

lemma message_loop_fuel:
  assumes "steady_field field" and "safe_field field"
  shows "ctx_ok c \<Longrightarrow> length (cx_bytes c) < k \<Longrightarrow> length (cx_bytes c) < k' \<Longrightarrow> message_loop field add k m c = message_loop field add k' m c"
proof (induction k arbitrary: k' m c)
  case (Suc k)
  then obtain j where j: "k' = Suc j" by (cases k') auto
  have unk: "UnknownFieldParse k tag c = UnknownFieldParse j tag c"
    if "ctx_ok c" "length (cx_bytes c) < k" "length (cx_bytes c) < j" for tag c
    by (rule UnknownFieldParse_fuel [OF _ that]) (rule WireFormatParser_fuel)
  show ?case unfolding j by (rule message_loop_fuel_step [OF Suc.prems(1,2) Suc.prems(3) [unfolded j] assms unk Suc.IH])
qed simp

section \<open>What is parsed is well formed\<close>

primrec uf_wf :: "unknown_field \<Rightarrow> bool" where
  "uf_wf (UF_Varint num v) = number_ok num"
| "uf_wf (UF_Fixed32 num v) = number_ok num"
| "uf_wf (UF_Fixed64 num v) = number_ok num"
| "uf_wf (UF_LengthDelimited num s) = number_ok num"
| "uf_wf (UF_Group num us) = (number_ok num \<and> list_all (\<lambda>b. b) (map uf_wf us))"

definition uf_fits :: "int \<Rightarrow> unknown_field \<Rightarrow> bool" where
  "uf_fits d u \<longleftrightarrow> uf_wf u \<and> int (uf_depth u) \<le> d"

lemma fold_max_le: "fold max xs a \<le> b \<longleftrightarrow> a \<le> b \<and> (\<forall>x\<in>set xs. x \<le> (b :: nat))"
  by (induction xs arbitrary: a) auto

lemma length_concat_mem: "x \<in> set xs \<Longrightarrow> length (f x) \<le> length (concat (map f xs))"
  by (induction xs) auto

lemma uf_ok_of_size: "uf_wf u \<Longrightarrow> length (SerializeUnknownField u) \<le> INT_MAX - kSlopBytes \<Longrightarrow> uf_ok u"
proof (induction u)
  case (UF_Group num us)
  have "uf_ok v" if "v \<in> set us" for v
    using UF_Group.IH [OF that] UF_Group.prems length_concat_mem [OF that, of SerializeUnknownField] that by (simp add: list_all_iff)
  then show ?case using UF_Group.prems(1) by (simp add: list_all_iff)
qed (simp_all add: WriteString_eq)

lemma fold_max_int: "0 \<le> d \<Longrightarrow> int (fold max xs 0) \<le> d \<longleftrightarrow> (\<forall>x\<in>set xs. int x \<le> d)"
  using fold_max_le [of xs 0 "nat d"] by (simp add: nat_le_iff le_nat_iff)

lemma uf_fits_group: "0 < d \<Longrightarrow> uf_fits d (UF_Group num us) \<longleftrightarrow> number_ok num \<and> list_all (uf_fits (d - 1)) us"
  using fold_max_int [of "d - 1" "map uf_depth us"] by (auto simp: uf_fits_def list_all_iff)

lemma uf_fits_simps:
  "uf_fits d (UF_Varint num v) \<longleftrightarrow> number_ok num \<and> 0 \<le> d" "uf_fits d (UF_Fixed32 num w) \<longleftrightarrow> number_ok num \<and> 0 \<le> d"
  "uf_fits d (UF_Fixed64 num v) \<longleftrightarrow> number_ok num \<and> 0 \<le> d" "uf_fits d (UF_LengthDelimited num s) \<longleftrightarrow> number_ok num \<and> 0 \<le> d"
  by (simp_all add: uf_fits_def)

lemma tag_of_parts: "MakeTag (drop_bit 3 tag) (tag AND 7) = tag"
proof -
  have "tag AND 7 = take_bit 3 tag" by (simp add: take_bit_eq_mask mask_eq_exp_minus_1)
  then show ?thesis unfolding MakeTag_def by (intro bit_word_eqI) (auto simp: bit_or_iff bit_push_bit_iff bit_drop_bit_eq bit_take_bit_iff)
qed

text \<open>The depth counter is the same before and after every piece of a message.\<close>

lemma depth_advance [simp]: "cx_depth (advance n c) = cx_depth c"
  by (simp add: advance_def)

lemma Done_depth: "Done c = Parsed (b, c') \<Longrightarrow> cx_depth c' = cx_depth c"
  by (auto simp: Done_def DoneFallback_def NextBuffer_def at_stream_end_def SetEndOfStream_def Let_def split: if_splits option.splits)

lemma ReadString_depth: "ReadString n c = Parsed (s, c') \<Longrightarrow> cx_depth c' = cx_depth c"
  by (auto simp: ReadString_def NextBuffer_def Let_def split: if_splits option.splits)

lemma ParseMessage_result:
  assumes "ParseMessage parse m c = Parsed (m', c')"
  shows "\<exists>c1 c2. parse m c1 = Parsed (m', c2) \<and> cx_depth c1 = cx_depth c - 1 \<and> 0 \<le> cx_depth c1 \<and> cx_depth c' = cx_depth c2 + 1"
proof -
  obtain old c1 where c1: "ReadSizeAndPushLimitAndDepth c = Parsed (old, c1)"
      "bind_parsed (parse m c1) (\<lambda>(m', c2). bind_parsed (PopLimit old (c2\<lparr>cx_depth := cx_depth c2 + 1\<rparr>)) (\<lambda>c3. Parsed (m', c3))) = Parsed (m', c')"
    using assms unfolding ParseMessage_def by (cases "ReadSizeAndPushLimitAndDepth c") auto
  then have "cx_depth c1 = cx_depth c - 1 \<and> 0 \<le> cx_depth c1"
    by (auto simp: ReadSizeAndPushLimitAndDepth_def PushLimit_def Let_def bind_parsed_Parsed_iff split: if_splits)
  moreover obtain c2 where "parse m c1 = Parsed (m', c2)" "cx_depth c' = cx_depth c2 + 1"
    using c1(2) by (auto simp: bind_parsed_Parsed_iff PopLimit_def split: if_splits)
  ultimately show ?thesis by blast
qed

lemma ParseGroup_result:
  assumes "ParseGroup parse tag c = Parsed (g, c')"
  shows "\<exists>c1 c2. parse c1 = Parsed (g, c2) \<and> cx_depth c1 = cx_depth c - 1 \<and> 0 \<le> cx_depth c1 \<and> cx_depth c' = cx_depth c2 + 1"
  using assms by (force simp: ParseGroup_def ConsumeEndGroup_def Let_def bind_parsed_Parsed_iff split: if_splits)

definition unknown_result :: "nat \<Rightarrow> bool" where
  "unknown_result k \<longleftrightarrow> (\<forall>tag c u c'. UnknownFieldParse k tag c = Parsed (u, c') \<longrightarrow> 0 \<le> cx_depth c
     \<longrightarrow> uf_fits (cx_depth c) u \<and> uf_tag u = tag \<and> cx_depth c' = cx_depth c)"

text \<open>An invariant of the fields and of the unknown fields is one of the loop.\<close>

lemma message_loop_invariant:
  assumes fld: "\<And>k tag m c m' c'. field k tag m c = Some (Parsed (m', c')) \<Longrightarrow> 0 \<le> cx_depth c \<Longrightarrow> P (cx_depth c) m \<Longrightarrow> P (cx_depth c) m' \<and> cx_depth c' = cx_depth c"
    and unk: "\<And>k m c u d. field k (uf_tag u) m c = None \<Longrightarrow> uf_fits d u \<Longrightarrow> 0 \<le> d \<Longrightarrow> P d m \<Longrightarrow> P d (add u m)"
  shows "\<forall>j<k. unknown_result j \<Longrightarrow> message_loop field add k m c = Parsed (m', c') \<Longrightarrow> 0 \<le> cx_depth c \<Longrightarrow> P (cx_depth c) m
    \<Longrightarrow> P (cx_depth c) m' \<and> cx_depth c' = cx_depth c"
proof (induction k arbitrary: m c)
  case (Suc k)
  obtain b c1 where c1: "Done c = Parsed (b, c1)" "cx_depth c1 = cx_depth c"
    using Suc.prems(2) Done_depth by (auto simp: bind_parsed_Parsed_iff)
  show ?case
  proof (cases b)
    case True then show ?thesis using Suc.prems c1 by simp
  next
    case False
    then obtain n tag where tag: "ReadTag (readable c1) = Parsed (n, tag)" using Suc.prems(2) c1(1) by (auto simp: bind_parsed_Parsed_iff)
    let ?c2 = "advance n c1"
    have IH: "P (cx_depth c) m' \<and> cx_depth c' = cx_depth c" if "message_loop field add k m1 c3 = Parsed (m', c')" "P (cx_depth c) m1" "cx_depth c3 = cx_depth c" for m1 c3
      using Suc.IH [OF _ that(1)] Suc.prems(1,3) that(2,3) by simp
    show ?thesis
    proof (cases "field k tag m ?c2")
      case (Some r)
      then obtain m1 c3 where r: "r = Parsed (m1, c3)" "message_loop field add k m1 c3 = Parsed (m', c')"
        using Suc.prems(2) c1(1) tag False by (auto simp: bind_parsed_Parsed_iff Let_def)
      have "P (cx_depth c) m1 \<and> cx_depth c3 = cx_depth c" using fld [OF Some [unfolded r(1)]] Suc.prems(3,4) c1(2) by simp
      then show ?thesis using IH r(2) by blast
    next
      case None
      show ?thesis
      proof (cases "tag = 0 \<or> tag AND 7 = 4")
        case True then show ?thesis using Suc.prems c1 tag None False by (auto simp: Let_def SetLastTag_def)
      next
        case unusual: False
        then obtain u c3 where u: "UnknownFieldParse k tag ?c2 = Parsed (u, c3)" "message_loop field add k (add u m) c3 = Parsed (m', c')"
          using Suc.prems(2) c1(1) tag False None by (auto simp: bind_parsed_Parsed_iff Let_def)
        have "uf_fits (cx_depth c) u \<and> uf_tag u = tag \<and> cx_depth c3 = cx_depth c"
          using Suc.prems(1,3) u(1) c1(2) unfolding unknown_result_def by (metis depth_advance lessI)
        then show ?thesis using IH [OF u(2)] unk [of k u m ?c2 "cx_depth c"] None Suc.prems(3,4) by simp
      qed
    qed
  qed
qed simp

lemma number_of_tag: "drop_bit 3 tag \<noteq> 0 \<Longrightarrow> number_ok (drop_bit 3 tag)" for tag :: uint32
proof -
  assume nz: "drop_bit 3 tag \<noteq> 0"
  have "unat (drop_bit 3 tag) = unat tag div 8" by (simp add: unat_div drop_bit_eq_div)
  moreover have "unat tag < 2 ^ 32" using unat_less_32 [of tag] by simp
  ultimately have "unat (drop_bit 3 tag) < 2 ^ 29" by (simp add: less_mult_imp_div_less)
  then show ?thesis using nz by (simp add: number_ok_def)
qed

lemma unknown_result_all: "unknown_result k"
proof (induction k rule: less_induct)
  case (less k)
  have groups: "list_all (uf_fits (cx_depth c)) us \<and> cx_depth c' = cx_depth c"
    if "WireFormatParser k [] c = Parsed (us, c')" "0 \<le> cx_depth c" for c c' us
    using that message_loop_invariant [of "\<lambda>_ _ _ _. None" "\<lambda>d us. list_all (uf_fits d) us" "\<lambda>u us. us @ [u]" k "[]" c us c'] less
    by (simp add: WireFormatParser_loop)
  have group_fits: "uf_fits (cx_depth c) (UF_Group num us) \<and> cx_depth c' = cx_depth c"
    if pg: "ParseGroup (WireFormatParser k []) tag c = Parsed (us, c')" "number_ok num" for tag c us c' num
  proof -
    obtain c1 c2 where p: "WireFormatParser k [] c1 = Parsed (us, c2)" "cx_depth c1 = cx_depth c - 1" "0 \<le> cx_depth c1" "cx_depth c' = cx_depth c2 + 1"
      using ParseGroup_result [OF pg(1)] by blast
    then show ?thesis using groups [OF p(1,3)] pg(2) by (simp add: uf_fits_group)
  qed
  show ?case unfolding unknown_result_def
  proof (intro allI impI)
    fix tag c u c' assume r: "UnknownFieldParse k tag c = Parsed (u, c')" and d: "0 \<le> cx_depth c"
    have num: "number_ok (drop_bit 3 tag)" using r by (intro number_of_tag) (auto simp: UnknownFieldParse_def FieldParser_def Let_def)
    let ?wt = "tag AND 7"
    have "tag AND 7 = take_bit 3 tag" by (simp add: take_bit_eq_mask mask_eq_exp_minus_1)
    then have "?wt = tag mod 8" by (simp only: take_bit_eq_mod) simp
    then have "unat ?wt = unat tag mod 8" by (simp add: unat_mod)
    then have wt: "unat ?wt < 8" by simp
    have v: "wire_value (drop_bit 3 tag) ?wt k c = Parsed (u, c')"
      using r UnknownFieldParse_value [OF num wt] by (simp add: tag_of_parts)
    show "uf_fits (cx_depth c) u \<and> uf_tag u = tag \<and> cx_depth c' = cx_depth c"
      using v d num tag_of_parts [of tag] group_fits
      by (cases "tag AND 7 = 0"; cases "tag AND 7 = 1"; cases "tag AND 7 = 2"; cases "tag AND 7 = 3"; cases "tag AND 7 = 5")
        (auto simp: wire_value_def bind_parsed_Parsed_iff ParseLengthDelimited_def uf_fits_simps WIRETYPE_VARINT_def WIRETYPE_FIXED32_def
          WIRETYPE_FIXED64_def WIRETYPE_LENGTH_DELIMITED_def WIRETYPE_START_GROUP_def dest: ReadString_depth split: if_splits)
  qed
qed
lemma MergeFromArray_Parsed:
  "MergeFromArray slop parse input m = Parsed m'
   \<Longrightarrow> \<exists>c'. parse (length input + kSlopBytes + 1) m (InitFrom slop input default_recursion_limit) = Parsed (m', c')"
  by (auto simp: MergeFromArray_def bind_parsed_Parsed_iff split: if_splits)

definition parse_returns :: "'m parsed \<Rightarrow> bool" where
  "parse_returns r \<longleftrightarrow> r = Null \<or> (\<exists>m. r = Parsed m)"

section \<open>The contract of a generated message\<close>

text \<open>
  \<open>field\<close> is the switch of the parser, \<open>add\<close> stores an unknown field, \<open>known\<close> are the tags of the
  switch, \<open>ok d\<close> is well-formedness of a message that was parsed with \<open>d\<close> levels of nesting to go.
\<close>

locale message_codec =
  fixes field :: "nat \<Rightarrow> uint32 \<Rightarrow> 'm \<Rightarrow> ctx \<Rightarrow> ('m \<times> ctx) parsed option"
    and add :: "unknown_field \<Rightarrow> 'm \<Rightarrow> 'm"
    and known :: "uint32 \<Rightarrow> bool"
    and new :: 'm
    and merge :: "'m \<Rightarrow> 'm \<Rightarrow> 'm"
    and ser :: "'m \<Rightarrow> BYTE list"
    and bsize :: "'m \<Rightarrow> nat"
    and ok :: "int \<Rightarrow> 'm \<Rightarrow> bool"
  assumes safe: "safe_field field"
    and steady: "steady_field field"
    and switch: "field k tag m c = None \<longleftrightarrow> \<not> known tag"
    and bsize: "bsize m = length (ser m)"
    and reads: "ok d b \<Longrightarrow> length (ser b) \<le> INT_MAX - kSlopBytes \<Longrightarrow> parses_as field add (nat d) (ser b) m (merge m b)"
    and merge_new: "merge new b = b"
    and ok_new: "0 \<le> d \<Longrightarrow> ok d new"
    and ok_field: "field k tag m c = Some (Parsed (m', c')) \<Longrightarrow> 0 \<le> cx_depth c \<Longrightarrow> ok (cx_depth c) m \<Longrightarrow> ok (cx_depth c) m' \<and> cx_depth c' = cx_depth c"
    and ok_add: "\<not> known (uf_tag u) \<Longrightarrow> uf_fits d u \<Longrightarrow> 0 \<le> d \<Longrightarrow> ok d m \<Longrightarrow> ok d (add u m)"
begin

lemma loop_ok: "message_loop field add k m c = Parsed (m', c') \<Longrightarrow> 0 \<le> cx_depth c \<Longrightarrow> ok (cx_depth c) m
    \<Longrightarrow> ok (cx_depth c) m' \<and> cx_depth c' = cx_depth c"
  by (rule message_loop_invariant [of field ok add]) (auto simp: ok_field switch ok_add unknown_result_all)

text \<open>A message as the field of another message.\<close>

lemma nested_within:
  assumes "ctx_ok c" and "5 \<le> length (readable c)" and "length (cx_bytes c) < k"
  shows "within c (ParseMessage (message_loop field add k) m c)"
  by (rule ParseMessage_within [OF assms(1,2)]) (use assms(3) in \<open>auto intro!: message_loop_within [OF safe]\<close>)

lemma nested_fuel:
  assumes "ctx_ok c" and "5 \<le> length (readable c)" and "length (cx_bytes c) < k" and "length (cx_bytes c) < k'"
  shows "ParseMessage (message_loop field add k) m c = ParseMessage (message_loop field add k') m c"
  by (rule ParseMessage_cong [OF assms(1,2)]) (use assms(3,4) in \<open>auto intro!: message_loop_fuel [OF steady safe]\<close>)

lemma nested_ok:
  assumes "ParseMessage (message_loop field add k) m c = Parsed (m', c')" and "0 < cx_depth c \<Longrightarrow> ok (cx_depth c - 1) m"
  shows "0 < cx_depth c \<and> ok (cx_depth c - 1) m' \<and> cx_depth c' = cx_depth c"
proof -
  obtain c1 c2 where p: "message_loop field add k m c1 = Parsed (m', c2)" "cx_depth c1 = cx_depth c - 1" "0 \<le> cx_depth c1" "cx_depth c' = cx_depth c2 + 1"
    using ParseMessage_result [OF assms(1)] by blast
  then show ?thesis using loop_ok [OF p(1,3)] assms(2) by simp
qed

lemma nested_takes:
  assumes "ok d b" and "bsize b \<le> INT_MAX - kSlopBytes"
  shows "fueled_takes (\<lambda>k. ParseMessage (message_loop field add k) m) (Suc (nat d)) (size_prefix (bsize b) @ ser b) (merge m b)"
  using fueled_takes_message [OF reads] assms by (simp add: bsize)

text \<open>Whatever the bytes are, parsing an array ends in failure or in a well-formed message.\<close>

lemma init_ok: "ctx_ok (InitFrom slop input d)" "cx_depth (InitFrom slop input d) = d"
  by (simp_all add: InitFrom_def ctx_ok_def)

lemma parse_total:
  assumes "length slop = kSlopBytes"
  shows "MergeFromArray slop (message_loop field add) input m = Null \<or> (\<exists>m'. MergeFromArray slop (message_loop field add) input m = Parsed m')"
proof -
  have "within (InitFrom slop input default_recursion_limit)
    (message_loop field add (length input + kSlopBytes + 1) m (InitFrom slop input default_recursion_limit))"
    by (rule message_loop_within [OF safe init_ok(1)]) (simp add: InitFrom_def assms)
  then show ?thesis
    unfolding MergeFromArray_def
    by (cases "message_loop field add (length input + kSlopBytes + 1) m (InitFrom slop input default_recursion_limit)")
      (auto simp del: message_loop.simps)
qed

lemma parse_ok:
  assumes "MergeFromArray slop (message_loop field add) input m = Parsed m'" and "ok default_recursion_limit m"
  shows "ok default_recursion_limit m'"
proof -
  obtain c' where "message_loop field add (length input + kSlopBytes + 1) m (InitFrom slop input default_recursion_limit) = Parsed (m', c')"
    using MergeFromArray_Parsed [OF assms(1)] by blast
  from loop_ok [OF this] show ?thesis using assms(2) by (simp add: init_ok(2) default_recursion_limit_def)
qed

lemma parse_run:
  assumes "parses_as field add (nat default_recursion_limit) s m m'" and "length slop = kSlopBytes"
  shows "MergeFromArray slop (message_loop field add) s m = Parsed m'"
proof -
  let ?c = "InitFrom slop s default_recursion_limit"
  have "\<exists>c'. message_loop field add (length s + kSlopBytes + 1) m ?c = Parsed (m', c') \<and> consumed s ?c c'"
    by (rule parses_as_message [OF assms(1)])
      (use init_ok in \<open>simp_all add: InitFrom_def room_def to_end_def assms(2) default_recursion_limit_def\<close>)
  then show ?thesis by (auto simp: MergeFromArray_def consumed_def EndedAtLimit_def InitFrom_def)
qed

lemma parse_serialized:
  assumes "ok default_recursion_limit b" and "bsize b \<le> INT_MAX - kSlopBytes" and "length slop = kSlopBytes"
  shows "MergeFromArray slop (message_loop field add) (ser b) m = Parsed (merge m b)"
  by (rule parse_run [OF reads [OF assms(1)] assms(3)]) (use assms(2) in \<open>simp add: bsize\<close>)

lemma parse_concat:
  assumes "ok default_recursion_limit a" and "bsize a \<le> INT_MAX - kSlopBytes"
    and "ok default_recursion_limit b" and "bsize b \<le> INT_MAX - kSlopBytes" and "length slop = kSlopBytes"
  shows "MergeFromArray slop (message_loop field add) (ser a @ ser b) m = Parsed (merge (merge m a) b)"
  by (rule parse_run [OF parses_as_append_same [OF reads [OF assms(1)] reads [OF assms(3)]] assms(5)])
    (use assms(2,4) in \<open>simp_all add: bsize\<close>)

text \<open>Parsing, writing and parsing again changes nothing.\<close>

lemma parse_again:
  assumes "MergeFromArray slop (message_loop field add) input new = Parsed m" and "bsize m \<le> INT_MAX - kSlopBytes" and "length slop = kSlopBytes"
  shows "MergeFromArray slop (message_loop field add) (ser m) new = Parsed m"
  using parse_serialized [OF parse_ok [OF assms(1)] assms(2,3), of new] ok_new by (simp add: merge_new default_recursion_limit_def)

end

end
