(* ===== verification/ProtoFields.thy ===== *)
theory ProtoFields imports ProtoMessage begin

text \<open>
  The pieces of a generated message: a case of the parser's switch and the reader of each kind of
  field, the writer of a submessage and the sizes. The lemmas give for each kind of field what
  \<open>message_codec\<close> asks of the whole message.
\<close>

section \<open>Reading a field\<close>

text \<open>A case of the switch: the field number, then the low byte of the tag.\<close>

definition tag_case :: "uint32 \<Rightarrow> uint32 \<Rightarrow> BYTE \<Rightarrow> bool" where
  "tag_case tag num low \<longleftrightarrow> drop_bit 3 tag = num \<and> (ucast tag :: BYTE) = low"

definition read_float :: "ctx \<Rightarrow> (uint32 \<times> ctx) parsed" where
  "read_float c = bind_parsed (UnalignedLoad32 (readable c)) (\<lambda>v. Parsed (v, advance 4 c))"

definition ReadVarint64 :: "ctx \<Rightarrow> (uint64 \<times> ctx) parsed" where
  "ReadVarint64 c = bind_parsed (VarintParse (readable c)) (\<lambda>(n, v). Parsed (v, advance n c))"

definition read_bool :: "ctx \<Rightarrow> (bool \<times> ctx) parsed" where
  "read_bool c = bind_parsed (ReadVarint64 c) (\<lambda>(v, c'). Parsed (v \<noteq> 0, c'))"

definition InlineGreedyStringParser :: "ctx \<Rightarrow> (BYTE list \<times> ctx) parsed" where
  "InlineGreedyStringParser c = bind_parsed (ReadSize (readable c)) (\<lambda>(n, sz). ReadString sz (advance n c))"

text \<open>The result of the scan does not depend on the address of the string (\<open>IsStructurallyValidUTF8_iff\<close>).\<close>

definition VerifyUTF8 :: "BYTE list \<Rightarrow> bool" where
  "VerifyUTF8 str \<longleftrightarrow> IsStructurallyValidUTF8 0 str"

definition read_string :: "ctx \<Rightarrow> (BYTE list \<times> ctx) parsed" where
  "read_string c = bind_parsed (InlineGreedyStringParser c) (\<lambda>(s, c'). if \<not> VerifyUTF8 s then Null else Parsed (s, c'))"

text \<open>Storing what was read: \<open>upd\<close> is the assignment to the field of the message.\<close>

definition set_field :: "(ctx \<Rightarrow> ('a \<times> ctx) parsed) \<Rightarrow> ('a \<Rightarrow> 'm) \<Rightarrow> ctx \<Rightarrow> ('m \<times> ctx) parsed" where
  "set_field read upd c = bind_parsed (read c) (\<lambda>(x, c'). Parsed (upd x, c'))"

section \<open>Writing fields and sizes\<close>

text \<open>\<open>fits\<close>: whether the string ends before the slop region of the output buffer does.\<close>

definition WriteStringMaybeAliased :: "bool \<Rightarrow> uint32 \<Rightarrow> BYTE list \<Rightarrow> BYTE list" where
  "WriteStringMaybeAliased fits num s =
     (if 128 \<le> length s \<or> \<not> fits then WriteLengthDelim num (word_of_nat (length s)) @ s
      else UnsafeVarint (push_bit 3 num OR 2) @ [word_of_nat (length s)] @ s)"

definition InternalWriteMessage :: "uint32 \<Rightarrow> BYTE list \<Rightarrow> nat \<Rightarrow> BYTE list" where
  "InternalWriteMessage field_number serialized cached_size =
     WriteTagToArray field_number WIRETYPE_LENGTH_DELIMITED @ UnsafeVarint (word_of_nat cached_size :: uint32) @ serialized"

definition StringSize :: "BYTE list \<Rightarrow> nat" where
  "StringSize s = LengthDelimitedSize (length s)"

definition Int64SizePlusOne :: "uint64 \<Rightarrow> nat" where
  "Int64SizePlusOne v = VarintSize64PlusOne v"

definition MaybeComputeUnknownFieldsSize :: "nat \<Rightarrow> unknown_field list \<Rightarrow> nat" where
  "MaybeComputeUnknownFieldsSize total_size us = (if us \<noteq> [] then total_size + ComputeUnknownFieldsSize us else total_size)"

definition serialize_unknown :: "unknown_field list \<Rightarrow> BYTE list" where
  "serialize_unknown us = (if us \<noteq> [] then InternalSerializeUnknownFieldsToArray us else [])"

lemma serialize_unknown_eq [simp]: "serialize_unknown us = InternalSerializeUnknownFieldsToArray us"
  by (simp add: serialize_unknown_def InternalSerializeUnknownFieldsToArray_def)

lemma unknown_size [simp]: "MaybeComputeUnknownFieldsSize n us = n + length (InternalSerializeUnknownFieldsToArray us)"
  by (simp add: MaybeComputeUnknownFieldsSize_def ComputeUnknownFieldsSize_length) (simp add: InternalSerializeUnknownFieldsToArray_def)

lemma WriteStringMaybeAliased_eq: "WriteStringMaybeAliased fits num s = WriteTagToArray num WIRETYPE_LENGTH_DELIMITED @ size_prefix (length s) @ s"
proof -
  have "WriteStringMaybeAliased fits num s = WriteString fits num s"
    by (simp only: WriteStringMaybeAliased_def WriteString_def WriteStringOutline_def)
  then show ?thesis by (simp only: WriteString_eq)
qed

section \<open>Tags\<close>

lemma tag_case_eq:
  assumes "drop_bit 3 (ucast low :: uint32) = num"
  shows "tag_case tag num low \<longleftrightarrow> tag = ucast low"
proof
  assume t: "tag_case tag num low"
  then have d: "drop_bit 3 tag = drop_bit 3 (ucast low)" and l: "ucast tag = low" using assms by (simp_all add: tag_case_def)
  show "tag = ucast low"
  proof (rule bit_word_eqI)
    fix n assume n: "n < LENGTH(32)"
    show "bit tag n \<longleftrightarrow> bit (ucast low :: uint32) n"
    proof (cases "n < 8")
      case True
      have "bit tag n \<longleftrightarrow> bit (ucast tag :: BYTE) n" using True by (simp add: bit_ucast_iff)
      then show ?thesis using True n l by (simp add: bit_ucast_iff)
    next
      case False
      then have "bit tag n \<longleftrightarrow> bit (drop_bit 3 tag) (n - 3)" "bit (ucast low :: uint32) n \<longleftrightarrow> bit (drop_bit 3 (ucast low :: uint32)) (n - 3)"
        by (simp_all add: bit_drop_bit_eq)
      then show ?thesis by (simp add: d)
    qed
  qed
next
  assume tag: "tag = ucast low"
  have "(ucast tag :: BYTE) = low" unfolding tag by (rule bit_word_eqI) (simp add: bit_ucast_iff)
  then show "tag_case tag num low" using assms tag by (simp add: tag_case_def)
qed

lemma tag_cases [simp]:
  "tag_case tag 1 8 \<longleftrightarrow> tag = 8" "tag_case tag 2 16 \<longleftrightarrow> tag = 16" "tag_case tag 3 24 \<longleftrightarrow> tag = 24"
  "tag_case tag 1 10 \<longleftrightarrow> tag = 10" "tag_case tag 2 18 \<longleftrightarrow> tag = 18" "tag_case tag 1 13 \<longleftrightarrow> tag = 13" "tag_case tag 2 21 \<longleftrightarrow> tag = 21"
  "tag_case tag 3 26 \<longleftrightarrow> tag = 26" "tag_case tag 4 34 \<longleftrightarrow> tag = 34" "tag_case tag 5 42 \<longleftrightarrow> tag = 42"
  by (simp_all add: tag_case_eq drop_bit_eq_div)

lemma make_tags [simp]:
  "MakeTag 1 WIRETYPE_VARINT = 8" "MakeTag 2 WIRETYPE_VARINT = 16" "MakeTag 3 WIRETYPE_VARINT = 24"
  "MakeTag 1 WIRETYPE_LENGTH_DELIMITED = 10" "MakeTag 2 WIRETYPE_LENGTH_DELIMITED = 18" "MakeTag 3 WIRETYPE_LENGTH_DELIMITED = 26"
  "MakeTag 4 WIRETYPE_LENGTH_DELIMITED = 34" "MakeTag 5 WIRETYPE_LENGTH_DELIMITED = 42"
  "MakeTag 1 WIRETYPE_FIXED32 = 13" "MakeTag 2 WIRETYPE_FIXED32 = 21"
  by (simp_all add: MakeTag_def WIRETYPE_VARINT_def WIRETYPE_LENGTH_DELIMITED_def WIRETYPE_FIXED32_def)


section \<open>The fields satisfy the contract\<close>

named_theorems field_within
named_theorems field_takes
named_theorems field_depth

lemma set_field_within [field_within]: "within c (read c) \<Longrightarrow> within c (set_field read upd c)"
  unfolding set_field_def by (erule within_bind) auto

lemma read_float_within [field_within]: "ctx_ok c \<Longrightarrow> 12 \<le> length (readable c) \<Longrightarrow> within c (read_float c)"
  using advance_ok [of c 4] by (simp add: read_float_def UnalignedLoad32_def)

lemma ReadVarint64_within [field_within]: "ctx_ok c \<Longrightarrow> 12 \<le> length (readable c) \<Longrightarrow> within c (ReadVarint64 c)"
  unfolding ReadVarint64_def by (rule reader_within [OF _ VarintParse_takes]) simp_all

lemma read_bool_within [field_within]: "ctx_ok c \<Longrightarrow> 12 \<le> length (readable c) \<Longrightarrow> within c (read_bool c)"
  unfolding read_bool_def by (rule within_bind [OF ReadVarint64_within]) auto

lemma InlineGreedyStringParser_within: "ctx_ok c \<Longrightarrow> 12 \<le> length (readable c) \<Longrightarrow> within c (InlineGreedyStringParser c)"
  unfolding InlineGreedyStringParser_def
  by (rule reader_within [OF _ ReadSize_takes]) (auto intro: within_advance ReadString_within)

lemma read_string_within [field_within]: "ctx_ok c \<Longrightarrow> 12 \<le> length (readable c) \<Longrightarrow> within c (read_string c)"
  unfolding read_string_def by (rule within_bind [OF InlineGreedyStringParser_within]) auto

lemma set_field_takes [field_takes]: "field_takes read d p x \<Longrightarrow> field_takes (set_field read upd) d p (upd x)"
  unfolding field_takes_def set_field_def by fastforce

lemma read_float_takes [field_takes]: "field_takes read_float d (WriteLittleEndian32ToArray x) x"
  using field_takes_fixed32 [of "\<lambda>x. x"] by (simp add: read_float_def [abs_def])

lemma ReadVarint64_takes [field_takes]: "field_takes ReadVarint64 d (UnsafeVarint x) x"
  using field_takes_varint [of "\<lambda>x. x"] by (simp add: ReadVarint64_def [abs_def])

lemma read_bool_takes [field_takes]: "field_takes read_bool d (UnsafeVarint (x :: uint64)) (x \<noteq> 0)"
  using ReadVarint64_takes [of d x] unfolding field_takes_def read_bool_def by fastforce

lemma bind_parsed_assoc: "bind_parsed (bind_parsed r f) g = bind_parsed r (\<lambda>x. bind_parsed (f x) g)"
  by (cases r) simp_all

lemma read_string_takes [field_takes]:
  assumes "length s \<le> INT_MAX - kSlopBytes" and "utf8_valid s"
  shows "field_takes read_string d (size_prefix (length s) @ s) s"
proof -
  have eq: "read_string = (\<lambda>c. bind_parsed (ReadSize (readable c)) (\<lambda>(n, sz). bind_parsed (ReadString sz (advance n c))
      (\<lambda>(s, c1). bind_parsed (if \<not> VerifyUTF8 s then Null else Parsed s) (\<lambda>y. Parsed (y, c1)))))"
    by (rule ext) (auto simp: read_string_def InlineGreedyStringParser_def bind_parsed_assoc intro!: bind_parsed_cong)
  show ?thesis unfolding eq by (rule field_takes_string) (use assms in \<open>simp_all add: VerifyUTF8_def IsStructurallyValidUTF8_iff\<close>)
qed

lemma read_depth [field_depth]:
  "read_float c = Parsed (x, c') \<Longrightarrow> cx_depth c' = cx_depth c"
  "ReadVarint64 c = Parsed (v, c') \<Longrightarrow> cx_depth c' = cx_depth c"
  "read_bool c = Parsed (b, c') \<Longrightarrow> cx_depth c' = cx_depth c"
  "read_string c = Parsed (s, c') \<Longrightarrow> cx_depth c' = cx_depth c"
  by (auto simp: read_float_def ReadVarint64_def read_bool_def read_string_def InlineGreedyStringParser_def bind_parsed_Parsed_iff
    dest: ReadString_depth split: if_splits)

lemma read_string_valid: "read_string c = Parsed (s, c') \<Longrightarrow> utf8_valid s"
  by (auto simp: read_string_def VerifyUTF8_def IsStructurallyValidUTF8_iff bind_parsed_Parsed_iff split: if_splits)

lemma set_field_Parsed: "set_field read upd c = Parsed (m', c') \<longleftrightarrow> (\<exists>x. read c = Parsed (x, c') \<and> m' = upd x)"
  by (auto simp: set_field_def bind_parsed_Parsed_iff)

text \<open>Runs of fields that are written only when they are set.\<close>

lemma parses_as_opt: "(b \<Longrightarrow> parses_as field add d s m m') \<Longrightarrow> parses_as field add d (if b then s else []) m (if b then m' else m)"
  by simp

lemma parses_as_known:
  assumes "\<And>k c. field k tag m c = Some (read c)" and "field_takes read d p m'"
  shows "parses_as field add d (UnsafeVarint tag @ p) m m'"
  using assms(1) fueled_of_field [OF assms(2)] by (intro parses_as_field disjI1 exI [of _ "\<lambda>k. read"]) simp

lemma parses_as_known_fueled:
  assumes "\<And>k c. field k tag m c = Some (read k c)" and "fueled_takes read d p m'"
  shows "parses_as field add d (UnsafeVarint tag @ p) m m'"
  by (rule parses_as_field) (use assms in blast)

lemma set_field_fueled: "fueled_takes read d p x \<Longrightarrow> fueled_takes (\<lambda>k. set_field (read k) upd) d p (upd x)"
  unfolding fueled_takes_def set_field_def by fastforce

text \<open>The unknown fields of a well-formed message.\<close>

definition unknown_ok :: "(uint32 \<Rightarrow> bool) \<Rightarrow> int \<Rightarrow> unknown_field list \<Rightarrow> bool" where
  "unknown_ok known d us \<longleftrightarrow> list_all (\<lambda>u. uf_fits d u \<and> \<not> known (uf_tag u)) us"

lemma unknown_ok_simps [simp]:
  "unknown_ok known d []" "unknown_ok known d (us @ vs) \<longleftrightarrow> unknown_ok known d us \<and> unknown_ok known d vs"
  "unknown_ok known d [u] \<longleftrightarrow> uf_fits d u \<and> \<not> known (uf_tag u)"
  by (simp_all add: unknown_ok_def)

lemma unknown_ok_parses:
  assumes "unknown_ok known d us" and "length (InternalSerializeUnknownFieldsToArray us) \<le> INT_MAX - kSlopBytes"
    and "\<And>k tag m c. field k tag m c = None \<longleftrightarrow> \<not> known tag"
  shows "parses_as field add (nat d) (InternalSerializeUnknownFieldsToArray us) m (fold add us m)"
proof (rule unknown_fields_parse)
  fix u assume u: "u \<in> set us"
  then have f: "uf_wf u" "int (uf_depth u) \<le> d" "\<not> known (uf_tag u)" using assms(1) by (auto simp: unknown_ok_def uf_fits_def list_all_iff)
  have "length (SerializeUnknownField u) \<le> INT_MAX - kSlopBytes"
    using length_concat_mem [OF u, of SerializeUnknownField] assms(2) by (simp add: InternalSerializeUnknownFieldsToArray_def)
  then show "uf_ok u \<and> uf_depth u \<le> nat d \<and> (\<forall>k m c. field k (uf_tag u) m c = None)"
    using f assms(3) uf_ok_of_size by (simp add: le_nat_iff)
qed

lemma number_tags:
  "WriteFloatToArray num x = UnsafeVarint (MakeTag num WIRETYPE_FIXED32) @ WriteLittleEndian32ToArray x"
  "WriteInt64ToArray num v = UnsafeVarint (MakeTag num WIRETYPE_VARINT) @ UnsafeVarint v"
  "WriteBoolToArray num b = UnsafeVarint (MakeTag num WIRETYPE_VARINT) @ UnsafeVarint (if b then 1 else 0 :: uint64)"
  by (simp_all add: WriteFloatToArray_def WriteInt64ToArray_def WriteBoolToArray_def WriteTagToArray_def UnsafeVarint_last)

lemma utf8_valid_Nil [simp]: "utf8_valid []"
  by (simp add: utf8_valid_def exI [of _ "[]"])

text \<open>A field of each kind, from the writer to the switch.\<close>

lemma parses_as_set:
  assumes "\<And>k c. field k tag m c = Some (set_field read upd c)" and "field_takes read d p x"
  shows "parses_as field add d (UnsafeVarint tag @ p) m (upd x)"
  by (rule parses_as_known [where read = "set_field read upd"]) (rule assms(1), rule set_field_takes, rule assms(2))

lemma parses_as_float:
  assumes "\<And>k c. field k tag m c = Some (set_field read_float upd c)" and "MakeTag num WIRETYPE_FIXED32 = tag"
  shows "parses_as field add d (WriteFloatToArray num x) m (upd x)"
  unfolding number_tags assms(2) by (rule parses_as_set [where upd = upd]) (rule assms(1), rule read_float_takes)

lemma parses_as_int64:
  assumes "\<And>k c. field k tag m c = Some (set_field ReadVarint64 upd c)" and "MakeTag num WIRETYPE_VARINT = tag"
  shows "parses_as field add d (WriteInt64ToArray num x) m (upd x)"
  unfolding number_tags assms(2) by (rule parses_as_set [where upd = upd]) (rule assms(1), rule ReadVarint64_takes)

lemma parses_as_bool:
  assumes "\<And>k c. field k tag m c = Some (set_field read_bool upd c)" and "MakeTag num WIRETYPE_VARINT = tag"
  shows "parses_as field add d (WriteBoolToArray num x) m (upd x)"
proof -
  have "field_takes read_bool d (UnsafeVarint (if x then 1 else 0 :: uint64)) x"
    using read_bool_takes [of d "if x then 1 else 0"] by (simp split: if_splits)
  then show ?thesis unfolding number_tags assms(2) by (intro parses_as_set [where upd = upd]) (rule assms(1))
qed

lemma parses_as_string:
  assumes "\<And>k c. field k tag m c = Some (set_field read_string upd c)" and "MakeTag num WIRETYPE_LENGTH_DELIMITED = tag"
    and "utf8_valid s" and "length s \<le> INT_MAX - kSlopBytes"
  shows "parses_as field add d (WriteStringMaybeAliased fits num s) m (upd s)"
  unfolding WriteStringMaybeAliased_eq WriteTagToArray_def assms(2)
  by (rule parses_as_set [where upd = upd]) (rule assms(1), rule read_string_takes [OF assms(4,3)])

lemma parses_as_submessage:
  assumes "\<And>k c. field k tag m c = Some (set_field (parse k) upd c)" and "MakeTag num WIRETYPE_LENGTH_DELIMITED = tag"
    and "fueled_takes parse d (size_prefix n @ s) x"
  shows "parses_as field add d (InternalWriteMessage num s n) m (upd x)"
  unfolding InternalWriteMessage_def WriteTagToArray_def assms(2) append_assoc
  by (rule parses_as_known_fueled [where read = "\<lambda>k. set_field (parse k) upd"]) (rule assms(1), rule set_field_fueled, rule assms(3))

lemma StringSize_length: "StringSize s = length (size_prefix (length s)) + length s"
  by (simp add: StringSize_def LengthDelimitedSize_def VarintSize32_length)

lemma length_tag_1: "unat tag < 128 \<Longrightarrow> length (UnsafeVarint tag) = 1"
  by (simp add: UnsafeVarint_last)

end
