(* ===== verification/PbChat.thy ===== *)
theory PbChat imports ProtoFields begin

text \<open>
  The chat messages of Protocol.proto as GameServer/Protocol.pb.cc and .h generate them: CSChatRequest
  and SCChatResponse, two strings each. An invalid string is logged when it is written and refused when
  it is read. Whether a string fits the output buffer (\<open>True\<close>) does not change the bytes written
  (\<open>WriteStringMaybeAliased_eq\<close>).
\<close>

section \<open>CSChatRequest\<close>

record CSChatRequest =
  cs_name :: "BYTE list"
  cs_msg :: "BYTE list"
  cs_unknown :: "unknown_field list"

definition CSChatRequest_new :: CSChatRequest where
  "CSChatRequest_new = \<lparr>cs_name = [], cs_msg = [], cs_unknown = []\<rparr>"

definition CSChatRequest_copy :: "CSChatRequest \<Rightarrow> CSChatRequest" where
  "CSChatRequest_copy from =
     (let m0 = \<lparr>cs_name = [], cs_msg = [], cs_unknown = [] @ cs_unknown from\<rparr>;
          m1 = if cs_name from \<noteq> [] then m0\<lparr>cs_name := cs_name from\<rparr> else m0
      in if cs_msg from \<noteq> [] then m1\<lparr>cs_msg := cs_msg from\<rparr> else m1)"

definition cs_clear_name :: "CSChatRequest \<Rightarrow> CSChatRequest" where "cs_clear_name m = m\<lparr>cs_name := []\<rparr>"
definition cs_set_name :: "BYTE list \<Rightarrow> CSChatRequest \<Rightarrow> CSChatRequest" where "cs_set_name s m = m\<lparr>cs_name := s\<rparr>"
definition cs_clear_msg :: "CSChatRequest \<Rightarrow> CSChatRequest" where "cs_clear_msg m = m\<lparr>cs_msg := []\<rparr>"
definition cs_set_msg :: "BYTE list \<Rightarrow> CSChatRequest \<Rightarrow> CSChatRequest" where "cs_set_msg s m = m\<lparr>cs_msg := s\<rparr>"

definition CSChatRequest_Clear :: "CSChatRequest \<Rightarrow> CSChatRequest" where
  "CSChatRequest_Clear m = m\<lparr>cs_name := [], cs_msg := [], cs_unknown := []\<rparr>"

definition CSChatRequest_field :: "nat \<Rightarrow> uint32 \<Rightarrow> CSChatRequest \<Rightarrow> ctx \<Rightarrow> (CSChatRequest \<times> ctx) parsed option" where
  "CSChatRequest_field k tag m c =
     (if tag_case tag 1 10 then Some (set_field read_string (\<lambda>s. m\<lparr>cs_name := s\<rparr>) c)
      else if tag_case tag 2 18 then Some (set_field read_string (\<lambda>s. m\<lparr>cs_msg := s\<rparr>) c)
      else None)"

definition CSChatRequest_add :: "unknown_field \<Rightarrow> CSChatRequest \<Rightarrow> CSChatRequest" where
  "CSChatRequest_add u m = m\<lparr>cs_unknown := cs_unknown m @ [u]\<rparr>"

definition CSChatRequest_InternalParse :: "nat \<Rightarrow> CSChatRequest \<Rightarrow> ctx \<Rightarrow> (CSChatRequest \<times> ctx) parsed" where
  "CSChatRequest_InternalParse = message_loop CSChatRequest_field CSChatRequest_add"

definition CSChatRequest_InternalSerialize :: "CSChatRequest \<Rightarrow> BYTE list" where
  "CSChatRequest_InternalSerialize m =
     (if cs_name m \<noteq> [] then WriteStringMaybeAliased True 1 (cs_name m) else [])
     @ (if cs_msg m \<noteq> [] then WriteStringMaybeAliased True 2 (cs_msg m) else [])
     @ serialize_unknown (cs_unknown m)"

definition CSChatRequest_ByteSizeLong :: "CSChatRequest \<Rightarrow> nat" where
  "CSChatRequest_ByteSizeLong m =
     MaybeComputeUnknownFieldsSize
       ((if cs_name m \<noteq> [] then 1 + StringSize (cs_name m) else 0)
        + (if cs_msg m \<noteq> [] then 1 + StringSize (cs_msg m) else 0)) (cs_unknown m)"

definition CSChatRequest_MergeFrom :: "CSChatRequest \<Rightarrow> CSChatRequest \<Rightarrow> CSChatRequest" where
  "CSChatRequest_MergeFrom m from =
     (let m1 = if cs_name from \<noteq> [] then cs_set_name (cs_name from) m else m;
          m2 = if cs_msg from \<noteq> [] then cs_set_msg (cs_msg from) m1 else m1
      in m2\<lparr>cs_unknown := cs_unknown m2 @ cs_unknown from\<rparr>)"

definition CSChatRequest_CopyFrom :: "bool \<Rightarrow> CSChatRequest \<Rightarrow> CSChatRequest \<Rightarrow> CSChatRequest" where
  "CSChatRequest_CopyFrom self m from = (if self then m else CSChatRequest_MergeFrom (CSChatRequest_Clear m) from)"

definition CSChatRequest_InternalSwap :: "CSChatRequest \<Rightarrow> CSChatRequest \<Rightarrow> CSChatRequest \<times> CSChatRequest" where
  "CSChatRequest_InternalSwap m other =
     (m\<lparr>cs_unknown := cs_unknown other, cs_name := cs_name other, cs_msg := cs_msg other\<rparr>,
      other\<lparr>cs_unknown := cs_unknown m, cs_name := cs_name m, cs_msg := cs_msg m\<rparr>)"

definition CSChatRequest_known :: "uint32 \<Rightarrow> bool" where
  "CSChatRequest_known tag \<longleftrightarrow> tag \<in> {10, 18}"

definition CSChatRequest_ok :: "int \<Rightarrow> CSChatRequest \<Rightarrow> bool" where
  "CSChatRequest_ok d m \<longleftrightarrow> utf8_valid (cs_name m) \<and> utf8_valid (cs_msg m) \<and> unknown_ok CSChatRequest_known d (cs_unknown m)"

lemma CSChatRequest_copies: "CSChatRequest_copy m = m" "CSChatRequest_CopyFrom False m from = from"
  "CSChatRequest_MergeFrom CSChatRequest_new m = m" "CSChatRequest_InternalSwap m from = (from, m)"
  by (simp_all add: CSChatRequest_copy_def CSChatRequest_CopyFrom_def CSChatRequest_MergeFrom_def CSChatRequest_Clear_def CSChatRequest_new_def
    CSChatRequest_InternalSwap_def cs_set_name_def cs_set_msg_def Let_def)

lemma CSChatRequest_add_all: "fold CSChatRequest_add us m = m\<lparr>cs_unknown := cs_unknown m @ us\<rparr>"
  by (induction us arbitrary: m) (simp_all add: CSChatRequest_add_def)

lemma CSChatRequest_switch: "CSChatRequest_field k tag m c = None \<longleftrightarrow> \<not> CSChatRequest_known tag"
  by (simp add: CSChatRequest_field_def CSChatRequest_known_def)

lemma CSChatRequest_reads:
  assumes ok: "CSChatRequest_ok d b" and len: "length (CSChatRequest_InternalSerialize b) \<le> INT_MAX - kSlopBytes"
  shows "parses_as CSChatRequest_field CSChatRequest_add (nat d) (CSChatRequest_InternalSerialize b) m (CSChatRequest_MergeFrom m b)"
proof -
  let ?p = "parses_as CSChatRequest_field CSChatRequest_add (nat d)"
  let ?m1 = "if cs_name b \<noteq> [] then m\<lparr>cs_name := cs_name b\<rparr> else m"
  let ?m2 = "if cs_msg b \<noteq> [] then ?m1\<lparr>cs_msg := cs_msg b\<rparr> else ?m1"
  have bounds: "length (cs_name b) \<le> INT_MAX - kSlopBytes" "length (cs_msg b) \<le> INT_MAX - kSlopBytes"
    using len by (auto simp: CSChatRequest_InternalSerialize_def WriteStringMaybeAliased_eq split: if_splits)
  have name: "?p (if cs_name b \<noteq> [] then WriteStringMaybeAliased True 1 (cs_name b) else []) m ?m1"
    by (rule parses_as_opt [OF parses_as_string]) (use ok bounds in \<open>simp_all add: CSChatRequest_field_def CSChatRequest_ok_def\<close>)
  have msg: "?p (if cs_msg b \<noteq> [] then WriteStringMaybeAliased True 2 (cs_msg b) else []) ?m1 ?m2"
    by (rule parses_as_opt [OF parses_as_string]) (use ok bounds in \<open>simp_all add: CSChatRequest_field_def CSChatRequest_ok_def\<close>)
  have u: "?p (InternalSerializeUnknownFieldsToArray (cs_unknown b)) ?m2 (fold CSChatRequest_add (cs_unknown b) ?m2)"
    using ok len by (intro unknown_ok_parses [OF _ _ CSChatRequest_switch]) (simp_all add: CSChatRequest_ok_def CSChatRequest_InternalSerialize_def)
  have "CSChatRequest_MergeFrom m b = fold CSChatRequest_add (cs_unknown b) ?m2"
    by (simp add: CSChatRequest_MergeFrom_def CSChatRequest_add_all cs_set_name_def cs_set_msg_def Let_def)
  then show ?thesis using parses_as_append_same [OF name parses_as_append_same [OF msg u]]
    by (simp add: CSChatRequest_InternalSerialize_def)
qed

interpretation cs_chat: message_codec CSChatRequest_field CSChatRequest_add CSChatRequest_known CSChatRequest_new CSChatRequest_MergeFrom
  CSChatRequest_InternalSerialize CSChatRequest_ByteSizeLong CSChatRequest_ok
proof unfold_locales
  show "safe_field CSChatRequest_field" by (auto simp: safe_field_def CSChatRequest_field_def split: if_splits intro: field_within)
  show "steady_field CSChatRequest_field" by (simp add: steady_field_def CSChatRequest_field_def)
  show "CSChatRequest_ByteSizeLong m = length (CSChatRequest_InternalSerialize m)" for m
    by (simp add: CSChatRequest_ByteSizeLong_def CSChatRequest_InternalSerialize_def WriteStringMaybeAliased_eq WriteTagToArray_def length_tag_1 StringSize_length)
  show "CSChatRequest_ok d b \<Longrightarrow> length (CSChatRequest_InternalSerialize b) \<le> INT_MAX - kSlopBytes
      \<Longrightarrow> parses_as CSChatRequest_field CSChatRequest_add (nat d) (CSChatRequest_InternalSerialize b) m (CSChatRequest_MergeFrom m b)" for d b m
    by (rule CSChatRequest_reads)
  show "CSChatRequest_field k tag m c = Some (Parsed (m', c')) \<Longrightarrow> 0 \<le> cx_depth c \<Longrightarrow> CSChatRequest_ok (cx_depth c) m
      \<Longrightarrow> CSChatRequest_ok (cx_depth c) m' \<and> cx_depth c' = cx_depth c" for k tag m c m' c'
    by (auto simp: CSChatRequest_field_def CSChatRequest_ok_def set_field_Parsed split: if_splits dest: field_depth read_string_valid)
qed (simp_all add: CSChatRequest_switch CSChatRequest_copies CSChatRequest_ok_def CSChatRequest_add_def, simp_all add: CSChatRequest_new_def)

section \<open>SCChatResponse\<close>

record SCChatResponse =
  sc_name :: "BYTE list"
  sc_msg :: "BYTE list"
  sc_unknown :: "unknown_field list"

definition SCChatResponse_new :: SCChatResponse where
  "SCChatResponse_new = \<lparr>sc_name = [], sc_msg = [], sc_unknown = []\<rparr>"

definition SCChatResponse_copy :: "SCChatResponse \<Rightarrow> SCChatResponse" where
  "SCChatResponse_copy from =
     (let m0 = \<lparr>sc_name = [], sc_msg = [], sc_unknown = [] @ sc_unknown from\<rparr>;
          m1 = if sc_name from \<noteq> [] then m0\<lparr>sc_name := sc_name from\<rparr> else m0
      in if sc_msg from \<noteq> [] then m1\<lparr>sc_msg := sc_msg from\<rparr> else m1)"

definition sc_clear_name :: "SCChatResponse \<Rightarrow> SCChatResponse" where "sc_clear_name m = m\<lparr>sc_name := []\<rparr>"
definition sc_set_name :: "BYTE list \<Rightarrow> SCChatResponse \<Rightarrow> SCChatResponse" where "sc_set_name s m = m\<lparr>sc_name := s\<rparr>"
definition sc_clear_msg :: "SCChatResponse \<Rightarrow> SCChatResponse" where "sc_clear_msg m = m\<lparr>sc_msg := []\<rparr>"
definition sc_set_msg :: "BYTE list \<Rightarrow> SCChatResponse \<Rightarrow> SCChatResponse" where "sc_set_msg s m = m\<lparr>sc_msg := s\<rparr>"

definition SCChatResponse_Clear :: "SCChatResponse \<Rightarrow> SCChatResponse" where
  "SCChatResponse_Clear m = m\<lparr>sc_name := [], sc_msg := [], sc_unknown := []\<rparr>"

definition SCChatResponse_field :: "nat \<Rightarrow> uint32 \<Rightarrow> SCChatResponse \<Rightarrow> ctx \<Rightarrow> (SCChatResponse \<times> ctx) parsed option" where
  "SCChatResponse_field k tag m c =
     (if tag_case tag 1 10 then Some (set_field read_string (\<lambda>s. m\<lparr>sc_name := s\<rparr>) c)
      else if tag_case tag 2 18 then Some (set_field read_string (\<lambda>s. m\<lparr>sc_msg := s\<rparr>) c)
      else None)"

definition SCChatResponse_add :: "unknown_field \<Rightarrow> SCChatResponse \<Rightarrow> SCChatResponse" where
  "SCChatResponse_add u m = m\<lparr>sc_unknown := sc_unknown m @ [u]\<rparr>"

definition SCChatResponse_InternalParse :: "nat \<Rightarrow> SCChatResponse \<Rightarrow> ctx \<Rightarrow> (SCChatResponse \<times> ctx) parsed" where
  "SCChatResponse_InternalParse = message_loop SCChatResponse_field SCChatResponse_add"

definition SCChatResponse_InternalSerialize :: "SCChatResponse \<Rightarrow> BYTE list" where
  "SCChatResponse_InternalSerialize m =
     (if sc_name m \<noteq> [] then WriteStringMaybeAliased True 1 (sc_name m) else [])
     @ (if sc_msg m \<noteq> [] then WriteStringMaybeAliased True 2 (sc_msg m) else [])
     @ serialize_unknown (sc_unknown m)"

definition SCChatResponse_ByteSizeLong :: "SCChatResponse \<Rightarrow> nat" where
  "SCChatResponse_ByteSizeLong m =
     MaybeComputeUnknownFieldsSize
       ((if sc_name m \<noteq> [] then 1 + StringSize (sc_name m) else 0)
        + (if sc_msg m \<noteq> [] then 1 + StringSize (sc_msg m) else 0)) (sc_unknown m)"

definition SCChatResponse_MergeFrom :: "SCChatResponse \<Rightarrow> SCChatResponse \<Rightarrow> SCChatResponse" where
  "SCChatResponse_MergeFrom m from =
     (let m1 = if sc_name from \<noteq> [] then sc_set_name (sc_name from) m else m;
          m2 = if sc_msg from \<noteq> [] then sc_set_msg (sc_msg from) m1 else m1
      in m2\<lparr>sc_unknown := sc_unknown m2 @ sc_unknown from\<rparr>)"

definition SCChatResponse_CopyFrom :: "bool \<Rightarrow> SCChatResponse \<Rightarrow> SCChatResponse \<Rightarrow> SCChatResponse" where
  "SCChatResponse_CopyFrom self m from = (if self then m else SCChatResponse_MergeFrom (SCChatResponse_Clear m) from)"

definition SCChatResponse_InternalSwap :: "SCChatResponse \<Rightarrow> SCChatResponse \<Rightarrow> SCChatResponse \<times> SCChatResponse" where
  "SCChatResponse_InternalSwap m other =
     (m\<lparr>sc_unknown := sc_unknown other, sc_name := sc_name other, sc_msg := sc_msg other\<rparr>,
      other\<lparr>sc_unknown := sc_unknown m, sc_name := sc_name m, sc_msg := sc_msg m\<rparr>)"

definition SCChatResponse_known :: "uint32 \<Rightarrow> bool" where
  "SCChatResponse_known tag \<longleftrightarrow> tag \<in> {10, 18}"

definition SCChatResponse_ok :: "int \<Rightarrow> SCChatResponse \<Rightarrow> bool" where
  "SCChatResponse_ok d m \<longleftrightarrow> utf8_valid (sc_name m) \<and> utf8_valid (sc_msg m) \<and> unknown_ok SCChatResponse_known d (sc_unknown m)"

lemma SCChatResponse_copies: "SCChatResponse_copy m = m" "SCChatResponse_CopyFrom False m from = from"
  "SCChatResponse_MergeFrom SCChatResponse_new m = m" "SCChatResponse_InternalSwap m from = (from, m)"
  by (simp_all add: SCChatResponse_copy_def SCChatResponse_CopyFrom_def SCChatResponse_MergeFrom_def SCChatResponse_Clear_def SCChatResponse_new_def
    SCChatResponse_InternalSwap_def sc_set_name_def sc_set_msg_def Let_def)

lemma SCChatResponse_add_all: "fold SCChatResponse_add us m = m\<lparr>sc_unknown := sc_unknown m @ us\<rparr>"
  by (induction us arbitrary: m) (simp_all add: SCChatResponse_add_def)

lemma SCChatResponse_switch: "SCChatResponse_field k tag m c = None \<longleftrightarrow> \<not> SCChatResponse_known tag"
  by (simp add: SCChatResponse_field_def SCChatResponse_known_def)

lemma SCChatResponse_reads:
  assumes ok: "SCChatResponse_ok d b" and len: "length (SCChatResponse_InternalSerialize b) \<le> INT_MAX - kSlopBytes"
  shows "parses_as SCChatResponse_field SCChatResponse_add (nat d) (SCChatResponse_InternalSerialize b) m (SCChatResponse_MergeFrom m b)"
proof -
  let ?p = "parses_as SCChatResponse_field SCChatResponse_add (nat d)"
  let ?m1 = "if sc_name b \<noteq> [] then m\<lparr>sc_name := sc_name b\<rparr> else m"
  let ?m2 = "if sc_msg b \<noteq> [] then ?m1\<lparr>sc_msg := sc_msg b\<rparr> else ?m1"
  have bounds: "length (sc_name b) \<le> INT_MAX - kSlopBytes" "length (sc_msg b) \<le> INT_MAX - kSlopBytes"
    using len by (auto simp: SCChatResponse_InternalSerialize_def WriteStringMaybeAliased_eq split: if_splits)
  have name: "?p (if sc_name b \<noteq> [] then WriteStringMaybeAliased True 1 (sc_name b) else []) m ?m1"
    by (rule parses_as_opt [OF parses_as_string]) (use ok bounds in \<open>simp_all add: SCChatResponse_field_def SCChatResponse_ok_def\<close>)
  have msg: "?p (if sc_msg b \<noteq> [] then WriteStringMaybeAliased True 2 (sc_msg b) else []) ?m1 ?m2"
    by (rule parses_as_opt [OF parses_as_string]) (use ok bounds in \<open>simp_all add: SCChatResponse_field_def SCChatResponse_ok_def\<close>)
  have u: "?p (InternalSerializeUnknownFieldsToArray (sc_unknown b)) ?m2 (fold SCChatResponse_add (sc_unknown b) ?m2)"
    using ok len by (intro unknown_ok_parses [OF _ _ SCChatResponse_switch]) (simp_all add: SCChatResponse_ok_def SCChatResponse_InternalSerialize_def)
  have "SCChatResponse_MergeFrom m b = fold SCChatResponse_add (sc_unknown b) ?m2"
    by (simp add: SCChatResponse_MergeFrom_def SCChatResponse_add_all sc_set_name_def sc_set_msg_def Let_def)
  then show ?thesis using parses_as_append_same [OF name parses_as_append_same [OF msg u]]
    by (simp add: SCChatResponse_InternalSerialize_def)
qed

interpretation sc_chat: message_codec SCChatResponse_field SCChatResponse_add SCChatResponse_known SCChatResponse_new SCChatResponse_MergeFrom
  SCChatResponse_InternalSerialize SCChatResponse_ByteSizeLong SCChatResponse_ok
proof unfold_locales
  show "safe_field SCChatResponse_field" by (auto simp: safe_field_def SCChatResponse_field_def split: if_splits intro: field_within)
  show "steady_field SCChatResponse_field" by (simp add: steady_field_def SCChatResponse_field_def)
  show "SCChatResponse_ByteSizeLong m = length (SCChatResponse_InternalSerialize m)" for m
    by (simp add: SCChatResponse_ByteSizeLong_def SCChatResponse_InternalSerialize_def WriteStringMaybeAliased_eq WriteTagToArray_def length_tag_1 StringSize_length)
  show "SCChatResponse_ok d b \<Longrightarrow> length (SCChatResponse_InternalSerialize b) \<le> INT_MAX - kSlopBytes
      \<Longrightarrow> parses_as SCChatResponse_field SCChatResponse_add (nat d) (SCChatResponse_InternalSerialize b) m (SCChatResponse_MergeFrom m b)" for d b m
    by (rule SCChatResponse_reads)
  show "SCChatResponse_field k tag m c = Some (Parsed (m', c')) \<Longrightarrow> 0 \<le> cx_depth c \<Longrightarrow> SCChatResponse_ok (cx_depth c) m
      \<Longrightarrow> SCChatResponse_ok (cx_depth c) m' \<and> cx_depth c' = cx_depth c" for k tag m c m' c'
    by (auto simp: SCChatResponse_field_def SCChatResponse_ok_def set_field_Parsed split: if_splits dest: field_depth read_string_valid)
qed (simp_all add: SCChatResponse_switch SCChatResponse_copies SCChatResponse_ok_def SCChatResponse_add_def, simp_all add: SCChatResponse_new_def)

end
