(* ===== verification/PbStruct.thy ===== *)
theory PbStruct imports ProtoFields begin

text \<open>
  The messages of Struct.proto as GameServer/Struct.pb.cc and .h generate them: SPosition and BigTest.
  Floats are their 32 raw bits, int64 fields the 64-bit word that is written. A message that is parsed
  is changed in place; the model returns it.
\<close>

section \<open>SPosition\<close>

record SPosition =
  sp_x :: uint32
  sp_y :: uint32
  sp_unknown :: "unknown_field list"

definition SPosition_new :: SPosition where
  "SPosition_new = \<lparr>sp_x = 0, sp_y = 0, sp_unknown = []\<rparr>"

definition SPosition_copy :: "SPosition \<Rightarrow> SPosition" where
  "SPosition_copy from = \<lparr>sp_x = sp_x from, sp_y = sp_y from, sp_unknown = [] @ sp_unknown from\<rparr>"

definition clear_x :: "SPosition \<Rightarrow> SPosition" where "clear_x m = m\<lparr>sp_x := 0\<rparr>"
definition set_x :: "uint32 \<Rightarrow> SPosition \<Rightarrow> SPosition" where "set_x v m = m\<lparr>sp_x := v\<rparr>"
definition clear_y :: "SPosition \<Rightarrow> SPosition" where "clear_y m = m\<lparr>sp_y := 0\<rparr>"
definition set_y :: "uint32 \<Rightarrow> SPosition \<Rightarrow> SPosition" where "set_y v m = m\<lparr>sp_y := v\<rparr>"

definition SPosition_Clear :: "SPosition \<Rightarrow> SPosition" where
  "SPosition_Clear m = m\<lparr>sp_x := 0, sp_y := 0, sp_unknown := []\<rparr>"

definition SPosition_field :: "nat \<Rightarrow> uint32 \<Rightarrow> SPosition \<Rightarrow> ctx \<Rightarrow> (SPosition \<times> ctx) parsed option" where
  "SPosition_field k tag m c =
     (if tag_case tag 1 13 then Some (set_field read_float (\<lambda>v. m\<lparr>sp_x := v\<rparr>) c)
      else if tag_case tag 2 21 then Some (set_field read_float (\<lambda>v. m\<lparr>sp_y := v\<rparr>) c)
      else None)"

definition SPosition_add :: "unknown_field \<Rightarrow> SPosition \<Rightarrow> SPosition" where
  "SPosition_add u m = m\<lparr>sp_unknown := sp_unknown m @ [u]\<rparr>"

definition SPosition_InternalParse :: "nat \<Rightarrow> SPosition \<Rightarrow> ctx \<Rightarrow> (SPosition \<times> ctx) parsed" where
  "SPosition_InternalParse = message_loop SPosition_field SPosition_add"

definition SPosition_InternalSerialize :: "SPosition \<Rightarrow> BYTE list" where
  "SPosition_InternalSerialize m =
     (if sp_x m \<noteq> 0 then WriteFloatToArray 1 (sp_x m) else [])
     @ (if sp_y m \<noteq> 0 then WriteFloatToArray 2 (sp_y m) else [])
     @ serialize_unknown (sp_unknown m)"

definition SPosition_ByteSizeLong :: "SPosition \<Rightarrow> nat" where
  "SPosition_ByteSizeLong m =
     MaybeComputeUnknownFieldsSize ((if sp_x m \<noteq> 0 then 1 + 4 else 0) + (if sp_y m \<noteq> 0 then 1 + 4 else 0)) (sp_unknown m)"

definition SPosition_MergeFrom :: "SPosition \<Rightarrow> SPosition \<Rightarrow> SPosition" where
  "SPosition_MergeFrom m from =
     (let m1 = if sp_x from \<noteq> 0 then set_x (sp_x from) m else m;
          m2 = if sp_y from \<noteq> 0 then set_y (sp_y from) m1 else m1
      in m2\<lparr>sp_unknown := sp_unknown m2 @ sp_unknown from\<rparr>)"

text \<open>\<open>self\<close>: whether both are the same object.\<close>

definition SPosition_CopyFrom :: "bool \<Rightarrow> SPosition \<Rightarrow> SPosition \<Rightarrow> SPosition" where
  "SPosition_CopyFrom self m from = (if self then m else SPosition_MergeFrom (SPosition_Clear m) from)"

definition SPosition_InternalSwap :: "SPosition \<Rightarrow> SPosition \<Rightarrow> SPosition \<times> SPosition" where
  "SPosition_InternalSwap m other =
     (m\<lparr>sp_unknown := sp_unknown other, sp_x := sp_x other, sp_y := sp_y other\<rparr>,
      other\<lparr>sp_unknown := sp_unknown m, sp_x := sp_x m, sp_y := sp_y m\<rparr>)"

definition SPosition_known :: "uint32 \<Rightarrow> bool" where
  "SPosition_known tag \<longleftrightarrow> tag \<in> {13, 21}"

definition SPosition_ok :: "int \<Rightarrow> SPosition \<Rightarrow> bool" where
  "SPosition_ok d m \<longleftrightarrow> unknown_ok SPosition_known d (sp_unknown m)"

lemma SPosition_copies: "SPosition_copy m = m" "SPosition_CopyFrom False m from = from" "SPosition_MergeFrom SPosition_new m = m"
  "SPosition_InternalSwap m from = (from, m)"
  by (simp_all add: SPosition_copy_def SPosition_CopyFrom_def SPosition_MergeFrom_def SPosition_Clear_def SPosition_new_def
    SPosition_InternalSwap_def set_x_def set_y_def Let_def)

lemma SPosition_add_all: "fold SPosition_add us m = m\<lparr>sp_unknown := sp_unknown m @ us\<rparr>"
  by (induction us arbitrary: m) (simp_all add: SPosition_add_def)

lemma SPosition_switch: "SPosition_field k tag m c = None \<longleftrightarrow> \<not> SPosition_known tag"
  by (simp add: SPosition_field_def SPosition_known_def)

lemma SPosition_reads:
  assumes "SPosition_ok d b" and "length (SPosition_InternalSerialize b) \<le> INT_MAX - kSlopBytes"
  shows "parses_as SPosition_field SPosition_add (nat d) (SPosition_InternalSerialize b) m (SPosition_MergeFrom m b)"
proof -
  let ?p = "parses_as SPosition_field SPosition_add (nat d)"
  let ?m1 = "if sp_x b \<noteq> 0 then m\<lparr>sp_x := sp_x b\<rparr> else m"
  let ?m2 = "if sp_y b \<noteq> 0 then ?m1\<lparr>sp_y := sp_y b\<rparr> else ?m1"
  have x: "?p (if sp_x b \<noteq> 0 then WriteFloatToArray 1 (sp_x b) else []) m ?m1"
    by (rule parses_as_opt [OF parses_as_float]) (simp_all add: SPosition_field_def)
  have y: "?p (if sp_y b \<noteq> 0 then WriteFloatToArray 2 (sp_y b) else []) ?m1 ?m2"
    by (rule parses_as_opt [OF parses_as_float]) (simp_all add: SPosition_field_def)
  have u: "?p (InternalSerializeUnknownFieldsToArray (sp_unknown b)) ?m2 (fold SPosition_add (sp_unknown b) ?m2)"
    using assms by (intro unknown_ok_parses [OF _ _ SPosition_switch]) (simp_all add: SPosition_ok_def SPosition_InternalSerialize_def)
  have "SPosition_MergeFrom m b = fold SPosition_add (sp_unknown b) ?m2"
    by (simp add: SPosition_MergeFrom_def SPosition_add_all set_x_def set_y_def Let_def)
  then show ?thesis using parses_as_append_same [OF x parses_as_append_same [OF y u]]
    by (simp add: SPosition_InternalSerialize_def)
qed

interpretation sposition: message_codec SPosition_field SPosition_add SPosition_known SPosition_new SPosition_MergeFrom
  SPosition_InternalSerialize SPosition_ByteSizeLong SPosition_ok
proof unfold_locales
  show "safe_field SPosition_field" by (auto simp: safe_field_def SPosition_field_def split: if_splits intro: field_within)
  show "steady_field SPosition_field" by (simp add: steady_field_def SPosition_field_def)
  show "SPosition_ByteSizeLong m = length (SPosition_InternalSerialize m)" for m
    by (simp add: SPosition_ByteSizeLong_def SPosition_InternalSerialize_def number_tags length_tag_1 length_WriteLittleEndian)
  show "SPosition_ok d b \<Longrightarrow> length (SPosition_InternalSerialize b) \<le> INT_MAX - kSlopBytes
      \<Longrightarrow> parses_as SPosition_field SPosition_add (nat d) (SPosition_InternalSerialize b) m (SPosition_MergeFrom m b)" for d b m
    by (rule SPosition_reads)
  show "SPosition_field k tag m c = Some (Parsed (m', c')) \<Longrightarrow> 0 \<le> cx_depth c \<Longrightarrow> SPosition_ok (cx_depth c) m
      \<Longrightarrow> SPosition_ok (cx_depth c) m' \<and> cx_depth c' = cx_depth c" for k tag m c m' c'
    by (auto simp: SPosition_field_def SPosition_ok_def set_field_Parsed split: if_splits dest: field_depth)
qed (simp_all add: SPosition_switch SPosition_copies SPosition_ok_def SPosition_add_def, simp_all add: SPosition_new_def)

section \<open>BigTest\<close>

record BigTest =
  bt_a :: uint64
  bt_b :: uint64
  bt_c :: uint64
  bt_unknown :: "unknown_field list"

definition BigTest_new :: BigTest where
  "BigTest_new = \<lparr>bt_a = 0, bt_b = 0, bt_c = 0, bt_unknown = []\<rparr>"

definition BigTest_copy :: "BigTest \<Rightarrow> BigTest" where
  "BigTest_copy from = \<lparr>bt_a = bt_a from, bt_b = bt_b from, bt_c = bt_c from, bt_unknown = [] @ bt_unknown from\<rparr>"

definition clear_a :: "BigTest \<Rightarrow> BigTest" where "clear_a m = m\<lparr>bt_a := 0\<rparr>"
definition set_a :: "uint64 \<Rightarrow> BigTest \<Rightarrow> BigTest" where "set_a v m = m\<lparr>bt_a := v\<rparr>"
definition clear_b :: "BigTest \<Rightarrow> BigTest" where "clear_b m = m\<lparr>bt_b := 0\<rparr>"
definition set_b :: "uint64 \<Rightarrow> BigTest \<Rightarrow> BigTest" where "set_b v m = m\<lparr>bt_b := v\<rparr>"
definition clear_c :: "BigTest \<Rightarrow> BigTest" where "clear_c m = m\<lparr>bt_c := 0\<rparr>"
definition set_c :: "uint64 \<Rightarrow> BigTest \<Rightarrow> BigTest" where "set_c v m = m\<lparr>bt_c := v\<rparr>"

definition BigTest_Clear :: "BigTest \<Rightarrow> BigTest" where
  "BigTest_Clear m = m\<lparr>bt_a := 0, bt_b := 0, bt_c := 0, bt_unknown := []\<rparr>"

definition BigTest_field :: "nat \<Rightarrow> uint32 \<Rightarrow> BigTest \<Rightarrow> ctx \<Rightarrow> (BigTest \<times> ctx) parsed option" where
  "BigTest_field k tag m c =
     (if tag_case tag 1 8 then Some (set_field ReadVarint64 (\<lambda>v. m\<lparr>bt_a := v\<rparr>) c)
      else if tag_case tag 2 16 then Some (set_field ReadVarint64 (\<lambda>v. m\<lparr>bt_b := v\<rparr>) c)
      else if tag_case tag 3 24 then Some (set_field ReadVarint64 (\<lambda>v. m\<lparr>bt_c := v\<rparr>) c)
      else None)"

definition BigTest_add :: "unknown_field \<Rightarrow> BigTest \<Rightarrow> BigTest" where
  "BigTest_add u m = m\<lparr>bt_unknown := bt_unknown m @ [u]\<rparr>"

definition BigTest_InternalParse :: "nat \<Rightarrow> BigTest \<Rightarrow> ctx \<Rightarrow> (BigTest \<times> ctx) parsed" where
  "BigTest_InternalParse = message_loop BigTest_field BigTest_add"

definition BigTest_InternalSerialize :: "BigTest \<Rightarrow> BYTE list" where
  "BigTest_InternalSerialize m =
     (if bt_a m \<noteq> 0 then WriteInt64ToArray 1 (bt_a m) else [])
     @ (if bt_b m \<noteq> 0 then WriteInt64ToArray 2 (bt_b m) else [])
     @ (if bt_c m \<noteq> 0 then WriteInt64ToArray 3 (bt_c m) else [])
     @ serialize_unknown (bt_unknown m)"

definition BigTest_ByteSizeLong :: "BigTest \<Rightarrow> nat" where
  "BigTest_ByteSizeLong m =
     MaybeComputeUnknownFieldsSize
       ((if bt_a m \<noteq> 0 then Int64SizePlusOne (bt_a m) else 0)
        + (if bt_b m \<noteq> 0 then Int64SizePlusOne (bt_b m) else 0)
        + (if bt_c m \<noteq> 0 then Int64SizePlusOne (bt_c m) else 0)) (bt_unknown m)"

definition BigTest_MergeFrom :: "BigTest \<Rightarrow> BigTest \<Rightarrow> BigTest" where
  "BigTest_MergeFrom m from =
     (let m1 = if bt_a from \<noteq> 0 then set_a (bt_a from) m else m;
          m2 = if bt_b from \<noteq> 0 then set_b (bt_b from) m1 else m1;
          m3 = if bt_c from \<noteq> 0 then set_c (bt_c from) m2 else m2
      in m3\<lparr>bt_unknown := bt_unknown m3 @ bt_unknown from\<rparr>)"

definition BigTest_CopyFrom :: "bool \<Rightarrow> BigTest \<Rightarrow> BigTest \<Rightarrow> BigTest" where
  "BigTest_CopyFrom self m from = (if self then m else BigTest_MergeFrom (BigTest_Clear m) from)"

definition BigTest_InternalSwap :: "BigTest \<Rightarrow> BigTest \<Rightarrow> BigTest \<times> BigTest" where
  "BigTest_InternalSwap m other =
     (m\<lparr>bt_unknown := bt_unknown other, bt_a := bt_a other, bt_b := bt_b other, bt_c := bt_c other\<rparr>,
      other\<lparr>bt_unknown := bt_unknown m, bt_a := bt_a m, bt_b := bt_b m, bt_c := bt_c m\<rparr>)"

definition BigTest_known :: "uint32 \<Rightarrow> bool" where
  "BigTest_known tag \<longleftrightarrow> tag \<in> {8, 16, 24}"

definition BigTest_ok :: "int \<Rightarrow> BigTest \<Rightarrow> bool" where
  "BigTest_ok d m \<longleftrightarrow> unknown_ok BigTest_known d (bt_unknown m)"

lemma BigTest_copies: "BigTest_copy m = m" "BigTest_CopyFrom False m from = from" "BigTest_MergeFrom BigTest_new m = m"
  "BigTest_InternalSwap m from = (from, m)"
  by (simp_all add: BigTest_copy_def BigTest_CopyFrom_def BigTest_MergeFrom_def BigTest_Clear_def BigTest_new_def
    BigTest_InternalSwap_def set_a_def set_b_def set_c_def Let_def)

lemma BigTest_add_all: "fold BigTest_add us m = m\<lparr>bt_unknown := bt_unknown m @ us\<rparr>"
  by (induction us arbitrary: m) (simp_all add: BigTest_add_def)

lemma BigTest_switch: "BigTest_field k tag m c = None \<longleftrightarrow> \<not> BigTest_known tag"
  by (simp add: BigTest_field_def BigTest_known_def)

lemma BigTest_reads:
  assumes "BigTest_ok d b" and "length (BigTest_InternalSerialize b) \<le> INT_MAX - kSlopBytes"
  shows "parses_as BigTest_field BigTest_add (nat d) (BigTest_InternalSerialize b) m (BigTest_MergeFrom m b)"
proof -
  let ?p = "parses_as BigTest_field BigTest_add (nat d)"
  let ?m1 = "if bt_a b \<noteq> 0 then m\<lparr>bt_a := bt_a b\<rparr> else m"
  let ?m2 = "if bt_b b \<noteq> 0 then ?m1\<lparr>bt_b := bt_b b\<rparr> else ?m1"
  let ?m3 = "if bt_c b \<noteq> 0 then ?m2\<lparr>bt_c := bt_c b\<rparr> else ?m2"
  have a: "?p (if bt_a b \<noteq> 0 then WriteInt64ToArray 1 (bt_a b) else []) m ?m1"
    by (rule parses_as_opt [OF parses_as_int64]) (simp_all add: BigTest_field_def)
  have b: "?p (if bt_b b \<noteq> 0 then WriteInt64ToArray 2 (bt_b b) else []) ?m1 ?m2"
    by (rule parses_as_opt [OF parses_as_int64]) (simp_all add: BigTest_field_def)
  have c: "?p (if bt_c b \<noteq> 0 then WriteInt64ToArray 3 (bt_c b) else []) ?m2 ?m3"
    by (rule parses_as_opt [OF parses_as_int64]) (simp_all add: BigTest_field_def)
  have u: "?p (InternalSerializeUnknownFieldsToArray (bt_unknown b)) ?m3 (fold BigTest_add (bt_unknown b) ?m3)"
    using assms by (intro unknown_ok_parses [OF _ _ BigTest_switch]) (simp_all add: BigTest_ok_def BigTest_InternalSerialize_def)
  have "BigTest_MergeFrom m b = fold BigTest_add (bt_unknown b) ?m3"
    by (simp add: BigTest_MergeFrom_def BigTest_add_all set_a_def set_b_def set_c_def Let_def)
  then show ?thesis using parses_as_append_same [OF a parses_as_append_same [OF b parses_as_append_same [OF c u]]]
    by (simp add: BigTest_InternalSerialize_def)
qed

interpretation bigtest: message_codec BigTest_field BigTest_add BigTest_known BigTest_new BigTest_MergeFrom
  BigTest_InternalSerialize BigTest_ByteSizeLong BigTest_ok
proof unfold_locales
  show "safe_field BigTest_field" by (auto simp: safe_field_def BigTest_field_def split: if_splits intro: field_within)
  show "steady_field BigTest_field" by (simp add: steady_field_def BigTest_field_def)
  show "BigTest_ByteSizeLong m = length (BigTest_InternalSerialize m)" for m
    by (simp add: BigTest_ByteSizeLong_def BigTest_InternalSerialize_def number_tags length_tag_1 Int64SizePlusOne_def VarintSizePlusOne)
  show "BigTest_ok d b \<Longrightarrow> length (BigTest_InternalSerialize b) \<le> INT_MAX - kSlopBytes
      \<Longrightarrow> parses_as BigTest_field BigTest_add (nat d) (BigTest_InternalSerialize b) m (BigTest_MergeFrom m b)" for d b m
    by (rule BigTest_reads)
  show "BigTest_field k tag m c = Some (Parsed (m', c')) \<Longrightarrow> 0 \<le> cx_depth c \<Longrightarrow> BigTest_ok (cx_depth c) m
      \<Longrightarrow> BigTest_ok (cx_depth c) m' \<and> cx_depth c' = cx_depth c" for k tag m c m' c'
    by (auto simp: BigTest_field_def BigTest_ok_def set_field_Parsed split: if_splits dest: field_depth)
qed (simp_all add: BigTest_switch BigTest_copies BigTest_ok_def BigTest_add_def, simp_all add: BigTest_new_def)

end
