(* ===== verification/PbSkill.thy ===== *)
theory PbSkill imports PbStruct begin

text \<open>
  The skill messages of Protocol.proto as GameServer/Protocol.pb.cc and .h generate them:
  CSCircularSectorSkillRequest (two floats and three optional positions) and
  SCCircularSectorSkillResponse (one flag). A null pointer to a submessage is \<open>None\<close>; the default
  instances, which count as having no submessage, are not values of the model. \<open>GetCachedSize\<close> is the
  size that ByteSizeLong has just computed.
\<close>

section \<open>Optional positions\<close>

definition write_position :: "uint32 \<Rightarrow> SPosition option \<Rightarrow> BYTE list" where
  "write_position num pos =
     (case pos of None \<Rightarrow> []
      | Some p \<Rightarrow> InternalWriteMessage num (SPosition_InternalSerialize p) (SPosition_ByteSizeLong p))"

definition position_size :: "SPosition option \<Rightarrow> nat" where
  "position_size pos = (case pos of None \<Rightarrow> 0 | Some p \<Rightarrow> 1 + LengthDelimitedSize (SPosition_ByteSizeLong p))"

definition mutable_position :: "SPosition option \<Rightarrow> SPosition" where
  "mutable_position pos = (case pos of None \<Rightarrow> SPosition_new | Some p \<Rightarrow> p)"

definition merge_position :: "SPosition option \<Rightarrow> SPosition option \<Rightarrow> SPosition option" where
  "merge_position pos from = (case from of None \<Rightarrow> pos | Some p \<Rightarrow> Some (SPosition_MergeFrom (mutable_position pos) p))"

definition position_ok :: "int \<Rightarrow> SPosition option \<Rightarrow> bool" where
  "position_ok d = pred_option (\<lambda>p. 0 < d \<and> SPosition_ok (d - 1) p)"

lemma copy_position [simp]: "map_option SPosition_copy pos = pos"
  by (cases pos) (simp_all add: SPosition_copies)

lemma merge_position_None [simp]: "merge_position None from = from" "merge_position pos None = pos"
  by (simp_all add: merge_position_def mutable_position_def SPosition_copies split: option.split)

lemma position_parse_within [field_within]:
  "ctx_ok c \<Longrightarrow> 12 \<le> length (readable c) \<Longrightarrow> length (cx_bytes c) < k \<Longrightarrow> within c (ParseMessage (SPosition_InternalParse k) m c)"
  unfolding SPosition_InternalParse_def by (rule sposition.nested_within) simp_all

lemma position_parse_fuel:
  "ctx_ok c \<Longrightarrow> 12 \<le> length (readable c) \<Longrightarrow> length (cx_bytes c) < k \<Longrightarrow> length (cx_bytes c) < k'
   \<Longrightarrow> ParseMessage (SPosition_InternalParse k) m c = ParseMessage (SPosition_InternalParse k') m c"
  unfolding SPosition_InternalParse_def by (rule sposition.nested_fuel) simp_all

lemma position_parse_ok:
  assumes "ParseMessage (SPosition_InternalParse k) (mutable_position pos) c = Parsed (p, c')" and "position_ok (cx_depth c) pos"
  shows "position_ok (cx_depth c) (Some p) \<and> cx_depth c' = cx_depth c"
proof -
  have "0 < cx_depth c \<Longrightarrow> SPosition_ok (cx_depth c - 1) (mutable_position pos)"
    using assms(2) sposition.ok_new [of "cx_depth c - 1"] by (cases pos) (simp_all add: mutable_position_def position_ok_def)
  then show ?thesis using sposition.nested_ok assms(1) unfolding SPosition_InternalParse_def by (fastforce simp: position_ok_def)
qed

text \<open>A position that was written is merged into the one the message has.\<close>

lemma position_reads:
  assumes "\<And>k c. field k tag m c = Some (set_field (ParseMessage (SPosition_InternalParse k) (mutable_position old)) (\<lambda>p. upd (Some p)) c)"
    and "MakeTag num WIRETYPE_LENGTH_DELIMITED = tag" and "position_ok d pos" and "length (write_position num pos) \<le> INT_MAX - kSlopBytes"
    and "upd old = m"
  shows "parses_as field add (nat d) (write_position num pos) m (upd (merge_position old pos))"
proof (cases pos)
  case (Some p)
  have p: "SPosition_ok (d - 1) p" "0 < d" using assms(3) by (simp_all add: Some position_ok_def)
  have size: "SPosition_ByteSizeLong p \<le> INT_MAX - kSlopBytes"
    using assms(4) by (simp add: Some write_position_def InternalWriteMessage_def sposition.bsize)
  have "Suc (nat (d - 1)) = nat d" using p(2) by simp
  then have "fueled_takes (\<lambda>k. ParseMessage (SPosition_InternalParse k) (mutable_position old)) (nat d)
      (size_prefix (SPosition_ByteSizeLong p) @ SPosition_InternalSerialize p) (SPosition_MergeFrom (mutable_position old) p)"
    using sposition.nested_takes [OF p(1) size, of "mutable_position old"] unfolding SPosition_InternalParse_def by simp
  then show ?thesis unfolding Some write_position_def merge_position_def option.case
    by (intro parses_as_submessage [where upd = "\<lambda>p. upd (Some p)"]) (rule assms(1), rule assms(2))
qed (simp add: write_position_def assms(5))

lemma length_write_position: "num \<in> {3, 4, 5} \<Longrightarrow> length (write_position num pos) = position_size pos"
  by (auto simp: write_position_def position_size_def InternalWriteMessage_def WriteTagToArray_def length_tag_1 LengthDelimitedSize_def
    VarintSize32_length sposition.bsize split: option.split)

section \<open>CSCircularSectorSkillRequest\<close>

record CSCircularSectorSkillRequest =
  sk_theta :: uint32
  sk_radius :: uint32
  sk_mypos :: "SPosition option"
  sk_forward :: "SPosition option"
  sk_targetpos :: "SPosition option"
  sk_unknown :: "unknown_field list"

definition CSCircularSectorSkillRequest_new :: CSCircularSectorSkillRequest where
  "CSCircularSectorSkillRequest_new = \<lparr>sk_theta = 0, sk_radius = 0, sk_mypos = None, sk_forward = None, sk_targetpos = None, sk_unknown = []\<rparr>"

definition CSCircularSectorSkillRequest_copy :: "CSCircularSectorSkillRequest \<Rightarrow> CSCircularSectorSkillRequest" where
  "CSCircularSectorSkillRequest_copy from =
     \<lparr>sk_theta = sk_theta from, sk_radius = sk_radius from, sk_mypos = map_option SPosition_copy (sk_mypos from),
      sk_forward = map_option SPosition_copy (sk_forward from), sk_targetpos = map_option SPosition_copy (sk_targetpos from),
      sk_unknown = [] @ sk_unknown from\<rparr>"

definition clear_theta :: "CSCircularSectorSkillRequest \<Rightarrow> CSCircularSectorSkillRequest" where "clear_theta m = m\<lparr>sk_theta := 0\<rparr>"
definition set_theta :: "uint32 \<Rightarrow> CSCircularSectorSkillRequest \<Rightarrow> CSCircularSectorSkillRequest" where "set_theta v m = m\<lparr>sk_theta := v\<rparr>"
definition clear_radius :: "CSCircularSectorSkillRequest \<Rightarrow> CSCircularSectorSkillRequest" where "clear_radius m = m\<lparr>sk_radius := 0\<rparr>"
definition set_radius :: "uint32 \<Rightarrow> CSCircularSectorSkillRequest \<Rightarrow> CSCircularSectorSkillRequest" where "set_radius v m = m\<lparr>sk_radius := v\<rparr>"

text \<open>Outside an arena: \<open>release\<close> hands the submessage over, \<open>set_allocated\<close> takes one.\<close>

definition has_mypos :: "CSCircularSectorSkillRequest \<Rightarrow> bool" where "has_mypos m \<longleftrightarrow> sk_mypos m \<noteq> None"
definition get_mypos :: "CSCircularSectorSkillRequest \<Rightarrow> SPosition" where "get_mypos m = (case sk_mypos m of None \<Rightarrow> SPosition_new | Some p \<Rightarrow> p)"
definition clear_mypos :: "CSCircularSectorSkillRequest \<Rightarrow> CSCircularSectorSkillRequest" where "clear_mypos m = m\<lparr>sk_mypos := None\<rparr>"
definition mutable_mypos :: "CSCircularSectorSkillRequest \<Rightarrow> CSCircularSectorSkillRequest" where "mutable_mypos m = m\<lparr>sk_mypos := Some (mutable_position (sk_mypos m))\<rparr>"
definition release_mypos :: "CSCircularSectorSkillRequest \<Rightarrow> SPosition option \<times> CSCircularSectorSkillRequest" where "release_mypos m = (sk_mypos m, m\<lparr>sk_mypos := None\<rparr>)"
definition set_allocated_mypos :: "SPosition option \<Rightarrow> CSCircularSectorSkillRequest \<Rightarrow> CSCircularSectorSkillRequest" where "set_allocated_mypos p m = m\<lparr>sk_mypos := p\<rparr>"

definition has_forward :: "CSCircularSectorSkillRequest \<Rightarrow> bool" where "has_forward m \<longleftrightarrow> sk_forward m \<noteq> None"
definition get_forward :: "CSCircularSectorSkillRequest \<Rightarrow> SPosition" where "get_forward m = (case sk_forward m of None \<Rightarrow> SPosition_new | Some p \<Rightarrow> p)"
definition clear_forward :: "CSCircularSectorSkillRequest \<Rightarrow> CSCircularSectorSkillRequest" where "clear_forward m = m\<lparr>sk_forward := None\<rparr>"
definition mutable_forward :: "CSCircularSectorSkillRequest \<Rightarrow> CSCircularSectorSkillRequest" where "mutable_forward m = m\<lparr>sk_forward := Some (mutable_position (sk_forward m))\<rparr>"
definition release_forward :: "CSCircularSectorSkillRequest \<Rightarrow> SPosition option \<times> CSCircularSectorSkillRequest" where "release_forward m = (sk_forward m, m\<lparr>sk_forward := None\<rparr>)"
definition set_allocated_forward :: "SPosition option \<Rightarrow> CSCircularSectorSkillRequest \<Rightarrow> CSCircularSectorSkillRequest" where "set_allocated_forward p m = m\<lparr>sk_forward := p\<rparr>"

definition has_targetpos :: "CSCircularSectorSkillRequest \<Rightarrow> bool" where "has_targetpos m \<longleftrightarrow> sk_targetpos m \<noteq> None"
definition get_targetpos :: "CSCircularSectorSkillRequest \<Rightarrow> SPosition" where "get_targetpos m = (case sk_targetpos m of None \<Rightarrow> SPosition_new | Some p \<Rightarrow> p)"
definition clear_targetpos :: "CSCircularSectorSkillRequest \<Rightarrow> CSCircularSectorSkillRequest" where "clear_targetpos m = m\<lparr>sk_targetpos := None\<rparr>"
definition mutable_targetpos :: "CSCircularSectorSkillRequest \<Rightarrow> CSCircularSectorSkillRequest" where "mutable_targetpos m = m\<lparr>sk_targetpos := Some (mutable_position (sk_targetpos m))\<rparr>"
definition release_targetpos :: "CSCircularSectorSkillRequest \<Rightarrow> SPosition option \<times> CSCircularSectorSkillRequest" where "release_targetpos m = (sk_targetpos m, m\<lparr>sk_targetpos := None\<rparr>)"
definition set_allocated_targetpos :: "SPosition option \<Rightarrow> CSCircularSectorSkillRequest \<Rightarrow> CSCircularSectorSkillRequest" where "set_allocated_targetpos p m = m\<lparr>sk_targetpos := p\<rparr>"

definition CSCircularSectorSkillRequest_Clear :: "CSCircularSectorSkillRequest \<Rightarrow> CSCircularSectorSkillRequest" where
  "CSCircularSectorSkillRequest_Clear m = m\<lparr>sk_mypos := None, sk_forward := None, sk_targetpos := None, sk_theta := 0, sk_radius := 0, sk_unknown := []\<rparr>"

definition CSCircularSectorSkillRequest_field :: "nat \<Rightarrow> uint32 \<Rightarrow> CSCircularSectorSkillRequest \<Rightarrow> ctx \<Rightarrow> (CSCircularSectorSkillRequest \<times> ctx) parsed option" where
  "CSCircularSectorSkillRequest_field k tag m c =
     (if tag_case tag 1 13 then Some (set_field read_float (\<lambda>v. m\<lparr>sk_theta := v\<rparr>) c)
      else if tag_case tag 2 21 then Some (set_field read_float (\<lambda>v. m\<lparr>sk_radius := v\<rparr>) c)
      else if tag_case tag 3 26 then
        Some (set_field (ParseMessage (SPosition_InternalParse k) (mutable_position (sk_mypos m))) (\<lambda>p. m\<lparr>sk_mypos := Some p\<rparr>) c)
      else if tag_case tag 4 34 then
        Some (set_field (ParseMessage (SPosition_InternalParse k) (mutable_position (sk_forward m))) (\<lambda>p. m\<lparr>sk_forward := Some p\<rparr>) c)
      else if tag_case tag 5 42 then
        Some (set_field (ParseMessage (SPosition_InternalParse k) (mutable_position (sk_targetpos m))) (\<lambda>p. m\<lparr>sk_targetpos := Some p\<rparr>) c)
      else None)"

definition CSCircularSectorSkillRequest_add :: "unknown_field \<Rightarrow> CSCircularSectorSkillRequest \<Rightarrow> CSCircularSectorSkillRequest" where
  "CSCircularSectorSkillRequest_add u m = m\<lparr>sk_unknown := sk_unknown m @ [u]\<rparr>"

definition CSCircularSectorSkillRequest_InternalParse :: "nat \<Rightarrow> CSCircularSectorSkillRequest \<Rightarrow> ctx \<Rightarrow> (CSCircularSectorSkillRequest \<times> ctx) parsed" where
  "CSCircularSectorSkillRequest_InternalParse = message_loop CSCircularSectorSkillRequest_field CSCircularSectorSkillRequest_add"

definition CSCircularSectorSkillRequest_InternalSerialize :: "CSCircularSectorSkillRequest \<Rightarrow> BYTE list" where
  "CSCircularSectorSkillRequest_InternalSerialize m =
     (if sk_theta m \<noteq> 0 then WriteFloatToArray 1 (sk_theta m) else [])
     @ (if sk_radius m \<noteq> 0 then WriteFloatToArray 2 (sk_radius m) else [])
     @ write_position 3 (sk_mypos m) @ write_position 4 (sk_forward m) @ write_position 5 (sk_targetpos m)
     @ serialize_unknown (sk_unknown m)"

definition CSCircularSectorSkillRequest_ByteSizeLong :: "CSCircularSectorSkillRequest \<Rightarrow> nat" where
  "CSCircularSectorSkillRequest_ByteSizeLong m =
     MaybeComputeUnknownFieldsSize
       (position_size (sk_mypos m) + position_size (sk_forward m) + position_size (sk_targetpos m)
        + (if sk_theta m \<noteq> 0 then 1 + 4 else 0) + (if sk_radius m \<noteq> 0 then 1 + 4 else 0)) (sk_unknown m)"

definition CSCircularSectorSkillRequest_MergeFrom :: "CSCircularSectorSkillRequest \<Rightarrow> CSCircularSectorSkillRequest \<Rightarrow> CSCircularSectorSkillRequest" where
  "CSCircularSectorSkillRequest_MergeFrom m from =
     (let m1 = m\<lparr>sk_mypos := merge_position (sk_mypos m) (sk_mypos from)\<rparr>;
          m2 = m1\<lparr>sk_forward := merge_position (sk_forward m1) (sk_forward from)\<rparr>;
          m3 = m2\<lparr>sk_targetpos := merge_position (sk_targetpos m2) (sk_targetpos from)\<rparr>;
          m4 = if sk_theta from \<noteq> 0 then set_theta (sk_theta from) m3 else m3;
          m5 = if sk_radius from \<noteq> 0 then set_radius (sk_radius from) m4 else m4
      in m5\<lparr>sk_unknown := sk_unknown m5 @ sk_unknown from\<rparr>)"

definition CSCircularSectorSkillRequest_CopyFrom :: "bool \<Rightarrow> CSCircularSectorSkillRequest \<Rightarrow> CSCircularSectorSkillRequest \<Rightarrow> CSCircularSectorSkillRequest" where
  "CSCircularSectorSkillRequest_CopyFrom self m from = (if self then m else CSCircularSectorSkillRequest_MergeFrom (CSCircularSectorSkillRequest_Clear m) from)"

definition CSCircularSectorSkillRequest_InternalSwap :: "CSCircularSectorSkillRequest \<Rightarrow> CSCircularSectorSkillRequest \<Rightarrow> CSCircularSectorSkillRequest \<times> CSCircularSectorSkillRequest" where
  "CSCircularSectorSkillRequest_InternalSwap m other =
     (m\<lparr>sk_unknown := sk_unknown other, sk_mypos := sk_mypos other, sk_forward := sk_forward other, sk_targetpos := sk_targetpos other,
        sk_theta := sk_theta other, sk_radius := sk_radius other\<rparr>,
      other\<lparr>sk_unknown := sk_unknown m, sk_mypos := sk_mypos m, sk_forward := sk_forward m, sk_targetpos := sk_targetpos m,
        sk_theta := sk_theta m, sk_radius := sk_radius m\<rparr>)"

definition CSCircularSectorSkillRequest_known :: "uint32 \<Rightarrow> bool" where
  "CSCircularSectorSkillRequest_known tag \<longleftrightarrow> tag \<in> {13, 21, 26, 34, 42}"

definition CSCircularSectorSkillRequest_ok :: "int \<Rightarrow> CSCircularSectorSkillRequest \<Rightarrow> bool" where
  "CSCircularSectorSkillRequest_ok d m \<longleftrightarrow> position_ok d (sk_mypos m) \<and> position_ok d (sk_forward m) \<and> position_ok d (sk_targetpos m)
     \<and> unknown_ok CSCircularSectorSkillRequest_known d (sk_unknown m)"

lemma CSCircularSectorSkillRequest_copies: "CSCircularSectorSkillRequest_copy m = m" "CSCircularSectorSkillRequest_CopyFrom False m from = from"
  "CSCircularSectorSkillRequest_MergeFrom CSCircularSectorSkillRequest_new m = m" "CSCircularSectorSkillRequest_InternalSwap m from = (from, m)"
  by (simp_all add: CSCircularSectorSkillRequest_copy_def CSCircularSectorSkillRequest_CopyFrom_def CSCircularSectorSkillRequest_MergeFrom_def CSCircularSectorSkillRequest_Clear_def
    CSCircularSectorSkillRequest_new_def CSCircularSectorSkillRequest_InternalSwap_def set_theta_def set_radius_def Let_def)

lemma CSCircularSectorSkillRequest_add_all: "fold CSCircularSectorSkillRequest_add us m = m\<lparr>sk_unknown := sk_unknown m @ us\<rparr>"
  by (induction us arbitrary: m) (simp_all add: CSCircularSectorSkillRequest_add_def)

lemma CSCircularSectorSkillRequest_switch: "CSCircularSectorSkillRequest_field k tag m c = None \<longleftrightarrow> \<not> CSCircularSectorSkillRequest_known tag"
  by (simp add: CSCircularSectorSkillRequest_field_def CSCircularSectorSkillRequest_known_def)

lemma CSCircularSectorSkillRequest_reads:
  assumes ok: "CSCircularSectorSkillRequest_ok d b" and len: "length (CSCircularSectorSkillRequest_InternalSerialize b) \<le> INT_MAX - kSlopBytes"
  shows "parses_as CSCircularSectorSkillRequest_field CSCircularSectorSkillRequest_add (nat d) (CSCircularSectorSkillRequest_InternalSerialize b) m (CSCircularSectorSkillRequest_MergeFrom m b)"
proof -
  let ?p = "parses_as CSCircularSectorSkillRequest_field CSCircularSectorSkillRequest_add (nat d)"
  let ?m1 = "if sk_theta b \<noteq> 0 then m\<lparr>sk_theta := sk_theta b\<rparr> else m"
  let ?m2 = "if sk_radius b \<noteq> 0 then ?m1\<lparr>sk_radius := sk_radius b\<rparr> else ?m1"
  let ?m3 = "?m2\<lparr>sk_mypos := merge_position (sk_mypos ?m2) (sk_mypos b)\<rparr>"
  let ?m4 = "?m3\<lparr>sk_forward := merge_position (sk_forward ?m3) (sk_forward b)\<rparr>"
  let ?m5 = "?m4\<lparr>sk_targetpos := merge_position (sk_targetpos ?m4) (sk_targetpos b)\<rparr>"
  have pos: "position_ok d (sk_mypos b)" "position_ok d (sk_forward b)" "position_ok d (sk_targetpos b)"
    "unknown_ok CSCircularSectorSkillRequest_known d (sk_unknown b)" using ok by (simp_all add: CSCircularSectorSkillRequest_ok_def)
  have lens: "length (write_position 3 (sk_mypos b)) \<le> INT_MAX - kSlopBytes" "length (write_position 4 (sk_forward b)) \<le> INT_MAX - kSlopBytes"
    "length (write_position 5 (sk_targetpos b)) \<le> INT_MAX - kSlopBytes"
    "length (InternalSerializeUnknownFieldsToArray (sk_unknown b)) \<le> INT_MAX - kSlopBytes"
    using len by (simp_all add: CSCircularSectorSkillRequest_InternalSerialize_def)
  have theta: "?p (if sk_theta b \<noteq> 0 then WriteFloatToArray 1 (sk_theta b) else []) m ?m1"
    by (rule parses_as_opt [OF parses_as_float]) (simp_all add: CSCircularSectorSkillRequest_field_def)
  have radius: "?p (if sk_radius b \<noteq> 0 then WriteFloatToArray 2 (sk_radius b) else []) ?m1 ?m2"
    by (rule parses_as_opt [OF parses_as_float]) (simp_all add: CSCircularSectorSkillRequest_field_def)
  have mypos: "?p (write_position 3 (sk_mypos b)) ?m2 ?m3"
    by (rule position_reads [OF _ _ pos(1) lens(1), where upd = "\<lambda>q. ?m2\<lparr>sk_mypos := q\<rparr>" and tag = 26])
      (simp_all add: CSCircularSectorSkillRequest_field_def)
  have forward: "?p (write_position 4 (sk_forward b)) ?m3 ?m4"
    by (rule position_reads [OF _ _ pos(2) lens(2), where upd = "\<lambda>q. ?m3\<lparr>sk_forward := q\<rparr>" and tag = 34])
      (simp_all add: CSCircularSectorSkillRequest_field_def)
  have targetpos: "?p (write_position 5 (sk_targetpos b)) ?m4 ?m5"
    by (rule position_reads [OF _ _ pos(3) lens(3), where upd = "\<lambda>q. ?m4\<lparr>sk_targetpos := q\<rparr>" and tag = 42])
      (simp_all add: CSCircularSectorSkillRequest_field_def)
  have u: "?p (InternalSerializeUnknownFieldsToArray (sk_unknown b)) ?m5 (fold CSCircularSectorSkillRequest_add (sk_unknown b) ?m5)"
    by (rule unknown_ok_parses [OF pos(4) lens(4) CSCircularSectorSkillRequest_switch])
  have "CSCircularSectorSkillRequest_MergeFrom m b = fold CSCircularSectorSkillRequest_add (sk_unknown b) ?m5"
    by (simp add: CSCircularSectorSkillRequest_MergeFrom_def CSCircularSectorSkillRequest_add_all set_theta_def set_radius_def Let_def)
  moreover have "?p (CSCircularSectorSkillRequest_InternalSerialize b) m (fold CSCircularSectorSkillRequest_add (sk_unknown b) ?m5)"
    unfolding CSCircularSectorSkillRequest_InternalSerialize_def serialize_unknown_eq
    by (intro parses_as_append_same [OF theta] parses_as_append_same [OF radius] parses_as_append_same [OF mypos]
      parses_as_append_same [OF forward] parses_as_append_same [OF targetpos] u)
  ultimately show ?thesis by simp
qed

interpretation cs_skill: message_codec CSCircularSectorSkillRequest_field CSCircularSectorSkillRequest_add CSCircularSectorSkillRequest_known
  CSCircularSectorSkillRequest_new CSCircularSectorSkillRequest_MergeFrom CSCircularSectorSkillRequest_InternalSerialize
  CSCircularSectorSkillRequest_ByteSizeLong CSCircularSectorSkillRequest_ok
proof unfold_locales
  show "safe_field CSCircularSectorSkillRequest_field"
    by (auto simp: safe_field_def CSCircularSectorSkillRequest_field_def split: if_splits intro: field_within)
  show "steady_field CSCircularSectorSkillRequest_field"
    unfolding steady_field_def
  proof (intro allI impI)
    fix k k' tag m c assume "ctx_ok c" "12 \<le> length (readable c)" "length (cx_bytes c) < k" "length (cx_bytes c) < k'"
    note fuel = position_parse_fuel [OF this]
    show "CSCircularSectorSkillRequest_field k tag m c = CSCircularSectorSkillRequest_field k' tag m c"
      by (simp add: CSCircularSectorSkillRequest_field_def set_field_def fuel)
  qed
  show "CSCircularSectorSkillRequest_ByteSizeLong m = length (CSCircularSectorSkillRequest_InternalSerialize m)" for m
    by (simp add: CSCircularSectorSkillRequest_ByteSizeLong_def CSCircularSectorSkillRequest_InternalSerialize_def number_tags length_tag_1 length_write_position)
  show "CSCircularSectorSkillRequest_ok d b \<Longrightarrow> length (CSCircularSectorSkillRequest_InternalSerialize b) \<le> INT_MAX - kSlopBytes
      \<Longrightarrow> parses_as CSCircularSectorSkillRequest_field CSCircularSectorSkillRequest_add (nat d) (CSCircularSectorSkillRequest_InternalSerialize b) m
        (CSCircularSectorSkillRequest_MergeFrom m b)" for d b m
    by (rule CSCircularSectorSkillRequest_reads)
  show "CSCircularSectorSkillRequest_field k tag m c = Some (Parsed (m', c')) \<Longrightarrow> 0 \<le> cx_depth c \<Longrightarrow> CSCircularSectorSkillRequest_ok (cx_depth c) m
      \<Longrightarrow> CSCircularSectorSkillRequest_ok (cx_depth c) m' \<and> cx_depth c' = cx_depth c" for k tag m c m' c'
    by (auto simp: CSCircularSectorSkillRequest_field_def CSCircularSectorSkillRequest_ok_def set_field_Parsed split: if_splits
      dest: field_depth position_parse_ok)
  show "0 \<le> d \<Longrightarrow> CSCircularSectorSkillRequest_ok d CSCircularSectorSkillRequest_new" for d
    by (simp add: CSCircularSectorSkillRequest_ok_def CSCircularSectorSkillRequest_new_def position_ok_def)
qed (simp_all add: CSCircularSectorSkillRequest_switch CSCircularSectorSkillRequest_copies CSCircularSectorSkillRequest_ok_def CSCircularSectorSkillRequest_add_def)

section \<open>SCCircularSectorSkillResponse\<close>

record SCCircularSectorSkillResponse =
  sr_ishit :: bool
  sr_unknown :: "unknown_field list"

definition SCCircularSectorSkillResponse_new :: SCCircularSectorSkillResponse where
  "SCCircularSectorSkillResponse_new = \<lparr>sr_ishit = False, sr_unknown = []\<rparr>"

definition SCCircularSectorSkillResponse_copy :: "SCCircularSectorSkillResponse \<Rightarrow> SCCircularSectorSkillResponse" where
  "SCCircularSectorSkillResponse_copy from = \<lparr>sr_ishit = sr_ishit from, sr_unknown = [] @ sr_unknown from\<rparr>"

definition clear_ishit :: "SCCircularSectorSkillResponse \<Rightarrow> SCCircularSectorSkillResponse" where "clear_ishit m = m\<lparr>sr_ishit := False\<rparr>"
definition set_ishit :: "bool \<Rightarrow> SCCircularSectorSkillResponse \<Rightarrow> SCCircularSectorSkillResponse" where "set_ishit b m = m\<lparr>sr_ishit := b\<rparr>"

definition SCCircularSectorSkillResponse_Clear :: "SCCircularSectorSkillResponse \<Rightarrow> SCCircularSectorSkillResponse" where
  "SCCircularSectorSkillResponse_Clear m = m\<lparr>sr_ishit := False, sr_unknown := []\<rparr>"

definition SCCircularSectorSkillResponse_field :: "nat \<Rightarrow> uint32 \<Rightarrow> SCCircularSectorSkillResponse \<Rightarrow> ctx \<Rightarrow> (SCCircularSectorSkillResponse \<times> ctx) parsed option" where
  "SCCircularSectorSkillResponse_field k tag m c =
     (if tag_case tag 1 8 then Some (set_field read_bool (\<lambda>b. m\<lparr>sr_ishit := b\<rparr>) c) else None)"

definition SCCircularSectorSkillResponse_add :: "unknown_field \<Rightarrow> SCCircularSectorSkillResponse \<Rightarrow> SCCircularSectorSkillResponse" where
  "SCCircularSectorSkillResponse_add u m = m\<lparr>sr_unknown := sr_unknown m @ [u]\<rparr>"

definition SCCircularSectorSkillResponse_InternalParse :: "nat \<Rightarrow> SCCircularSectorSkillResponse \<Rightarrow> ctx \<Rightarrow> (SCCircularSectorSkillResponse \<times> ctx) parsed" where
  "SCCircularSectorSkillResponse_InternalParse = message_loop SCCircularSectorSkillResponse_field SCCircularSectorSkillResponse_add"

definition SCCircularSectorSkillResponse_InternalSerialize :: "SCCircularSectorSkillResponse \<Rightarrow> BYTE list" where
  "SCCircularSectorSkillResponse_InternalSerialize m = (if sr_ishit m then WriteBoolToArray 1 (sr_ishit m) else []) @ serialize_unknown (sr_unknown m)"

definition SCCircularSectorSkillResponse_ByteSizeLong :: "SCCircularSectorSkillResponse \<Rightarrow> nat" where
  "SCCircularSectorSkillResponse_ByteSizeLong m = MaybeComputeUnknownFieldsSize (if sr_ishit m then 1 + 1 else 0) (sr_unknown m)"

definition SCCircularSectorSkillResponse_MergeFrom :: "SCCircularSectorSkillResponse \<Rightarrow> SCCircularSectorSkillResponse \<Rightarrow> SCCircularSectorSkillResponse" where
  "SCCircularSectorSkillResponse_MergeFrom m from =
     (let m1 = if sr_ishit from then set_ishit (sr_ishit from) m else m
      in m1\<lparr>sr_unknown := sr_unknown m1 @ sr_unknown from\<rparr>)"

definition SCCircularSectorSkillResponse_CopyFrom :: "bool \<Rightarrow> SCCircularSectorSkillResponse \<Rightarrow> SCCircularSectorSkillResponse \<Rightarrow> SCCircularSectorSkillResponse" where
  "SCCircularSectorSkillResponse_CopyFrom self m from = (if self then m else SCCircularSectorSkillResponse_MergeFrom (SCCircularSectorSkillResponse_Clear m) from)"

definition SCCircularSectorSkillResponse_InternalSwap :: "SCCircularSectorSkillResponse \<Rightarrow> SCCircularSectorSkillResponse \<Rightarrow> SCCircularSectorSkillResponse \<times> SCCircularSectorSkillResponse" where
  "SCCircularSectorSkillResponse_InternalSwap m other =
     (m\<lparr>sr_unknown := sr_unknown other, sr_ishit := sr_ishit other\<rparr>, other\<lparr>sr_unknown := sr_unknown m, sr_ishit := sr_ishit m\<rparr>)"

definition SCCircularSectorSkillResponse_known :: "uint32 \<Rightarrow> bool" where
  "SCCircularSectorSkillResponse_known tag \<longleftrightarrow> tag = 8"

definition SCCircularSectorSkillResponse_ok :: "int \<Rightarrow> SCCircularSectorSkillResponse \<Rightarrow> bool" where
  "SCCircularSectorSkillResponse_ok d m \<longleftrightarrow> unknown_ok SCCircularSectorSkillResponse_known d (sr_unknown m)"

lemma SCCircularSectorSkillResponse_copies: "SCCircularSectorSkillResponse_copy m = m" "SCCircularSectorSkillResponse_CopyFrom False m from = from"
  "SCCircularSectorSkillResponse_MergeFrom SCCircularSectorSkillResponse_new m = m" "SCCircularSectorSkillResponse_InternalSwap m from = (from, m)"
  by (simp_all add: SCCircularSectorSkillResponse_copy_def SCCircularSectorSkillResponse_CopyFrom_def SCCircularSectorSkillResponse_MergeFrom_def SCCircularSectorSkillResponse_Clear_def SCCircularSectorSkillResponse_new_def
    SCCircularSectorSkillResponse_InternalSwap_def set_ishit_def Let_def)

lemma SCCircularSectorSkillResponse_add_all: "fold SCCircularSectorSkillResponse_add us m = m\<lparr>sr_unknown := sr_unknown m @ us\<rparr>"
  by (induction us arbitrary: m) (simp_all add: SCCircularSectorSkillResponse_add_def)

lemma SCCircularSectorSkillResponse_switch: "SCCircularSectorSkillResponse_field k tag m c = None \<longleftrightarrow> \<not> SCCircularSectorSkillResponse_known tag"
  by (simp add: SCCircularSectorSkillResponse_field_def SCCircularSectorSkillResponse_known_def)

lemma SCCircularSectorSkillResponse_reads:
  assumes "SCCircularSectorSkillResponse_ok d b" and "length (SCCircularSectorSkillResponse_InternalSerialize b) \<le> INT_MAX - kSlopBytes"
  shows "parses_as SCCircularSectorSkillResponse_field SCCircularSectorSkillResponse_add (nat d) (SCCircularSectorSkillResponse_InternalSerialize b) m (SCCircularSectorSkillResponse_MergeFrom m b)"
proof -
  let ?p = "parses_as SCCircularSectorSkillResponse_field SCCircularSectorSkillResponse_add (nat d)"
  let ?m1 = "if sr_ishit b then m\<lparr>sr_ishit := sr_ishit b\<rparr> else m"
  have hit: "?p (if sr_ishit b then WriteBoolToArray 1 (sr_ishit b) else []) m ?m1"
    by (rule parses_as_opt [OF parses_as_bool [where upd = "\<lambda>b. m\<lparr>sr_ishit := b\<rparr>"]]) (simp_all add: SCCircularSectorSkillResponse_field_def)
  have u: "?p (InternalSerializeUnknownFieldsToArray (sr_unknown b)) ?m1 (fold SCCircularSectorSkillResponse_add (sr_unknown b) ?m1)"
    using assms by (intro unknown_ok_parses [OF _ _ SCCircularSectorSkillResponse_switch]) (simp_all add: SCCircularSectorSkillResponse_ok_def SCCircularSectorSkillResponse_InternalSerialize_def)
  have "SCCircularSectorSkillResponse_MergeFrom m b = fold SCCircularSectorSkillResponse_add (sr_unknown b) ?m1"
    by (simp add: SCCircularSectorSkillResponse_MergeFrom_def SCCircularSectorSkillResponse_add_all set_ishit_def Let_def)
  then show ?thesis using parses_as_append_same [OF hit u] by (simp add: SCCircularSectorSkillResponse_InternalSerialize_def)
qed

interpretation sc_skill: message_codec SCCircularSectorSkillResponse_field SCCircularSectorSkillResponse_add SCCircularSectorSkillResponse_known
  SCCircularSectorSkillResponse_new SCCircularSectorSkillResponse_MergeFrom SCCircularSectorSkillResponse_InternalSerialize
  SCCircularSectorSkillResponse_ByteSizeLong SCCircularSectorSkillResponse_ok
proof unfold_locales
  show "safe_field SCCircularSectorSkillResponse_field"
    by (auto simp: safe_field_def SCCircularSectorSkillResponse_field_def split: if_splits intro: field_within)
  show "steady_field SCCircularSectorSkillResponse_field" by (simp add: steady_field_def SCCircularSectorSkillResponse_field_def)
  show "SCCircularSectorSkillResponse_ByteSizeLong m = length (SCCircularSectorSkillResponse_InternalSerialize m)" for m
    by (simp add: SCCircularSectorSkillResponse_ByteSizeLong_def SCCircularSectorSkillResponse_InternalSerialize_def number_tags length_tag_1 UnsafeVarint_last)
  show "SCCircularSectorSkillResponse_ok d b \<Longrightarrow> length (SCCircularSectorSkillResponse_InternalSerialize b) \<le> INT_MAX - kSlopBytes
      \<Longrightarrow> parses_as SCCircularSectorSkillResponse_field SCCircularSectorSkillResponse_add (nat d) (SCCircularSectorSkillResponse_InternalSerialize b) m
        (SCCircularSectorSkillResponse_MergeFrom m b)" for d b m
    by (rule SCCircularSectorSkillResponse_reads)
  show "SCCircularSectorSkillResponse_field k tag m c = Some (Parsed (m', c')) \<Longrightarrow> 0 \<le> cx_depth c \<Longrightarrow> SCCircularSectorSkillResponse_ok (cx_depth c) m
      \<Longrightarrow> SCCircularSectorSkillResponse_ok (cx_depth c) m' \<and> cx_depth c' = cx_depth c" for k tag m c m' c'
    by (auto simp: SCCircularSectorSkillResponse_field_def SCCircularSectorSkillResponse_ok_def set_field_Parsed split: if_splits dest: field_depth)
qed (simp_all add: SCCircularSectorSkillResponse_switch SCCircularSectorSkillResponse_copies SCCircularSectorSkillResponse_ok_def SCCircularSectorSkillResponse_add_def, simp_all add: SCCircularSectorSkillResponse_new_def)

end
