(* ===== verification/PbList.thy ===== *)
theory PbList imports PbStruct begin

text \<open>
  The list messages of Protocol.proto as GameServer/Protocol.pb.cc and .h generate them:
  CSBigTestRequest and SCBigTestResponse, each a repeated BigTest. Their parsers share one loop, which
  goes on reading elements while the next byte is the tag of another one.
\<close>

section \<open>Repeated elements\<close>

definition ExpectTag :: "BYTE \<Rightarrow> ctx \<Rightarrow> bool parsed" where
  "ExpectTag tag c = bind_parsed (byte_at (readable c) 0) (\<lambda>b. Parsed (b = tag))"

text \<open>The first fuel bounds the elements, the second is for the parser of one element.\<close>

primrec BigTest_list_loop :: "nat \<Rightarrow> nat \<Rightarrow> BigTest list \<Rightarrow> ctx \<Rightarrow> (BigTest list \<times> ctx) parsed" where
  "BigTest_list_loop 0 k l c = Fuel"
| "BigTest_list_loop (Suc j) k l c =
     bind_parsed (ParseMessage (BigTest_InternalParse k) BigTest_new c) (\<lambda>(x, c1).
       if \<not> DataAvailable c1 then Parsed (l @ [x], c1)
       else bind_parsed (ExpectTag 10 c1) (\<lambda>again.
         if again then BigTest_list_loop j k (l @ [x]) (advance 1 c1) else Parsed (l @ [x], c1)))"

definition list_ByteSize :: "BigTest list \<Rightarrow> nat" where
  "list_ByteSize l = 1 * length l + sum_list (map (\<lambda>x. LengthDelimitedSize (BigTest_ByteSizeLong x)) l)"

definition write_list :: "BigTest list \<Rightarrow> BYTE list" where
  "write_list l = concat (map (\<lambda>x. InternalWriteMessage 1 (BigTest_InternalSerialize x) (BigTest_ByteSizeLong x)) l)"

definition list_ok :: "int \<Rightarrow> BigTest list \<Rightarrow> bool" where
  "list_ok d l \<longleftrightarrow> list_all (\<lambda>x. 0 < d \<and> BigTest_ok (d - 1) x) l"

lemma length_write_list: "length (write_list l) = list_ByteSize l"
  by (induction l) (simp_all add: write_list_def list_ByteSize_def InternalWriteMessage_def WriteTagToArray_def length_tag_1
    LengthDelimitedSize_def VarintSize32_length bigtest.bsize)

lemma element_within:
  "ctx_ok c \<Longrightarrow> 12 \<le> length (readable c) \<Longrightarrow> length (cx_bytes c) < k \<Longrightarrow> within c (ParseMessage (BigTest_InternalParse k) m c)"
  unfolding BigTest_InternalParse_def by (rule bigtest.nested_within) simp_all

lemma element_fuel:
  "ctx_ok c \<Longrightarrow> 12 \<le> length (readable c) \<Longrightarrow> length (cx_bytes c) < k \<Longrightarrow> length (cx_bytes c) < k'
   \<Longrightarrow> ParseMessage (BigTest_InternalParse k) m c = ParseMessage (BigTest_InternalParse k') m c"
  unfolding BigTest_InternalParse_def by (rule bigtest.nested_fuel) simp_all

text \<open>Where data is available, 17 bytes can be read, and after one more tag still 16.\<close>

lemma available:
  assumes "ctx_ok c" and "DataAvailable c"
  shows "17 \<le> length (readable c)" and "ctx_ok (advance 1 c)" and "16 \<le> length (readable (advance 1 c))"
    and "length (cx_bytes (advance 1 c)) < length (cx_bytes c)" and "Done c = Parsed (False, c)"
proof -
  show r: "17 \<le> length (readable c)"
    using assms length_readable [OF assms(1)] by (auto simp: DataAvailable_def to_buffer_end_def to_end_def kSlopBytes_def min_def split: if_splits)
  then have "1 \<le> length (readable c)" by simp
  note a = advance_ok [OF assms(1) this]
  have "length (readable c) \<le> length (cx_bytes c)" using length_readable [OF assms(1)] by simp
  then show "ctx_ok (advance 1 c)" "16 \<le> length (readable (advance 1 c))" "length (cx_bytes (advance 1 c)) < length (cx_bytes c)"
    using a r by simp_all
  show "Done c = Parsed (False, c)" using assms(2) by (simp add: Done_def)
qed

lemma ExpectTag_available:
  assumes "ctx_ok c" and "DataAvailable c"
  shows "ExpectTag tag c = Parsed (readable c ! 0 = tag)"
proof -
  have "readable c \<noteq> []" using available(1) [OF assms] by auto
  then show ?thesis by (simp add: ExpectTag_def)
qed

lemma list_loop_within:
  "ctx_ok c \<Longrightarrow> 12 \<le> length (readable c) \<Longrightarrow> length (cx_bytes c) < j \<Longrightarrow> length (cx_bytes c) < k \<Longrightarrow> within c (BigTest_list_loop j k l c)"
proof (induction j arbitrary: l c)
  case (Suc j)
  show ?case unfolding BigTest_list_loop.simps
  proof (rule within_bind [OF element_within [OF Suc.prems(1,2,4)]], clarify)
    fix x c1 assume c1: "ctx_ok c1" "length (cx_bytes c1) \<le> length (cx_bytes c)"
    have "within c1 (BigTest_list_loop j k (l @ [x]) (advance 1 c1))" if "DataAvailable c1"
    proof (rule within_advance, rule Suc.IH)
    qed (use available [OF c1(1) that] c1 Suc.prems in simp_all)
    then show "within c1 (if \<not> DataAvailable c1 then Parsed (l @ [x], c1)
       else bind_parsed (ExpectTag 10 c1) (\<lambda>again. if again then BigTest_list_loop j k (l @ [x]) (advance 1 c1) else Parsed (l @ [x], c1)))"
      using c1 ExpectTag_available [OF c1(1)] by simp
  qed
qed simp

lemma list_loop_fuel:
  "ctx_ok c \<Longrightarrow> 12 \<le> length (readable c) \<Longrightarrow> length (cx_bytes c) < j \<Longrightarrow> length (cx_bytes c) < k \<Longrightarrow> length (cx_bytes c) < j' \<Longrightarrow> length (cx_bytes c) < k'
   \<Longrightarrow> BigTest_list_loop j k l c = BigTest_list_loop j' k' l c"
proof (induction j arbitrary: j' l c)
  case (Suc j)
  then obtain i where i: "j' = Suc i" by (cases j') auto
  show ?case unfolding i BigTest_list_loop.simps element_fuel [OF Suc.prems(1,2,4,6)]
  proof (rule bind_parsed_cong, clarify)
    fix x c1 assume "ParseMessage (BigTest_InternalParse k') BigTest_new c = Parsed (x, c1)"
    then have c1: "ctx_ok c1" "length (cx_bytes c1) \<le> length (cx_bytes c)"
      using within_Parsed [OF element_within [OF Suc.prems(1,2,6)]] by blast+
    have "BigTest_list_loop j k (l @ [x]) (advance 1 c1) = BigTest_list_loop i k' (l @ [x]) (advance 1 c1)" if "DataAvailable c1"
      by (rule Suc.IH) (use available [OF c1(1) that] c1 Suc.prems i in simp_all)
    then show "(if \<not> DataAvailable c1 then Parsed (l @ [x], c1)
       else bind_parsed (ExpectTag 10 c1) (\<lambda>again. if again then BigTest_list_loop j k (l @ [x]) (advance 1 c1) else Parsed (l @ [x], c1)))
      = (if \<not> DataAvailable c1 then Parsed (l @ [x], c1)
       else bind_parsed (ExpectTag 10 c1) (\<lambda>again. if again then BigTest_list_loop i k' (l @ [x]) (advance 1 c1) else Parsed (l @ [x], c1)))"
      using ExpectTag_available [OF c1(1)] by simp
  qed
qed simp

lemma list_loop_ok:
  "BigTest_list_loop j k l c = Parsed (l', c') \<Longrightarrow> list_ok (cx_depth c) l \<Longrightarrow> list_ok (cx_depth c) l' \<and> cx_depth c' = cx_depth c"
proof (induction j arbitrary: l c)
  case (Suc j)
  obtain x c1 where x: "ParseMessage (BigTest_InternalParse k) BigTest_new c = Parsed (x, c1)"
    using Suc.prems(1) by (auto simp: bind_parsed_Parsed_iff)
  have "0 < cx_depth c \<Longrightarrow> BigTest_ok (cx_depth c - 1) BigTest_new" by (rule bigtest.ok_new) simp
  then have d: "0 < cx_depth c \<and> BigTest_ok (cx_depth c - 1) x \<and> cx_depth c1 = cx_depth c"
    using bigtest.nested_ok x unfolding BigTest_InternalParse_def by blast
  then have l: "list_ok (cx_depth c) (l @ [x])" using Suc.prems(2) by (simp add: list_ok_def)
  have "BigTest_list_loop j k (l @ [x]) (advance 1 c1) = Parsed (l', c') \<or> (l', c') = (l @ [x], c1)"
    using Suc.prems(1) x by (auto simp: bind_parsed_Parsed_iff split: if_splits)
  then show ?case using Suc.IH [of "l @ [x]" "advance 1 c1"] d l by auto
qed simp


text \<open>One step of the loop of a message, up to the call of the switch.\<close>

lemma loop_enters:
  assumes "cx_bytes c = (UnsafeVarint tag @ p) @ rest" and "room (length (UnsafeVarint tag @ p)) c" and "length (cx_bytes c) < Suc k"
    and known: "field k tag m = (\<lambda>c. Some (r c))"
  shows "\<exists>c2. message_loop field add (Suc k) m c = bind_parsed (r c2) (\<lambda>(m', c3). message_loop field add k m' c3)
    \<and> consumed (UnsafeVarint tag) c c2 \<and> cx_bytes c2 = p @ rest \<and> 12 \<le> length (readable c2) \<and> length (cx_bytes c2) < k"
proof -
  have "0 < length (UnsafeVarint tag @ p)" by simp
  then obtain c1 where c1: "Done c = Parsed (False, c1)" "consumed [] c c1" "17 \<le> length (readable c1)" using Done_more [OF assms(2)] by blast
  have b1: "cx_bytes c1 = UnsafeVarint tag @ p @ rest" "ctx_ok c1" using c1(2) assms(1) by (simp_all add: consumed_def)
  let ?c2 = "advance (length (UnsafeVarint tag)) c1"
  have tagged: "bind_parsed (ReadTag (readable c1)) f = f (length (UnsafeVarint tag), tag)" for f :: "nat \<times> uint32 \<Rightarrow> ('a \<times> ctx) parsed"
    using read_tag [OF b1 c1(3)] by blast
  have c2: "consumed (UnsafeVarint tag) c1 ?c2" "cx_bytes ?c2 = p @ rest" "12 \<le> length (readable ?c2)" "length (cx_bytes ?c2) < length (cx_bytes c1)"
    using read_tag [OF b1 c1(3)] by blast+
  have "message_loop field add (Suc k) m c = bind_parsed (r ?c2) (\<lambda>(m', c3). message_loop field add k m' c3)"
    by (simp add: c1(1) tagged known Let_def)
  moreover have "consumed (UnsafeVarint tag) c ?c2" using consumed_trans [OF c1(2) c2(1)] by simp
  moreover have "length (cx_bytes ?c2) < k" using c2(4) c1(2) assms(3) by (simp add: consumed_def)
  ultimately show ?thesis using c2(2,3) by blast
qed

text \<open>
  Going on inside the loop of the elements is the same as leaving it and reading the tag again, so an
  element may be followed by anything.
\<close>

lemma list_loop_again:
  assumes fld: "\<And>k m c. field k 10 m c = Some (set_field (BigTest_list_loop k k (get m)) (\<lambda>l. upd l m) c)"
    and upd: "\<And>l m. get (upd l m) = l" "\<And>l l' m. upd l (upd l' m) = upd l m"
    and safe: "safe_field field" and steady: "steady_field field"
    and c: "ctx_ok c" "DataAvailable c" "readable c ! 0 = 10" "length (cx_bytes c) < Suc k"
  shows "bind_parsed (set_field (BigTest_list_loop k (Suc k) l) (\<lambda>l. upd l m) (advance 1 c)) (\<lambda>(m', c'). message_loop field add (Suc k) m' c')
    = message_loop field add (Suc k) (upd l m) c"
proof -
  let ?c = "advance 1 c"
  note a = available [OF c(1,2)]
  have k: "length (cx_bytes ?c) < k" "length (cx_bytes ?c) < Suc k" using a(4) c(4) by simp_all
  have twelve: "12 \<le> length (readable ?c)" using a(3) by simp
  obtain u where u: "readable c = 10 # u" using a(1) c(3) by (cases "readable c") auto
  have "UnsafeVarint (10 :: uint32) = [10]" by (simp add: UnsafeVarint_last)
  then have "ReadTag (readable c) = Parsed (1, 10)" using ReadTag_write [of 10 u] by (simp add: u)
  then have "message_loop field add (Suc k) (upd l m) c
      = bind_parsed (set_field (BigTest_list_loop k k l) (\<lambda>l. upd l m) ?c) (\<lambda>(m', c'). message_loop field add k m' c')"
    by (simp add: a(5) fld upd Let_def)
  moreover have "BigTest_list_loop k k l ?c = BigTest_list_loop k (Suc k) l ?c"
    by (rule list_loop_fuel [OF a(2) twelve k(1) k(1) k(1) k(2)])
  moreover have "bind_parsed (set_field (BigTest_list_loop k (Suc k) l) (\<lambda>l. upd l m) ?c) (\<lambda>(m', c'). message_loop field add (Suc k) m' c')
      = bind_parsed (set_field (BigTest_list_loop k (Suc k) l) (\<lambda>l. upd l m) ?c) (\<lambda>(m', c'). message_loop field add k m' c')"
  proof (rule bind_parsed_cong, clarify)
    fix m' c' assume "set_field (BigTest_list_loop k (Suc k) l) (\<lambda>l. upd l m) ?c = Parsed (m', c')"
    moreover have "within ?c (set_field (BigTest_list_loop k (Suc k) l) (\<lambda>l. upd l m) ?c)"
      by (rule set_field_within, rule list_loop_within [OF a(2) twelve k])
    ultimately have "ctx_ok c'" "length (cx_bytes c') < k" using within_Parsed [of ?c _ m' c'] k(1) by auto
    then show "message_loop field add (Suc k) m' c' = message_loop field add k m' c'"
      by (intro message_loop_fuel [OF steady safe]) simp_all
  qed
  ultimately show ?thesis by (simp add: set_field_def)
qed

lemma element_reads:
  assumes fld: "\<And>k m c. field k 10 m c = Some (set_field (BigTest_list_loop k k (get m)) (\<lambda>l. upd l m) c)"
    and upd: "\<And>l m. get (upd l m) = l" "\<And>l l' m. upd l (upd l' m) = upd l m"
    and safe: "safe_field field" and steady: "steady_field field"
    and x: "0 < d" "BigTest_ok (d - 1) x" "BigTest_ByteSizeLong x \<le> INT_MAX - kSlopBytes"
  shows "parses_as field add (nat d) (InternalWriteMessage 1 (BigTest_InternalSerialize x) (BigTest_ByteSizeLong x)) m (upd (get m @ [x]) m)"
  unfolding parses_as_def
proof (intro allI impI)
  fix k c rest
  let ?p = "size_prefix (BigTest_ByteSizeLong x) @ BigTest_InternalSerialize x"
  let ?s = "InternalWriteMessage 1 (BigTest_InternalSerialize x) (BigTest_ByteSizeLong x)"
  assume c: "cx_bytes c = ?s @ rest" "room (length ?s) c" "int (nat d) \<le> cx_depth c" "cx_last_tag_minus_1 c = 0" "length (cx_bytes c) < k"
  have s: "?s = UnsafeVarint (10 :: uint32) @ ?p" by (simp add: InternalWriteMessage_def WriteTagToArray_def)
  obtain k0 where k: "k = Suc k0" using c(5) by (cases k) auto
  have bytes: "cx_bytes c = (UnsafeVarint (10 :: uint32) @ ?p) @ rest" "room (length (UnsafeVarint (10 :: uint32) @ ?p)) c" "length (cx_bytes c) < Suc k0"
    using c(1,2,5) unfolding s k by simp_all
  obtain c2 where c2: "message_loop field add k m c
      = bind_parsed (set_field (BigTest_list_loop k0 k0 (get m)) (\<lambda>l. upd l m) c2) (\<lambda>(m', c3). message_loop field add k0 m' c3)"
    "consumed (UnsafeVarint (10 :: uint32)) c c2" "cx_bytes c2 = ?p @ rest" "12 \<le> length (readable c2)" "length (cx_bytes c2) < k0"
    using loop_enters [OF bytes, of field m "set_field (BigTest_list_loop k0 k0 (get m)) (\<lambda>l. upd l m)" add] fld unfolding k by blast
  obtain k1 where k0: "k0 = Suc k1" using c2(5) by (cases k0) auto
  have "Suc (nat (d - 1)) = nat d" using x(1) by simp
  then have "fueled_takes (\<lambda>k. ParseMessage (BigTest_InternalParse k) BigTest_new) (nat d) ?p x"
    using bigtest.nested_takes [OF x(2,3), of BigTest_new] unfolding BigTest_InternalParse_def by (simp add: bigtest.merge_new)
  moreover have "room (length ?p) c2" using consumed_room [OF c2(2)] bytes(2) by simp
  moreover have "int (nat d) \<le> cx_depth c2" "cx_last_tag_minus_1 c2 = 0" using c2(2) c(3,4) by (simp_all add: consumed_def)
  ultimately obtain c3 where c3: "ParseMessage (BigTest_InternalParse k0) BigTest_new c2 = Parsed (x, c3)" "consumed ?p c2 c3"
    using c2(3-5) unfolding fueled_takes_def by blast
  have ok3: "ctx_ok c3" "length (cx_bytes c3) < k0" using c3(2) c2(5) by (simp_all add: consumed_def)
  have "message_loop field add k m c = message_loop field add k0 (upd (get m @ [x]) m) c3"
  proof (cases "DataAvailable c3 \<and> readable c3 ! 0 = 10")
    case True
    then have "BigTest_list_loop k0 k0 (get m) c2 = BigTest_list_loop k1 (Suc k1) (get m @ [x]) (advance 1 c3)"
      using c3(1) ExpectTag_available [OF ok3(1)] by (simp add: k0)
    then show ?thesis using list_loop_again [OF fld upd safe steady ok3(1) conjunct1 [OF True] conjunct2 [OF True] ok3(2) [unfolded k0], of "get m @ [x]" m add] c2(1)
      by (simp add: k0 set_field_def del: message_loop.simps BigTest_list_loop.simps)
  next
    case False
    then have "BigTest_list_loop k0 k0 (get m) c2 = Parsed (get m @ [x], c3)"
      using c3(1) ExpectTag_available [OF ok3(1)] by (auto simp: k0)
    then show ?thesis by (simp add: c2(1) set_field_def)
  qed
  moreover have "consumed ?s c c3" unfolding s by (rule consumed_trans [OF c2(2) c3(2)])
  ultimately show "\<exists>k' c'. message_loop field add k m c = message_loop field add k' (upd (get m @ [x]) m) c' \<and> consumed ?s c c' \<and> length (cx_bytes c') < k'"
    using ok3(2) by blast
qed

lemma list_reads:
  assumes fld: "\<And>k m c. field k 10 m c = Some (set_field (BigTest_list_loop k k (get m)) (\<lambda>l. upd l m) c)"
    and upd: "\<And>l m. get (upd l m) = l" "\<And>l l' m. upd l (upd l' m) = upd l m" "\<And>m. upd (get m) m = m"
    and safe: "safe_field field" and steady: "steady_field field"
  shows "list_ok d l \<Longrightarrow> length (write_list l) \<le> INT_MAX - kSlopBytes \<Longrightarrow> parses_as field add (nat d) (write_list l) m (upd (get m @ l) m)"
proof (induction l arbitrary: m)
  case (Cons x l)
  have x: "0 < d" "BigTest_ok (d - 1) x" "BigTest_ByteSizeLong x \<le> INT_MAX - kSlopBytes"
    using Cons.prems by (simp_all add: list_ok_def write_list_def InternalWriteMessage_def bigtest.bsize)
  have "parses_as field add (nat d) (InternalWriteMessage 1 (BigTest_InternalSerialize x) (BigTest_ByteSizeLong x)) m (upd (get m @ [x]) m)"
    by (rule element_reads [OF fld upd(1,2) safe steady x])
  moreover have "parses_as field add (nat d) (write_list l) (upd (get m @ [x]) m) (upd (get m @ x # l) m)"
    using Cons.IH [of "upd (get m @ [x]) m"] Cons.prems by (simp add: list_ok_def list_all_iff write_list_def upd)
  ultimately show ?case using parses_as_append_same by (fastforce simp: write_list_def)
qed (simp add: write_list_def upd)

section \<open>CSBigTestRequest\<close>

record CSBigTestRequest =
  cl_list :: "BigTest list"
  cl_unknown :: "unknown_field list"

definition CSBigTestRequest_new :: CSBigTestRequest where
  "CSBigTestRequest_new = \<lparr>cl_list = [], cl_unknown = []\<rparr>"

definition CSBigTestRequest_copy :: "CSBigTestRequest \<Rightarrow> CSBigTestRequest" where
  "CSBigTestRequest_copy from = \<lparr>cl_list = cl_list from, cl_unknown = [] @ cl_unknown from\<rparr>"

definition cl_clear_list :: "CSBigTestRequest \<Rightarrow> CSBigTestRequest" where "cl_clear_list m = m\<lparr>cl_list := []\<rparr>"
definition cl_list_size :: "CSBigTestRequest \<Rightarrow> nat" where "cl_list_size m = length (cl_list m)"
definition cl_add_list :: "CSBigTestRequest \<Rightarrow> CSBigTestRequest" where "cl_add_list m = m\<lparr>cl_list := cl_list m @ [BigTest_new]\<rparr>"

definition CSBigTestRequest_Clear :: "CSBigTestRequest \<Rightarrow> CSBigTestRequest" where
  "CSBigTestRequest_Clear m = m\<lparr>cl_list := [], cl_unknown := []\<rparr>"

definition CSBigTestRequest_field :: "nat \<Rightarrow> uint32 \<Rightarrow> CSBigTestRequest \<Rightarrow> ctx \<Rightarrow> (CSBigTestRequest \<times> ctx) parsed option" where
  "CSBigTestRequest_field k tag m c =
     (if tag_case tag 1 10 then Some (set_field (BigTest_list_loop k k (cl_list m)) (\<lambda>l. m\<lparr>cl_list := l\<rparr>) c) else None)"

definition CSBigTestRequest_add :: "unknown_field \<Rightarrow> CSBigTestRequest \<Rightarrow> CSBigTestRequest" where
  "CSBigTestRequest_add u m = m\<lparr>cl_unknown := cl_unknown m @ [u]\<rparr>"

definition CSBigTestRequest_InternalParse :: "nat \<Rightarrow> CSBigTestRequest \<Rightarrow> ctx \<Rightarrow> (CSBigTestRequest \<times> ctx) parsed" where
  "CSBigTestRequest_InternalParse = message_loop CSBigTestRequest_field CSBigTestRequest_add"

definition CSBigTestRequest_InternalSerialize :: "CSBigTestRequest \<Rightarrow> BYTE list" where
  "CSBigTestRequest_InternalSerialize m = write_list (cl_list m) @ serialize_unknown (cl_unknown m)"

definition CSBigTestRequest_ByteSizeLong :: "CSBigTestRequest \<Rightarrow> nat" where
  "CSBigTestRequest_ByteSizeLong m = MaybeComputeUnknownFieldsSize (list_ByteSize (cl_list m)) (cl_unknown m)"

definition CSBigTestRequest_MergeFrom :: "CSBigTestRequest \<Rightarrow> CSBigTestRequest \<Rightarrow> CSBigTestRequest" where
  "CSBigTestRequest_MergeFrom m from =
     (let m1 = m\<lparr>cl_list := cl_list m @ cl_list from\<rparr>
      in m1\<lparr>cl_unknown := cl_unknown m1 @ cl_unknown from\<rparr>)"

definition CSBigTestRequest_CopyFrom :: "bool \<Rightarrow> CSBigTestRequest \<Rightarrow> CSBigTestRequest \<Rightarrow> CSBigTestRequest" where
  "CSBigTestRequest_CopyFrom self m from = (if self then m else CSBigTestRequest_MergeFrom (CSBigTestRequest_Clear m) from)"

definition CSBigTestRequest_InternalSwap :: "CSBigTestRequest \<Rightarrow> CSBigTestRequest \<Rightarrow> CSBigTestRequest \<times> CSBigTestRequest" where
  "CSBigTestRequest_InternalSwap m other =
     (m\<lparr>cl_unknown := cl_unknown other, cl_list := cl_list other\<rparr>,
      other\<lparr>cl_unknown := cl_unknown m, cl_list := cl_list m\<rparr>)"

definition CSBigTestRequest_known :: "uint32 \<Rightarrow> bool" where
  "CSBigTestRequest_known tag \<longleftrightarrow> tag = 10"

definition CSBigTestRequest_ok :: "int \<Rightarrow> CSBigTestRequest \<Rightarrow> bool" where
  "CSBigTestRequest_ok d m \<longleftrightarrow> list_ok d (cl_list m) \<and> unknown_ok CSBigTestRequest_known d (cl_unknown m)"

lemma CSBigTestRequest_copies: "CSBigTestRequest_copy m = m" "CSBigTestRequest_CopyFrom False m from = from"
  "CSBigTestRequest_MergeFrom CSBigTestRequest_new m = m" "CSBigTestRequest_InternalSwap m from = (from, m)"
  by (simp_all add: CSBigTestRequest_copy_def CSBigTestRequest_CopyFrom_def CSBigTestRequest_MergeFrom_def CSBigTestRequest_Clear_def CSBigTestRequest_new_def
    CSBigTestRequest_InternalSwap_def Let_def)

lemma CSBigTestRequest_add_all: "fold CSBigTestRequest_add us m = m\<lparr>cl_unknown := cl_unknown m @ us\<rparr>"
  by (induction us arbitrary: m) (simp_all add: CSBigTestRequest_add_def)

lemma CSBigTestRequest_switch: "CSBigTestRequest_field k tag m c = None \<longleftrightarrow> \<not> CSBigTestRequest_known tag"
  by (simp add: CSBigTestRequest_field_def CSBigTestRequest_known_def)

lemma CSBigTestRequest_safe: "safe_field CSBigTestRequest_field"
  by (auto simp: safe_field_def CSBigTestRequest_field_def split: if_splits intro: set_field_within list_loop_within)

lemma CSBigTestRequest_steady: "steady_field CSBigTestRequest_field"
  by (auto simp: steady_field_def CSBigTestRequest_field_def set_field_def intro: arg_cong [of _ _ "\<lambda>r. bind_parsed r _"] list_loop_fuel)

lemma CSBigTestRequest_reads:
  assumes ok: "CSBigTestRequest_ok d b" and len: "length (CSBigTestRequest_InternalSerialize b) \<le> INT_MAX - kSlopBytes"
  shows "parses_as CSBigTestRequest_field CSBigTestRequest_add (nat d) (CSBigTestRequest_InternalSerialize b) m (CSBigTestRequest_MergeFrom m b)"
proof -
  let ?p = "parses_as CSBigTestRequest_field CSBigTestRequest_add (nat d)"
  let ?m1 = "m\<lparr>cl_list := cl_list m @ cl_list b\<rparr>"
  have parts: "list_ok d (cl_list b)" "unknown_ok CSBigTestRequest_known d (cl_unknown b)" "length (write_list (cl_list b)) \<le> INT_MAX - kSlopBytes"
    "length (InternalSerializeUnknownFieldsToArray (cl_unknown b)) \<le> INT_MAX - kSlopBytes"
    using ok len by (simp_all add: CSBigTestRequest_ok_def CSBigTestRequest_InternalSerialize_def)
  have l: "?p (write_list (cl_list b)) m ?m1"
    by (rule list_reads [where get = "cl_list" and upd = "\<lambda>l m. m\<lparr>cl_list := l\<rparr>", OF _ _ _ _ CSBigTestRequest_safe CSBigTestRequest_steady parts(1,3)])
      (simp_all add: CSBigTestRequest_field_def)
  have u: "?p (InternalSerializeUnknownFieldsToArray (cl_unknown b)) ?m1 (fold CSBigTestRequest_add (cl_unknown b) ?m1)"
    by (rule unknown_ok_parses [OF parts(2,4) CSBigTestRequest_switch])
  have "CSBigTestRequest_MergeFrom m b = fold CSBigTestRequest_add (cl_unknown b) ?m1"
    by (simp add: CSBigTestRequest_MergeFrom_def CSBigTestRequest_add_all Let_def)
  then show ?thesis using parses_as_append_same [OF l u] by (simp add: CSBigTestRequest_InternalSerialize_def)
qed

interpretation cs_bigtest: message_codec CSBigTestRequest_field CSBigTestRequest_add CSBigTestRequest_known CSBigTestRequest_new CSBigTestRequest_MergeFrom
  CSBigTestRequest_InternalSerialize CSBigTestRequest_ByteSizeLong CSBigTestRequest_ok
proof unfold_locales
  show "safe_field CSBigTestRequest_field" by (rule CSBigTestRequest_safe)
  show "steady_field CSBigTestRequest_field" by (rule CSBigTestRequest_steady)
  show "CSBigTestRequest_ByteSizeLong m = length (CSBigTestRequest_InternalSerialize m)" for m
    by (simp add: CSBigTestRequest_ByteSizeLong_def CSBigTestRequest_InternalSerialize_def length_write_list)
  show "CSBigTestRequest_ok d b \<Longrightarrow> length (CSBigTestRequest_InternalSerialize b) \<le> INT_MAX - kSlopBytes
      \<Longrightarrow> parses_as CSBigTestRequest_field CSBigTestRequest_add (nat d) (CSBigTestRequest_InternalSerialize b) m (CSBigTestRequest_MergeFrom m b)" for d b m
    by (rule CSBigTestRequest_reads)
  show "CSBigTestRequest_field k tag m c = Some (Parsed (m', c')) \<Longrightarrow> 0 \<le> cx_depth c \<Longrightarrow> CSBigTestRequest_ok (cx_depth c) m
      \<Longrightarrow> CSBigTestRequest_ok (cx_depth c) m' \<and> cx_depth c' = cx_depth c" for k tag m c m' c'
    by (auto simp: CSBigTestRequest_field_def CSBigTestRequest_ok_def set_field_Parsed split: if_splits dest: list_loop_ok)
  show "0 \<le> d \<Longrightarrow> CSBigTestRequest_ok d CSBigTestRequest_new" for d by (simp add: CSBigTestRequest_ok_def CSBigTestRequest_new_def list_ok_def)
qed (simp_all add: CSBigTestRequest_switch CSBigTestRequest_copies CSBigTestRequest_ok_def CSBigTestRequest_add_def)

section \<open>SCBigTestResponse\<close>

record SCBigTestResponse =
  sl_list :: "BigTest list"
  sl_unknown :: "unknown_field list"

definition SCBigTestResponse_new :: SCBigTestResponse where
  "SCBigTestResponse_new = \<lparr>sl_list = [], sl_unknown = []\<rparr>"

definition SCBigTestResponse_copy :: "SCBigTestResponse \<Rightarrow> SCBigTestResponse" where
  "SCBigTestResponse_copy from = \<lparr>sl_list = sl_list from, sl_unknown = [] @ sl_unknown from\<rparr>"

definition sl_clear_list :: "SCBigTestResponse \<Rightarrow> SCBigTestResponse" where "sl_clear_list m = m\<lparr>sl_list := []\<rparr>"
definition sl_list_size :: "SCBigTestResponse \<Rightarrow> nat" where "sl_list_size m = length (sl_list m)"
definition sl_add_list :: "SCBigTestResponse \<Rightarrow> SCBigTestResponse" where "sl_add_list m = m\<lparr>sl_list := sl_list m @ [BigTest_new]\<rparr>"

definition SCBigTestResponse_Clear :: "SCBigTestResponse \<Rightarrow> SCBigTestResponse" where
  "SCBigTestResponse_Clear m = m\<lparr>sl_list := [], sl_unknown := []\<rparr>"

definition SCBigTestResponse_field :: "nat \<Rightarrow> uint32 \<Rightarrow> SCBigTestResponse \<Rightarrow> ctx \<Rightarrow> (SCBigTestResponse \<times> ctx) parsed option" where
  "SCBigTestResponse_field k tag m c =
     (if tag_case tag 1 10 then Some (set_field (BigTest_list_loop k k (sl_list m)) (\<lambda>l. m\<lparr>sl_list := l\<rparr>) c) else None)"

definition SCBigTestResponse_add :: "unknown_field \<Rightarrow> SCBigTestResponse \<Rightarrow> SCBigTestResponse" where
  "SCBigTestResponse_add u m = m\<lparr>sl_unknown := sl_unknown m @ [u]\<rparr>"

definition SCBigTestResponse_InternalParse :: "nat \<Rightarrow> SCBigTestResponse \<Rightarrow> ctx \<Rightarrow> (SCBigTestResponse \<times> ctx) parsed" where
  "SCBigTestResponse_InternalParse = message_loop SCBigTestResponse_field SCBigTestResponse_add"

definition SCBigTestResponse_InternalSerialize :: "SCBigTestResponse \<Rightarrow> BYTE list" where
  "SCBigTestResponse_InternalSerialize m = write_list (sl_list m) @ serialize_unknown (sl_unknown m)"

definition SCBigTestResponse_ByteSizeLong :: "SCBigTestResponse \<Rightarrow> nat" where
  "SCBigTestResponse_ByteSizeLong m = MaybeComputeUnknownFieldsSize (list_ByteSize (sl_list m)) (sl_unknown m)"

definition SCBigTestResponse_MergeFrom :: "SCBigTestResponse \<Rightarrow> SCBigTestResponse \<Rightarrow> SCBigTestResponse" where
  "SCBigTestResponse_MergeFrom m from =
     (let m1 = m\<lparr>sl_list := sl_list m @ sl_list from\<rparr>
      in m1\<lparr>sl_unknown := sl_unknown m1 @ sl_unknown from\<rparr>)"

definition SCBigTestResponse_CopyFrom :: "bool \<Rightarrow> SCBigTestResponse \<Rightarrow> SCBigTestResponse \<Rightarrow> SCBigTestResponse" where
  "SCBigTestResponse_CopyFrom self m from = (if self then m else SCBigTestResponse_MergeFrom (SCBigTestResponse_Clear m) from)"

definition SCBigTestResponse_InternalSwap :: "SCBigTestResponse \<Rightarrow> SCBigTestResponse \<Rightarrow> SCBigTestResponse \<times> SCBigTestResponse" where
  "SCBigTestResponse_InternalSwap m other =
     (m\<lparr>sl_unknown := sl_unknown other, sl_list := sl_list other\<rparr>,
      other\<lparr>sl_unknown := sl_unknown m, sl_list := sl_list m\<rparr>)"

definition SCBigTestResponse_known :: "uint32 \<Rightarrow> bool" where
  "SCBigTestResponse_known tag \<longleftrightarrow> tag = 10"

definition SCBigTestResponse_ok :: "int \<Rightarrow> SCBigTestResponse \<Rightarrow> bool" where
  "SCBigTestResponse_ok d m \<longleftrightarrow> list_ok d (sl_list m) \<and> unknown_ok SCBigTestResponse_known d (sl_unknown m)"

lemma SCBigTestResponse_copies: "SCBigTestResponse_copy m = m" "SCBigTestResponse_CopyFrom False m from = from"
  "SCBigTestResponse_MergeFrom SCBigTestResponse_new m = m" "SCBigTestResponse_InternalSwap m from = (from, m)"
  by (simp_all add: SCBigTestResponse_copy_def SCBigTestResponse_CopyFrom_def SCBigTestResponse_MergeFrom_def SCBigTestResponse_Clear_def SCBigTestResponse_new_def
    SCBigTestResponse_InternalSwap_def Let_def)

lemma SCBigTestResponse_add_all: "fold SCBigTestResponse_add us m = m\<lparr>sl_unknown := sl_unknown m @ us\<rparr>"
  by (induction us arbitrary: m) (simp_all add: SCBigTestResponse_add_def)

lemma SCBigTestResponse_switch: "SCBigTestResponse_field k tag m c = None \<longleftrightarrow> \<not> SCBigTestResponse_known tag"
  by (simp add: SCBigTestResponse_field_def SCBigTestResponse_known_def)

lemma SCBigTestResponse_safe: "safe_field SCBigTestResponse_field"
  by (auto simp: safe_field_def SCBigTestResponse_field_def split: if_splits intro: set_field_within list_loop_within)

lemma SCBigTestResponse_steady: "steady_field SCBigTestResponse_field"
  by (auto simp: steady_field_def SCBigTestResponse_field_def set_field_def intro: arg_cong [of _ _ "\<lambda>r. bind_parsed r _"] list_loop_fuel)

lemma SCBigTestResponse_reads:
  assumes ok: "SCBigTestResponse_ok d b" and len: "length (SCBigTestResponse_InternalSerialize b) \<le> INT_MAX - kSlopBytes"
  shows "parses_as SCBigTestResponse_field SCBigTestResponse_add (nat d) (SCBigTestResponse_InternalSerialize b) m (SCBigTestResponse_MergeFrom m b)"
proof -
  let ?p = "parses_as SCBigTestResponse_field SCBigTestResponse_add (nat d)"
  let ?m1 = "m\<lparr>sl_list := sl_list m @ sl_list b\<rparr>"
  have parts: "list_ok d (sl_list b)" "unknown_ok SCBigTestResponse_known d (sl_unknown b)" "length (write_list (sl_list b)) \<le> INT_MAX - kSlopBytes"
    "length (InternalSerializeUnknownFieldsToArray (sl_unknown b)) \<le> INT_MAX - kSlopBytes"
    using ok len by (simp_all add: SCBigTestResponse_ok_def SCBigTestResponse_InternalSerialize_def)
  have l: "?p (write_list (sl_list b)) m ?m1"
    by (rule list_reads [where get = "sl_list" and upd = "\<lambda>l m. m\<lparr>sl_list := l\<rparr>", OF _ _ _ _ SCBigTestResponse_safe SCBigTestResponse_steady parts(1,3)])
      (simp_all add: SCBigTestResponse_field_def)
  have u: "?p (InternalSerializeUnknownFieldsToArray (sl_unknown b)) ?m1 (fold SCBigTestResponse_add (sl_unknown b) ?m1)"
    by (rule unknown_ok_parses [OF parts(2,4) SCBigTestResponse_switch])
  have "SCBigTestResponse_MergeFrom m b = fold SCBigTestResponse_add (sl_unknown b) ?m1"
    by (simp add: SCBigTestResponse_MergeFrom_def SCBigTestResponse_add_all Let_def)
  then show ?thesis using parses_as_append_same [OF l u] by (simp add: SCBigTestResponse_InternalSerialize_def)
qed

interpretation sc_bigtest: message_codec SCBigTestResponse_field SCBigTestResponse_add SCBigTestResponse_known SCBigTestResponse_new SCBigTestResponse_MergeFrom
  SCBigTestResponse_InternalSerialize SCBigTestResponse_ByteSizeLong SCBigTestResponse_ok
proof unfold_locales
  show "safe_field SCBigTestResponse_field" by (rule SCBigTestResponse_safe)
  show "steady_field SCBigTestResponse_field" by (rule SCBigTestResponse_steady)
  show "SCBigTestResponse_ByteSizeLong m = length (SCBigTestResponse_InternalSerialize m)" for m
    by (simp add: SCBigTestResponse_ByteSizeLong_def SCBigTestResponse_InternalSerialize_def length_write_list)
  show "SCBigTestResponse_ok d b \<Longrightarrow> length (SCBigTestResponse_InternalSerialize b) \<le> INT_MAX - kSlopBytes
      \<Longrightarrow> parses_as SCBigTestResponse_field SCBigTestResponse_add (nat d) (SCBigTestResponse_InternalSerialize b) m (SCBigTestResponse_MergeFrom m b)" for d b m
    by (rule SCBigTestResponse_reads)
  show "SCBigTestResponse_field k tag m c = Some (Parsed (m', c')) \<Longrightarrow> 0 \<le> cx_depth c \<Longrightarrow> SCBigTestResponse_ok (cx_depth c) m
      \<Longrightarrow> SCBigTestResponse_ok (cx_depth c) m' \<and> cx_depth c' = cx_depth c" for k tag m c m' c'
    by (auto simp: SCBigTestResponse_field_def SCBigTestResponse_ok_def set_field_Parsed split: if_splits dest: list_loop_ok)
  show "0 \<le> d \<Longrightarrow> SCBigTestResponse_ok d SCBigTestResponse_new" for d by (simp add: SCBigTestResponse_ok_def SCBigTestResponse_new_def list_ok_def)
qed (simp_all add: SCBigTestResponse_switch SCBigTestResponse_copies SCBigTestResponse_ok_def SCBigTestResponse_add_def)

end
