(* ===== verification/Messages.thy ===== *)
theory Messages imports PbChat PbSkill PbList PacketHandler HandlerTable begin

text \<open>
  The messages in the packets of the server: what ClientPacketHandler does with them. The handler that
  PacketHandler::RegisterHandler wraps parses a fresh message from the bytes behind the header, and
  MakeSendBuffer writes a message behind one; here the parser and the serialiser of the handler table
  are those of the generated messages.
\<close>

section \<open>Parsing a packet\<close>

text \<open>\<open>PacketType pkt; pkt.ParseFromArray(data, size)\<close>: the Clear of a fresh message changes nothing.\<close>

definition parse_packet :: "BYTE list \<Rightarrow> (nat \<Rightarrow> 'm \<Rightarrow> ctx \<Rightarrow> ('m \<times> ctx) parsed) \<Rightarrow> ('m \<Rightarrow> 'm) \<Rightarrow> 'm \<Rightarrow> BYTE list \<Rightarrow> 'm option" where
  "parse_packet slop InternalParse Clear pkt bytes =
     (case MergeFromArray slop InternalParse bytes (Clear pkt) of Parsed m \<Rightarrow> Some m | _ \<Rightarrow> None)"

lemma message_handler_packet:
  assumes "length payload + sizeof_PacketHeader \<le> SEND_BUFFER_CHUNK_SIZE"
  shows "message_handler parse handler session (packet_bytes payload pktId) (int (length (packet_bytes payload pktId)))
    = (case parse payload of None \<Rightarrow> Inr (False, session) | Some pkt \<Rightarrow> handler session pkt)"
proof -
  have len: "length (packet_bytes payload pktId) = length payload + 4" by (simp add: packet_bytes_def sizeof_PacketHeader_def)
  have "to_int32 (int (length payload)) = int (length payload)"
    using assms by (intro to_int32_id) (simp_all add: SEND_BUFFER_CHUNK_SIZE_def sizeof_PacketHeader_def)
  moreover have "read_bytes (packet_bytes payload pktId) 4 (length payload) = payload"
    by (simp add: read_bytes_def packet_bytes_def sizeof_PacketHeader_def)
  ultimately show ?thesis by (simp add: message_handler_def ParseFromArray_def len sizeof_PacketHeader_def)
qed

text \<open>A message that is built into a packet reaches the handler of its protocol number as it was.\<close>

lemma packet_reaches_handler:
  assumes parse: "parse (ser pkt) = Some pkt" and inv: "manager_inv m" and fits: "length (ser pkt) + sizeof_PacketHeader \<le> SEND_BUFFER_CHUNK_SIZE"
    and reg: "RegisterHandler dev protocol (Some (message_handler parse handler)) h = Inr (True, h')"
  shows "\<exists>b m'. MakeSendBuffer t (ser pkt) protocol m = Inr (b, m')
    \<and> HandlePacket h' session (buffer_bytes m' b) (int (length (buffer_bytes m' b))) = handler session pkt"
proof -
  obtain k where "k \<notin> set (map fst (sm_live m))" using ex_new_if_finite [OF infinite_UNIV_nat, of "set (map fst (sm_live m))"] by auto
  then obtain b m' where b: "MakeSendBuffer t (ser pkt) protocol m = Inr (b, m')" "buffer_bytes m' b = packet_bytes (ser pkt) protocol"
    using MakeSendBuffer_ok [OF inv fits, of k t protocol] by blast
  let ?p = "packet_bytes (ser pkt) protocol"
  have "4 \<le> length ?p" "ph_id (read_header ?p 0) = protocol" by (simp_all add: packet_bytes_def sizeof_PacketHeader_def read_header_bytes)
  then have "HandlePacket h' session ?p (int (length ?p)) = handler session pkt"
    using RegisterHandler_dispatch(1) [OF reg] message_handler_packet [OF fits, of parse handler session protocol] parse by simp
  then show ?thesis using b by auto
qed

context message_codec
begin

lemma parse_packet_serialized:
  assumes "ok default_recursion_limit b" and "bsize b \<le> INT_MAX - kSlopBytes" and "length slop = kSlopBytes" and "clear new = new"
  shows "parse_packet slop (message_loop field add) clear new (ser b) = Some b"
  by (simp add: parse_packet_def assms(4) parse_serialized [OF assms(1-3)] merge_new)

lemma parse_packet_ok:
  assumes "parse_packet slop (message_loop field add) clear new bytes = Some m" and "clear new = new"
  shows "ok default_recursion_limit m"
  using assms parse_ok [of slop bytes new m] ok_new [of default_recursion_limit]
  by (simp add: parse_packet_def default_recursion_limit_def split: parsed.splits)

end

section \<open>The parser functions of the messages\<close>

lemmas internal_parse = SPosition_InternalParse_def BigTest_InternalParse_def CSChatRequest_InternalParse_def SCChatResponse_InternalParse_def
  CSCircularSectorSkillRequest_InternalParse_def SCCircularSectorSkillResponse_InternalParse_def CSBigTestRequest_InternalParse_def
  SCBigTestResponse_InternalParse_def

lemma clear_new [simp]:
  "CSChatRequest_Clear CSChatRequest_new = CSChatRequest_new" "SCChatResponse_Clear SCChatResponse_new = SCChatResponse_new"
  "CSCircularSectorSkillRequest_Clear CSCircularSectorSkillRequest_new = CSCircularSectorSkillRequest_new"
  "SCCircularSectorSkillResponse_Clear SCCircularSectorSkillResponse_new = SCCircularSectorSkillResponse_new"
  "CSBigTestRequest_Clear CSBigTestRequest_new = CSBigTestRequest_new" "SCBigTestResponse_Clear SCBigTestResponse_new = SCBigTestResponse_new"
  by (simp_all add: CSChatRequest_Clear_def CSChatRequest_new_def SCChatResponse_Clear_def SCChatResponse_new_def
    CSCircularSectorSkillRequest_Clear_def CSCircularSectorSkillRequest_new_def SCCircularSectorSkillResponse_Clear_def
    SCCircularSectorSkillResponse_new_def CSBigTestRequest_Clear_def CSBigTestRequest_new_def SCBigTestResponse_Clear_def SCBigTestResponse_new_def)

end
