(* ===== verification/LogManager.thy ===== *)
theory LogManager imports Prelude begin

text \<open>
  ServerCore/LogManager.h and LogManager.cpp. Callers queue records under the lock of the sink, Error
  records in a queue of their own; the thread of Launch swaps one queue at a time into a local one and
  writes it out; the destructor writes what is left. A step is one critical section, or one record
  written by the worker. What spdlog is given is the trace \<open>lm_out\<close>; the formatting of the text by
  std::vformat is the caller's. \<open>lm_pushed\<close> and \<open>lm_written\<close> record the history: which record went into
  and came out of which queue (Error queue or not, sink).
\<close>

section \<open>Records and loggers\<close>

definition ConsoleLog :: nat where "ConsoleLog = 0"
definition FileLog :: nat where "FileLog = 1"
definition LogMax :: nat where "LogMax = 2"

datatype LogType = Info | Warning | Error

record LogStruct =
  lg_lv :: LogType
  lg_time :: uint64
  lg_log :: string

datatype level_enum = level_info | level_warn | level_err

datatype logger = default_logger | basic_logger

datatype log_output = Logged logger level_enum int string | Flushed logger

fun level_of :: "LogType \<Rightarrow> level_enum" where
  "level_of Info = level_info"
| "level_of Warning = level_warn"
| "level_of Error = level_err"

text \<open>The private Log: a null logger means the default one, an Error flushes. The time point is in
  milliseconds, the offset of the time zone in seconds.\<close>

definition Log_to :: "int \<Rightarrow> logger option \<Rightarrow> LogStruct \<Rightarrow> log_output list" where
  "Log_to offset logger l =
     (let lg = (case logger of None \<Rightarrow> default_logger | Some g \<Rightarrow> g); lvl = level_of (lg_lv l);
          duration = to_int64 (uint (lg_time l)) - 1000 * offset
      in Logged lg lvl duration (lg_log l) # (if lvl = level_err then [Flushed lg] else []))"

definition Log_View :: "int \<Rightarrow> LogStruct \<Rightarrow> log_output list" where
  "Log_View offset l = Log_to offset None l"

definition Log_Write :: "int \<Rightarrow> logger option \<Rightarrow> LogStruct \<Rightarrow> log_output list" where
  "Log_Write offset logger l = Log_to offset logger l"

section \<open>State\<close>

text \<open>The loop of Launch: about to swap, writing a queue, or asleep. A caller of Log passes the file's
  critical section, then the console's.\<close>

datatype log_worker = NotLaunched | Swapping bool nat | Draining bool nat | Sleeping

datatype log_caller = CallerIdle | AtFile bool bool LogStruct | AtConsole bool LogStruct

record log_manager =
  lm_logger :: "logger option"
  lm_offset :: int
  lm_logs :: "nat \<Rightarrow> LogStruct list"
  lm_directLogs :: "nat \<Rightarrow> LogStruct list"
  lm_logQueue :: "LogStruct list"
  lm_worker :: log_worker
  lm_callers :: "nat \<Rightarrow> log_caller"
  lm_out :: "log_output list"
  lm_pushed :: "(bool \<times> nat \<times> LogStruct) list"
  lm_written :: "(bool \<times> nat \<times> LogStruct) list"

definition new_LogManager :: log_manager where
  "new_LogManager = \<lparr>lm_logger = None, lm_offset = 0, lm_logs = (\<lambda>_. []), lm_directLogs = (\<lambda>_. []), lm_logQueue = [],
     lm_worker = NotLaunched, lm_callers = (\<lambda>_. CallerIdle), lm_out = [], lm_pushed = [], lm_written = []\<rparr>"

text \<open>Initialize: spdlog may throw, and the logger stays null. It runs before Launch.\<close>

definition Log_Initialize :: "(logger \<times> int) option \<Rightarrow> log_manager \<Rightarrow> log_manager" where
  "Log_Initialize made s = (case made of None \<Rightarrow> s | Some (g, offset) \<Rightarrow> s\<lparr>lm_logger := Some g, lm_offset := offset\<rparr>)"

definition Log_Launch :: "log_manager \<Rightarrow> log_manager" where
  "Log_Launch s = s\<lparr>lm_worker := Swapping True ConsoleLog\<rparr>"

definition log_started :: "(logger \<times> int) option \<Rightarrow> log_manager" where
  "log_started made = Log_Launch (Log_Initialize made new_LogManager)"

section \<open>Callers\<close>

definition push_log :: "nat \<Rightarrow> LogStruct \<Rightarrow> log_manager \<Rightarrow> log_manager" where
  "push_log idx l s =
     (if lg_lv l = Error then s\<lparr>lm_directLogs := (lm_directLogs s)(idx := lm_directLogs s idx @ [l]), lm_pushed := lm_pushed s @ [(True, idx, l)]\<rparr>
      else s\<lparr>lm_logs := (lm_logs s)(idx := lm_logs s idx @ [l]), lm_pushed := lm_pushed s @ [(False, idx, l)]\<rparr>)"

definition set_caller :: "nat \<Rightarrow> log_caller \<Rightarrow> log_manager \<Rightarrow> log_manager" where
  "set_caller t c s = s\<lparr>lm_callers := (lm_callers s)(t := c)\<rparr>"

definition log_file :: "nat \<Rightarrow> bool \<Rightarrow> bool \<Rightarrow> LogStruct \<Rightarrow> log_manager \<Rightarrow> log_manager" where
  "log_file t view write l s = set_caller t (AtConsole view l) (if write then push_log FileLog l s else s)"

definition log_console :: "nat \<Rightarrow> bool \<Rightarrow> LogStruct \<Rightarrow> log_manager \<Rightarrow> log_manager" where
  "log_console t view l s = set_caller t CallerIdle (if view then push_log ConsoleLog l s else s)"

section \<open>The worker and the destructor\<close>

definition log_queue :: "bool \<Rightarrow> nat \<Rightarrow> log_manager \<Rightarrow> LogStruct list" where
  "log_queue direct idx s = (if direct then lm_directLogs s idx else lm_logs s idx)"

text \<open>std::queue::swap with the local logQueue.\<close>

definition swap_log :: "bool \<Rightarrow> nat \<Rightarrow> log_manager \<Rightarrow> log_manager" where
  "swap_log direct idx s =
     (if direct then s\<lparr>lm_directLogs := (lm_directLogs s)(idx := lm_logQueue s), lm_logQueue := lm_directLogs s idx\<rparr>
      else s\<lparr>lm_logs := (lm_logs s)(idx := lm_logQueue s), lm_logQueue := lm_logs s idx\<rparr>)"

definition sink_output :: "int \<Rightarrow> logger option \<Rightarrow> nat \<Rightarrow> LogStruct \<Rightarrow> log_output list" where
  "sink_output offset logger idx l = (if idx = ConsoleLog then Log_View offset l else Log_Write offset logger l)"

definition write_front :: "bool \<Rightarrow> nat \<Rightarrow> LogStruct \<Rightarrow> LogStruct list \<Rightarrow> log_manager \<Rightarrow> log_manager" where
  "write_front direct idx p rest s =
     s\<lparr>lm_logQueue := rest, lm_out := lm_out s @ sink_output (lm_offset s) (lm_logger s) idx p, lm_written := lm_written s @ [(direct, idx, p)]\<rparr>"

text \<open>The order in which the loop visits the four queues.\<close>

definition next_phase :: "bool \<Rightarrow> nat \<Rightarrow> log_worker" where
  "next_phase direct idx =
     (if idx = ConsoleLog then Swapping direct FileLog else if direct then Swapping False ConsoleLog else Sleeping)"

inductive worker_step :: "log_manager \<Rightarrow> log_manager \<Rightarrow> bool" where
  worker_swap: "lm_worker s = Swapping d i \<Longrightarrow> worker_step s ((swap_log d i s)\<lparr>lm_worker := Draining d i\<rparr>)"
| worker_write: "lm_worker s = Draining d i \<Longrightarrow> lm_logQueue s = p # rest \<Longrightarrow> worker_step s (write_front d i p rest s)"
| worker_drained: "lm_worker s = Draining d i \<Longrightarrow> lm_logQueue s = [] \<Longrightarrow> worker_step s (s\<lparr>lm_worker := next_phase d i\<rparr>)"
| worker_wake: "lm_worker s = Sleeping \<Longrightarrow> worker_step s (s\<lparr>lm_worker := Swapping True ConsoleLog\<rparr>)"

inductive log_step :: "log_manager \<Rightarrow> log_manager \<Rightarrow> bool" where
  log_call: "lm_callers s t = CallerIdle \<Longrightarrow> log_step s (set_caller t (AtFile view write l) s)"
| log_at_file: "lm_callers s t = AtFile view write l \<Longrightarrow> log_step s (log_file t view write l s)"
| log_at_console: "lm_callers s t = AtConsole view l \<Longrightarrow> log_step s (log_console t view l s)"
| log_worker: "worker_step s s' \<Longrightarrow> log_step s s'"

text \<open>The destructor's loops over a local queue, and the destructor: it visits only \<open>_logs\<close>.\<close>

primrec write_all :: "bool \<Rightarrow> nat \<Rightarrow> LogStruct list \<Rightarrow> log_manager \<Rightarrow> log_manager" where
  "write_all direct idx [] s = s\<lparr>lm_logQueue := []\<rparr>"
| "write_all direct idx (p # rest) s = write_all direct idx rest (write_front direct idx p rest s)"

definition flush_logs :: "nat \<Rightarrow> log_manager \<Rightarrow> log_manager" where
  "flush_logs idx s = (let s1 = swap_log False idx s in write_all False idx (lm_logQueue s1) s1)"

definition destroy_LogManager :: "log_manager \<Rightarrow> log_manager" where
  "destroy_LogManager s = flush_logs FileLog (flush_logs ConsoleLog (s\<lparr>lm_logQueue := []\<rparr>))"

section \<open>The invariant\<close>

text \<open>The records of one queue in a history.\<close>

definition picks :: "bool \<Rightarrow> nat \<Rightarrow> (bool \<times> nat \<times> LogStruct) list \<Rightarrow> LogStruct list" where
  "picks direct idx h = map (snd \<circ> snd) (filter (\<lambda>e. fst e = direct \<and> fst (snd e) = idx) h)"

definition in_flight :: "bool \<Rightarrow> nat \<Rightarrow> log_manager \<Rightarrow> LogStruct list" where
  "in_flight direct idx s = (if lm_worker s = Draining direct idx then lm_logQueue s else [])"

definition log_balance :: "log_manager \<Rightarrow> bool" where
  "log_balance s \<longleftrightarrow> (\<forall>d i. picks d i (lm_pushed s) = picks d i (lm_written s) @ in_flight d i s @ log_queue d i s)"

definition log_outputs :: "int \<Rightarrow> logger option \<Rightarrow> (bool \<times> nat \<times> LogStruct) list \<Rightarrow> log_output list" where
  "log_outputs offset logger h = concat (map (\<lambda>(d, i, l). sink_output offset logger i l) h)"

definition log_inv :: "log_manager \<Rightarrow> bool" where
  "log_inv s \<longleftrightarrow> log_balance s \<and> lm_out s = log_outputs (lm_offset s) (lm_logger s) (lm_written s)
     \<and> ((\<forall>d i. lm_worker s \<noteq> Draining d i) \<longrightarrow> lm_logQueue s = [])
     \<and> (\<forall>d i l. (d, i, l) \<in> set (lm_pushed s) \<longrightarrow> d = (lg_lv l = Error))"

lemma picks_simps [simp]:
  "picks d i [] = []" "picks d i (h @ h') = picks d i h @ picks d i h'"
  "picks d i [(d', i', l)] = (if d' = d \<and> i' = i then [l] else [])"
  by (simp_all add: picks_def)

lemmas log_defs = log_balance_def log_outputs_def in_flight_def log_queue_def

lemma log_inv_push: "log_inv s \<Longrightarrow> log_inv (push_log idx l s)"
  by (auto simp: log_inv_def log_defs push_log_def)

lemma log_inv_caller [simp]: "log_inv (set_caller t c s) = log_inv s"
  by (simp add: log_inv_def log_defs set_caller_def cong: if_cong)

lemma log_inv_swap: "log_inv s \<Longrightarrow> lm_worker s = Swapping d i \<Longrightarrow> log_inv ((swap_log d i s)\<lparr>lm_worker := Draining d i\<rparr>)"
  by (auto simp: log_inv_def log_defs swap_log_def)

lemma log_inv_write:
  "log_inv s \<Longrightarrow> lm_worker s = Draining d i \<Longrightarrow> lm_logQueue s = p # rest \<Longrightarrow> log_inv (write_front d i p rest s)"
  by (auto simp: log_inv_def log_defs write_front_def)

lemma log_inv_drained: "log_inv s \<Longrightarrow> lm_worker s = Draining d i \<Longrightarrow> lm_logQueue s = [] \<Longrightarrow> log_inv (s\<lparr>lm_worker := next_phase d i\<rparr>)"
  by (auto simp: log_inv_def log_defs next_phase_def)

lemma log_inv_wake: "log_inv s \<Longrightarrow> lm_worker s = Sleeping \<Longrightarrow> log_inv (s\<lparr>lm_worker := Swapping True ConsoleLog\<rparr>)"
  by (auto simp: log_inv_def log_defs)

lemma log_inv_worker: "worker_step s s' \<Longrightarrow> log_inv s \<Longrightarrow> log_inv s'"
  by (induction rule: worker_step.induct) (blast intro: log_inv_swap log_inv_write log_inv_drained log_inv_wake)+

lemma log_inv_step: "log_step s s' \<Longrightarrow> log_inv s \<Longrightarrow> log_inv s'"
  by (induction rule: log_step.induct) (auto simp: log_file_def log_console_def intro: log_inv_push log_inv_worker)

lemma log_inv_start: "log_inv (log_started made)"
  by (auto simp: log_inv_def log_defs log_started_def Log_Launch_def Log_Initialize_def new_LogManager_def split: option.split)

lemma log_inv_reaches: "reaches log_step (log_started made) s \<Longrightarrow> log_inv s"
  using reaches_invariant [of log_step _ s log_inv] log_inv_start log_inv_step by blast

section \<open>A full round of the worker\<close>

text \<open>The worker alone gets from \<open>s\<close> to \<open>s'\<close>, emptying the queues \<open>Q\<close>.\<close>

definition cleared :: "(bool \<times> nat) set \<Rightarrow> log_manager \<Rightarrow> log_manager \<Rightarrow> bool" where
  "cleared Q s s' \<longleftrightarrow> reaches worker_step s s' \<and> lm_pushed s' = lm_pushed s \<and> lm_logQueue s' = []
     \<and> (\<forall>d i. log_queue d i s' = (if (d, i) \<in> Q then [] else log_queue d i s))"

lemma cleared_trans: "cleared Q s t \<Longrightarrow> cleared R t u \<Longrightarrow> cleared (Q \<union> R) s u"
  by (auto simp: cleared_def intro: reaches_trans)

lemma log_queue_frame [simp]:
  "log_queue d i (s\<lparr>lm_worker := w\<rparr>) = log_queue d i s" "log_queue d i (write_front e j p rest s) = log_queue d i s"
  "lm_pushed (write_front e j p rest s) = lm_pushed s" "lm_worker (write_front e j p rest s) = lm_worker s"
  by (simp_all add: log_queue_def write_front_def)

lemma reaches_one: "step s t \<Longrightarrow> reaches step s t"
  by (rule reaches_step [OF reaches_refl])

lemma cleared_step: "worker_step s t \<Longrightarrow> lm_pushed t = lm_pushed s \<Longrightarrow> (\<And>d i. log_queue d i t = log_queue d i s) \<Longrightarrow> cleared Q t u \<Longrightarrow> cleared Q s u"
  by (auto simp: cleared_def intro: reaches_trans reaches_one)

lemma drain_phase: "lm_worker s = Draining d i \<Longrightarrow> \<exists>s'. cleared {} s s' \<and> lm_worker s' = next_phase d i"
proof (induction "lm_logQueue s" arbitrary: s)
  case Nil
  then show ?case using reaches_one [of worker_step, OF worker_drained]
    by (intro exI [of _ "s\<lparr>lm_worker := next_phase d i\<rparr>"]) (simp add: cleared_def)
next
  case (Cons p rest)
  let ?s = "write_front d i p rest s"
  have w: "worker_step s ?s" using Cons.prems Cons.hyps(2) by (intro worker_write) simp_all
  obtain s' where "cleared {} ?s s'" "lm_worker s' = next_phase d i"
    using Cons.hyps(1) [of ?s] Cons.prems by (auto simp: write_front_def)
  then show ?case using cleared_step [OF w] by fastforce
qed

lemma swap_phase:
  assumes "lm_worker s = Swapping d i" and "lm_logQueue s = []"
  shows "\<exists>s'. cleared {(d, i)} s s' \<and> lm_worker s' = next_phase d i"
proof -
  let ?s = "(swap_log d i s)\<lparr>lm_worker := Draining d i\<rparr>"
  obtain s' where s': "cleared {} ?s s'" "lm_worker s' = next_phase d i"
    using drain_phase [of ?s d i] by auto
  have "log_queue e j ?s = (if e = d \<and> j = i then [] else log_queue e j s)" for e j
    using assms(2) by (auto simp: swap_log_def log_queue_def)
  moreover have "reaches worker_step s s'"
    using s'(1) reaches_trans [OF _ reaches_one [of worker_step, OF worker_swap [OF assms(1)]]] by (simp add: cleared_def)
  ultimately show ?thesis using s' by (intro exI [of _ s']) (simp add: cleared_def swap_log_def split: if_splits)
qed

lemma drain_or_idle:
  assumes "log_inv s"
  shows "\<exists>t. cleared {} s t \<and> (\<forall>d i. lm_worker t \<noteq> Draining d i) \<and> (lm_worker t = NotLaunched \<longrightarrow> lm_worker s = NotLaunched)"
proof (cases "lm_worker s")
  case (Draining d i)
  then obtain t where t: "cleared {} s t" "lm_worker t = next_phase d i" using drain_phase by blast
  then show ?thesis by (intro exI [of _ t]) (simp add: next_phase_def)
qed (use assms reaches_refl [of worker_step s] in \<open>auto simp: cleared_def log_inv_def\<close>)

lemma next_swap:
  assumes "cleared Q s t" and "lm_worker t = Swapping d i"
  shows "\<exists>u. cleared (insert (d, i) Q) s u \<and> lm_worker u = next_phase d i"
  using swap_phase [of t d i] cleared_trans [OF assms(1), of "{(d, i)}"] assms by (auto simp: cleared_def [of Q])

lemma phases_of: "next_phase d ConsoleLog = Swapping d FileLog" "next_phase True FileLog = Swapping False ConsoleLog"
    "next_phase False FileLog = Sleeping"
  by (simp_all add: next_phase_def ConsoleLog_def FileLog_def)

definition all_queues :: "(bool \<times> nat) set" where
  "all_queues = {(True, ConsoleLog), (True, FileLog), (False, ConsoleLog), (False, FileLog)}"

lemma round_from_wake:
  assumes "cleared Q s t" and "lm_worker t = Swapping True ConsoleLog"
  shows "\<exists>u. cleared (all_queues \<union> Q) s u \<and> lm_worker u = Sleeping"
proof -
  obtain u1 where u1: "cleared (insert (True, ConsoleLog) Q) s u1" "lm_worker u1 = Swapping True FileLog"
    using next_swap [OF assms] by (auto simp: phases_of)
  obtain u2 where u2: "cleared (insert (True, FileLog) (insert (True, ConsoleLog) Q)) s u2" "lm_worker u2 = Swapping False ConsoleLog"
    using next_swap [OF u1] by (auto simp: phases_of)
  obtain u3 where u3: "cleared (insert (False, ConsoleLog) (insert (True, FileLog) (insert (True, ConsoleLog) Q))) s u3"
      "lm_worker u3 = Swapping False FileLog"
    using next_swap [OF u2] by (auto simp: phases_of)
  show ?thesis using next_swap [OF u3] by (auto simp: phases_of all_queues_def insert_commute)
qed

lemma to_sleep:
  assumes "cleared Q s t" and "\<forall>d i. lm_worker t \<noteq> Draining d i" and "lm_worker t \<noteq> NotLaunched"
  shows "\<exists>R u. cleared R s u \<and> lm_worker u = Sleeping"
proof -
  have sleep: "\<exists>R u. cleared R s u \<and> lm_worker u = Sleeping" if "cleared R s t" "lm_worker t = Swapping False FileLog" for R t
    using next_swap [OF that] by (auto simp: phases_of)
  have console: "\<exists>R u. cleared R s u \<and> lm_worker u = Sleeping" if "cleared R s t" "lm_worker t = Swapping False ConsoleLog" for R t
    using next_swap [OF that] sleep by (fastforce simp: phases_of)
  have any_file: "\<exists>R u. cleared R s u \<and> lm_worker u = Sleeping" if "cleared R s t" "lm_worker t = Swapping d FileLog" for R t d
    using next_swap [OF that] console by (cases d) (fastforce simp: phases_of)+
  show ?thesis
  proof (cases "lm_worker t")
    case (Swapping d i)
    obtain u where u: "cleared (insert (d, i) Q) s u" "lm_worker u = next_phase d i" using next_swap [OF assms(1) Swapping] by blast
    then show ?thesis using any_file console by (auto simp: next_phase_def split: if_splits)
  qed (use assms in auto)
qed

lemma worker_catches_up:
  assumes "log_inv s" and "lm_worker s \<noteq> NotLaunched"
  shows "\<exists>Q s'. all_queues \<subseteq> Q \<and> cleared Q s s' \<and> lm_worker s' = Sleeping"
proof -
  obtain t where t: "cleared {} s t" "\<forall>d i. lm_worker t \<noteq> Draining d i" "lm_worker t \<noteq> NotLaunched"
    using drain_or_idle [OF assms(1)] assms(2) by blast
  obtain R u where u: "cleared R s u" "lm_worker u = Sleeping" using to_sleep [OF t] by blast
  let ?u = "u\<lparr>lm_worker := Swapping True ConsoleLog\<rparr>"
  have "cleared {} u ?u"
    using u reaches_one [of worker_step, OF worker_wake [OF u(2)]] by (simp add: cleared_def [of "{}"]) (simp add: cleared_def)
  then have "cleared R s ?u" using cleared_trans [OF u(1)] by fastforce
  then obtain v where "cleared (all_queues \<union> R) s v" "lm_worker v = Sleeping" using round_from_wake [of R s ?u] by auto
  then show ?thesis by blast
qed

lemma reaches_mono: "reaches a s t \<Longrightarrow> (\<And>x y. a x y \<Longrightarrow> b x y) \<Longrightarrow> reaches b s t"
  by (induction rule: reaches.induct) (auto intro: reaches.intros)

lemma launched_step: "log_step s s' \<Longrightarrow> lm_worker s \<noteq> NotLaunched \<Longrightarrow> lm_worker s' \<noteq> NotLaunched"
  by (induction rule: log_step.induct)
    (auto simp: log_file_def log_console_def set_caller_def push_log_def next_phase_def elim!: worker_step.cases split: if_split_asm)

lemma launched: "reaches log_step (log_started made) s \<Longrightarrow> lm_worker s \<noteq> NotLaunched"
  using reaches_invariant [of log_step _ s "\<lambda>s. lm_worker s \<noteq> NotLaunched"] launched_step by (auto simp: log_started_def Log_Launch_def)

section \<open>The destructor\<close>

lemma write_all_effect:
  "lm_written (write_all d i q s) = lm_written s @ map (\<lambda>p. (d, i, p)) q" "lm_pushed (write_all d i q s) = lm_pushed s"
  "lm_logs (write_all d i q s) = lm_logs s" "lm_directLogs (write_all d i q s) = lm_directLogs s"
  by (induction q arbitrary: s) (simp_all add: write_front_def)

lemma picks_map [simp]: "picks d i (map (\<lambda>p. (e, j, p)) q) = (if e = d \<and> j = i then q else [])"
  by (induction q) (auto simp: picks_def)

lemma destroy_effect:
  "lm_written (destroy_LogManager s) = lm_written s @ map (\<lambda>p. (False, ConsoleLog, p)) (lm_logs s ConsoleLog)
     @ map (\<lambda>p. (False, FileLog, p)) (lm_logs s FileLog)"
  "lm_pushed (destroy_LogManager s) = lm_pushed s" "lm_directLogs (destroy_LogManager s) = lm_directLogs s"
  by (simp_all add: destroy_LogManager_def flush_logs_def Let_def swap_log_def write_all_effect ConsoleLog_def FileLog_def)

lemma write_all_output:
  "lm_out s = log_outputs (lm_offset s) (lm_logger s) (lm_written s)
   \<Longrightarrow> lm_out (write_all d i q s) = log_outputs (lm_offset s) (lm_logger s) (lm_written (write_all d i q s))"
  by (induction q arbitrary: s) (simp_all add: write_front_def log_outputs_def)


lemma caught_up:
  assumes "log_inv s" and "all_queues \<subseteq> Q" and "cleared Q s s'" and "lm_worker s' = Sleeping" and "idx < LogMax"
  shows "picks direct idx (lm_pushed s') = picks direct idx (lm_written s')"
proof -
  have "log_inv s'" using assms(1,3) reaches_invariant [of worker_step s s' log_inv] log_inv_worker by (auto simp: cleared_def)
  moreover have "(direct, idx) \<in> Q" using assms(2,5) by (cases direct) (auto simp: all_queues_def ConsoleLog_def FileLog_def LogMax_def less_2_cases_iff)
  ultimately show ?thesis using assms(3,4) by (simp add: log_inv_def log_balance_def in_flight_def cleared_def)
qed

lemma destroyed:
  assumes "log_inv s" and "lm_worker s = Sleeping" and "idx < LogMax"
  shows "picks False idx (lm_written (destroy_LogManager s)) = picks False idx (lm_pushed s)
    \<and> picks True idx (lm_written (destroy_LogManager s)) @ lm_directLogs s idx = picks True idx (lm_pushed s)"
  using assms by (auto simp: destroy_effect log_inv_def log_defs ConsoleLog_def FileLog_def LogMax_def less_2_cases_iff)

section \<open>A call of Log that is not disturbed\<close>

definition logged :: "nat \<Rightarrow> bool \<Rightarrow> bool \<Rightarrow> LogStruct \<Rightarrow> log_manager \<Rightarrow> log_manager" where
  "logged t view write l s = log_console t view l (log_file t view write l (set_caller t (AtFile view write l) s))"

lemma logged_reaches: "reaches log_step a s \<Longrightarrow> lm_callers s t = CallerIdle \<Longrightarrow> reaches log_step a (logged t view write l s)"
proof -
  assume a: "reaches log_step a s" "lm_callers s t = CallerIdle"
  let ?s1 = "set_caller t (AtFile view write l) s"
  have "reaches log_step a ?s1" using a(1) log_call [OF a(2)] by (rule reaches_step)
  moreover have "log_step ?s1 (log_file t view write l ?s1)" by (rule log_at_file) (simp add: set_caller_def)
  moreover have "log_step (log_file t view write l ?s1) (logged t view write l s)"
    unfolding logged_def by (rule log_at_console) (simp add: log_file_def set_caller_def)
  ultimately show "reaches log_step a (logged t view write l s)" by (blast intro: reaches_step)
qed

lemma logged_effect:
  "lm_pushed (logged t view write l s) = lm_pushed s @ (if write then [(lg_lv l = Error, FileLog, l)] else [])
     @ (if view then [(lg_lv l = Error, ConsoleLog, l)] else [])"
  "lm_worker (logged t view write l s) = lm_worker s"
  "lm_directLogs (logged t view write l s) idx = lm_directLogs s idx
     @ (if lg_lv l = Error \<and> (write \<and> idx = FileLog \<or> view \<and> idx = ConsoleLog) then [l] else [])"
  by (simp_all add: logged_def log_console_def log_file_def set_caller_def push_log_def FileLog_def ConsoleLog_def)

lemmas log_started_defs = log_started_def Log_Launch_def Log_Initialize_def new_LogManager_def

lemma worker_callers: "worker_step s s' \<Longrightarrow> lm_callers s' = lm_callers s"
  by (induction rule: worker_step.induct) (simp_all add: swap_log_def write_front_def)

lemma fresh_sleeping:
  "\<exists>t. reaches log_step (log_started None) t \<and> lm_worker t = Sleeping \<and> lm_pushed t = [] \<and> lm_directLogs t FileLog = []
     \<and> lm_callers t 0 = CallerIdle"
proof -
  let ?a = "log_started None"
  have r: "reaches log_step ?a ?a" by (rule reaches_refl)
  obtain Q t where t: "all_queues \<subseteq> Q" "cleared Q ?a t" "lm_worker t = Sleeping"
    using worker_catches_up [OF log_inv_reaches [OF r] launched [OF r]] by blast
  have w: "reaches worker_step ?a t" using t(2) by (simp add: cleared_def)
  have "lm_callers t = lm_callers ?a"
    by (rule reaches_invariant [OF w]) (simp_all add: worker_callers)
  moreover have "log_queue True FileLog t = []" using t(1,2) by (auto simp: cleared_def all_queues_def)
  moreover have "lm_pushed t = []" using t(2) by (simp add: cleared_def log_started_defs)
  moreover have "reaches log_step ?a t" using w by (rule reaches_mono) (rule log_worker)
  moreover have "lm_callers ?a 0 = CallerIdle" by (simp add: log_started_defs)
  ultimately have "reaches log_step ?a t \<and> lm_worker t = Sleeping \<and> lm_pushed t = [] \<and> lm_directLogs t FileLog = [] \<and> lm_callers t 0 = CallerIdle"
    using t(3) unfolding log_queue_def by simp
  then show ?thesis by blast
qed

end
