(* ===== verification/Json.thy ===== *)
theory Json imports Prelude begin

text \<open>
  The JSON values of rapidjson's document.h, as the configuration uses them: construction with the
  integer type flags, member search and the accessors, whose RAPIDJSON_ASSERT is a crash. Strings are
  byte lists, an object the list of its members in order, duplicates included. \<open>'d\<close> is the type of
  the machine's doubles.
\<close>

section \<open>Values\<close>

datatype 'd json =
    JNull
  | JBool bool
  | JInt int32
  | JUint uint32
  | JInt64 int64
  | JUint64 uint64
  | JDouble 'd
  | JString "BYTE list"
  | JArray "'d json list"
  | JObject "(BYTE list \<times> 'd json) list"

definition RAPIDJSON_ASSERT :: "bool \<Rightarrow> 'a result \<Rightarrow> 'a result" where
  "RAPIDJSON_ASSERT expr k = (if expr then k else Inl (Crash ''RAPIDJSON_ASSERT''))"

lemma RAPIDJSON_ASSERT_simps [simp]:
  "RAPIDJSON_ASSERT True k = k" "RAPIDJSON_ASSERT False k = Inl (Crash ''RAPIDJSON_ASSERT'')"
  by (simp_all add: RAPIDJSON_ASSERT_def)

text \<open>The bytes of an ASCII literal.\<close>

definition bytes_of :: "string \<Rightarrow> BYTE list" where
  "bytes_of s = map (\<lambda>c. of_char c) s"

fun IsObject :: "'d json \<Rightarrow> bool" where
  "IsObject (JObject ms) = True"
| "IsObject _ = False"

definition DoFindMember :: "BYTE list \<Rightarrow> (BYTE list \<times> 'd json) list \<Rightarrow> 'd json option" where
  "DoFindMember name ms = map_option snd (find (\<lambda>m. fst m = name) ms)"

text \<open>None is MemberEnd().\<close>

definition FindMember :: "string \<Rightarrow> 'd json \<Rightarrow> 'd json option result" where
  "FindMember name v =
     RAPIDJSON_ASSERT (IsObject v) (Inr (case v of JObject ms \<Rightarrow> DoFindMember (bytes_of name) ms | _ \<Rightarrow> None))"

definition HasMember :: "string \<Rightarrow> 'd json \<Rightarrow> bool result" where
  "HasMember name v = bind_result (FindMember name v) (\<lambda>m. Inr (m \<noteq> None))"

definition json_at :: "'d json \<Rightarrow> string \<Rightarrow> 'd json result" where
  "json_at v name = bind_result (FindMember name v) (\<lambda>m.
     case m of Some x \<Rightarrow> Inr x | None \<Rightarrow> RAPIDJSON_ASSERT False (Inr JNull))"

section \<open>Accessors\<close>

text \<open>The int flag of the constructors for int, unsigned, int64_t and uint64_t.\<close>

fun IsInt :: "'d json \<Rightarrow> bool" where
  "IsInt (JInt i) = True"
| "IsInt (JUint u) = (u AND 0x80000000 = 0)"
| "IsInt (JInt64 i) = (- 2147483648 \<le> i \<and> i < 2147483648)"
| "IsInt (JUint64 u) = (u AND 0xFFFFFFFF80000000 = 0)"
| "IsInt _ = False"

text \<open>The int of the number union: the low 32 bits.\<close>

fun int_of_number :: "'d json \<Rightarrow> int32" where
  "int_of_number (JInt i) = i"
| "int_of_number (JUint u) = to_int32 (uint u)"
| "int_of_number (JInt64 i) = to_int32 i"
| "int_of_number (JUint64 u) = to_int32 (uint u)"
| "int_of_number _ = 0"

definition GetInt :: "'d json \<Rightarrow> int32 result" where
  "GetInt v = RAPIDJSON_ASSERT (IsInt v) (Inr (int_of_number v))"

definition GetBool :: "'d json \<Rightarrow> bool result" where
  "GetBool v = (case v of JBool b \<Rightarrow> Inr b | _ \<Rightarrow> RAPIDJSON_ASSERT False (Inr False))"

text \<open>A null-terminated string, read up to its first zero byte.\<close>

definition c_str :: "BYTE list \<Rightarrow> BYTE list" where
  "c_str bs = takeWhile (\<lambda>b. b \<noteq> 0) bs"

text \<open>GetString returns a C string, which std::string reads up to the first zero byte.\<close>

definition GetString :: "'d json \<Rightarrow> BYTE list result" where
  "GetString v = (case v of JString s \<Rightarrow> Inr (c_str s) | _ \<Rightarrow> RAPIDJSON_ASSERT False (Inr []))"

lemma c_str_nonzero [simp]: "0 \<notin> set bs \<Longrightarrow> c_str bs = bs"
  by (auto simp: c_str_def intro: takeWhile_eq_all_conv [THEN iffD2])

lemma c_str_has_no_zero: "0 \<notin> set (c_str bs)"
  by (auto simp: c_str_def dest: set_takeWhileD)

end
