(* ===== verification/JsonReader.thy ===== *)
theory JsonReader imports Json begin

text \<open>
  rapidjson's reader.h with the default flags (no comments, no trailing commas, no NaN, normal
  precision, strings copied without validation), as GenericDocument::Parse runs it over a C string.
  The stream is the list of bytes still to be read; it holds no zero byte, and Peek at its end is the
  terminating zero. A parse error carries the number of bytes left when it was set, from which Parse
  computes the offset. The recursion is bounded by fuel; one more than the stream's length suffices.
\<close>

section \<open>Streams and results\<close>

datatype ParseErrorCode =
    kParseErrorDocumentEmpty
  | kParseErrorDocumentRootNotSingular
  | kParseErrorValueInvalid
  | kParseErrorObjectMissName
  | kParseErrorObjectMissColon
  | kParseErrorObjectMissCommaOrCurlyBracket
  | kParseErrorArrayMissCommaOrSquareBracket
  | kParseErrorStringUnicodeEscapeInvalidHex
  | kParseErrorStringUnicodeSurrogateInvalid
  | kParseErrorStringEscapeInvalid
  | kParseErrorStringMissQuotationMark
  | kParseErrorStringInvalidEncoding
  | kParseErrorNumberTooBig
  | kParseErrorNumberMissFraction
  | kParseErrorNumberMissExponent

datatype 'a reading = Read 'a "BYTE list" | ReadError ParseErrorCode nat | ReadFuel

primrec bind_read :: "'a reading \<Rightarrow> ('a \<Rightarrow> BYTE list \<Rightarrow> 'b reading) \<Rightarrow> 'b reading" where
  "bind_read (Read x s) f = f x s"
| "bind_read (ReadError e n) f = ReadError e n"
| "bind_read ReadFuel f = ReadFuel"

definition Peek :: "BYTE list \<Rightarrow> BYTE" where
  "Peek s = (case s of [] \<Rightarrow> 0 | c # _ \<Rightarrow> c)"

text \<open>RAPIDJSON_PARSE_ERROR(code, is.Tell()).\<close>

definition parse_error :: "ParseErrorCode \<Rightarrow> BYTE list \<Rightarrow> 'a reading" where
  "parse_error e s = ReadError e (length s)"

definition is_space :: "BYTE \<Rightarrow> bool" where
  "is_space c \<longleftrightarrow> c = 32 \<or> c = 10 \<or> c = 13 \<or> c = 9"

definition SkipWhitespace :: "BYTE list \<Rightarrow> BYTE list" where
  "SkipWhitespace s = dropWhile is_space s"

text \<open>Consume one expected byte after another.\<close>

fun Consume :: "BYTE list \<Rightarrow> BYTE list \<Rightarrow> bool \<times> BYTE list" where
  "Consume [] s = (True, s)"
| "Consume (c # cs) (d # s) = (if d = c then Consume cs s else (False, d # s))"
| "Consume (c # cs) [] = (False, [])"

section \<open>Literals\<close>

definition ParseLiteral :: "BYTE list \<Rightarrow> 'd json \<Rightarrow> BYTE list \<Rightarrow> 'd json reading" where
  "ParseLiteral rest v s =
     (let (ok, s1) = Consume rest (tl s) in if ok then Read v s1 else parse_error kParseErrorValueInvalid s1)"

definition ParseNull :: "BYTE list \<Rightarrow> 'd json reading" where
  "ParseNull s = ParseLiteral (bytes_of ''ull'') JNull s"

definition ParseTrue :: "BYTE list \<Rightarrow> 'd json reading" where
  "ParseTrue s = ParseLiteral (bytes_of ''rue'') (JBool True) s"

definition ParseFalse :: "BYTE list \<Rightarrow> 'd json reading" where
  "ParseFalse s = ParseLiteral (bytes_of ''alse'') (JBool False) s"

section \<open>Strings\<close>

definition hex_digit :: "BYTE \<Rightarrow> uint32 option" where
  "hex_digit c =
     (if 48 \<le> c \<and> c \<le> 57 then Some (ucast c - 48)
      else if 65 \<le> c \<and> c \<le> 70 then Some (ucast c - (65 - 10))
      else if 97 \<le> c \<and> c \<le> 102 then Some (ucast c - (97 - 10))
      else None)"

text \<open>The loop of ParseHex4; \<open>escape\<close> is the number of bytes left at the backslash.\<close>

primrec hex_loop :: "nat \<Rightarrow> nat \<Rightarrow> uint32 \<Rightarrow> BYTE list \<Rightarrow> uint32 reading" where
  "hex_loop 0 escape codepoint s = Read codepoint s"
| "hex_loop (Suc i) escape codepoint s =
     (case hex_digit (Peek s) of
        None \<Rightarrow> ReadError kParseErrorStringUnicodeEscapeInvalidHex escape
      | Some d \<Rightarrow> hex_loop i escape (push_bit 4 codepoint + d) (tl s))"

definition ParseHex4 :: "nat \<Rightarrow> BYTE list \<Rightarrow> uint32 reading" where
  "ParseHex4 escape s = hex_loop 4 escape 0 s"

definition UTF8_Encode :: "uint32 \<Rightarrow> BYTE list" where
  "UTF8_Encode codepoint =
     (if codepoint \<le> 0x7F then [ucast codepoint]
      else if codepoint \<le> 0x7FF then
        [ucast (0xC0 OR (drop_bit 6 codepoint AND 0xFF)), ucast (0x80 OR (codepoint AND 0x3F))]
      else if codepoint \<le> 0xFFFF then
        [ucast (0xE0 OR (drop_bit 12 codepoint AND 0xFF)), ucast (0x80 OR (drop_bit 6 codepoint AND 0x3F)),
         ucast (0x80 OR (codepoint AND 0x3F))]
      else
        [ucast (0xF0 OR (drop_bit 18 codepoint AND 0xFF)), ucast (0x80 OR (drop_bit 12 codepoint AND 0x3F)),
         ucast (0x80 OR (drop_bit 6 codepoint AND 0x3F)), ucast (0x80 OR (codepoint AND 0x3F))])"

text \<open>The table \<open>escape\<close>: zero for a byte that may not follow a backslash.\<close>

definition escape_table :: "BYTE \<Rightarrow> BYTE" where
  "escape_table e =
     (if e = 34 then 34 else if e = 47 then 47 else if e = 92 then 92 else if e = 98 then 8 else if e = 102 then 12
      else if e = 110 then 10 else if e = 114 then 13 else if e = 116 then 9 else 0)"

text \<open>The code point of \<open>\u\<close>, with the second half of a surrogate pair.\<close>

definition ParseCodepoint :: "nat \<Rightarrow> BYTE list \<Rightarrow> uint32 reading" where
  "ParseCodepoint escape s = bind_read (ParseHex4 escape s) (\<lambda>codepoint s1.
     if 0xD800 \<le> codepoint \<and> codepoint \<le> 0xDFFF then
       if codepoint \<le> 0xDBFF then
         let (ok, s2) = Consume [92, 117] s1
         in if \<not> ok then ReadError kParseErrorStringUnicodeSurrogateInvalid escape
            else bind_read (ParseHex4 escape s2) (\<lambda>codepoint2 s3.
              if codepoint2 < 0xDC00 \<or> 0xDFFF < codepoint2 then ReadError kParseErrorStringUnicodeSurrogateInvalid escape
              else Read ((push_bit 10 (codepoint - 0xD800) OR (codepoint2 - 0xDC00)) + 0x10000) s3)
       else ReadError kParseErrorStringUnicodeSurrogateInvalid escape
     else Read codepoint s1)"

text \<open>An escape sequence; the stream is at the backslash.\<close>

definition ParseEscape :: "BYTE list \<Rightarrow> BYTE list reading" where
  "ParseEscape s =
     (let e = Peek (tl s)
      in if escape_table e \<noteq> 0 then Read [escape_table e] (tl (tl s))
         else if e = 117 then bind_read (ParseCodepoint (length s) (tl (tl s))) (\<lambda>cp s1. Read (UTF8_Encode cp) s1)
         else ReadError kParseErrorStringEscapeInvalid (length s))"

lemma bind_read_cong [fundef_cong]:
  "m = m' \<Longrightarrow> (\<And>x s. m' = Read x s \<Longrightarrow> f x s = g x s) \<Longrightarrow> bind_read m f = bind_read m' g"
  by (cases m') simp_all

text \<open>How much a reading consumes.\<close>

definition shorter :: "nat \<Rightarrow> 'a reading \<Rightarrow> bool" where
  "shorter n r \<longleftrightarrow> (case r of Read x s \<Rightarrow> length s < n | ReadError e m \<Rightarrow> m \<le> n | ReadFuel \<Rightarrow> False)"

lemma shorter_bind:
  "shorter n r \<Longrightarrow> (\<And>x s. r = Read x s \<Longrightarrow> length s < n \<Longrightarrow> shorter n (f x s)) \<Longrightarrow> shorter n (bind_read r f)"
  by (cases r) (simp_all add: shorter_def)

lemma shorter_simps [simp]:
  "shorter n (Read x s) \<longleftrightarrow> length s < n" "shorter n (ReadError e m) \<longleftrightarrow> m \<le> n" "shorter n (parse_error e s) \<longleftrightarrow> length s \<le> n"
  "\<not> shorter n ReadFuel"
  by (simp_all add: shorter_def parse_error_def)

lemma Consume_length: "Consume cs s = (ok, s') \<Longrightarrow> length s' \<le> length s \<and> (ok \<longrightarrow> length s = length s' + length cs)"
  by (induction cs s arbitrary: ok rule: Consume.induct) (auto split: if_splits)

lemma Consume_shrinks: "Consume cs s = (ok, s') \<Longrightarrow> length s < n \<Longrightarrow> length s' < n"
  using Consume_length by fastforce

lemma hex_digit_zero [simp]: "hex_digit 0 = None"
  by (simp add: hex_digit_def)

lemma Peek_Nil [simp]: "Peek [] = 0" and Peek_Cons [simp]: "Peek (c # s) = c"
  by (simp_all add: Peek_def)

lemma shorter_hex: "length s < n \<Longrightarrow> escape \<le> n \<Longrightarrow> shorter n (hex_loop i escape cp s)"
  by (induction i arbitrary: cp s) (auto split: option.split)

lemma shorter_codepoint: "length s < n \<Longrightarrow> escape \<le> n \<Longrightarrow> shorter n (ParseCodepoint escape s)"
  unfolding ParseCodepoint_def ParseHex4_def
  by (auto intro!: shorter_bind shorter_hex split: prod.split simp: Consume_shrinks)

lemma shorter_escape: "s \<noteq> [] \<Longrightarrow> shorter (length s) (ParseEscape s)"
  unfolding ParseEscape_def Let_def
  by (cases s; cases "tl s") (auto simp: escape_table_def intro!: shorter_bind shorter_codepoint)

text \<open>The loop of ParseStringToStream, behind the opening quote.\<close>

function ParseStringToStream :: "BYTE list \<Rightarrow> BYTE list \<Rightarrow> BYTE list reading" where
  "ParseStringToStream os s =
     (let c = Peek s
      in if c = 92 then bind_read (ParseEscape s) (\<lambda>out s1. ParseStringToStream (os @ out) s1)
         else if c = 34 then Read os (tl s)
         else if c < 0x20 then
           parse_error (if c = 0 then kParseErrorStringMissQuotationMark else kParseErrorStringInvalidEncoding) s
         else ParseStringToStream (os @ [c]) (tl s))"
  by pat_completeness auto
termination
proof (relation "measure (\<lambda>(os, s). length s)")
  show "((os @ x, s1), os, s) \<in> measure (\<lambda>(os, s). length s)" if "c = Peek s" "c = 92" "ParseEscape s = Read x s1" for os s c x s1
    using that shorter_escape [of s] by (cases s) simp_all
  show "((os @ [c], tl s), os, s) \<in> measure (\<lambda>(os, s). length s)" if "c = Peek s" "\<not> c < 32" for os s c
    using that by (cases s) simp_all
qed simp

declare ParseStringToStream.simps [simp del]

definition ParseString :: "BYTE list \<Rightarrow> BYTE list reading" where
  "ParseString s = ParseStringToStream [] (tl s)"

section \<open>Numbers\<close>

text \<open>
  The machine's double arithmetic, as ParseNumber uses it: conversion from uint64_t, \<open>d * 10 + digit\<close>,
  \<open>d > 0.0\<close>, StrtodNormalPrecision, \<open>d > max\<close> and negation.
\<close>

record 'd double_ops =
  dop_of :: "uint64 \<Rightarrow> 'd"
  dop_digit :: "'d \<Rightarrow> BYTE \<Rightarrow> 'd"
  dop_positive :: "'d \<Rightarrow> bool"
  dop_scale :: "'d \<Rightarrow> int \<Rightarrow> 'd"
  dop_overflow :: "'d \<Rightarrow> bool"
  dop_neg :: "'d \<Rightarrow> 'd"

definition digit :: "BYTE \<Rightarrow> bool" where
  "digit c \<longleftrightarrow> 48 \<le> c \<and> c \<le> 57"

text \<open>The loops over 32 and 64 bits: they stop at a digit that would not fit.\<close>

fun read_digits :: "'a::len word \<Rightarrow> BYTE \<Rightarrow> 'a word \<Rightarrow> nat \<Rightarrow> BYTE list \<Rightarrow> 'a word \<times> bool \<times> nat \<times> BYTE list" where
  "read_digits limit lastd i sig [] = (i, False, sig, [])"
| "read_digits limit lastd i sig (c # s) =
     (if \<not> digit c then (i, False, sig, c # s)
      else if limit \<le> i \<and> (i \<noteq> limit \<or> lastd < c) then (i, True, sig, c # s)
      else read_digits limit lastd (i * 10 + ucast (c - 48)) (Suc sig) s)"

text \<open>zero / ( digit1-9 *DIGIT ); None: no digit.\<close>

definition ParseInt :: "bool \<Rightarrow> BYTE list \<Rightarrow> (uint32 \<times> bool \<times> nat \<times> BYTE list) option" where
  "ParseInt neg s =
     (if Peek s = 48 then Some (0, False, 0, tl s)
      else if 49 \<le> Peek s \<and> Peek s \<le> 57 then
        let i = ucast (Peek s - 48)
        in Some (if neg then read_digits 214748364 56 i 0 (tl s) else read_digits 429496729 53 i 0 (tl s))
      else None)"

text \<open>The significand in 64 bits, and whether it is too big for them.\<close>

definition ParseInt64 :: "bool \<Rightarrow> bool \<Rightarrow> uint32 \<Rightarrow> nat \<Rightarrow> BYTE list \<Rightarrow> uint64 \<times> bool \<times> nat \<times> BYTE list" where
  "ParseInt64 neg use64bit i sig s =
     (if \<not> use64bit then (ucast i, False, sig, s)
      else if neg then read_digits 0x0CCCCCCCCCCCCCCC 56 (ucast i) sig s
      else read_digits 0x1999999999999999 53 (ucast i) sig s)"

fun big_digits :: "'d double_ops \<Rightarrow> 'd \<Rightarrow> BYTE list \<Rightarrow> 'd \<times> BYTE list" where
  "big_digits ops d [] = (d, [])"
| "big_digits ops d (c # s) = (if digit c then big_digits ops (dop_digit ops d c) s else (d, c # s))"

fun frac_digits :: "uint64 \<Rightarrow> int32 \<Rightarrow> nat \<Rightarrow> BYTE list \<Rightarrow> uint64 \<times> int32 \<times> nat \<times> BYTE list" where
  "frac_digits i64 expFrac sig [] = (i64, expFrac, sig, [])"
| "frac_digits i64 expFrac sig (c # s) =
     (if digit c \<and> \<not> 0x1FFFFFFFFFFFFF < i64 then
        let i64' = i64 * 10 + ucast (c - 48)
        in frac_digits i64' (expFrac - 1) (if i64' \<noteq> 0 then Suc sig else sig) s
      else (i64, expFrac, sig, c # s))"

fun frac_double :: "'d double_ops \<Rightarrow> 'd \<Rightarrow> int32 \<Rightarrow> nat \<Rightarrow> BYTE list \<Rightarrow> 'd \<times> int32 \<times> BYTE list" where
  "frac_double ops d expFrac sig [] = (d, expFrac, [])"
| "frac_double ops d expFrac sig (c # s) =
     (if \<not> digit c then (d, expFrac, c # s)
      else if sig < 17 then
        let d' = dop_digit ops d c
        in frac_double ops d' (expFrac - 1) (if dop_positive ops d' then Suc sig else sig) s
      else frac_double ops d expFrac sig s)"

text \<open>frac = decimal-point 1*DIGIT. The double is None as long as the value is an integer.\<close>

definition ParseFrac :: "'d double_ops \<Rightarrow> 'd option \<Rightarrow> uint64 \<Rightarrow> nat \<Rightarrow> BYTE list \<Rightarrow> ('d option \<times> int32) reading" where
  "ParseFrac ops d i64 sig s =
     (if Peek s \<noteq> 46 then Read (d, 0) s
      else let s1 = tl s
           in if \<not> digit (Peek s1) then parse_error kParseErrorNumberMissFraction s1
              else let (d1, expFrac, sig1, s2) = (case d of
                         Some x \<Rightarrow> (x, 0, sig, s1)
                       | None \<Rightarrow> let (m, expFrac, sig', s') = frac_digits i64 0 sig s1 in (dop_of ops m, expFrac, sig', s'));
                       (d2, expFrac2, s3) = frac_double ops d1 expFrac sig1 s2
                   in Read (Some d2, expFrac2) s3)"

fun exp_minus_digits :: "int32 \<Rightarrow> int32 \<Rightarrow> BYTE list \<Rightarrow> int32 \<times> BYTE list" where
  "exp_minus_digits maxExp e [] = (e, [])"
| "exp_minus_digits maxExp e (c # s) =
     (if \<not> digit c then (e, c # s)
      else let e' = e * 10 + uint (c - 48)
           in if maxExp < e' then (e', dropWhile digit s) else exp_minus_digits maxExp e' s)"

fun exp_plus_digits :: "int32 \<Rightarrow> int32 \<Rightarrow> BYTE list \<Rightarrow> (int32 \<times> BYTE list) option" where
  "exp_plus_digits maxExp e [] = Some (e, [])"
| "exp_plus_digits maxExp e (c # s) =
     (if \<not> digit c then Some (e, c # s)
      else let e' = e * 10 + uint (c - 48)
           in if maxExp < e' then None else exp_plus_digits maxExp e' s)"

text \<open>exp = e [ minus / plus ] 1*DIGIT; \<open>start\<close> is where the number begins.\<close>

definition ParseExp :: "'d double_ops \<Rightarrow> nat \<Rightarrow> 'd option \<Rightarrow> uint64 \<Rightarrow> int32 \<Rightarrow> BYTE list \<Rightarrow> ('d option \<times> int32) reading" where
  "ParseExp ops start d i64 expFrac s =
     (if Peek s \<noteq> 101 \<and> Peek s \<noteq> 69 then Read (d, 0) s
      else let d1 = (case d of Some x \<Rightarrow> Some x | None \<Rightarrow> Some (dop_of ops i64));
               s1 = tl s; expMinus = (Peek s1 = 45); s2 = (if Peek s1 = 43 \<or> Peek s1 = 45 then tl s1 else s1)
           in if \<not> digit (Peek s2) then parse_error kParseErrorNumberMissExponent s2
              else let e = uint (Peek s2 - 48)
                   in if expMinus then
                        let (e1, s3) = exp_minus_digits ((expFrac + 2147483639) div 10) e (tl s2) in Read (d1, - e1) s3
                      else (case exp_plus_digits (308 - expFrac) e (tl s2) of
                              None \<Rightarrow> ReadError kParseErrorNumberTooBig start
                            | Some (e1, s3) \<Rightarrow> Read (d1, e1) s3))"

text \<open>The event of the number's type: the two's complement of the magnitude for a negative one.\<close>

definition number_event :: "bool \<Rightarrow> bool \<Rightarrow> uint32 \<Rightarrow> uint64 \<Rightarrow> 'd json" where
  "number_event neg use64bit i i64 =
     (if use64bit then (if neg then JInt64 (sint (NOT i64 + 1)) else JUint64 i64)
      else if neg then JInt (sint (NOT i + 1)) else JUint i)"

definition ParseNumber :: "'d double_ops \<Rightarrow> BYTE list \<Rightarrow> 'd json reading" where
  "ParseNumber ops s =
     (let (neg, s1) = Consume [45] s
      in case ParseInt neg s1 of
           None \<Rightarrow> parse_error kParseErrorValueInvalid s1
         | Some (i, use64bit, sig, s2) \<Rightarrow>
             let (i64, useDouble, sig1, s3) = ParseInt64 neg use64bit i sig s2;
                 (d, s4) = (if useDouble then (let (x, s') = big_digits ops (dop_of ops i64) s3 in (Some x, s')) else (None, s3))
             in bind_read (ParseFrac ops d i64 sig1 s4) (\<lambda>(d1, expFrac) s5.
                bind_read (ParseExp ops (length s) d1 i64 expFrac s5) (\<lambda>(d2, e) s6.
                  case d2 of
                    None \<Rightarrow> Read (number_event neg use64bit i i64) s6
                  | Some x \<Rightarrow>
                      let y = dop_scale ops x (e + expFrac)
                      in if dop_overflow ops y then ReadError kParseErrorNumberTooBig (length s)
                         else Read (JDouble (if neg then dop_neg ops y else y)) s6)))"

section \<open>Values and documents\<close>

text \<open>The loops of ParseObject and ParseArray, over the parser of one value.\<close>

primrec ParseMembers :: "(BYTE list \<Rightarrow> 'd json reading) \<Rightarrow> nat \<Rightarrow> (BYTE list \<times> 'd json) list \<Rightarrow> BYTE list \<Rightarrow> 'd json reading" where
  "ParseMembers pv 0 ms s = ReadFuel"
| "ParseMembers pv (Suc j) ms s =
     (if Peek s \<noteq> 34 then parse_error kParseErrorObjectMissName s
      else bind_read (ParseString s) (\<lambda>key s1.
        let s2 = SkipWhitespace s1
        in if Peek s2 \<noteq> 58 then parse_error kParseErrorObjectMissColon s2
           else bind_read (pv (SkipWhitespace (tl s2))) (\<lambda>v s3.
             let s4 = SkipWhitespace s3; ms' = ms @ [(key, v)]
             in if Peek s4 = 44 then ParseMembers pv j ms' (SkipWhitespace (tl s4))
                else if Peek s4 = 125 then Read (JObject ms') (tl s4)
                else parse_error kParseErrorObjectMissCommaOrCurlyBracket s4)))"

primrec ParseElements :: "(BYTE list \<Rightarrow> 'd json reading) \<Rightarrow> nat \<Rightarrow> 'd json list \<Rightarrow> BYTE list \<Rightarrow> 'd json reading" where
  "ParseElements pv 0 vs s = ReadFuel"
| "ParseElements pv (Suc j) vs s =
     bind_read (pv s) (\<lambda>v s1.
       let s2 = SkipWhitespace s1; vs' = vs @ [v]
       in if Peek s2 = 44 then ParseElements pv j vs' (SkipWhitespace (tl s2))
          else if Peek s2 = 93 then Read (JArray vs') (tl s2)
          else parse_error kParseErrorArrayMissCommaOrSquareBracket s2)"

definition ParseObject :: "(BYTE list \<Rightarrow> 'd json reading) \<Rightarrow> nat \<Rightarrow> BYTE list \<Rightarrow> 'd json reading" where
  "ParseObject pv j s =
     (let s1 = SkipWhitespace (tl s) in if Peek s1 = 125 then Read (JObject []) (tl s1) else ParseMembers pv j [] s1)"

definition ParseArray :: "(BYTE list \<Rightarrow> 'd json reading) \<Rightarrow> nat \<Rightarrow> BYTE list \<Rightarrow> 'd json reading" where
  "ParseArray pv j s =
     (let s1 = SkipWhitespace (tl s) in if Peek s1 = 93 then Read (JArray []) (tl s1) else ParseElements pv j [] s1)"

primrec ParseValue :: "'d double_ops \<Rightarrow> nat \<Rightarrow> BYTE list \<Rightarrow> 'd json reading" where
  "ParseValue ops 0 s = ReadFuel"
| "ParseValue ops (Suc k) s =
     (let c = Peek s
      in if c = 110 then ParseNull s
         else if c = 116 then ParseTrue s
         else if c = 102 then ParseFalse s
         else if c = 34 then bind_read (ParseString s) (\<lambda>str s1. Read (JString str) s1)
         else if c = 123 then ParseObject (ParseValue ops k) k s
         else if c = 91 then ParseArray (ParseValue ops k) k s
         else ParseNumber ops s)"

text \<open>GenericReader::Parse over the C string \<open>text\<close>: the root value, or the error with its offset.\<close>

definition JsonParse :: "'d double_ops \<Rightarrow> BYTE list \<Rightarrow> (ParseErrorCode \<times> nat + 'd json) option" where
  "JsonParse ops text =
     (let str = c_str text; s = SkipWhitespace str
      in if s = [] then Some (Inl (kParseErrorDocumentEmpty, length str))
         else case ParseValue ops (Suc (length s)) s of
                Read v s1 \<Rightarrow>
                  let s2 = SkipWhitespace s1
                  in if s2 \<noteq> [] then Some (Inl (kParseErrorDocumentRootNotSingular, length str - length s2)) else Some (Inr v)
              | ReadError e n \<Rightarrow> Some (Inl (e, length str - n))
              | ReadFuel \<Rightarrow> None)"

text \<open>Document::Parse: after an error the document stays null.\<close>

definition Document_Parse :: "'d double_ops \<Rightarrow> BYTE list \<Rightarrow> 'd json option" where
  "Document_Parse ops text = map_option (\<lambda>r. case r of Inl e \<Rightarrow> JNull | Inr v \<Rightarrow> v) (JsonParse ops text)"

section \<open>Enough fuel\<close>

lemma digits_length:
  "read_digits limit lastd i sig s = (i', b, sig', s') \<Longrightarrow> length s' \<le> length s"
  "big_digits ops d s = (d', s') \<Longrightarrow> length s' \<le> length s"
  "frac_digits i64 e sig s = (i64', e', sig', s') \<Longrightarrow> length s' \<le> length s"
  "frac_double ops d e sig s = (d', e', s') \<Longrightarrow> length s' \<le> length s"
  "exp_minus_digits m e s = (e', s') \<Longrightarrow> length s' \<le> length s"
  "exp_plus_digits m e s = Some (e', s') \<Longrightarrow> length s' \<le> length s"
proof (goal_cases)
  case 1 then show ?case by (induction limit lastd i sig s rule: read_digits.induct) (auto split: if_splits)
next
  case 2 then show ?case by (induction ops d s rule: big_digits.induct) (auto split: if_splits)
next
  case 3 then show ?case by (induction i64 e sig s rule: frac_digits.induct) (auto simp: Let_def split: if_splits)
next
  case 4 then show ?case by (induction ops d e sig s rule: frac_double.induct) (auto simp: Let_def split: if_splits)
next
  case 5 then show ?case by (induction m e s rule: exp_minus_digits.induct)
    (auto simp: Let_def le_SucI length_dropWhile_le split: if_splits)
next
  case 6 then show ?case by (induction m e s rule: exp_plus_digits.induct) (auto simp: Let_def split: if_splits)
qed

lemma SkipWhitespace_length: "length (SkipWhitespace s) \<le> length s"
  by (simp add: SkipWhitespace_def length_dropWhile_le)

lemma shorter_mono: "shorter n r \<Longrightarrow> n \<le> m \<Longrightarrow> shorter m r"
  by (cases r) (simp_all add: shorter_def)

lemma peeked: "Peek s = c \<Longrightarrow> c \<noteq> 0 \<Longrightarrow> s = c # tl s"
  by (cases s) simp_all

lemma digit_zero [simp]: "\<not> digit 0"
  by (simp add: digit_def)

lemma shorter_stream: "shorter (length s) (ParseStringToStream os s)"
proof (induction os s rule: ParseStringToStream.induct)
  case (1 os s)
  show ?case
  proof (cases s)
    case (Cons c r)
    have "shorter (length s) (bind_read (ParseEscape s) (\<lambda>out s1. ParseStringToStream (os @ out) s1))" if "c = 92"
      using shorter_escape [of s] Cons
      by (intro shorter_bind) (auto intro: shorter_mono [OF 1(1) [OF refl]] simp: that)
    then show ?thesis using 1(2) Cons unfolding ParseStringToStream.simps [of os s] by (auto simp: Let_def intro: shorter_mono)
  qed (simp add: ParseStringToStream.simps)
qed

lemma ParseInt_length: "ParseInt neg s = Some (i, b, sig, s') \<Longrightarrow> length s' < length s"
  using digits_length(1) [where ?'a = 32]
  by (cases s) (fastforce simp: ParseInt_def Let_def less_Suc_eq_le split: if_splits)+

lemma ParseInt64_length: "ParseInt64 neg b i sig s = (i64, d, sig', s') \<Longrightarrow> length s' \<le> length s"
  using digits_length(1) [where ?'a = 64] by (fastforce simp: ParseInt64_def split: if_splits)

lemma shorter_frac: "length s < n \<Longrightarrow> shorter n (ParseFrac ops d i64 sig s)"
  unfolding ParseFrac_def Let_def
  by (cases s) (auto split: option.splits prod.splits dest!: digits_length)

lemma shorter_exp: "length s < n \<Longrightarrow> start \<le> n \<Longrightarrow> shorter n (ParseExp ops start d i64 e s)"
  unfolding ParseExp_def Let_def
  by (cases s; cases "tl s") (auto split: option.splits prod.splits dest!: digits_length)

lemma shorter_number: "shorter (length s) (ParseNumber ops s)"
proof -
  obtain neg s1 where s1: "Consume [45] s = (neg, s1)" by fastforce
  have l1: "length s1 \<le> length s" using Consume_length [OF s1] by simp
  show ?thesis
  proof (cases "ParseInt neg s1")
    case None
    then show ?thesis using s1 l1 by (simp add: ParseNumber_def)
  next
    case (Some p)
    obtain i b sig s2 where p: "p = (i, b, sig, s2)" by (cases p) auto
    obtain i64 dbl sig1 s3 where q: "ParseInt64 neg b i sig s2 = (i64, dbl, sig1, s3)" by (metis prod_cases4)
    obtain d s4 where d: "(if dbl then (let (x, s') = big_digits ops (dop_of ops i64) s3 in (Some x, s')) else (None, s3)) = (d, s4)" by fastforce
    have "length s4 \<le> length s3" using d digits_length(2) by (fastforce split: if_splits prod.splits)
    then have l4: "length s4 < length s"
      using l1 ParseInt_length [OF Some [unfolded p]] ParseInt64_length [OF q] by linarith
    show ?thesis unfolding ParseNumber_def s1 Some [unfolded p] Let_def prod.case option.case q d [unfolded Let_def]
      by (rule shorter_bind [OF shorter_frac [OF l4]], clarify, rule shorter_bind [OF shorter_exp])
        (auto simp: Let_def split: option.split)
  qed
qed

lemma shorter_literal: "s \<noteq> [] \<Longrightarrow> shorter (length s) (ParseLiteral rest v s)"
  by (cases s) (auto simp: ParseLiteral_def Let_def less_Suc_eq_le split: prod.split dest: Consume_length)

lemma shorter_string: "s \<noteq> [] \<Longrightarrow> shorter (length s) (ParseString s)"
  using shorter_mono [OF shorter_stream [of "tl s" "[]"], of "length s"] by (simp add: ParseString_def)

lemma skip_shorter: "length s < n \<Longrightarrow> length (SkipWhitespace s) < n" "length s < n \<Longrightarrow> length (SkipWhitespace (tl s)) < n"
  using SkipWhitespace_length [of s] SkipWhitespace_length [of "tl s"] by simp_all

text \<open>What follows an element of an array or a member of an object.\<close>

lemma after_element:
  "length s3 < n \<Longrightarrow> (length (SkipWhitespace (tl (SkipWhitespace s3))) < n \<Longrightarrow> Peek (SkipWhitespace s3) = 44
      \<Longrightarrow> shorter n (again (SkipWhitespace (tl (SkipWhitespace s3)))))
   \<Longrightarrow> shorter n (let s4 = SkipWhitespace s3
      in if Peek s4 = 44 then again (SkipWhitespace (tl s4)) else if Peek s4 = close then Read x (tl s4) else parse_error e s4)"
  using skip_shorter [of s3 n] skip_shorter(2) [of "SkipWhitespace s3" n] by (auto simp: Let_def)

lemma members_shorter:
  assumes "\<And>t. length t < n \<Longrightarrow> shorter (length t) (pv t)"
  shows "length s < n \<Longrightarrow> length s < j \<Longrightarrow> shorter (length s) (ParseMembers pv j ms s)"
proof (induction j arbitrary: ms s)
  case (Suc j)
  show ?case
  proof (cases "Peek s = 34")
    case True
    then have s: "s \<noteq> []" by auto
    have "shorter (length s) (let s2 = SkipWhitespace s1
        in if Peek s2 \<noteq> 58 then parse_error kParseErrorObjectMissColon s2
           else bind_read (pv (SkipWhitespace (tl s2))) (\<lambda>v s3. let s4 = SkipWhitespace s3; ms' = ms @ [(key, v)]
             in if Peek s4 = 44 then ParseMembers pv j ms' (SkipWhitespace (tl s4))
                else if Peek s4 = 125 then Read (JObject ms') (tl s4) else parse_error kParseErrorObjectMissCommaOrCurlyBracket s4))"
      if s1: "length s1 < length s" for key s1
    proof -
      have l: "length (SkipWhitespace s1) < length s" "length (SkipWhitespace (tl (SkipWhitespace s1))) < length s"
        using skip_shorter(1) [OF s1] skip_shorter(2) [OF skip_shorter(1) [OF s1]] .
      show ?thesis unfolding Let_def
        by (auto intro!: shorter_bind after_element [unfolded Let_def] shorter_mono [OF assms] shorter_mono [OF Suc.IH])
          (use Suc.prems l in simp_all)
    qed
    then show ?thesis using True by (simp add: Let_def shorter_bind [OF shorter_string [OF s]])
  qed simp
qed simp

lemma elements_shorter:
  assumes "\<And>t. length t < n \<Longrightarrow> shorter (length t) (pv t)"
  shows "length s < n \<Longrightarrow> length s < j \<Longrightarrow> shorter (length s) (ParseElements pv j vs s)"
proof (induction j arbitrary: vs s)
  case (Suc j)
  show ?case unfolding ParseElements.simps Let_def
    by (auto intro!: shorter_bind assms after_element [unfolded Let_def] shorter_mono [OF Suc.IH]) (use Suc.prems in simp_all)
qed simp

lemma parse_shorter: "length s < k \<Longrightarrow> shorter (length s) (ParseValue ops k s)"
proof (induction k arbitrary: s)
  case (Suc k)
  show ?case
  proof (cases s)
    case (Cons c r)
    have l: "length (SkipWhitespace r) < length s" using skip_shorter(1) [of r "length s"] Cons by simp
    have k: "length (SkipWhitespace r) < k" using l Suc.prems by simp
    have m: "shorter (length s) (ParseMembers (ParseValue ops k) k [] (SkipWhitespace r))"
      using members_shorter [of k "ParseValue ops k", OF Suc.IH k k] shorter_mono [OF _ less_imp_le [OF l]] by blast
    have e: "shorter (length s) (ParseElements (ParseValue ops k) k [] (SkipWhitespace r))"
      using elements_shorter [of k "ParseValue ops k", OF Suc.IH k k] shorter_mono [OF _ less_imp_le [OF l]] by blast
    have t: "length (tl (SkipWhitespace r)) < length s" using l by simp
    have "shorter (length s) (bind_read (ParseString s) (\<lambda>str s1. Read (JString str) s1 :: 'a json reading))"
      using shorter_string [of s] Cons by (intro shorter_bind) simp_all
    then show ?thesis using m e t shorter_number [of s ops] shorter_literal [of s] Cons
      by (auto simp add: Let_def ParseNull_def ParseTrue_def ParseFalse_def ParseObject_def ParseArray_def)
  qed (use shorter_number [of "[]" ops] in \<open>simp add: Let_def\<close>)
qed simp

text \<open>The reader always ends, with a value or an error inside the text.\<close>

lemma JsonParse_total: "\<exists>r. JsonParse ops text = Some r \<and> (\<forall>e off. r = Inl (e, off) \<longrightarrow> off \<le> length (c_str text))"
proof -
  have "shorter (length (SkipWhitespace (c_str text))) (ParseValue ops (Suc (length (SkipWhitespace (c_str text)))) (SkipWhitespace (c_str text)))"
    by (rule parse_shorter) simp
  then show ?thesis
    by (cases "ParseValue ops (Suc (length (SkipWhitespace (c_str text)))) (SkipWhitespace (c_str text))")
      (simp_all add: JsonParse_def Let_def)
qed

end
