(* ===== verification/JsonText.thy ===== *)
theory JsonText imports JsonReader begin

text \<open>
  JSON texts (RFC 8259), as far as their values are no fractions: a grammar that is independent of the
  reader, with white space wherever the standard allows it and every escape of a string, and the proof
  that the reader turns each text into its value.
\<close>

section \<open>Grammar\<close>

definition spaces :: "BYTE list \<Rightarrow> bool" where
  "spaces w \<longleftrightarrow> set w \<subseteq> {32, 9, 10, 13}"

fun decimal :: "nat \<Rightarrow> BYTE list" where
  "decimal n = (if n < 10 then [word_of_nat (48 + n)] else decimal (n div 10) @ [word_of_nat (48 + n mod 10)])"

declare decimal.simps [simp del]

definition int_text :: "int \<Rightarrow> BYTE list" where
  "int_text n = (if n < 0 then 45 # decimal (nat (- n)) else decimal (nat n))"

text \<open>The value with the narrowest integer type of the reader.\<close>

definition json_int :: "int \<Rightarrow> 'd json" where
  "json_int n = (if n < 0 then (if - 2147483648 \<le> n then JInt n else JInt64 n)
     else if n < 4294967296 then JUint (word_of_int n) else JUint64 (word_of_int n))"

definition escapes :: "(BYTE \<times> BYTE) set" where
  "escapes = {(34, 34), (92, 92), (47, 47), (98, 8), (102, 12), (110, 10), (114, 13), (116, 9)}"

definition hex_value :: "BYTE \<Rightarrow> nat \<Rightarrow> bool" where
  "hex_value c d \<longleftrightarrow> d < 16 \<and> (d < 10 \<and> unat c = 48 + d \<or> 10 \<le> d \<and> (unat c = 55 + d \<or> unat c = 87 + d))"

text \<open>Four hexadecimal digits of a UTF-16 code unit.\<close>

inductive hex4 :: "nat \<Rightarrow> BYTE list \<Rightarrow> bool" where
  "hex_value a p \<Longrightarrow> hex_value b q \<Longrightarrow> hex_value c r \<Longrightarrow> hex_value d s \<Longrightarrow> hex4 (4096 * p + 256 * q + 16 * r + s) [a, b, c, d]"

text \<open>UTF-8 of a code point.\<close>

definition utf8_of :: "nat \<Rightarrow> BYTE list" where
  "utf8_of n = map word_of_nat
     (if n < 128 then [n] else if n < 2048 then [192 + n div 64, 128 + n mod 64]
      else if n < 65536 then [224 + n div 4096, 128 + n div 64 mod 64, 128 + n mod 64]
      else [240 + n div 262144, 128 + n div 4096 mod 64, 128 + n div 64 mod 64, 128 + n mod 64])"

text \<open>The code point of a surrogate pair.\<close>

definition pair_code :: "nat \<Rightarrow> nat \<Rightarrow> nat" where
  "pair_code n m = 0x10000 + 1024 * (n - 0xD800) + (m - 0xDC00)"

inductive json_chars :: "BYTE list \<Rightarrow> BYTE list \<Rightarrow> bool" where
  chars_end: "json_chars [] []"
| chars_plain: "json_chars out t \<Longrightarrow> 32 \<le> c \<Longrightarrow> c \<noteq> 34 \<Longrightarrow> c \<noteq> 92 \<Longrightarrow> json_chars (c # out) (c # t)"
| chars_escape: "json_chars out t \<Longrightarrow> (e, c) \<in> escapes \<Longrightarrow> json_chars (c # out) (92 # e # t)"
| chars_unit: "json_chars out t \<Longrightarrow> hex4 n h \<Longrightarrow> n < 0xD800 \<or> 0xDFFF < n \<Longrightarrow> json_chars (utf8_of n @ out) (92 # 117 # h @ t)"
| chars_pair: "json_chars out t \<Longrightarrow> hex4 n h \<Longrightarrow> hex4 m g \<Longrightarrow> 0xD800 \<le> n \<Longrightarrow> n < 0xDC00 \<Longrightarrow> 0xDC00 \<le> m \<Longrightarrow> m \<le> 0xDFFF
    \<Longrightarrow> json_chars (utf8_of (pair_code n m) @ out) (92 # 117 # h @ 92 # 117 # g @ t)"

inductive json_text :: "'d json \<Rightarrow> BYTE list \<Rightarrow> bool"
  and elements_text :: "'d json list \<Rightarrow> BYTE list \<Rightarrow> bool"
  and members_text :: "(BYTE list \<times> 'd json) list \<Rightarrow> BYTE list \<Rightarrow> bool" where
  text_null: "json_text JNull (bytes_of ''null'')"
| text_true: "json_text (JBool True) (bytes_of ''true'')"
| text_false: "json_text (JBool False) (bytes_of ''false'')"
| text_int: "- 9223372036854775808 \<le> n \<Longrightarrow> n < 18446744073709551616 \<Longrightarrow> json_text (json_int n) (int_text n)"
| text_string: "json_chars out t \<Longrightarrow> json_text (JString out) (34 # t @ [34])"
| text_array0: "spaces w \<Longrightarrow> json_text (JArray []) (91 # w @ [93])"
| text_array: "spaces w \<Longrightarrow> elements_text vs t \<Longrightarrow> json_text (JArray vs) (91 # w @ t)"
| text_object0: "spaces w \<Longrightarrow> json_text (JObject []) (123 # w @ [125])"
| text_object: "spaces w \<Longrightarrow> members_text ms t \<Longrightarrow> json_text (JObject ms) (123 # w @ t)"
| elements_last: "json_text v t \<Longrightarrow> spaces w \<Longrightarrow> elements_text [v] (t @ w @ [93])"
| elements_more: "json_text v t \<Longrightarrow> spaces w \<Longrightarrow> spaces w' \<Longrightarrow> elements_text vs ts \<Longrightarrow> elements_text (v # vs) (t @ w @ 44 # w' @ ts)"
| members_last: "json_chars key kt \<Longrightarrow> spaces w1 \<Longrightarrow> spaces w2 \<Longrightarrow> json_text v t \<Longrightarrow> spaces w
    \<Longrightarrow> members_text [(key, v)] (34 # kt @ 34 # w1 @ 58 # w2 @ t @ w @ [125])"
| members_more: "json_chars key kt \<Longrightarrow> spaces w1 \<Longrightarrow> spaces w2 \<Longrightarrow> json_text v t \<Longrightarrow> spaces w \<Longrightarrow> spaces w' \<Longrightarrow> members_text ms ts
    \<Longrightarrow> members_text ((key, v) # ms) (34 # kt @ 34 # w1 @ 58 # w2 @ t @ w @ 44 # w' @ ts)"

section \<open>White space\<close>

lemma SkipWhitespace_spaces: "spaces w \<Longrightarrow> SkipWhitespace (w @ r) = SkipWhitespace r"
  by (induction w) (auto simp: spaces_def SkipWhitespace_def is_space_def)

lemma SkipWhitespace_stop [simp]: "\<not> is_space c \<Longrightarrow> SkipWhitespace (c # r) = c # r"
  by (simp add: SkipWhitespace_def)

lemma SkipWhitespace_Nil [simp]: "SkipWhitespace [] = []"
  by (simp add: SkipWhitespace_def)

section \<open>Strings\<close>

lemma unat_is: "unat c = n \<Longrightarrow> c = word_of_nat n"
  by auto

lemma hex_digit_table:
  "list_all (\<lambda>d. hex_digit (word_of_nat (48 + d)) = Some (word_of_nat d)) [0..<10]"
  "list_all (\<lambda>d. hex_digit (word_of_nat (55 + d)) = Some (word_of_nat d) \<and> hex_digit (word_of_nat (87 + d)) = Some (word_of_nat d)) [10..<16]"
  by (simp_all add: upt_rec hex_digit_def)

lemma hex_digit_value: "hex_value c d \<Longrightarrow> hex_digit c = Some (word_of_nat d)"
  using hex_digit_table unfolding hex_value_def list_all_iff set_upt
  by (elim conjE disjE) (drule unat_is, simp)+

lemma four: "(4 :: nat) = Suc (Suc (Suc (Suc 0)))"
  by simp

lemma ParseHex4_text:
  assumes "hex4 n h"
  shows "ParseHex4 escape (h @ r) = Read (word_of_nat n) r" "n < 65536"
  using assms
proof (atomize (full), cases rule: hex4.cases)
  case (1 a p b q c x d s)
  have l: "p < 16" "q < 16" "x < 16" "s < 16" using 1 by (simp_all add: hex_value_def)
  show "ParseHex4 escape (h @ r) = Read (word_of_nat n) r \<and> n < 65536"
    using l 1 unfolding ParseHex4_def four by (simp add: hex_digit_value push_bit_eq_mult algebra_simps)
qed

lemma escapes_table: "(e, c) \<in> escapes \<Longrightarrow> escape_table e = c \<and> c \<noteq> 0"
  by (auto simp: escapes_def escape_table_def)

lemma word_bits_of_nat:
  assumes "n < 4294967296"
  shows "drop_bit k (word_of_nat n :: uint32) = word_of_nat (n div 2 ^ k)"
    "word_of_nat n AND (0x3F :: uint32) = word_of_nat (n mod 64)" "word_of_nat n AND (0xFF :: uint32) = word_of_nat (n mod 256)"
proof -
  have n: "unat (word_of_nat n :: uint32) = n" using assms by (simp add: unat_of_nat take_bit_nat_eq_self)
  have d: "n div 2 ^ k < 4294967296" "n mod 64 < 4294967296" "n mod 256 < 4294967296"
    using assms div_le_dividend [of n "2 ^ k"] mod_less_divisor [of 64 n] mod_less_divisor [of 256 n] by linarith+
  show "drop_bit k (word_of_nat n :: uint32) = word_of_nat (n div 2 ^ k)"
    unfolding word_unat_eq_iff unat_drop_bit_eq n using d(1) by (simp add: drop_bit_eq_div unat_of_nat take_bit_nat_eq_self)
  have m: "w AND (0x3F :: uint32) = take_bit 6 w" "w AND (0xFF :: uint32) = take_bit 8 w" for w
    by (simp_all add: take_bit_eq_mask mask_eq_exp_minus_1)
  have "unat (w AND (0x3F :: uint32)) = unat w mod 64" "unat (w AND (0xFF :: uint32)) = unat w mod 256" for w
    unfolding m unsigned_take_bit_eq by (simp_all add: take_bit_eq_mod)
  then show "word_of_nat n AND (0x3F :: uint32) = word_of_nat (n mod 64)" "word_of_nat n AND (0xFF :: uint32) = word_of_nat (n mod 256)"
    unfolding word_unat_eq_iff using n d by (simp_all add: unat_of_nat take_bit_nat_eq_self)
qed

text \<open>The marker bits of UTF-8 bytes.\<close>

lemma marked_table:
  "list_all (\<lambda>d. ucast (0x80 OR (word_of_nat d :: uint32)) = (word_of_nat (128 + d) :: BYTE)) [0..<64]"
  "list_all (\<lambda>d. ucast (0xC0 OR (word_of_nat d :: uint32)) = (word_of_nat (192 + d) :: BYTE)) [0..<32]"
  "list_all (\<lambda>d. ucast (0xE0 OR (word_of_nat d :: uint32)) = (word_of_nat (224 + d) :: BYTE)) [0..<16]"
  "list_all (\<lambda>d. ucast (0xF0 OR (word_of_nat d :: uint32)) = (word_of_nat (240 + d) :: BYTE)) [0..<8]"
  by (simp_all add: upt_rec)

lemma marked:
  "d < 64 \<Longrightarrow> ucast (0x80 OR (word_of_nat d :: uint32)) = (word_of_nat (128 + d) :: BYTE)"
  "d < 32 \<Longrightarrow> ucast (0xC0 OR (word_of_nat d :: uint32)) = (word_of_nat (192 + d) :: BYTE)"
  "d < 16 \<Longrightarrow> ucast (0xE0 OR (word_of_nat d :: uint32)) = (word_of_nat (224 + d) :: BYTE)"
  "d < 8 \<Longrightarrow> ucast (0xF0 OR (word_of_nat d :: uint32)) = (word_of_nat (240 + d) :: BYTE)"
  using marked_table unfolding list_all_iff set_upt by auto

lemma UTF8_Encode_code:
  assumes "n < 0x110000"
  shows "UTF8_Encode (word_of_nat n) = utf8_of n"
proof -
  have le: "(word_of_nat n \<le> (word_of_nat k :: uint32)) = (n \<le> k)" if "k < 4294967296" for k
    using that assms by (simp add: word_le_nat_alt unat_of_nat take_bit_nat_eq_self)
  have n: "n < 4294967296" using assms by simp
  have c: "(ucast (word_of_nat n :: uint32) :: BYTE) = word_of_nat n" if "n < 128"
    using that by (simp add: word_unat_eq_iff unsigned_ucast_eq unat_of_nat take_bit_nat_eq_self)
  have m: "word_of_nat (n div k mod 256) AND (0x3F :: uint32) = word_of_nat (n div k mod 64)" for k
    using word_bits_of_nat(2) [of "n div k mod 256"] by (simp add: mod_mod_cancel less_imp_le)
  show ?thesis
    unfolding UTF8_Encode_def utf8_of_def word_bits_of_nat [OF n]
    using le [of 127] le [of 2047] le [of 65535] c assms by (simp add: word_bits_of_nat marked m)
qed

lemma push_or: "push_bit k a OR take_bit k b = push_bit k a + take_bit k (b :: 'a::len word)"
  by (rule disjunctive_add [symmetric]) (auto simp: bit_simps)

lemma ParseCodepoint_unit:
  assumes "hex4 n h" and "n < 0xD800 \<or> 0xDFFF < n"
  shows "ParseCodepoint escape (h @ r) = Read (word_of_nat n) r"
proof -
  have "\<not> (0xD800 \<le> (word_of_nat n :: uint32) \<and> (word_of_nat n :: uint32) \<le> 0xDFFF)"
    using assms(2) ParseHex4_text(2) [OF assms(1)] by (auto simp: word_le_nat_alt unat_of_nat take_bit_nat_eq_self)
  then show ?thesis using ParseHex4_text(1) [OF assms(1)] by (auto simp: ParseCodepoint_def)
qed

lemma ParseCodepoint_pair:
  assumes "hex4 n h" and "hex4 m g" and "0xD800 \<le> n" and "n < 0xDC00" and "0xDC00 \<le> m" and "m \<le> 0xDFFF"
  shows "ParseCodepoint escape (h @ 92 # 117 # g @ r) = Read (word_of_nat (pair_code n m)) r"
proof -
  have w: "0xD800 \<le> (word_of_nat n :: uint32)" "(word_of_nat n :: uint32) \<le> 0xDBFF" "(word_of_nat n :: uint32) \<le> 0xDFFF"
    "\<not> (word_of_nat m :: uint32) < 0xDC00" "\<not> 0xDFFF < (word_of_nat m :: uint32)"
    using assms(3-6) by (simp_all add: word_le_nat_alt word_less_nat_alt unat_of_nat take_bit_nat_eq_self)
  have "(push_bit 10 (word_of_nat n - 0xD800) OR (word_of_nat m - 0xDC00)) + (0x10000 :: uint32)
      = word_of_nat (pair_code n m)"
  proof -
    have b: "word_of_nat m - (0xDC00 :: uint32) = take_bit 10 (word_of_nat (m - 0xDC00))"
      using assms(5,6) by (simp add: word_unat_eq_iff unat_sub word_le_nat_alt unat_of_nat take_bit_nat_eq_self unsigned_take_bit_eq)
    show ?thesis unfolding b push_or unfolding b [symmetric]
      using assms(3,5) by (simp add: pair_code_def push_bit_eq_mult of_nat_diff algebra_simps)
  qed
  then show ?thesis using w ParseHex4_text(1) [OF assms(1)] ParseHex4_text(1) [OF assms(2)]
    by (simp add: ParseCodepoint_def Let_def)
qed

lemma ParseStringToStream_text:
  "json_chars out t \<Longrightarrow> ParseStringToStream os (t @ 34 # r) = Read (os @ out) r"
proof (induction arbitrary: os rule: json_chars.induct)
  case chars_end
  then show ?case by (simp add: ParseStringToStream.simps Let_def)
next
  case (chars_plain out t c)
  have "c \<noteq> 0" "\<not> c < 32" using chars_plain(2) by auto
  then show ?case using chars_plain by (simp add: ParseStringToStream.simps [of os] Let_def)
next
  case (chars_escape out t e c)
  then show ?case using escapes_table [OF chars_escape(2)] by (simp add: ParseStringToStream.simps [of os] Let_def ParseEscape_def)
next
  case (chars_unit out t n h)
  then show ?case using ParseCodepoint_unit [OF chars_unit(2,3)] ParseHex4_text(2) [OF chars_unit(2)]
    by (simp add: ParseStringToStream.simps [of os] Let_def ParseEscape_def escape_table_def UTF8_Encode_code)
next
  case (chars_pair out t n h m g)
  then show ?case using ParseCodepoint_pair [OF chars_pair(2-7)] UTF8_Encode_code [of "pair_code n m"]
    by (simp add: ParseStringToStream.simps [of os] Let_def ParseEscape_def escape_table_def) (simp add: pair_code_def)
qed

lemma plain_chars: "list_all (\<lambda>c. 32 \<le> c \<and> c \<noteq> 34 \<and> c \<noteq> 92) bs \<Longrightarrow> json_chars bs bs"
  by (induction bs) (auto intro: json_chars.intros)

lemma ParseString_text: "json_chars out t \<Longrightarrow> ParseString (34 # t @ 34 # r) = Read out r"
  by (simp add: ParseString_def ParseStringToStream_text)

section \<open>Numbers\<close>

definition dec :: "nat \<Rightarrow> BYTE list \<Rightarrow> nat" where
  "dec n ds = foldl (\<lambda>m c. 10 * m + unat (c - 48)) n ds"

lemma dec_simps [simp]: "dec n [] = n" "dec n (c # ds) = dec (10 * n + unat (c - 48)) ds" "dec n (ds @ es) = dec (dec n ds) es"
  by (simp_all add: dec_def)

lemma dec_mono: "n \<le> dec n ds"
  by (induction ds arbitrary: n) (simp, simp, metis le_add1 le_trans mult_le_mono1 mult_1 one_le_numeral trans_le_add1)

lemma digit_table:
  "list_all (\<lambda>d. digit (word_of_nat (48 + d)) \<and> unat (word_of_nat (48 + d) - (48 :: BYTE)) = d) [0..<10]"
  by (simp add: upt_rec digit_def)

lemma digit_char: "d < 10 \<Longrightarrow> digit (word_of_nat (48 + d))" "d < 10 \<Longrightarrow> unat (word_of_nat (48 + d) - (48 :: BYTE)) = d"
  using digit_table unfolding list_all_iff set_upt by auto

lemmas digit_char_simps [simp] = digit_char [simplified]

lemma decimal_digits: "list_all digit (decimal n) \<and> dec 0 (decimal n) = n \<and> decimal n \<noteq> []"
proof (induction n rule: decimal.induct)
  case (1 n)
  then show ?case
    by (cases "n < 10") (simp_all add: decimal.simps [of n] digit_char)
qed

lemma decimal_first: "0 < n \<Longrightarrow> \<exists>d ds. decimal n = word_of_nat (48 + d) # ds \<and> 1 \<le> d \<and> d < 10"
proof (induction n rule: decimal.induct)
  case (1 n)
  show ?case
  proof (cases "n < 10")
    case False
    then obtain d ds where "decimal (n div 10) = word_of_nat (48 + d) # ds" "1 \<le> d" "d < 10"
      using 1(1) div_greater_zero_iff [of n 10] by (auto simp del: of_nat_add)
    then show ?thesis using False by (simp add: decimal.simps [of n] del: word_of_nat_eq_0_iff of_nat_add) blast
  qed (use 1(2) in \<open>simp add: decimal.simps [of n], metis One_nat_def Suc_leI\<close>)
qed

text \<open>The digit loop reads as many digits as fit below the bound \<open>b\<close> its two constants stand for.\<close>

lemma read_digits_split:
  assumes "list_all digit ds" and "\<not> digit (Peek r)" and "unat limit = b div 10" and "unat lastd = 48 + b mod 10"
    and "b < 2 ^ LENGTH('a)" and "4 \<le> LENGTH('a)" and "unat (i :: 'a::len word) \<le> b"
  shows "\<exists>es fs. ds = es @ fs \<and> (fs = [] \<longleftrightarrow> dec (unat i) ds \<le> b) \<and> dec (unat i) es \<le> b
    \<and> read_digits limit lastd i sig (ds @ r) = (word_of_nat (dec (unat i) es), fs \<noteq> [], sig + length es, fs @ r)"
  using assms(1,7)
proof (induction ds arbitrary: i sig)
  case Nil
  then show ?case using assms(2) by (cases r) auto
next
  case (Cons c ds)
  let ?i = "i * 10 + ucast (c - 48)"
  have c: "digit c" "48 \<le> unat c" "unat c \<le> 57" using Cons.prems(1) by (simp_all add: digit_def word_le_nat_alt)
  have d: "unat (c - 48) = unat c - 48" using c(2) by (simp add: unat_sub word_le_nat_alt)
  have stop: "(limit \<le> i \<and> (i \<noteq> limit \<or> lastd < c)) \<longleftrightarrow> b < 10 * unat i + unat (c - 48)"
  proof -
    have "b = 10 * (b div 10) + b mod 10" "b mod 10 < 10" by simp_all
    then show ?thesis unfolding word_le_nat_alt word_less_nat_alt word_unat_eq_iff assms(3,4) d using c(2,3) by arith
  qed
  show ?case
  proof (cases "b < 10 * unat i + unat (c - 48)")
    case True
    then have "b < dec (unat i) (c # ds)" using dec_mono [of "10 * unat i + unat (c - 48)" ds] by simp
    moreover have "read_digits limit lastd i sig ((c # ds) @ r) = (i, True, sig, (c # ds) @ r)"
      using c(1) stop True by simp
    ultimately show ?thesis using Cons.prems(2) by (intro exI [of _ "[]"] exI [of _ "c # ds"]) (auto simp del: read_digits.simps)
  next
    case False
    have small: "unat (c - 48) < 2 ^ 4" using d c(3) by simp
    then have "unat (ucast (c - 48) :: 'a word) = unat (c - 48)"
      using less_le_trans [OF small power_increasing [OF assms(6), of 2]] by (simp add: unsigned_ucast_eq take_bit_nat_eq_self)
    moreover have "unat (10 :: 'a word) = 10"
      using less_le_trans [OF _ power_increasing [OF assms(6), of "2 :: nat"], of 10] by (simp add: take_bit_nat_eq_self unsigned_numeral)
    ultimately have i': "unat ?i = 10 * unat i + unat (c - 48)"
      using False assms(5) by (simp add: unat_word_ariths mod_add_left_eq mult.commute)
    have ds: "list_all digit ds" using Cons.prems(1) by simp
    have le: "unat ?i \<le> b" using False i' by simp
    obtain es fs where "ds = es @ fs" "fs = [] \<longleftrightarrow> dec (unat ?i) ds \<le> b" "dec (unat ?i) es \<le> b"
        "read_digits limit lastd ?i (Suc sig) (ds @ r) = (word_of_nat (dec (unat ?i) es), fs \<noteq> [], Suc sig + length es, fs @ r)"
      using Cons.IH [OF ds le, of "Suc sig"] by blast
    then show ?thesis using c(1) stop False i' by (intro exI [of _ "c # es"] exI [of _ fs]) auto
  qed
qed

lemma read_digits_fits:
  assumes "list_all digit ds" and "\<not> digit (Peek r)" and "unat limit = b div 10" and "unat lastd = 48 + b mod 10"
    and "b < 2 ^ LENGTH('a)" and "4 \<le> LENGTH('a)" and "unat (i :: 'a::len word) \<le> b" and "dec (unat i) ds \<le> b"
  shows "read_digits limit lastd i sig (ds @ r) = (word_of_nat (dec (unat i) ds), False, sig + length ds, r)"
  using read_digits_split [OF assms(1-7), of sig] assms(8) by auto

text \<open>What may follow a number.\<close>

definition number_stop :: "BYTE list \<Rightarrow> bool" where
  "number_stop r \<longleftrightarrow> \<not> digit (Peek r) \<and> Peek r \<noteq> 46 \<and> Peek r \<noteq> 101 \<and> Peek r \<noteq> 69"

definition bound32 :: "bool \<Rightarrow> nat" where "bound32 neg = (if neg then 2147483648 else 4294967295)"
definition bound64 :: "bool \<Rightarrow> nat" where "bound64 neg = (if neg then 9223372036854775808 else 18446744073709551615)"

text \<open>The two integer loops together: the magnitude, in 32 bits when it fits.\<close>

lemma ParseInts:
  assumes "n \<le> bound64 neg" and "\<not> digit (Peek r)"
  shows "\<exists>i sig s. ParseInt neg (decimal n @ r) = Some (i, bound32 neg < n, sig, s) \<and> (n \<le> bound32 neg \<longrightarrow> i = word_of_nat n)
    \<and> (\<exists>sig'. ParseInt64 neg (bound32 neg < n) i sig s = (word_of_nat n, False, sig', r))"
proof (cases "n = 0")
  case True
  then show ?thesis by (simp add: decimal.simps [of 0] ParseInt_def ParseInt64_def)
next
  case False
  then obtain d ds where d: "decimal n = word_of_nat (48 + d) # ds" "1 \<le> d" "d < 10" using decimal_first by blast
  have ds: "list_all digit ds" "dec d ds = n" using decimal_digits [of n] d by (simp_all add: d(1))
  have u: "unat (word_of_nat (48 + d) :: BYTE) = 48 + d" using d(3) by (simp add: unat_of_nat take_bit_nat_eq_self del: of_nat_add)
  have peek: "Peek (decimal n @ r) \<noteq> 48" "49 \<le> Peek (decimal n @ r)" "Peek (decimal n @ r) \<le> 57"
    using d u by (auto simp: word_le_nat_alt word_unat_eq_iff simp del: of_nat_add)
  let ?i = "ucast (Peek (decimal n @ r) - 48) :: uint32"
  have i: "unat ?i = d" using d(3) by (simp add: d(1) unsigned_ucast_eq take_bit_nat_eq_self)
  have b: "unat ?i \<le> bound32 neg" using d(3) by (simp add: i bound32_def)
  let ?lim = "if neg then 214748364 else 429496729 :: uint32" and ?last = "if neg then 56 else 53 :: BYTE"
  have lims: "unat ?lim = bound32 neg div 10" "unat ?last = 48 + bound32 neg mod 10" "bound32 neg < 2 ^ LENGTH(32)"
    by (simp_all add: bound32_def)
  have len: "4 \<le> LENGTH(32)" by simp
  obtain es fs where es: "ds = es @ fs" "(fs = []) = (dec d ds \<le> bound32 neg)" "dec d es \<le> bound32 neg"
      "read_digits ?lim ?last ?i 0 (ds @ r) = (word_of_nat (dec d es), fs \<noteq> [], 0 + length es, fs @ r)"
    using read_digits_split [OF ds(1) assms(2) lims len b, of 0, unfolded i] by (elim exE conjE) (rule that)
  have e: "unat (word_of_nat (dec d es) :: uint32) = dec d es"
    using es(3) by (simp add: unat_of_nat take_bit_nat_eq_self bound32_def split: if_splits)
  have P: "ParseInt neg (decimal n @ r) = Some (word_of_nat (dec d es), bound32 neg < n, length es, fs @ r)"
    using es(2,4) ds(2) peek d(1) by (cases neg) (auto simp: ParseInt_def Let_def not_le)
  let ?lim64 = "if neg then 0x0CCCCCCCCCCCCCCC else 0x1999999999999999 :: uint64"
  have u64: "unat (ucast (word_of_nat (dec d es) :: uint32) :: uint64) = dec d es"
    using es(3) by (simp add: unsigned_ucast_eq e take_bit_nat_eq_self bound32_def split: if_splits)
  have fin: "dec (unat (ucast (word_of_nat (dec d es) :: uint32) :: uint64)) fs = n" using ds(2) es(1) u64 by simp
  have fin': "dec (dec d es) fs = n" using fin u64 by simp
  have "read_digits ?lim64 ?last (ucast (word_of_nat (dec d es) :: uint32)) (length es) (fs @ r) = (word_of_nat n, False, length es + length fs, r)"
    using assms(1) ds(1) es(1,3)
    by (subst read_digits_fits [where b = "bound64 neg"]) (simp_all add: fin fin' assms(2) u64 bound64_def bound32_def split: if_splits)
  moreover have "(ucast (word_of_nat (dec d es) :: uint32) :: uint64) = word_of_nat (dec d es)"
    using es(3) u64 by (simp add: word_unat_eq_iff unat_of_nat take_bit_nat_eq_self bound32_def split: if_splits)
  moreover have "n \<le> bound32 neg \<Longrightarrow> fs = [] \<and> dec d es = n" using es(1,2) ds(2) by auto
  ultimately show ?thesis using P by (cases neg) (auto simp: ParseInt64_def not_less)
qed

lemma sint_neg: "n \<le> 2 ^ (LENGTH('a) - 1) \<Longrightarrow> sint (NOT (word_of_nat n) + 1 :: 'a::len word) = - int n"
proof -
  assume n: "n \<le> 2 ^ (LENGTH('a) - 1)"
  have "NOT (word_of_nat n) + 1 = (word_of_int (- int n) :: 'a word)" by (simp add: minus_eq_not_plus_1 [symmetric])
  then have "sint (NOT (word_of_nat n) + 1 :: 'a word) = signed_take_bit (LENGTH('a) - 1) (- int n)"
    by (simp only: sint_sbintrunc')
  moreover have "int n \<le> 2 ^ (LENGTH('a) - 1)" using n by (metis of_nat_le_iff of_nat_numeral of_nat_power)
  moreover have "- int n < 2 ^ (LENGTH('a) - 1)" by (rule le_less_trans [of _ 0]) simp_all
  ultimately show ?thesis by (simp add: signed_take_bit_int_eq_self)
qed

lemma ParseNumber_text:
  assumes "- 9223372036854775808 \<le> n" and "n < 18446744073709551616" and "number_stop r"
  shows "ParseNumber ops (int_text n @ r) = Read (json_int n) r"
proof -
  let ?neg = "n < 0" and ?m = "if n < 0 then nat (- n) else nat n"
  have m: "?m \<le> bound64 ?neg" using assms(1,2) by (auto simp: bound64_def)
  have stop: "\<not> digit (Peek r)" "Peek r \<noteq> 46" "Peek r \<noteq> 101" "Peek r \<noteq> 69" using assms(3) by (simp_all add: number_stop_def)
  obtain i sig s sig' where P: "ParseInt ?neg (decimal ?m @ r) = Some (i, bound32 ?neg < ?m, sig, s)" "?m \<le> bound32 ?neg \<longrightarrow> i = word_of_nat ?m"
      "ParseInt64 ?neg (bound32 ?neg < ?m) i sig s = (word_of_nat ?m, False, sig', r)"
    using ParseInts [OF m stop(1)] by blast
  have C: "Consume [45] (int_text n @ r) = (?neg, decimal ?m @ r)"
  proof (cases "n < 0")
    case False
    have "Peek (decimal (nat n) @ r) \<noteq> 45"
    proof (cases "n = 0")
      case False
      then obtain d ds where "decimal (nat n) = word_of_nat (48 + d) # ds" "d < 10" using \<open>\<not> n < 0\<close> decimal_first [of "nat n"] by auto
      then show ?thesis using unat_of_nat [where ?'a = 8, of "48 + d"] by (auto simp: take_bit_nat_eq_self word_unat_eq_iff simp del: of_nat_add)
    qed (simp add: decimal.simps [of 0])
    then show ?thesis using False decimal_digits [of "nat n"] by (cases "decimal (nat n)") (auto simp: int_text_def)
  qed (simp add: int_text_def)
  have "(number_event ?neg (bound32 ?neg < ?m) i (word_of_nat ?m) :: 'a json) = json_int n"
    using P(2) assms(1,2) sint_neg [of ?m, where ?'a = 32] sint_neg [of ?m, where ?'a = 64]
    by (auto simp: number_event_def json_int_def bound32_def not_le word_of_nat_eq_iff)
  then show ?thesis unfolding ParseNumber_def C Let_def prod.case P(1) option.case P(3) if_False
    using stop by (simp add: ParseFrac_def ParseExp_def)
qed

section \<open>Values\<close>

lemma ParseLiteral_text: "ParseLiteral rest v (c # rest @ r) = Read v r"
proof -
  have "Consume cs (cs @ r) = (True, r)" for cs by (induction cs) simp_all
  then show ?thesis by (simp add: ParseLiteral_def)
qed

lemma int_text_first: "\<exists>c t. int_text n = c # t \<and> (digit c \<or> c = 45)"
  using decimal_digits [of "nat n"] by (cases "decimal (nat n)") (auto simp: int_text_def)

text \<open>How a value's text begins.\<close>

definition value_start :: "BYTE \<Rightarrow> bool" where
  "value_start c \<longleftrightarrow> c = 110 \<or> c = 116 \<or> c = 102 \<or> c = 34 \<or> c = 123 \<or> c = 91 \<or> c = 45 \<or> digit c"

lemma text_first: "json_text v t \<Longrightarrow> \<exists>c t'. t = c # t' \<and> value_start c"
  by (erule json_text.cases) (use int_text_first in \<open>fastforce simp: value_start_def bytes_of_def\<close>)+

lemma not_digits [simp]: "\<not> digit 110" "\<not> digit 116" "\<not> digit 102" "\<not> digit 34" "\<not> digit 123" "\<not> digit 91"
    "\<not> digit 93" "\<not> digit 125" "\<not> digit 44" "\<not> digit 45"
  by (simp_all add: digit_def)

lemma not_spaces [simp]: "\<not> is_space 44" "\<not> is_space 58" "\<not> is_space 93" "\<not> is_space 125" "\<not> is_space 34"
  by (simp_all add: is_space_def)

lemma value_start_stops [simp]: "value_start c \<Longrightarrow> \<not> is_space c" "value_start c \<Longrightarrow> c \<noteq> 93"
  by (auto simp: value_start_def is_space_def digit_def)

lemma stop_after_spaces: "spaces w \<Longrightarrow> number_stop [c] \<Longrightarrow> number_stop (w @ c # r)"
  by (cases w) (auto simp: number_stop_def spaces_def digit_def)

lemma elements_first: "elements_text vs t \<Longrightarrow> \<exists>c t'. t = c # t' \<and> value_start c"
  by (cases vs t rule: elements_text.cases) (auto dest!: text_first)

lemma members_first: "members_text ms t \<Longrightarrow> \<exists>t'. t = 34 # t'"
  by (cases ms t rule: members_text.cases) auto

lemma text_parses:
  "json_text v t \<Longrightarrow> number_stop r \<Longrightarrow> length t < k \<Longrightarrow> ParseValue ops k (t @ r) = Read v r"
  "elements_text vs t \<Longrightarrow> length t \<le> k \<Longrightarrow> length t \<le> j \<Longrightarrow> ParseElements (ParseValue ops k) j vs' (t @ r) = Read (JArray (vs' @ vs)) r"
  "members_text ms t \<Longrightarrow> length t \<le> k \<Longrightarrow> length t \<le> j \<Longrightarrow> ParseMembers (ParseValue ops k) j ms' (t @ r) = Read (JObject (ms' @ ms)) r"
proof (induction arbitrary: r k and r k j vs' and r k j ms' rule: json_text_elements_text_members_text.inducts)
  case text_null
  then show ?case using ParseLiteral_text [of "bytes_of ''ull''" JNull 110 r] by (cases k) (simp_all add: ParseNull_def bytes_of_def)
next
  case text_true
  then show ?case using ParseLiteral_text [of "bytes_of ''rue''" "JBool True" 116 r] by (cases k) (simp_all add: ParseTrue_def bytes_of_def)
next
  case text_false
  then show ?case using ParseLiteral_text [of "bytes_of ''alse''" "JBool False" 102 r] by (cases k) (simp_all add: ParseFalse_def bytes_of_def)
next
  case (text_int n)
  then obtain c t where c: "int_text n = c # t" "digit c \<or> c = 45" using int_text_first [of n] by blast
  have "c \<noteq> 110 \<and> c \<noteq> 116 \<and> c \<noteq> 102 \<and> c \<noteq> 34 \<and> c \<noteq> 123 \<and> c \<noteq> 91" using c(2) by auto
  then show ?case using ParseNumber_text [OF text_int(1-3)] text_int(4) c(1) by (cases k) (simp_all add: Let_def)
next
  case (text_string out t)
  then show ?case using ParseString_text [OF text_string(1)] by (cases k) (simp_all add: Let_def)
next
  case (text_array0 w)
  then show ?case by (cases k) (simp_all add: Let_def ParseArray_def SkipWhitespace_spaces)
next
  case (text_array w vs t)
  obtain c t' where c: "t = c # t'" "value_start c" using elements_first [OF text_array(2)] by blast
  obtain k' where k: "k = Suc k'" using text_array.prems(2) by (cases k) auto
  have "length t \<le> k'" using text_array.prems(2) k by simp
  then show ?case using text_array.IH [of k' k' "[]" r] text_array(1) c
    by (simp add: k Let_def ParseArray_def SkipWhitespace_spaces)
next
  case (text_object0 w)
  then show ?case by (cases k) (simp_all add: Let_def ParseObject_def SkipWhitespace_spaces)
next
  case (text_object w ms t)
  obtain t' where c: "t = 34 # t'" using members_first [OF text_object(2)] by blast
  obtain k' where k: "k = Suc k'" using text_object.prems(2) by (cases k) auto
  have "length t \<le> k'" using text_object.prems(2) k by simp
  then show ?case using text_object.IH [of k' k' "[]" r] text_object(1) c
    by (simp add: k Let_def ParseObject_def SkipWhitespace_spaces)
next
  case (elements_last v t w)
  obtain j' where j: "j = Suc j'" using elements_last.prems(2) by (cases j) auto
  have v: "ParseValue ops k (t @ w @ 93 # r) = Read v (w @ 93 # r)"
    using elements_last stop_after_spaces [OF elements_last(2), of 93 r] by (simp add: number_stop_def)
  then show ?case using elements_last(2) by (simp add: j Let_def SkipWhitespace_spaces)
next
  case (elements_more v t w w' vs ts)
  obtain j' where j: "j = Suc j'" using elements_more.prems(2) by (cases j) auto
  obtain c t' where c: "ts = c # t'" "value_start c" using elements_first [OF elements_more(4)] by blast
  have v: "ParseValue ops k (t @ w @ 44 # w' @ ts @ r) = Read v (w @ 44 # w' @ ts @ r)"
    using elements_more stop_after_spaces [OF elements_more(2), of 44 "w' @ ts @ r"] by (simp add: number_stop_def)
  then show ?case using elements_more.IH(2) [of k j' "vs' @ [v]" r] elements_more.prems elements_more(2,3) c
    by (simp add: j Let_def SkipWhitespace_spaces)
next
  case (members_last key kt w1 w2 v t w)
  obtain j' where j: "j = Suc j'" using members_last.prems(2) by (cases j) auto
  obtain c t' where c: "t = c # t'" "value_start c" using text_first [OF members_last(4)] by blast
  have "ParseValue ops k (t @ w @ 125 # r) = Read v (w @ 125 # r)"
    using members_last stop_after_spaces [OF members_last(5), of 125 r] by (simp add: number_stop_def)
  then show ?case using members_last(2,3,5) ParseString_text [OF members_last(1)] c
    by (simp add: j Let_def SkipWhitespace_spaces)
next
  case (members_more key kt w1 w2 v t w w' ms ts)
  obtain j' where j: "j = Suc j'" using members_more.prems(2) by (cases j) auto
  obtain c t' where c: "t = c # t'" "value_start c" using text_first [OF members_more(4)] by blast
  obtain ts' where d: "ts = 34 # ts'" using members_first [OF members_more(7)] by blast
  have "ParseValue ops k (t @ w @ 44 # w' @ ts @ r) = Read v (w @ 44 # w' @ ts @ r)"
    using members_more stop_after_spaces [OF members_more(5), of 44 "w' @ ts @ r"] by (simp add: number_stop_def)
  then show ?case using members_more.IH(2) [of k j' "ms' @ [(key, v)]" r] members_more.prems members_more(2,3,5,6) ParseString_text [OF members_more(1)] c d
    by (simp add: j Let_def SkipWhitespace_spaces)
qed

section \<open>Documents\<close>

lemma hex_nonzero: "hex4 n h \<Longrightarrow> 0 \<notin> set h"
proof -
  have "\<not> hex_value 0 d" for d by (simp add: hex_value_def)
  then show "hex4 n h \<Longrightarrow> 0 \<notin> set h" by (elim hex4.cases) auto
qed

lemma chars_nonzero: "json_chars out t \<Longrightarrow> 0 \<notin> set t"
  by (induction rule: json_chars.induct) (auto simp: escapes_def dest: hex_nonzero)

lemma int_text_nonzero: "0 \<notin> set (int_text n)"
  using decimal_digits [of "nat n"] decimal_digits [of "nat (- n)"] by (auto simp: int_text_def list_all_iff)

lemma text_nonzero:
  "json_text (v :: 'd json) t \<Longrightarrow> 0 \<notin> set t" "elements_text (vs :: 'd json list) ts \<Longrightarrow> 0 \<notin> set ts"
  "members_text (ms :: (BYTE list \<times> 'd json) list) us \<Longrightarrow> 0 \<notin> set us"
proof (induction v t and vs ts and ms us rule: json_text_elements_text_members_text.inducts)
qed (simp_all add: bytes_of_def int_text_nonzero, auto simp: spaces_def dest: chars_nonzero)

lemma JsonParse_text:
  assumes "json_text v t" and "spaces w" and "spaces w'"
  shows "JsonParse ops (w @ t @ w') = Some (Inr v)"
proof -
  have z: "0 \<notin> set (w @ t @ w')" using assms text_nonzero(1) [OF assms(1)] by (auto simp: spaces_def)
  obtain c t' where c: "t = c # t'" "value_start c" using text_first [OF assms(1)] by blast
  have s: "SkipWhitespace (w @ t @ w') = t @ w'" using assms(2) c by (simp add: SkipWhitespace_spaces)
  have "number_stop w'" using assms(3) by (cases w') (auto simp: number_stop_def spaces_def digit_def)
  then have "ParseValue ops (Suc (length (t @ w'))) (t @ w') = Read v w'"
    by (rule text_parses(1) [OF assms(1)]) (simp only: length_append less_Suc_eq_le le_add1)
  moreover have "SkipWhitespace w' = []" using SkipWhitespace_spaces [OF assms(3), of "[]"] by simp
  ultimately show ?thesis unfolding JsonParse_def Let_def c_str_nonzero [OF z] s using c by simp
qed

end
