(* ===== verification/ServerConfig.thy ===== *)
theory ServerConfig imports JsonText begin

text \<open>
  ServerCore/ServerConfig.h and ServerConfig.cpp: reading Config.json with rapidjson and the getters.
  The file system is a parameter: whether the file exists and can be opened, and its bytes. The log
  lines are left out; a failing RAPIDJSON_ASSERT ends the process (without assertions, what follows it
  is undefined).
\<close>

section \<open>Reading the configuration\<close>

record server_config =
  cf_processName :: "BYTE list"
  cf_gameDBConnectionString :: "BYTE list"
  cf_redisIP :: "BYTE list"
  cf_redisPort :: int32
  cf_gameDBThreadCount :: int32
  cf_clientServiceThreadCount :: int32
  cf_useRIO :: bool

definition new_ServerConfig :: server_config where
  "new_ServerConfig = \<lparr>cf_processName = [], cf_gameDBConnectionString = [], cf_redisIP = [], cf_redisPort = 0,
     cf_gameDBThreadCount = 0, cf_clientServiceThreadCount = 0, cf_useRIO = False\<rparr>"

datatype config_file = Missing | Unreadable | Contents "BYTE list"

definition string_at :: "'d json \<Rightarrow> string \<Rightarrow> BYTE list result" where
  "string_at v name = bind_result (json_at v name) GetString"

definition int_at :: "'d json \<Rightarrow> string \<Rightarrow> int32 result" where
  "int_at v name = bind_result (json_at v name) GetInt"

definition bool_at :: "'d json \<Rightarrow> string \<Rightarrow> bool result" where
  "bool_at v name = bind_result (json_at v name) GetBool"

definition read_main :: "'d json \<Rightarrow> server_config \<Rightarrow> server_config result" where
  "read_main doc c =
     bind_result (json_at doc ''Main'') (\<lambda>mainValue.
     bind_result (string_at mainValue ''ProcessName'') (\<lambda>name.
     bind_result (int_at mainValue ''ThreadCount'') (\<lambda>threads.
     bind_result (bool_at mainValue ''UseRIO'') (\<lambda>rio.
       Inr (c\<lparr>cf_processName := name, cf_clientServiceThreadCount := threads, cf_useRIO := rio\<rparr>)))))"

definition connection_string :: "'d json \<Rightarrow> BYTE list result" where
  "connection_string gdbValue =
     bind_result (HasMember ''ConnectionString'' gdbValue) (\<lambda>has.
       if has then string_at gdbValue ''ConnectionString''
       else bind_result (string_at gdbValue ''ID'') (\<lambda>uid.
            bind_result (string_at gdbValue ''PWD'') (\<lambda>pwd.
            bind_result (string_at gdbValue ''DB'') (\<lambda>db.
            bind_result (string_at gdbValue ''HOST'') (\<lambda>host.
            bind_result (string_at gdbValue ''PORT'') (\<lambda>port.
              Inr (bytes_of ''DRIVER=SQL SERVER;UID='' @ uid @ bytes_of '';PWD='' @ pwd @ bytes_of '';DATABASE='' @ db
                   @ bytes_of '';SERVER='' @ host @ bytes_of '','' @ port @ bytes_of '';'')))))))"

definition read_GameDB :: "'d json \<Rightarrow> server_config \<Rightarrow> server_config result" where
  "read_GameDB doc c =
     bind_result (HasMember ''GameDB'' doc) (\<lambda>has.
       if \<not> has then Inr c
       else bind_result (json_at doc ''GameDB'') (\<lambda>gdbValue.
            bind_result (connection_string gdbValue) (\<lambda>str.
            bind_result (int_at gdbValue ''ThreadCount'') (\<lambda>threads.
              Inr (c\<lparr>cf_gameDBConnectionString := str, cf_gameDBThreadCount := threads\<rparr>)))))"

definition read_Redis :: "'d json \<Rightarrow> server_config \<Rightarrow> server_config result" where
  "read_Redis doc c =
     bind_result (HasMember ''Redis'' doc) (\<lambda>has.
       if \<not> has then Inr c
       else bind_result (json_at doc ''Redis'') (\<lambda>redisValue.
            bind_result (string_at redisValue ''IP'') (\<lambda>ip.
            bind_result (int_at redisValue ''Port'') (\<lambda>port.
              Inr (c\<lparr>cf_redisIP := ip, cf_redisPort := port\<rparr>)))))"

text \<open>The result of Parse is not tested: after a parse error the document is null.\<close>

definition ReadConfig :: "'d double_ops \<Rightarrow> config_file \<Rightarrow> server_config \<Rightarrow> (bool \<times> server_config) result" where
  "ReadConfig ops cfg c =
     (case cfg of
        Missing \<Rightarrow> Inr (False, c)
      | Unreadable \<Rightarrow> Inr (False, c)
      | Contents json \<Rightarrow>
          (case Document_Parse ops json of
             None \<Rightarrow> Inl (UndefinedBehaviour ''out of fuel'')
           | Some doc \<Rightarrow>
               bind_result (read_main doc c) (\<lambda>c1.
               bind_result (read_GameDB doc c1) (\<lambda>c2.
               bind_result (read_Redis doc c2) (\<lambda>c3. Inr (True, c3))))))"

definition GetProcessName :: "server_config \<Rightarrow> BYTE list" where "GetProcessName c = cf_processName c"
definition GetDBConnectionString :: "server_config \<Rightarrow> BYTE list" where "GetDBConnectionString c = cf_gameDBConnectionString c"
definition GetRedisIP :: "server_config \<Rightarrow> BYTE list" where "GetRedisIP c = cf_redisIP c"
definition GetRedisPort :: "server_config \<Rightarrow> int32" where "GetRedisPort c = cf_redisPort c"
definition GetGameDBThreadCount :: "server_config \<Rightarrow> int32" where "GetGameDBThreadCount c = cf_gameDBThreadCount c"
definition GetClientServiceCount :: "server_config \<Rightarrow> int32" where "GetClientServiceCount c = cf_clientServiceThreadCount c"
definition GetUseRIO :: "server_config \<Rightarrow> bool" where "GetUseRIO c = cf_useRIO c"

section \<open>What can go wrong\<close>

definition assert_failed :: fault where "assert_failed = Crash ''RAPIDJSON_ASSERT''"

text \<open>A reading that can only fail by an assertion.\<close>

definition asserting :: "'a result \<Rightarrow> bool" where
  "asserting r \<longleftrightarrow> (case r of Inl f \<Rightarrow> f = assert_failed | Inr _ \<Rightarrow> True)"

named_theorems asserting_rules \<open>readings that can only fail by an assertion\<close>

lemma asserting_Inr [simp]: "asserting (Inr x)"
  by (simp add: asserting_def)

lemma asserting_failed [simp]: "asserting (Inl (Crash ''RAPIDJSON_ASSERT''))"
  by (simp add: asserting_def assert_failed_def)

lemma asserting_bind [asserting_rules]: "asserting m \<Longrightarrow> (\<And>x. asserting (f x)) \<Longrightarrow> asserting (bind_result m f)"
  by (cases m) (simp_all add: asserting_def)

lemma asserting_assert [asserting_rules]: "asserting k \<Longrightarrow> asserting (RAPIDJSON_ASSERT b k)"
  by (simp add: asserting_def RAPIDJSON_ASSERT_def assert_failed_def)

lemma asserting_json [asserting_rules]:
  "asserting (HasMember name v)" "asserting (json_at v name)" "asserting (GetString v)" "asserting (GetInt v)" "asserting (GetBool v)"
proof -
  have find: "asserting (FindMember name v)" unfolding FindMember_def by (rule asserting_assert) simp
  show "asserting (HasMember name v)" "asserting (json_at v name)"
    unfolding HasMember_def json_at_def by (auto intro!: asserting_bind find asserting_assert split: option.split)
  show "asserting (GetString v)" "asserting (GetInt v)" "asserting (GetBool v)"
    unfolding GetString_def GetInt_def GetBool_def by (auto intro!: asserting_assert split: json.split)
qed

lemma asserting_at [asserting_rules]: "asserting (string_at v name)" "asserting (int_at v name)" "asserting (bool_at v name)"
  unfolding string_at_def int_at_def bool_at_def by (intro asserting_rules)+

lemma asserting_sections [asserting_rules]: "asserting (read_main doc c)" "asserting (read_GameDB doc c)" "asserting (read_Redis doc c)"
  unfolding read_main_def read_GameDB_def read_Redis_def connection_string_def
  by (auto intro!: asserting_rules simp del: bind_result.simps)

lemma Document_Parse_total: "\<exists>doc. Document_Parse ops bs = Some doc"
  using JsonParse_total [of ops bs] by (auto simp: Document_Parse_def)

lemma ReadConfig_asserting: "asserting (ReadConfig ops cfg c)"
proof (cases cfg)
  case (Contents bs)
  obtain doc where "Document_Parse ops bs = Some doc" using Document_Parse_total by blast
  then show ?thesis using Contents by (auto simp: ReadConfig_def intro!: asserting_rules)
qed (simp_all add: ReadConfig_def)

lemma ReadConfig_false: "ReadConfig ops cfg c = Inr (False, c') \<longleftrightarrow> (cfg = Missing \<or> cfg = Unreadable) \<and> c' = c"
proof (cases cfg)
  case (Contents bs)
  obtain doc where "Document_Parse ops bs = Some doc" using Document_Parse_total by blast
  then show ?thesis using Contents by (auto simp: ReadConfig_def bind_result_Inr_iff)
qed (auto simp: ReadConfig_def)

lemma ReadConfig_malformed:
  assumes "JsonParse ops bs = Some (Inl e)"
  shows "ReadConfig ops (Contents bs) c = Inl assert_failed"
  using assms by (simp add: ReadConfig_def Document_Parse_def read_main_def json_at_def FindMember_def assert_failed_def)

section \<open>What a configuration says\<close>

type_synonym 'd members = "(BYTE list \<times> 'd json) list"

definition member_is :: "'d members \<Rightarrow> string \<Rightarrow> 'd json \<Rightarrow> bool" where
  "member_is ms name v \<longleftrightarrow> DoFindMember (bytes_of name) ms = Some v"

definition int_member :: "'d members \<Rightarrow> string \<Rightarrow> int32 \<Rightarrow> bool" where
  "int_member ms name n \<longleftrightarrow> member_is ms name (json_int n) \<and> - 2147483648 \<le> n \<and> n < 2147483648"

definition main_says :: "'d members \<Rightarrow> BYTE list \<Rightarrow> int32 \<Rightarrow> bool \<Rightarrow> bool" where
  "main_says ms name threads rio \<longleftrightarrow> (\<exists>mm. member_is ms ''Main'' (JObject mm) \<and> member_is mm ''ProcessName'' (JString name)
     \<and> int_member mm ''ThreadCount'' threads \<and> member_is mm ''UseRIO'' (JBool rio))"

definition db_says :: "'d members \<Rightarrow> (BYTE list \<times> int32) option \<Rightarrow> bool" where
  "db_says ms db \<longleftrightarrow> (case db of
       None \<Rightarrow> DoFindMember (bytes_of ''GameDB'') ms = None
     | Some (str, threads) \<Rightarrow> \<exists>gm. member_is ms ''GameDB'' (JObject gm) \<and> member_is gm ''ConnectionString'' (JString str)
         \<and> int_member gm ''ThreadCount'' threads)"

definition redis_says :: "'d members \<Rightarrow> (BYTE list \<times> int32) option \<Rightarrow> bool" where
  "redis_says ms redis \<longleftrightarrow> (case redis of
       None \<Rightarrow> DoFindMember (bytes_of ''Redis'') ms = None
     | Some (ip, port) \<Rightarrow> \<exists>rm. member_is ms ''Redis'' (JObject rm) \<and> member_is rm ''IP'' (JString ip) \<and> int_member rm ''Port'' port)"

definition set_db :: "(BYTE list \<times> int32) option \<Rightarrow> server_config \<Rightarrow> server_config" where
  "set_db db c = (case db of None \<Rightarrow> c
     | Some (str, threads) \<Rightarrow> c\<lparr>cf_gameDBConnectionString := c_str str, cf_gameDBThreadCount := threads\<rparr>)"

definition set_redis :: "(BYTE list \<times> int32) option \<Rightarrow> server_config \<Rightarrow> server_config" where
  "set_redis redis c = (case redis of None \<Rightarrow> c | Some (ip, port) \<Rightarrow> c\<lparr>cf_redisIP := c_str ip, cf_redisPort := port\<rparr>)"

lemma json_at_member [simp]: "member_is ms name v \<Longrightarrow> json_at (JObject ms) name = Inr v"
  by (simp add: json_at_def FindMember_def member_is_def)

lemma HasMember_simps [simp]:
  "member_is ms name v \<Longrightarrow> HasMember name (JObject ms) = Inr True"
  "DoFindMember (bytes_of name) ms = None \<Longrightarrow> HasMember name (JObject ms) = Inr False"
  by (simp_all add: HasMember_def FindMember_def member_is_def)

lemma string_at_member [simp]: "member_is ms name (JString s) \<Longrightarrow> string_at (JObject ms) name = Inr (c_str s)"
  by (simp add: string_at_def GetString_def)

lemma bool_at_member [simp]: "member_is ms name (JBool b) \<Longrightarrow> bool_at (JObject ms) name = Inr b"
  by (simp add: bool_at_def GetBool_def)

lemma uint_of_int: "0 \<le> n \<Longrightarrow> n < 4294967296 \<Longrightarrow> uint (word_of_int n :: uint32) = n"
  by (simp add: unsigned_of_int take_bit_int_eq_self)

lemma small_uint32: "n < 2147483648 \<Longrightarrow> 0 \<le> n \<Longrightarrow> (word_of_int n :: uint32) AND 0x80000000 = 0"
proof -
  assume n: "n < 2147483648" "0 \<le> n"
  have "take_bit 31 (word_of_int n :: uint32) = word_of_int n"
    using n by (simp add: word_uint_eq_iff unsigned_take_bit_eq uint_of_int take_bit_int_eq_self)
  moreover have "take_bit 31 w AND push_bit 31 1 = 0" for w :: uint32
    by (rule bit_eqI) (simp only: bit_and_iff bit_push_bit_iff bit_take_bit_iff bit_1_iff, auto)
  moreover have "(0x80000000 :: uint32) = push_bit 31 1" by simp
  ultimately show ?thesis by metis
qed

lemma int_at_member [simp]: "int_member ms name n \<Longrightarrow> int_at (JObject ms) name = Inr n"
  by (auto simp: int_member_def int_at_def GetInt_def json_int_def small_uint32 to_int32_id uint_of_int)

lemma ReadConfig_document:
  assumes "JsonParse ops bs = Some (Inr (JObject ms))" and "main_says ms name threads rio" and "db_says ms db" and "redis_says ms redis"
  shows "ReadConfig ops (Contents bs) c = Inr (True, set_redis redis (set_db db
    (c\<lparr>cf_processName := c_str name, cf_clientServiceThreadCount := threads, cf_useRIO := rio\<rparr>)))"
proof -
  have "read_main (JObject ms) c = Inr (c\<lparr>cf_processName := c_str name, cf_clientServiceThreadCount := threads, cf_useRIO := rio\<rparr>)" for c
    using assms(2) by (auto simp: main_says_def read_main_def)
  moreover have "read_GameDB (JObject ms) c = Inr (set_db db c)" for c
    using assms(3) by (auto simp: db_says_def read_GameDB_def set_db_def connection_string_def split: option.splits)
  moreover have "read_Redis (JObject ms) c = Inr (set_redis redis c)" for c
    using assms(4) by (auto simp: redis_says_def read_Redis_def set_redis_def split: option.splits)
  ultimately show ?thesis using assms(1) by (simp add: ReadConfig_def Document_Parse_def)
qed

section \<open>The configuration in the repository\<close>

text \<open>GameServer/Config.json, byte for byte. It holds no fraction, so any double arithmetic will do.\<close>

definition no_doubles :: "unit double_ops" where
  "no_doubles = \<lparr>dop_of = (\<lambda>_. ()), dop_digit = (\<lambda>_ _. ()), dop_positive = (\<lambda>_. True), dop_scale = (\<lambda>_ _. ()),
     dop_overflow = (\<lambda>_. False), dop_neg = (\<lambda>_. ())\<rparr>"

definition Config_json :: "BYTE list" where
  "Config_json = [
    123, 10, 32, 32, 34, 77, 97, 105, 110, 34, 58, 32, 123, 10, 32, 32, 32, 32, 34, 80, 114, 111, 99, 101,
    115, 115, 78, 97, 109, 101, 34, 58, 32, 34, 71, 97, 109, 101, 83, 101, 114, 118, 101, 114, 34, 44, 10, 32,
    32, 32, 32, 34, 84, 104, 114, 101, 97, 100, 67, 111, 117, 110, 116, 34, 58, 32, 56, 44, 10, 32, 32, 32,
    32, 34, 85, 115, 101, 82, 73, 79, 34, 32, 58, 32, 116, 114, 117, 101, 10, 32, 32, 125, 44, 10, 10, 32,
    32, 34, 71, 97, 109, 101, 68, 66, 34, 58, 32, 123, 10, 32, 32, 32, 32, 34, 67, 111, 110, 110, 101, 99,
    116, 105, 111, 110, 83, 116, 114, 105, 110, 103, 34, 58, 32, 34, 68, 114, 105, 118, 101, 114, 61, 123, 79, 68,
    66, 67, 32, 68, 114, 105, 118, 101, 114, 32, 49, 55, 32, 102, 111, 114, 32, 83, 81, 76, 32, 83, 101, 114,
    118, 101, 114, 125, 59, 83, 101, 114, 118, 101, 114, 61, 40, 76, 111, 99, 97, 108, 68, 66, 41, 92, 92, 77,
    83, 83, 81, 76, 76, 111, 99, 97, 108, 68, 66, 59, 68, 97, 116, 97, 98, 97, 115, 101, 61, 71, 97, 109,
    101, 59, 84, 114, 117, 115, 116, 101, 100, 95, 67, 111, 110, 110, 101, 99, 116, 105, 111, 110, 61, 89, 101, 115,
    59, 34, 44, 10, 32, 32, 32, 32, 34, 84, 104, 114, 101, 97, 100, 67, 111, 117, 110, 116, 34, 58, 32, 56,
    10, 32, 32, 125, 44, 10, 10, 32, 32, 34, 82, 101, 100, 105, 115, 34, 58, 32, 123, 10, 32, 32, 32, 32,
    34, 73, 80, 34, 58, 32, 34, 49, 50, 55, 46, 48, 46, 48, 46, 49, 34, 44, 10, 32, 32, 32, 32, 34,
    80, 111, 114, 116, 34, 58, 32, 54, 51, 55, 52, 10, 32, 32, 125, 10, 125]"

definition shipped :: server_config where
  "shipped = \<lparr>cf_processName = bytes_of ''GameServer'',
     cf_gameDBConnectionString = bytes_of ''Driver={ODBC Driver 17 for SQL Server};Server=(LocalDB)'' @ [92]
       @ bytes_of ''MSSQLLocalDB;Database=Game;Trusted_Connection=Yes;'',
     cf_redisIP = bytes_of ''127.0.0.1'', cf_redisPort = 6374, cf_gameDBThreadCount = 8, cf_clientServiceThreadCount = 8,
     cf_useRIO = True\<rparr>"

lemma ReadConfig_shipped: "ReadConfig no_doubles (Contents Config_json) new_ServerConfig = Inr (True, shipped)"
  by code_simp

end
