(* ===== verification/ClientSessions.thy ===== *)
theory ClientSessions imports Network PacketHandler begin

text \<open>
  GameServer/ClientSession.cpp and ClientSessionManager.h and .cpp: the set of clients that
  OnConnected and OnDisconnected keep, ClientSession::Send and Broadcast, on top of the network, its
  service and the send buffers. A session calls OnConnected and OnDisconnected through its callbacks, so
  the set of clients is what the callbacks in the sessions' traces have made of the empty set. A client
  is known by the number of its session.
\<close>

section \<open>The clients\<close>

text \<open>The casts of ClientSessionManager never yield null for a session that is not null.\<close>

definition clients_OnConnected :: "nat option \<Rightarrow> nat set \<Rightarrow> nat set" where
  "clients_OnConnected session clients = (case session of None \<Rightarrow> clients | Some cs \<Rightarrow> insert cs clients)"

definition clients_OnDisconnected :: "nat option \<Rightarrow> nat set \<Rightarrow> nat set" where
  "clients_OnDisconnected session clients = (case session of None \<Rightarrow> clients | Some cs \<Rightarrow> clients - {cs})"

definition client_callback :: "nat \<Rightarrow> io_call \<Rightarrow> nat set \<Rightarrow> nat set" where
  "client_callback i c clients =
     (case c of
        Cb_OnConnected \<Rightarrow> clients_OnConnected (Some i) clients
      | Cb_OnDisconnected \<Rightarrow> clients_OnDisconnected (Some i) clients
      | _ \<Rightarrow> clients)"

text \<open>A call changes the membership of the session it comes from only.\<close>

definition clients :: "network \<Rightarrow> nat set" where
  "clients nw = {i. i \<in> foldr (client_callback i) (nw_trace nw i) {}}"

text \<open>Every session's calls are none, OnConnected, or OnConnected and then OnDisconnected.\<close>

definition calls_inv :: "network \<Rightarrow> bool" where
  "calls_inv nw \<longleftrightarrow> (\<forall>i. connect_calls (nw_trace nw i) \<in> {[], [Cb_OnConnected], [Cb_OnDisconnected, Cb_OnConnected]})"

lemma foldr_callbacks: "foldr (client_callback i) tr cs = foldr (client_callback i) (connect_calls tr) cs"
proof (induction tr)
  case (Cons c tr)
  then show ?case by (cases c) (simp_all add: client_callback_def)
qed simp

lemma live_calls:
  assumes "calls_inv nw"
  shows "i \<in> live nw \<longleftrightarrow> connect_calls (nw_trace nw i) = [Cb_OnConnected]"
proof -
  have "connect_calls (nw_trace nw i) \<in> {[], [Cb_OnConnected], [Cb_OnDisconnected, Cb_OnConnected]}"
    using assms unfolding calls_inv_def by blast
  moreover have "i \<in> live nw \<longleftrightarrow> Cb_OnConnected \<in> set (connect_calls (nw_trace nw i)) \<and> Cb_OnDisconnected \<notin> set (connect_calls (nw_trace nw i))"
    by (simp add: live_def)
  ultimately show ?thesis by (auto simp del: in_connect_calls)
qed

lemma clients_live:
  assumes "calls_inv nw"
  shows "clients nw = live nw"
proof -
  have "i \<in> foldr (client_callback i) (nw_trace nw i) {} \<longleftrightarrow> i \<in> live nw" for i
  proof -
    have "connect_calls (nw_trace nw i) \<in> {[], [Cb_OnConnected], [Cb_OnDisconnected, Cb_OnConnected]}"
      using assms unfolding calls_inv_def by blast
    then show ?thesis unfolding foldr_callbacks [of i "nw_trace nw i"] live_calls [OF assms]
      by (auto simp: client_callback_def clients_OnConnected_def clients_OnDisconnected_def)
  qed
  then show ?thesis unfolding clients_def by blast
qed

section \<open>The clients are the sessions of the service\<close>

lemma none_yet:
  assumes "net_inv sys nw" and "Cb_OnConnected \<notin> set (nw_trace nw i)"
  shows "connect_calls (nw_trace nw i) = []"
proof -
  have "Cb_OnDisconnected \<notin> set (nw_trace nw i)" using assms unfolding net_inv_def sessions_inv_def by blast
  then show ?thesis using assms(2) by (auto simp: connect_calls_def filter_empty_conv)
qed

lemma event_calls:
  assumes inv: "net_inv sys nw" "calls_inv nw" and s: "nw_session nw i = Some s" and ev: "ev \<noteq> EvtConnected"
    and h: "on_session sys ev i nw = Some (Inr nw')"
  shows "calls_inv nw'"
proof -
  let ?w = "session_world i s nw"
  obtain w' where w': "handle sys ev ?w = Some (Inr w')" "nw' = store_world i w' nw"
    using h s by (auto simp: on_session_def bind_result_Inr_iff)
  have rio: "\<not> wd_useRIO ?w" by (simp add: session_world_def)
  have old: "connect_calls (nw_trace nw j) \<in> {[], [Cb_OnConnected], [Cb_OnDisconnected, Cb_OnConnected]}" for j
    using inv(2) unfolding calls_inv_def by blast
  have "connect_calls (wd_trace w') \<in> {[], [Cb_OnConnected], [Cb_OnDisconnected, Cb_OnConnected]}"
  proof (cases "ev = EvtDisconnected")
    case False
    from handle_shared [OF w'(1) rio ev this] show ?thesis using old [of i] by (simp add: keeps_def session_world_def)
  next
    case True
    note d = disconnect_shared [OF w'(1) [unfolded True]]
    have "se_self s = i" using inv(1) s unfolding net_inv_def sessions_inv_def by blast
    then have "i \<in> live nw" using d(1) inv(1)
      by (auto simp: session_world_def ReleaseSession_def ASSERT_CRASH_Inr_iff net_inv_def counts_inv_def)
    then have "connect_calls (nw_trace nw i) = [Cb_OnConnected]" using live_calls [OF inv(2)] by simp
    then show ?thesis using d(3) by (simp add: session_world_def)
  qed
  then show ?thesis using old unfolding calls_inv_def w'(2) by (simp add: store_world_def)
qed

lemma accept_calls:
  assumes inv: "net_inv sys nw" "calls_inv nw" and e: "e \<in> nw_posted nw" and r: "ProcessAccept ao sys e nw = Some (Inr nw')"
  shows "calls_inv nw'"
proof -
  let ?nw = "nw\<lparr>nw_posted := nw_posted nw - {e}\<rparr>"
  have again: "calls_inv n'" if "RegisterAccept ao d n = Some (Inr n')" "calls_inv n" for d n n'
    using RegisterAccept_result [OF that(1)] that(2) by (auto simp: accept_result_def accept_posted_def calls_inv_def)
  obtain i s where i: "nw_accept nw e = Some i" "nw_session nw i = Some s" "Cb_OnConnected \<notin> set (nw_trace nw i)"
    using inv(1) e unfolding net_inv_def slots_inv_def by blast
  have same: "calls_inv ?nw" using inv(2) by (simp add: calls_inv_def)
  show ?thesis
  proof (cases "ao_update ao i \<and> ao_peer ao i")
    case False
    then show ?thesis using r i(1) again [OF _ same] by (auto simp: ProcessAccept_def Let_def split: if_splits)
  next
    case True
    then obtain nw1 where nw1: "on_session sys EvtConnected i ?nw = Some (Inr nw1)"
      "RegisterAccept ao e (nw1\<lparr>nw_monitor := IncAcceptCount (nw_monitor nw1)\<rparr>) = Some (Inr nw')"
      using r i(1) by (auto simp: ProcessAccept_def Let_def split: option.splits sum.splits)
    obtain w' where w': "handle sys EvtConnected (session_world i s ?nw) = Some (Inr w')" "nw1 = store_world i w' ?nw"
      using nw1(1) i(2) by (auto simp: on_session_def bind_result_Inr_iff)
    have "connect_calls (wd_trace w') = [Cb_OnConnected]"
      using connect_shared(8) [OF w'(1)] none_yet [OF inv(1) i(3)] by (simp add: session_world_def)
    then have "calls_inv (nw1\<lparr>nw_monitor := IncAcceptCount (nw_monitor nw1)\<rparr>)"
      using inv(2) by (auto simp: calls_inv_def w'(2) store_world_def)
    then show ?thesis by (rule again [OF nw1(2)])
  qed
qed

theorem calls_reachable:
  assumes "reaches (net_step ao sys) nw0 nw" and "net_inv sys nw0" and "calls_inv nw0"
  shows "net_inv sys nw \<and> calls_inv nw"
  using assms
proof (induction rule: reaches.induct)
  case (reaches_step nw0 nw nw')
  then have inv: "net_inv sys nw" "calls_inv nw" by simp_all
  have "net_inv sys nw'" using net_reachable [OF reaches.reaches_step [OF reaches_step(1,2)] reaches_step(4)] by simp
  moreover from reaches_step(2) have "calls_inv nw'"
    by cases (use accept_calls [OF inv] event_calls [OF inv] in blast)+
  ultimately show ?case by blast
qed simp

lemma start_loop_traces: "start_loop ao es nw = Some (Inr nw') \<Longrightarrow> nw_trace nw' = nw_trace nw"
proof (induction es arbitrary: nw)
  case (Cons e es)
  then obtain nw1 where "RegisterAccept ao e nw = Some (Inr nw1)" "start_loop ao es nw1 = Some (Inr nw')"
    by (auto split: option.splits sum.splits)
  then show ?case using Cons.IH RegisterAccept_result by (fastforce simp: accept_result_def accept_posted_def)
qed simp

lemma start_loop_service: "start_loop ao es nw = Some (Inr nw') \<Longrightarrow> nw_service nw' = nw_service nw"
proof (induction es arbitrary: nw)
  case (Cons e es)
  then obtain nw1 where "RegisterAccept ao e nw = Some (Inr nw1)" "start_loop ao es nw1 = Some (Inr nw')"
    by (auto split: option.splits sum.splits)
  then show ?case using Cons.IH RegisterAccept_result by (fastforce simp: accept_result_def accept_posted_def)
qed simp

lemma server_calls:
  assumes "StartAccept ao True (new_network (new_Service Server f n)) = Some (Inr (True, nw0))" and "nw_created nw0 < 2 ^ 31"
    and "reaches (net_step ao sys) nw0 nw"
  shows "net_inv sys nw \<and> calls_inv nw"
proof (rule calls_reachable [OF assms(3)])
  show inv: "net_inv sys nw0" using StartAccept_inv [OF assms(1,2), of sys] by simp
  have "nw_trace nw0 i = []" for i
    using assms(1) start_loop_traces by (auto simp: StartAccept_def bind_result_Inr_iff new_network_def split: if_splits)
  then show "calls_inv nw0" by (simp add: calls_inv_def)
qed

section \<open>Broadcast\<close>

text \<open>A number for the shared_ptr of a new buffer.\<close>

definition fresh_holder :: "send_manager \<Rightarrow> nat" where
  "fresh_holder m = Suc (sum_list (map fst (sm_live m)))"

text \<open>Thread \<open>t\<close> sends the message to one client: a packet of its own in a send buffer, and Session::Send.\<close>

definition ClientSession_Send ::
  "system \<Rightarrow> nat \<Rightarrow> uint16 \<Rightarrow> BYTE list \<Rightarrow> nat \<Rightarrow> network \<times> send_manager \<Rightarrow> (network \<times> send_manager) result" where
  "ClientSession_Send sys t protocol pkt cs st =
     (case nw_session (fst st) cs of
        None \<Rightarrow> Inl NullPointer
      | Some s \<Rightarrow>
          bind_result (MakeSendBuffer t pkt protocol (snd st)) (\<lambda>(b, m).
            Inr (store_world cs (Send sys (buffer_bytes m b) (session_world cs s (fst st))) (fst st),
                 hold_buffer (fresh_holder m) b m)))"

text \<open>The loop over the unordered set, in whatever order it enumerates the clients.\<close>

primrec Broadcast ::
  "system \<Rightarrow> nat \<Rightarrow> uint16 \<Rightarrow> BYTE list \<Rightarrow> nat list \<Rightarrow> network \<times> send_manager \<Rightarrow> (network \<times> send_manager) result" where
  "Broadcast sys t protocol pkt [] st = Inr st"
| "Broadcast sys t protocol pkt (cs # rest) st =
     bind_result (ClientSession_Send sys t protocol pkt cs st) (Broadcast sys t protocol pkt rest)"

lemma fresh_holder_new: "fresh_holder m \<notin> set (map fst (sm_live m))"
proof
  assume "fresh_holder m \<in> set (map fst (sm_live m))"
  then have "fresh_holder m \<le> sum_list (map fst (sm_live m))" by (rule member_le_sum_list) simp
  then show False by (simp add: fresh_holder_def)
qed

text \<open>What a client has been sent and is still to be sent, oldest first.\<close>

definition client_history :: "network \<Rightarrow> nat \<Rightarrow> BYTE list list" where
  "client_history nw i = (case nw_session nw i of None \<Rightarrow> [] | Some s \<Rightarrow> history (session_world i s nw))"

definition client_connected :: "network \<Rightarrow> nat \<Rightarrow> bool" where
  "client_connected nw i = (case nw_session nw i of None \<Rightarrow> False | Some s \<Rightarrow> se_connected s)"

lemma client_send_ok:
  assumes inv: "net_inv sys nw" "calls_inv nw" "manager_inv m" and cs: "cs \<in> live nw" and len: "length pkt \<le> 11996"
  shows "\<exists>nw' m'. ClientSession_Send sys t protocol pkt cs (nw, m) = Inr (nw', m') \<and> net_inv sys nw' \<and> calls_inv nw' \<and> manager_inv m'
    \<and> live nw' = live nw
    \<and> client_history nw' cs = client_history nw cs @ (if client_connected nw cs then [packet_bytes pkt protocol] else [])
    \<and> (\<forall>j. j \<noteq> cs \<longrightarrow> client_history nw' j = client_history nw j \<and> client_connected nw' j = client_connected nw j)"
proof -
  obtain s where s: "nw_session nw cs = Some s"
    using cs inv(1) unfolding live_def net_inv_def sessions_inv_def by (cases "nw_session nw cs") auto
  obtain b m' where b: "MakeSendBuffer t pkt protocol m = Inr (b, m')" "manager_inv (hold_buffer (fresh_holder m) b m')"
    "buffer_bytes m' b = packet_bytes pkt protocol" "sm_live m' = sm_live m"
    using MakeSendBuffer_ok [OF inv(3) _ fresh_holder_new, of pkt t protocol] len
    by (auto simp: sizeof_PacketHeader_def SEND_BUFFER_CHUNK_SIZE_def)
  let ?w = "session_world cs s nw"
  define w' where "w' = Send sys (packet_bytes pkt protocol) ?w"
  define nw' where "nw' = store_world cs w' nw"
  have send: "on_session sys (EvtSend (packet_bytes pkt protocol)) cs nw = Some (Inr nw')"
    using s by (simp add: on_session_def handle_def w'_def nw'_def)
  have "fresh_holder m' = fresh_holder m" by (simp add: fresh_holder_def b(4))
  then have run: "ClientSession_Send sys t protocol pkt cs (nw, m) = Inr (nw', hold_buffer (fresh_holder m) b m')"
    using s b by (simp add: ClientSession_Send_def nw'_def w'_def)
  have "net_inv sys nw'" using session_event_inv [OF inv(1) s _ _ send] by (simp add: enabled_def)
  moreover have calls: "calls_inv nw'" using event_calls [OF inv(1,2) s _ send] by simp
  moreover have "live nw' = live nw"
  proof -
    have "keeps ?w w'" unfolding w'_def by (simp add: session_world_def)
    then have "Cb_OnConnected \<in> set (wd_trace w') \<longleftrightarrow> Cb_OnConnected \<in> set (nw_trace nw cs)"
      "Cb_OnDisconnected \<in> set (wd_trace w') \<longleftrightarrow> Cb_OnDisconnected \<in> set (nw_trace nw cs)"
      using keeps_calls by (simp_all add: session_world_def)
    then show ?thesis unfolding nw'_def live_store by (auto simp: live_def)
  qed
  moreover have "client_history nw' cs = client_history nw cs @ (if client_connected nw cs then [packet_bytes pkt protocol] else [])"
  proof -
    have "session_inv sys ?w" using inv(1) s unfolding net_inv_def sessions_inv_def by blast
    from Send_ok(2) [OF this, of "packet_bytes pkt protocol"] s show ?thesis
      by (simp add: client_history_def client_connected_def nw'_def store_world_def w'_def history_def session_world_def)
  qed
  moreover have "client_history nw' j = client_history nw j \<and> client_connected nw' j = client_connected nw j" if "j \<noteq> cs" for j
    using that by (auto simp: client_history_def client_connected_def nw'_def store_world_def history_def session_world_def split: option.split)
  ultimately show ?thesis using run b(2) by blast
qed

theorem Broadcast_ok:
  assumes "net_inv sys nw" "calls_inv nw" "manager_inv m" and "set order \<subseteq> live nw" and "distinct order" and "length pkt \<le> 11996"
  shows "\<exists>nw' m'. Broadcast sys t protocol pkt order (nw, m) = Inr (nw', m') \<and> net_inv sys nw' \<and> calls_inv nw' \<and> manager_inv m'
    \<and> live nw' = live nw
    \<and> (\<forall>i. client_history nw' i = client_history nw i @ (if i \<in> set order \<and> client_connected nw i then [packet_bytes pkt protocol] else []))"
  using assms(1-5)
proof (induction order arbitrary: nw m)
  case (Cons cs rest)
  have "cs \<in> live nw" using Cons.prems(4) by simp
  from client_send_ok [OF Cons.prems(1-3) this assms(6), of t protocol]
  obtain nw1 m1 where one: "ClientSession_Send sys t protocol pkt cs (nw, m) = Inr (nw1, m1)" "net_inv sys nw1" "calls_inv nw1" "manager_inv m1"
    "live nw1 = live nw" "client_history nw1 cs = client_history nw cs @ (if client_connected nw cs then [packet_bytes pkt protocol] else [])"
    "\<And>j. j \<noteq> cs \<Longrightarrow> client_history nw1 j = client_history nw j \<and> client_connected nw1 j = client_connected nw j" by blast
  obtain nw2 m2 where rest: "Broadcast sys t protocol pkt rest (nw1, m1) = Inr (nw2, m2)" "net_inv sys nw2" "calls_inv nw2" "manager_inv m2"
    "live nw2 = live nw1" "\<And>i. client_history nw2 i = client_history nw1 i @ (if i \<in> set rest \<and> client_connected nw1 i then [packet_bytes pkt protocol] else [])"
    using Cons.IH [OF one(2-4)] Cons.prems(4,5) one(5) by fastforce
  have "client_history nw2 i = client_history nw i @ (if i \<in> set (cs # rest) \<and> client_connected nw i then [packet_bytes pkt protocol] else [])" for i
    using rest(6) [of i] one(6) one(7) [of i] Cons.prems(5) by (cases "i = cs") auto
  then show ?case using one(1,5) rest by (intro exI [of _ nw2] exI [of _ m2]) simp
qed simp

end
