(* ===== verification/GameServer.thy ===== *)
theory GameServer imports ClientSessions Dispatch ServerConfig LogManager MemoryPool begin

text \<open>
  GameServer/GameServer.cpp up to the loops: Init with _ReadConfig, Socket::Init, the log, _InitGameDB,
  _InitClientService and _InitWorkerThread. It puts the components together in the order the program
  starts them. The system's answers are parameters; a worker thread counts as started, what it then does
  is in GameLoop.thy.
\<close>

section \<open>Sockets\<close>

text \<open>WSAStartup, the ioctl for each extension function and for the RIO table, the completion queues.\<close>

record server_os =
  so_startup :: bool
  so_ioctl :: "nat \<Rightarrow> bool"
  so_accept :: accept_os
  so_cq :: "nat \<Rightarrow> int"
  so_notify :: "nat \<Rightarrow> bool"

definition BindWindowsFunction :: "server_os \<Rightarrow> nat \<Rightarrow> bool" where
  "BindWindowsFunction os fn = so_ioctl os fn"

definition Socket_Init :: "server_os \<Rightarrow> bool \<Rightarrow> unit result" where
  "Socket_Init os useRIO =
     ASSERT_CRASH (so_startup os)
       (ASSERT_CRASH (BindWindowsFunction os 0)
         (ASSERT_CRASH (BindWindowsFunction os 1)
           (ASSERT_CRASH (BindWindowsFunction os 2)
             (if useRIO then ASSERT_CRASH (so_ioctl os 3) (Inr ()) else Inr ()))))"

section \<open>Starting up\<close>

record game_server =
  gs_config :: server_config
  gs_jobPool :: "unit memory_pool"
  gs_log :: log_manager
  gs_network :: network
  gs_workers :: nat

definition new_ClientService :: service where
  "new_ClientService = new_Service Server True 100"

definition new_GameServer :: game_server where
  "new_GameServer = \<lparr>gs_config = new_ServerConfig, gs_jobPool = new_MemoryPool, gs_log = new_LogManager,
     gs_network = new_network new_ClientService, gs_workers = 0\<rparr>"

definition GameServer_ReadConfig :: "'d double_ops \<Rightarrow> config_file \<Rightarrow> game_server \<Rightarrow> (bool \<times> game_server) result" where
  "GameServer_ReadConfig ops cfg gs =
     bind_result (ReadConfig ops cfg (gs_config gs)) (\<lambda>(ok, c).
       let gs1 = gs\<lparr>gs_config := c\<rparr>
       in if ok = False then Inr (False, gs1)
          else bind_result (xreserve 100000 () (gs_jobPool gs1)) (\<lambda>p. Inr (True, gs1\<lparr>gs_jobPool := p\<rparr>)))"

definition InitGameDB :: bool where
  "InitGameDB = True"

text \<open>The loop that creates the completion queues; \<open>n\<close> rounds are left.\<close>

primrec cq_loop :: "server_os \<Rightarrow> nat \<Rightarrow> nat \<Rightarrow> service \<Rightarrow> bool \<times> service" where
  "cq_loop os i 0 s = (True, s)"
| "cq_loop os i (Suc n) s =
     (let (ok, s1) = CreateRIOCQ (so_cq os i) (so_notify os i) s
      in if ok = False then (False, s1) else cq_loop os (Suc i) n s1)"

definition create_queues :: "server_os \<Rightarrow> server_config \<Rightarrow> service \<Rightarrow> bool \<times> service" where
  "create_queues os c s = (if GetUseRIO c then cq_loop os 0 (nat (GetClientServiceCount c)) s else (True, s))"

definition InitWorkerThread :: "game_server \<Rightarrow> game_server" where
  "InitWorkerThread gs = gs\<lparr>gs_workers := gs_workers gs + nat (GetClientServiceCount (gs_config gs))\<rparr>"

definition InitClientService :: "server_os \<Rightarrow> game_server \<Rightarrow> (bool \<times> game_server) result option" where
  "InitClientService os gs =
     map_option (\<lambda>r. bind_result r (\<lambda>(started, nw).
       ASSERT_CRASH started
         (let (ok, sv) = create_queues os (gs_config gs) (nw_service nw);
              gs1 = gs\<lparr>gs_network := nw\<lparr>nw_service := sv\<rparr>\<rparr>
          in if ok = False then Inr (False, gs1) else Inr (True, InitWorkerThread gs1))))
     (ServerService_Start (so_accept os) True (new_network new_ClientService))"

definition GameServer_Init ::
  "'d double_ops \<Rightarrow> config_file \<Rightarrow> server_os \<Rightarrow> (logger \<times> int) option \<Rightarrow> game_server \<Rightarrow> (bool \<times> game_server) result option" where
  "GameServer_Init ops cfg os made gs =
     (case GameServer_ReadConfig ops cfg gs of
        Inl f \<Rightarrow> Some (Inl f)
      | Inr (ok, gs1) \<Rightarrow>
          if ok = False then Some (Inr (False, gs1))
          else (case Socket_Init os (GetUseRIO (gs_config gs1)) of
                  Inl f \<Rightarrow> Some (Inl f)
                | Inr _ \<Rightarrow>
                    let gs2 = gs1\<lparr>gs_log := Log_Initialize made (gs_log gs1)\<rparr>
                    in if InitGameDB = False then Some (Inr (False, gs2)) else InitClientService os gs2))"

section \<open>What a start brings about\<close>

lemma cq_loop_ok:
  "cq_loop os i n s = (ok, s') \<Longrightarrow> \<exists>cqs. s' = s\<lparr>sv_rioCQEventList := sv_rioCQEventList s @ cqs\<rparr> \<and> RIO_INVALID_CQ \<notin> set cqs
     \<and> (ok \<longrightarrow> length cqs = n) \<and> (\<not> ok \<longrightarrow> (\<exists>j. i \<le> j \<and> j < i + n \<and> (so_cq os j = RIO_INVALID_CQ \<or> \<not> so_notify os j)))"
proof (induction n arbitrary: i s)
  case 0
  then show ?case by (intro exI [of _ "[]"]) simp
next
  case (Suc n)
  show ?case
  proof (cases "so_cq os i = RIO_INVALID_CQ \<or> \<not> so_notify os i")
    case True
    then have "ok = False" "s' = s" using Suc.prems by (auto simp: CreateRIOCQ_def split: if_splits)
    then show ?thesis using True by (intro exI [of _ "[]"]) (auto intro: exI [of _ i])
  next
    case False
    then have "cq_loop os (Suc i) n (s\<lparr>sv_rioCQEventList := sv_rioCQEventList s @ [so_cq os i]\<rparr>) = (ok, s')"
      using Suc.prems by (simp add: CreateRIOCQ_def)
    from Suc.IH [OF this] obtain cqs where "s' = s\<lparr>sv_rioCQEventList := sv_rioCQEventList s @ so_cq os i # cqs\<rparr>" "RIO_INVALID_CQ \<notin> set cqs"
      "ok \<longrightarrow> length cqs = n" "\<not> ok \<longrightarrow> (\<exists>j. Suc i \<le> j \<and> j < Suc i + n \<and> (so_cq os j = RIO_INVALID_CQ \<or> \<not> so_notify os j))"
      by auto
    then show ?thesis using False by (intro exI [of _ "so_cq os i # cqs"]) (auto dest!: Suc_leD)
  qed
qed

lemma create_queues_ok:
  assumes "create_queues os c s = (ok, s')"
  shows "\<exists>cqs. s' = s\<lparr>sv_rioCQEventList := sv_rioCQEventList s @ cqs\<rparr> \<and> RIO_INVALID_CQ \<notin> set cqs
     \<and> (ok \<longrightarrow> length cqs = (if GetUseRIO c then nat (GetClientServiceCount c) else 0))
     \<and> (\<not> ok \<longrightarrow> GetUseRIO c \<and> (\<exists>j < nat (GetClientServiceCount c). so_cq os j = RIO_INVALID_CQ \<or> \<not> so_notify os j))"
proof (cases "GetUseRIO c")
  case True
  then show ?thesis using assms cq_loop_ok [of os 0 "nat (GetClientServiceCount c)" s ok s'] by (auto simp: create_queues_def)
next
  case False
  then show ?thesis using assms by (intro exI [of _ "[]"]) (auto simp: create_queues_def)
qed

text \<open>The completion queues do not matter to what the network keeps.\<close>

lemma net_inv_cqs: "net_inv sys (nw\<lparr>nw_service := (nw_service nw)\<lparr>sv_rioCQEventList := cqs\<rparr>\<rparr>) = net_inv sys nw"
  by (simp add: net_inv_def sessions_inv_def counts_inv_def slots_inv_def live_def session_inv_defs session_world_def)

definition server_ready :: "system \<Rightarrow> game_server \<Rightarrow> bool" where
  "server_ready sys gs \<longleftrightarrow> net_inv sys (gs_network gs) \<and> nw_posted (gs_network gs) = {..<100} \<and> live (gs_network gs) = {}
     \<and> gs_workers gs = nat (GetClientServiceCount (gs_config gs))
     \<and> length (sv_rioCQEventList (nw_service (gs_network gs))) = (if GetUseRIO (gs_config gs) then gs_workers gs else 0)
     \<and> RIO_INVALID_CQ \<notin> set (sv_rioCQEventList (nw_service (gs_network gs)))
     \<and> mpool_inv (gs_jobPool gs) \<and> 100000 \<le> length (mp_pools (gs_jobPool gs))"

lemma start_ready:
  assumes "ServerService_Start ao True (new_network new_ClientService) = Some (Inr (True, nw))" and "nw_created nw < 2 ^ 31"
  shows "net_inv sys nw" and "nw_posted nw = {..<100}" and "live nw = {}" and "sv_rioCQEventList (nw_service nw) = []"
proof -
  have s: "StartAccept ao True (new_network (new_Service Server True 100)) = Some (Inr (True, nw))"
    using assms(1) by (simp add: ServerService_Start_def new_ClientService_def CanStart_def new_network_def new_Service_def split: if_splits)
  from StartAccept_inv [OF s assms(2), of sys] show "net_inv sys nw" "nw_posted nw = {..<100}" by simp_all
  have "net_inv sys nw \<and> calls_inv nw" by (rule server_calls [OF s assms(2) reaches_refl])
  have tr: "nw_trace nw = (\<lambda>_. [])" and sv: "nw_service nw = new_Service Server True 100"
    using s start_loop_traces [of ao _ "new_network (new_Service Server True 100)" nw] start_loop_service [of ao _ "new_network (new_Service Server True 100)" nw]
    by (auto simp: StartAccept_def bind_result_Inr_iff new_network_def split: if_splits)
  show "live nw = {}" using tr by (simp add: live_def)
  show "sv_rioCQEventList (nw_service nw) = []" using sv by (simp add: new_Service_def)
qed

lemma InitClientService_result:
  assumes "InitClientService os gs = Some (Inr (ok, gs'))"
  shows "\<exists>nw sv. ServerService_Start (so_accept os) True (new_network new_ClientService) = Some (Inr (True, nw))
    \<and> create_queues os (gs_config gs) (nw_service nw) = (ok, sv)
    \<and> gs' = (if ok then InitWorkerThread (gs\<lparr>gs_network := nw\<lparr>nw_service := sv\<rparr>\<rparr>) else gs\<lparr>gs_network := nw\<lparr>nw_service := sv\<rparr>\<rparr>)"
proof -
  obtain started nw where start: "ServerService_Start (so_accept os) True (new_network new_ClientService) = Some (Inr (started, nw))" "started"
    and body: "(let (ok, sv) = create_queues os (gs_config gs) (nw_service nw); gs1 = gs\<lparr>gs_network := nw\<lparr>nw_service := sv\<rparr>\<rparr>
          in if ok = False then Inr (False, gs1) else Inr (True, InitWorkerThread gs1) :: (bool \<times> game_server) result) = Inr (ok, gs')"
    using assms by (auto simp only: InitClientService_def bind_result_Inr_iff ASSERT_CRASH_Inr_iff map_option_eq_Some split: prod.splits)
  obtain b sv where "create_queues os (gs_config gs) (nw_service nw) = (b, sv)" by fastforce
  then show ?thesis using start body by (auto simp: Let_def split: if_splits)
qed

lemma Init_ready:
  assumes "GameServer_Init ops cfg os made new_GameServer = Some (Inr (True, gs))" and "nw_created (gs_network gs) < 2 ^ 31"
  shows "server_ready sys gs" and "ReadConfig ops cfg new_ServerConfig = Inr (True, gs_config gs)"
proof -
  obtain gs1 where r: "GameServer_ReadConfig ops cfg new_GameServer = Inr (True, gs1)"
    and i: "InitClientService os (gs1\<lparr>gs_log := Log_Initialize made (gs_log gs1)\<rparr>) = Some (Inr (True, gs))"
    using assms(1) by (auto simp: GameServer_Init_def Let_def split: sum.splits if_splits)
  obtain p where c: "ReadConfig ops cfg new_ServerConfig = Inr (True, gs_config gs1)"
    and p: "xreserve 100000 () (new_MemoryPool :: unit memory_pool) = Inr p" "gs_jobPool gs1 = p" "gs_workers gs1 = 0"
    using r by (auto simp: GameServer_ReadConfig_def new_GameServer_def bind_result_Inr_iff Let_def split: prod.splits if_splits)
  have pool: "mpool_inv p" "length (mp_pools p) = 100000"
    using xreserve_ok [OF mpool_inv_new, of 100000 "()"] p(1) by (auto simp: new_MemoryPool_def)
  obtain nw sv where nw: "ServerService_Start (so_accept os) True (new_network new_ClientService) = Some (Inr (True, nw))"
    and cq: "create_queues os (gs_config gs1) (nw_service nw) = (True, sv)"
    and gs: "gs = InitWorkerThread (gs1\<lparr>gs_log := Log_Initialize made (gs_log gs1), gs_network := nw\<lparr>nw_service := sv\<rparr>\<rparr>)"
    using InitClientService_result [OF i] by auto
  have bnd: "nw_created nw < 2 ^ 31" using assms(2) gs by (simp add: InitWorkerThread_def)
  obtain cqs where cqs: "sv = (nw_service nw)\<lparr>sv_rioCQEventList := cqs\<rparr>" "RIO_INVALID_CQ \<notin> set cqs"
    "length cqs = (if GetUseRIO (gs_config gs1) then nat (GetClientServiceCount (gs_config gs1)) else 0)"
    using create_queues_ok [OF cq] start_ready(4) [OF nw bnd] by auto
  have "net_inv sys (nw\<lparr>nw_service := sv\<rparr>)" using start_ready(1) [OF nw bnd, of sys] net_inv_cqs cqs(1) by simp
  then show "server_ready sys gs"
    using start_ready(2,3) [OF nw bnd] cqs pool p gs by (simp add: server_ready_def InitWorkerThread_def live_def)
  show "ReadConfig ops cfg new_ServerConfig = Inr (True, gs_config gs)" using c gs by (simp add: InitWorkerThread_def)
qed

text \<open>The other outcomes.\<close>

lemma GameServer_ReadConfig_result:
  "GameServer_ReadConfig ops cfg new_GameServer =
     (case ReadConfig ops cfg new_ServerConfig of
        Inl f \<Rightarrow> Inl f
      | Inr (ok, c) \<Rightarrow> Inr (ok, (if ok then (new_GameServer\<lparr>gs_config := c\<rparr>)\<lparr>gs_jobPool := projr (xreserve 100000 () new_MemoryPool)\<rparr>
                              else new_GameServer\<lparr>gs_config := c\<rparr>)))"
  using xreserve_ok [OF mpool_inv_new, of 100000 "()"]
  by (auto simp: GameServer_ReadConfig_def new_GameServer_def Let_def split: sum.split prod.split)

lemma Init_false:
  assumes "GameServer_Init ops cfg os made new_GameServer = Some (Inr (False, gs))"
  shows "cfg = Missing \<or> cfg = Unreadable
    \<or> GetUseRIO (gs_config gs) \<and> (\<exists>j < nat (GetClientServiceCount (gs_config gs)). so_cq os j = RIO_INVALID_CQ \<or> \<not> so_notify os j)"
proof (cases "ReadConfig ops cfg new_ServerConfig")
  case (Inl f)
  then show ?thesis using assms by (simp add: GameServer_Init_def GameServer_ReadConfig_result)
next
  case (Inr r)
  then obtain ok c where c: "ReadConfig ops cfg new_ServerConfig = Inr (ok, c)" by (cases r) auto
  show ?thesis
  proof (cases ok)
    case False
    then show ?thesis using c ReadConfig_false [of ops cfg new_ServerConfig c] by auto
  next
    case True
    then obtain gs2 where i: "InitClientService os gs2 = Some (Inr (False, gs))" "gs_config gs2 = c"
      using assms c by (auto simp: GameServer_Init_def GameServer_ReadConfig_result InitGameDB_def Let_def split: sum.splits)
    obtain nw sv where q: "create_queues os (gs_config gs2) (nw_service nw) = (False, sv)"
      and gs: "gs = (if False then InitWorkerThread (gs2\<lparr>gs_network := nw\<lparr>nw_service := sv\<rparr>\<rparr>) else gs2\<lparr>gs_network := nw\<lparr>nw_service := sv\<rparr>\<rparr>)"
      using InitClientService_result [OF i(1)] by blast
    have "gs_config gs = gs_config gs2" using gs by simp
    then show ?thesis using create_queues_ok [OF q] by auto
  qed
qed

lemma Socket_Init_fault: "Socket_Init os useRIO = Inl f \<Longrightarrow> f = Crash ''ASSERT_CRASH''"
  by (auto simp: Socket_Init_def ASSERT_CRASH_def CRASH_def split: if_splits)

lemma start_loop_fault: "start_loop ao es nw = Some (Inl f) \<Longrightarrow> f = NullPointer"
proof (induction es arbitrary: nw)
  case (Cons e es)
  show ?case
  proof (cases "RegisterAccept ao e nw")
    case (Some r)
    then show ?thesis using Cons RegisterAccept_result [OF Some] by (cases r) (auto simp: accept_result_def)
  qed (use Cons in simp)
qed simp

lemma Init_fault:
  assumes "GameServer_Init ops cfg os made new_GameServer = Some (Inl f)"
  shows "f \<in> {assert_failed, Crash ''ASSERT_CRASH'', NullPointer}"
proof (cases "ReadConfig ops cfg new_ServerConfig")
  case (Inl g)
  then have "g = f" using assms by (simp add: GameServer_Init_def GameServer_ReadConfig_result)
  then show ?thesis using Inl ReadConfig_asserting [of ops cfg new_ServerConfig] by (simp add: asserting_def)
next
  case (Inr r)
  then obtain ok c where c: "ReadConfig ops cfg new_ServerConfig = Inr (ok, c)" by (cases r) auto
  consider "Socket_Init os (GetUseRIO c) = Inl f" | gs2 where "InitClientService os gs2 = Some (Inl f)"
    using assms c by (auto simp: GameServer_Init_def GameServer_ReadConfig_result InitGameDB_def Let_def split: sum.splits if_splits)
  then show ?thesis
  proof cases
    case 1
    then show ?thesis using Socket_Init_fault by blast
  next
    case (2 gs2)
    then obtain z where z: "ServerService_Start (so_accept os) True (new_network new_ClientService) = Some z"
      and b: "bind_result z (\<lambda>(started, nw). ASSERT_CRASH started (let (ok, sv) = create_queues os (gs_config gs2) (nw_service nw);
          gs1 = gs2\<lparr>gs_network := nw\<lparr>nw_service := sv\<rparr>\<rparr> in if ok = False then Inr (False, gs1) else Inr (True, InitWorkerThread gs1))) = Inl f"
      unfolding InitClientService_def by blast
    have "z = Inl f \<or> f = Crash ''ASSERT_CRASH''"
    proof (cases z)
      case (Inr r)
      obtain started nw where r: "r = (started, nw)" by fastforce
      obtain ok sv where "create_queues os (gs_config gs2) (nw_service nw) = (ok, sv)" by fastforce
      then show ?thesis using b Inr r by (cases started; cases ok) (auto simp: Let_def)
    qed (use b in simp)
    moreover have "f = NullPointer" if "z = Inl f"
      using z that by (auto simp: ServerService_Start_def StartAccept_def bind_result_Inl_iff split: if_splits dest: start_loop_fault)
    ultimately show ?thesis by blast
  qed
qed

end
