(* ===== verification/QuietServer.thy ===== *)
theory QuietServer imports GameServer begin

text \<open>
  A server on an operating system that takes every call at once, with two accept slots and its first
  client: the concrete instance at which the properties of the running server are applied.
\<close>

text \<open>An operating system that takes every call at once: the concrete instance of the witnesses.\<close>

definition quiet_system :: system where
  "quiet_system = \<lparr>sy_ok = (\<lambda>_. True), sy_error = (\<lambda>_. 0), sy_handle = (\<lambda>_. 1)\<rparr>"

lemma quiet_accepts: "io_accepts quiet_system"
  by (simp add: io_accepts_def quiet_system_def)

definition quiet_os :: accept_os where
  "quiet_os = \<lparr>ao_setup = (\<lambda>_. True), ao_register = (\<lambda>_. True), ao_acceptEx = (\<lambda>_. None),
     ao_update = (\<lambda>_. True), ao_peer = (\<lambda>_. True)\<rparr>"

lemma quiet_accept_loop:
  "\<exists>nw'. start_loop quiet_os es nw = Some (Inr nw') \<and> nw_created nw' = nw_created nw + length es"
proof (induction es arbitrary: nw)
  case (Cons e es)
  have "ao_register quiet_os (nw_created nw)" "ao_acceptEx quiet_os (nw_created nw) = None" by (simp_all add: quiet_os_def)
  from RegisterAccept_at_once [OF this] obtain nw1 where "RegisterAccept quiet_os e nw = Some (Inr nw1)" "nw_created nw1 = Suc (nw_created nw)"
    by blast
  then show ?case using Cons.IH [of nw1] by auto
qed simp

lemma quiet_start:
  "\<exists>nw0. StartAccept quiet_os True (new_network (new_Service Server True n)) = Some (Inr (True, nw0)) \<and> nw_created nw0 = nat n"
proof -
  obtain nw0 where "start_loop quiet_os [0..<nat n] (new_network (new_Service Server True n)) = Some (Inr nw0)" "nw_created nw0 = nat n"
    using quiet_accept_loop [of "[0..<nat n]" "new_network (new_Service Server True n)"] by (auto simp: new_network_def)
  moreover have "sv_maxSessionCount (nw_service (new_network (new_Service Server True n))) = n"
    by (simp add: new_network_def new_Service_def)
  ultimately show ?thesis by (simp add: StartAccept_def) (simp add: quiet_os_def)
qed

lemma quiet_started:
  "\<exists>nw0. StartAccept quiet_os True (new_network (new_Service Server True 2)) = Some (Inr (True, nw0)) \<and> nw_created nw0 = 2"
  using quiet_start [of 2] by simp

text \<open>The whole server on such a system, with the configuration of the repository.\<close>

definition quiet_server_os :: server_os where
  "quiet_server_os = \<lparr>so_startup = True, so_ioctl = (\<lambda>_. True), so_accept = quiet_os, so_cq = (\<lambda>i. int i + 1), so_notify = (\<lambda>_. True)\<rparr>"

lemma quiet_queues: "\<exists>s'. cq_loop quiet_server_os i n s = (True, s')"
  by (induction n arbitrary: i s) (simp_all add: CreateRIOCQ_def quiet_server_os_def RIO_INVALID_CQ_def)

lemma quiet_init:
  "\<exists>gs. GameServer_Init no_doubles (Contents Config_json) quiet_server_os None new_GameServer = Some (Inr (True, gs))
    \<and> nw_created (gs_network gs) = 100 \<and> gs_config gs = shipped"
proof -
  let ?p = "projr (xreserve 100000 () new_MemoryPool) :: unit memory_pool"
  obtain nw where start: "StartAccept quiet_os True (new_network new_ClientService) = Some (Inr (True, nw))" "nw_created nw = 100"
    using quiet_start [of 100] by (auto simp: new_ClientService_def)
  have "CanStart (nw_service (new_network new_ClientService))"
    by (simp add: new_network_def new_ClientService_def new_Service_def CanStart_def)
  then have serve: "ServerService_Start (so_accept quiet_server_os) True (new_network new_ClientService) = Some (Inr (True, nw))"
    using start(1) by (simp add: ServerService_Start_def quiet_server_os_def)
  obtain sv where q: "create_queues quiet_server_os shipped (nw_service nw) = (True, sv)"
    using quiet_queues [of 0 "nat (GetClientServiceCount shipped)" "nw_service nw"] by (cases "GetUseRIO shipped") (auto simp: create_queues_def)
  have sock: "Socket_Init quiet_server_os b = Inr ()" for b
    by (simp add: Socket_Init_def BindWindowsFunction_def quiet_server_os_def)
  show ?thesis
    using start(2)
    by (simp add: GameServer_Init_def GameServer_ReadConfig_result ReadConfig_shipped sock InitGameDB_def InitClientService_def serve q InitWorkerThread_def
        del: upt_Suc)
qed

text \<open>A session that connects there stays connected.\<close>

lemma quiet_connects:
  assumes "nw_session nw i = Some s" and "se_hasService s" and "on_session quiet_system EvtConnected i nw = Some (Inr nw1)"
  shows "i \<in> live nw1 \<longleftrightarrow> Cb_OnDisconnected \<notin> set (nw_trace nw i)" and "client_connected nw1 i"
  using assms
  by (auto simp: on_session_def bind_result_Inr_iff handle_def Dispatch_iocp_def ProcessConnect_def with_service_def Let_def session_world_def
      RegisterRecv_def call_ok_def quiet_system_def SetWorkId_def store_world_def live_def client_connected_def)

lemma quiet_first_client:
  assumes "StartAccept quiet_os True (new_network (new_Service Server True 2)) = Some (Inr (True, nw0))" and "nw_created nw0 = 2"
  shows "\<exists>nw i. net_step quiet_os quiet_system nw0 nw \<and> i \<in> live nw \<and> client_connected nw i"
proof -
  have inv: "net_inv quiet_system nw0" "nw_posted nw0 = {..<nat 2}"
    using StartAccept_inv [OF assms(1), of quiet_system] assms(2) by simp_all
  let ?nw = "nw0\<lparr>nw_posted := nw_posted nw0 - {0}\<rparr>"
  have zero: "0 \<in> nw_posted nw0" using inv(2) by simp
  then obtain i where i: "nw_accept nw0 0 = Some i" "nw_session nw0 i \<noteq> None" "Cb_OnConnected \<notin> set (nw_trace nw0 i)"
    using inv(1) unfolding net_inv_def slots_inv_def by blast
  have fresh: "nw_accept ?nw d \<noteq> Some i" if d: "d \<in> nw_posted ?nw" for d
  proof
    assume "nw_accept ?nw d = Some i"
    then have "nw_accept nw0 d = nw_accept nw0 0" using i(1) by simp
    then have "d = 0" using inv(1) zero d unfolding net_inv_def slots_inv_def by simp
    then show False using d by simp
  qed
  obtain si where "nw_session nw0 i = Some si" using i(2) by blast
  then have si: "nw_session ?nw i = Some si" "nw_accept ?nw 0 = Some i" "Cb_OnConnected \<notin> set (nw_trace ?nw i)" using i by simp_all
  have old: "se_hasService si" "Cb_OnDisconnected \<notin> set (nw_trace ?nw i)"
    using inv(1) si unfolding net_inv_def sessions_inv_def by auto
  obtain nw1 where nw1: "on_session quiet_system EvtConnected i ?nw = Some (Inr nw1)" "nw_created nw1 = nw_created ?nw"
    using session_connect_inv [OF unpost_inv [OF inv(1)] si(2) si(1) si(3) fresh] by blast
  note c = quiet_connects [OF si(1) old(1) nw1(1)]
  let ?nw1 = "nw1\<lparr>nw_monitor := IncAcceptCount (nw_monitor nw1)\<rparr>"
  have q: "ao_register quiet_os n" "ao_acceptEx quiet_os n = None" for n by (simp_all add: quiet_os_def)
  obtain nw2 where nw2: "RegisterAccept quiet_os 0 ?nw1 = Some (Inr nw2)" "nw_created nw2 = 3"
    using RegisterAccept_at_once [OF q, of 0 ?nw1] nw1(2) assms(2) by auto
  have "ProcessAccept quiet_os quiet_system 0 nw0 = Some (Inr nw2)"
    using i(1) nw1(1) nw2(1) by (simp add: ProcessAccept_def quiet_os_def Let_def)
  then have "net_step quiet_os quiet_system nw0 nw2" using inv(2) nw2(2) by (intro net_accept) simp_all
  moreover have acc: "accept_posted 0 ?nw1 nw2" using RegisterAccept_result [OF nw2(1)] by (auto simp: accept_result_def)
  moreover have "i < nw_created nw1" using inv(1) si(1) nw1(2) unfolding net_inv_def sessions_inv_def by auto
  then have "i \<in> live nw2" "client_connected nw2 i"
    using c old(2) acc by (auto simp: accept_posted_def live_def client_connected_def)
  ultimately show ?thesis by blast
qed

end
