(* ===== verification/TimeUtils.thy ===== *)
theory TimeUtils imports Prelude "HOL-Library.Signed_Division" begin

text \<open>
  ServerCore/TimeUtils.h and TimeUtils.cpp: the millisecond clock of the server and its conversions to
  Poco's DateTime. Poco's classes are declared in Include/Poco but implemented in a binary, so their
  operations are a parameter with their documented arithmetic as hypothesis \<open>poco_documented\<close>. ::clock()
  is the C runtime's: a 32-bit count of milliseconds.
\<close>

section \<open>The clock\<close>

definition OneSec :: uint64 where "OneSec = 1000"
definition OneMin :: uint64 where "OneMin = OneSec * 60"
definition OneHour :: uint64 where "OneHour = OneMin * 60"

text \<open>clock_t is a signed 32-bit integer; what does not fit is reported as -1 for ever.\<close>

definition crt_clock :: "nat \<Rightarrow> int32" where
  "crt_clock elapsed = (if elapsed < 2147483648 then int elapsed else - 1)"

definition GetTick64 :: "uint64 \<Rightarrow> nat \<Rightarrow> uint64" where
  "GetTick64 startTick elapsed = startTick + word_of_int (crt_clock elapsed)"

lemma GetTick64_counts: "elapsed < 2147483648 \<Longrightarrow> GetTick64 startTick elapsed = startTick + word_of_nat elapsed"
  by (simp add: GetTick64_def crt_clock_def)

lemma GetTick64_stops: "2147483648 \<le> elapsed \<Longrightarrow> GetTick64 startTick elapsed = startTick - 1"
  by (simp add: GetTick64_def crt_clock_def)

text \<open>As long as the clock counts and does not wrap in 64 bits, it never goes back.\<close>

lemma unat_GetTick64:
  assumes "elapsed < 2147483648" and "unat startTick + elapsed < 18446744073709551616"
  shows "unat (GetTick64 startTick elapsed) = unat startTick + elapsed"
  using assms by (simp add: GetTick64_counts unat_word_ariths unat_of_nat take_bit_nat_eq_self)

lemma GetTick64_monotone:
  assumes "e \<le> e'" and "e' < 2147483648" and "unat startTick + e' < 18446744073709551616"
  shows "GetTick64 startTick e \<le> GetTick64 startTick e'"
  using assms by (simp add: word_le_nat_alt unat_GetTick64)

lemma GetTick64_goes_back:
  assumes "e < 2147483648" and "2147483648 \<le> e'" and "startTick \<noteq> 0" and "unat startTick + e < 18446744073709551616"
  shows "GetTick64 startTick e' < GetTick64 startTick e"
proof -
  have "unat (startTick - 1) < unat startTick" using assms(3) by (metis measure_unat)
  then show ?thesis using assms by (simp add: word_less_nat_alt unat_GetTick64 GetTick64_stops)
qed

section \<open>Poco's times\<close>

text \<open>DateTime::timestamp().epochMicroseconds(), DateTime(Timestamp), DateTime + Timespan, and the
  microseconds of Timespan(seconds, microseconds).\<close>

record 'dt poco =
  pc_timestamp :: "'dt \<Rightarrow> int64"
  pc_DateTime :: "int64 \<Rightarrow> 'dt"
  pc_plus :: "'dt \<Rightarrow> int64 \<Rightarrow> 'dt"
  pc_Timespan :: "int32 \<Rightarrow> int32 \<Rightarrow> int64"

text \<open>Up to the end of the year 9999, in microseconds since 1970.\<close>

definition last_microsecond :: int where "last_microsecond = 253402300799999999"

definition poco_documented :: "'dt poco \<Rightarrow> bool" where
  "poco_documented p \<longleftrightarrow> (\<forall>ts. 0 \<le> ts \<and> ts \<le> last_microsecond \<longrightarrow> pc_timestamp p (pc_DateTime p ts) = ts)
     \<and> (\<forall>d span. 0 \<le> pc_timestamp p d + span \<and> pc_timestamp p d + span \<le> last_microsecond
          \<longrightarrow> pc_timestamp p (pc_plus p d span) = pc_timestamp p d + span)
     \<and> (\<forall>sec usec. 0 \<le> usec \<and> usec < 1000000 \<longrightarrow> pc_Timespan p sec usec = sec * 1000000 + usec)"

record 'dt time_utils =
  tu_startTime :: 'dt
  tu_startTick :: uint64

definition PocoTimeToTick :: "'dt poco \<Rightarrow> 'dt \<Rightarrow> uint64" where
  "PocoTimeToTick p dateTime = word_of_int (pc_timestamp p dateTime sdiv 1000)"

definition TimeUtils_Init :: "'dt poco \<Rightarrow> 'dt \<Rightarrow> 'dt time_utils" where
  "TimeUtils_Init p serverStartTime =
     \<lparr>tu_startTime = serverStartTime, tu_startTick = word_of_int (pc_timestamp p serverStartTime sdiv 1000)\<rparr>"

text \<open>WaitInit spins until the start tick is set; \<open>ticks\<close> is what the successive reads see.\<close>

partial_function (option) WaitInit :: "(nat \<Rightarrow> uint64) \<Rightarrow> nat \<Rightarrow> nat option" where
  "WaitInit ticks i = (if ticks i = 0 then WaitInit ticks (i + 1) else Some i)"

definition AddMicroseconds :: "'dt poco \<Rightarrow> 'dt \<Rightarrow> uint64 \<Rightarrow> 'dt" where
  "AddMicroseconds p time microseconds =
     pc_plus p time (pc_Timespan p (to_int32 (uint (microseconds div 1000))) (to_int32 (uint (microseconds mod 1000))))"

text \<open>\<open>::clock() * 1000\<close> is a product of 32-bit longs, then converted to uint64.\<close>

definition GetPocoTime :: "'dt poco \<Rightarrow> 'dt time_utils \<Rightarrow> nat \<Rightarrow> 'dt" where
  "GetPocoTime p tu elapsed = AddMicroseconds p (tu_startTime tu) (word_of_int (to_int32 (crt_clock elapsed * 1000)))"

definition TickToPocoTime :: "'dt poco \<Rightarrow> uint64 \<Rightarrow> 'dt" where
  "TickToPocoTime p tick = pc_DateTime p (to_int64 (uint (tick * 1000)))"

lemma WaitInit_returns: "ticks (i + k) \<noteq> 0 \<Longrightarrow> \<exists>j. WaitInit ticks i = Some j \<and> ticks j \<noteq> 0"
proof (induction k arbitrary: i)
  case (Suc k)
  then show ?case by (cases "ticks i = 0") (auto simp: WaitInit.simps [of ticks i] dest: Suc.IH [of "i + 1"])
qed (simp add: WaitInit.simps)

lemma sdiv_pos: "0 \<le> (a :: int) \<Longrightarrow> a sdiv 1000 = a div 1000"
  by (cases "a = 0") (simp_all add: signed_divide_int_def)

lemma tick_round_trip:
  assumes "poco_documented p" and "uint tick * 1000 \<le> last_microsecond"
  shows "PocoTimeToTick p (TickToPocoTime p tick) = tick"
proof -
  have u: "uint (tick * 1000) = uint tick * 1000"
    using assms(2) by (simp add: uint_word_ariths last_microsecond_def)
  have t: "to_int64 (uint tick * 1000) = uint tick * 1000" using assms(2) uint_ge_0 [of tick] by (intro to_int64_id) (simp_all only: last_microsecond_def)
  have "pc_timestamp p (pc_DateTime p (uint tick * 1000)) = uint tick * 1000"
    using assms by (simp add: poco_documented_def)
  then show ?thesis by (simp add: PocoTimeToTick_def TickToPocoTime_def u t sdiv_pos)
qed

text \<open>What AddMicroseconds adds: a thousand times the milliseconds it is given.\<close>

lemma AddMicroseconds_adds:
  assumes "poco_documented p" and "uint us < 2147483648000"
    and "0 \<le> pc_timestamp p time" and "pc_timestamp p time + uint us * 1000 \<le> last_microsecond"
  shows "pc_timestamp p (AddMicroseconds p time us) = pc_timestamp p time + uint us div 1000 * 1000000 + uint us mod 1000"
proof -
  let ?span = "uint us div 1000 * 1000000 + uint us mod 1000"
  have "uint us = 1000 * (uint us div 1000) + uint us mod 1000" "0 \<le> uint us mod 1000" "uint us mod 1000 < 1000" by simp_all
  note us = this
  then have "uint us div 1000 < 2147483648" "0 \<le> uint us div 1000" using assms(2) uint_ge_0 [of us] by linarith+
  note d = this
  have i: "to_int32 (uint (us div 1000)) = uint us div 1000" "to_int32 (uint (us mod 1000)) = uint us mod 1000"
    using d us by (simp_all add: uint_div uint_mod to_int32_id)
  have "pc_Timespan p (uint us div 1000) (uint us mod 1000) = ?span"
    using assms(1) pos_mod_bound [of 1000 "uint us"] by (simp add: poco_documented_def)
  moreover have "?span \<le> uint us * 1000" "0 \<le> ?span"
    using us d by linarith+
  ultimately show ?thesis using assms(1,3,4) by (simp add: AddMicroseconds_def i poco_documented_def)
qed

lemma GetPocoTime_runs_fast:
  assumes "poco_documented p" and "elapsed \<le> 2147483" and "0 \<le> pc_timestamp p (tu_startTime tu)"
    and "pc_timestamp p (tu_startTime tu) + int elapsed * 1000000 \<le> last_microsecond"
  shows "pc_timestamp p (GetPocoTime p tu elapsed) = pc_timestamp p (tu_startTime tu) + int elapsed * 1000000"
proof -
  have "to_int32 (crt_clock elapsed * 1000) = int elapsed * 1000"
    using assms(2) by (simp add: crt_clock_def to_int32_id)
  moreover have "uint (word_of_int (int elapsed * 1000) :: uint64) = int elapsed * 1000"
    using assms(2) by (simp only: unsigned_of_int) (simp add: take_bit_int_eq_self)
  ultimately show ?thesis using AddMicroseconds_adds [OF assms(1), of "word_of_int (int elapsed * 1000)"] assms
    by (simp add: GetPocoTime_def)
qed

end
