(* ===== verification/GameLoop.thy ===== *)
theory GameLoop imports JobQueue JobTimer TimeUtils begin

text \<open>
  GameServer/GameServer.cpp at run time: the loop of GameServer::Update in the main thread (thread 0),
  the loop of _InitWorkerThread in the others, ThreadManager::DistributeReservedJobs and
  DoGlobalQueueWork, and the jobs of TimerJobQueue. The job queues are those of JobQueue.thy, the timer
  that of JobTimer.thy; here the jobs are the program's own and do what its code does. Thread \<open>t\<close> owns the
  TimerJobQueue \<open>t\<close>, which lives as long as the loop. The network side of a worker's round is the matter
  of Network.thy: no handler of this server pushes a job. Log output is left out.
\<close>

section \<open>The jobs\<close>

datatype loop_job = Empty | UpdateTimeJob nat | UpdateActorJob nat

text \<open>What the code of a thread still has to call. \<open>ReserveAt\<close> is JobTimer::Reserve once it has read the
  clock.\<close>

datatype job_call =
    DoAsyncToss nat loop_job
  | DoTimer uint64 nat loop_job
  | ReserveAt uint64 uint64 nat loop_job


definition UpdateTime :: "nat \<Rightarrow> job_call list" where
  "UpdateTime q = [DoTimer OneMin q (UpdateTimeJob q)]"

definition UpdateActor :: "nat \<Rightarrow> job_call list" where
  "UpdateActor q = [DoAsyncToss q Empty, DoTimer (OneSec * 3) q (UpdateActorJob q)]"

primrec Job_Execute :: "loop_job \<Rightarrow> job_call list" where
  "Job_Execute Empty = []"
| "Job_Execute (UpdateTimeJob q) = UpdateTime q"
| "Job_Execute (UpdateActorJob q) = UpdateActor q"

section \<open>The loops\<close>

text \<open>Where a thread is in its round: setting its deadline, reading the clock for Distribute, entering
  it, inside it, at the deadline test and at the Pop of DoGlobalQueueWork, at UpdateActor.\<close>

datatype loop_pc =
    LoopTop
  | LoopNow
  | LoopEnter uint64
  | LoopDistribute
  | LoopWork
  | LoopPop uint64
  | LoopActor

record loop_sys =
  gl_jobs :: "loop_job job_sys"
  gl_timer :: "loop_job timer_sys"
  gl_calls :: "nat \<Rightarrow> job_call list"
  gl_pc :: "nat \<Rightarrow> loop_pc"
  gl_clock :: uint64
  gl_rounds :: "nat \<Rightarrow> nat"

text \<open>GameServer::Update calls UpdateTime before its loop.\<close>

definition loop_init :: "uint64 \<Rightarrow> loop_sys" where
  "loop_init tick = \<lparr>gl_jobs = job_init, gl_timer = timer_init (\<lambda>_. True), gl_calls = (\<lambda>_. [])(0 := UpdateTime 0),
     gl_pc = (\<lambda>_. LoopTop), gl_clock = tick, gl_rounds = (\<lambda>_. 0)\<rparr>"

definition loop_goto :: "nat \<Rightarrow> loop_pc \<Rightarrow> loop_sys \<Rightarrow> loop_sys" where
  "loop_goto t pc s = s\<lparr>gl_pc := (gl_pc s)(t := pc)\<rparr>"

definition worker_of :: "nat \<Rightarrow> loop_sys \<Rightarrow> loop_job worker" where
  "worker_of t s = js_workers (gl_jobs s) t"

text \<open>The thread is back in the code of its loop.\<close>

definition in_loop :: "nat \<Rightarrow> loop_sys \<Rightarrow> bool" where
  "in_loop t s \<longleftrightarrow> gl_calls s t = [] \<and> wk_push (worker_of t s) = PushNone \<and> wk_exec (worker_of t s) = ExecNone"

definition round_begin :: "nat \<Rightarrow> loop_sys \<Rightarrow> loop_sys" where
  "round_begin t s = loop_goto t LoopNow
     (s\<lparr>gl_jobs := upd_worker t (\<lambda>w. w\<lparr>wk_LEndTickCount := gl_clock s + 64\<rparr>) (gl_jobs s)\<rparr>)"

definition DistributeReservedJobs :: "nat \<Rightarrow> loop_sys \<Rightarrow> loop_sys" where
  "DistributeReservedJobs t s = loop_goto t (LoopEnter (gl_clock s)) s"

definition loop_enter :: "nat \<Rightarrow> uint64 \<Rightarrow> loop_sys \<Rightarrow> loop_sys" where
  "loop_enter t now s = loop_goto t (if tm_distributing (gl_timer s) then LoopWork else LoopDistribute)
     (s\<lparr>gl_timer := dist_enter t now (gl_timer s)\<rparr>)"

text \<open>One round of the loop over the due items: \<open>owner->Push(job)\<close> while the owner lives.\<close>

definition loop_push :: "nat \<Rightarrow> loop_job timer_item \<Rightarrow> loop_job timer_item list \<Rightarrow> loop_sys \<Rightarrow> loop_sys" where
  "loop_push t item items s =
     (let s1 = s\<lparr>gl_timer := dist_push t item items (gl_timer s)\<rparr>
      in if tm_alive (gl_timer s) (ti_owner item)
         then s1\<lparr>gl_jobs := push_begin t (ti_owner item) (ti_job item) False (gl_jobs s)\<rparr> else s1)"

definition loop_done :: "nat \<Rightarrow> loop_sys \<Rightarrow> loop_sys" where
  "loop_done t s = loop_goto t LoopWork (s\<lparr>gl_timer := dist_done t (gl_timer s)\<rparr>)"

text \<open>After DoGlobalQueueWork a worker calls UpdateActor, the main thread starts over.\<close>

definition after_work :: "nat \<Rightarrow> loop_pc" where
  "after_work t = (if t = 0 then LoopTop else LoopActor)"

definition work_clock :: "nat \<Rightarrow> loop_sys \<Rightarrow> loop_sys" where
  "work_clock t s =
     (if gl_clock s > wk_LEndTickCount (worker_of t s) then loop_goto t (after_work t) s
      else loop_goto t (LoopPop (gl_clock s)) s)"

definition work_pop :: "nat \<Rightarrow> uint64 \<Rightarrow> loop_sys \<Rightarrow> loop_sys" where
  "work_pop t now s =
     (if js_global (gl_jobs s) = [] then loop_goto t (after_work t) s
      else loop_goto t LoopWork (s\<lparr>gl_jobs := global_work t now (gl_jobs s)\<rparr>))"

definition loop_actor :: "nat \<Rightarrow> loop_sys \<Rightarrow> loop_sys" where
  "loop_actor t s = loop_goto t LoopTop
     (s\<lparr>gl_calls := (gl_calls s)(t := UpdateActor t), gl_rounds := (gl_rounds s)(t := gl_rounds s t + 1)\<rparr>)"

section \<open>Calls and jobs\<close>

definition call_step :: "nat \<Rightarrow> job_call \<Rightarrow> job_call list \<Rightarrow> loop_sys \<Rightarrow> loop_sys" where
  "call_step t c rest s =
     (case c of
        DoAsyncToss q job \<Rightarrow> s\<lparr>gl_jobs := push_begin t q job True (gl_jobs s), gl_calls := (gl_calls s)(t := rest)\<rparr>
      | DoTimer tickAfter q job \<Rightarrow> s\<lparr>gl_calls := (gl_calls s)(t := ReserveAt (gl_clock s) tickAfter q job # rest)\<rparr>
      | ReserveAt tick tickAfter q job \<Rightarrow>
          s\<lparr>gl_timer := Reserve tick tickAfter q job (gl_timer s), gl_calls := (gl_calls s)(t := rest)\<rparr>)"

definition run_job :: "nat \<Rightarrow> nat \<Rightarrow> loop_job \<Rightarrow> loop_job list \<Rightarrow> nat \<Rightarrow> loop_sys \<Rightarrow> loop_sys" where
  "run_job t q job todo n s =
     s\<lparr>gl_jobs := exec_run t q job todo n (gl_jobs s), gl_calls := (gl_calls s)(t := Job_Execute job)\<rparr>"

inductive loop_step :: "nat \<Rightarrow> loop_sys \<Rightarrow> loop_sys \<Rightarrow> bool" for n where
  loop_time: "gl_clock s \<le> now \<Longrightarrow> loop_step n s (s\<lparr>gl_clock := now\<rparr>)"
| loop_round: "t \<le> n \<Longrightarrow> in_loop t s \<Longrightarrow> gl_pc s t = LoopTop \<Longrightarrow> loop_step n s (round_begin t s)"
| loop_now: "t \<le> n \<Longrightarrow> gl_pc s t = LoopNow \<Longrightarrow> loop_step n s (DistributeReservedJobs t s)"
| loop_enters: "t \<le> n \<Longrightarrow> gl_pc s t = LoopEnter now \<Longrightarrow> tm_pc (gl_timer s) t = DistNone \<Longrightarrow> loop_step n s (loop_enter t now s)"
| loop_collects: "t \<le> n \<Longrightarrow> gl_pc s t = LoopDistribute \<Longrightarrow> tm_pc (gl_timer s) t = DistCollect now
    \<Longrightarrow> loop_step n s (s\<lparr>gl_timer := dist_collect t now (gl_timer s)\<rparr>)"
| loop_pushes: "t \<le> n \<Longrightarrow> gl_pc s t = LoopDistribute \<Longrightarrow> in_loop t s \<Longrightarrow> tm_pc (gl_timer s) t = DistPush (item # items)
    \<Longrightarrow> loop_step n s (loop_push t item items s)"
| loop_dones: "t \<le> n \<Longrightarrow> gl_pc s t = LoopDistribute \<Longrightarrow> in_loop t s \<Longrightarrow> tm_pc (gl_timer s) t = DistPush []
    \<Longrightarrow> loop_step n s (loop_done t s)"
| loop_clock: "t \<le> n \<Longrightarrow> gl_pc s t = LoopWork \<Longrightarrow> in_loop t s \<Longrightarrow> loop_step n s (work_clock t s)"
| loop_pop: "t \<le> n \<Longrightarrow> gl_pc s t = LoopPop now \<Longrightarrow> in_loop t s \<Longrightarrow> loop_step n s (work_pop t now s)"
| loop_actors: "t \<le> n \<Longrightarrow> gl_pc s t = LoopActor \<Longrightarrow> in_loop t s \<Longrightarrow> loop_step n s (loop_actor t s)"
| loop_call: "t \<le> n \<Longrightarrow> user_code (worker_of t s) \<Longrightarrow> gl_calls s t = c # rest \<Longrightarrow> loop_step n s (call_step t c rest s)"
| loop_link: "t \<le> n \<Longrightarrow> wk_push (worker_of t s) = PushLink q job pushOnly prevCount
    \<Longrightarrow> loop_step n s (s\<lparr>gl_jobs := push_link t q job pushOnly prevCount (gl_jobs s)\<rparr>)"
| loop_decide: "t \<le> n \<Longrightarrow> wk_push (worker_of t s) = PushDecide q pushOnly prevCount
    \<Longrightarrow> loop_step n s (s\<lparr>gl_jobs := push_decide t q pushOnly prevCount (gl_jobs s)\<rparr>)"
| loop_exec_pop: "t \<le> n \<Longrightarrow> wk_exec (worker_of t s) = ExecPop q batch \<Longrightarrow> loop_step n s (s\<lparr>gl_jobs := exec_pop t q batch (gl_jobs s)\<rparr>)"
| loop_run: "t \<le> n \<Longrightarrow> gl_calls s t = [] \<Longrightarrow> wk_push (worker_of t s) = PushNone \<Longrightarrow> wk_exec (worker_of t s) = ExecRun q (job # todo) k
    \<Longrightarrow> loop_step n s (run_job t q job todo k s)"
| loop_sub: "t \<le> n \<Longrightarrow> gl_calls s t = [] \<Longrightarrow> wk_push (worker_of t s) = PushNone \<Longrightarrow> wk_exec (worker_of t s) = ExecRun q [] k
    \<Longrightarrow> loop_step n s (s\<lparr>gl_jobs := exec_sub t q k (gl_jobs s)\<rparr>)"
| loop_tick: "t \<le> n \<Longrightarrow> wk_exec (worker_of t s) = ExecTick q \<Longrightarrow> loop_step n s (s\<lparr>gl_jobs := exec_tick t q (gl_clock s) (gl_jobs s)\<rparr>)"
| loop_toss: "t \<le> n \<Longrightarrow> wk_exec (worker_of t s) = ExecToss q \<Longrightarrow> loop_step n s (s\<lparr>gl_jobs := exec_toss t q (gl_jobs s)\<rparr>)"

definition bounded_loop_step :: "nat \<Rightarrow> loop_sys \<Rightarrow> loop_sys \<Rightarrow> bool" where
  "bounded_loop_step n s s' \<longleftrightarrow> loop_step n s s' \<and> job_bounded {..n} (gl_jobs s')"

section \<open>The loop runs the job system and the timer\<close>

lemmas loop_defs = loop_goto_def worker_of_def in_loop_def round_begin_def DistributeReservedJobs_def loop_enter_def loop_push_def
  loop_done_def work_clock_def work_pop_def loop_actor_def call_step_def run_job_def

lemma user_code_loop: "wk_push w = PushNone \<Longrightarrow> wk_exec w = ExecNone \<Longrightarrow> user_code w"
  by (simp add: user_code_def)

lemma loop_step_jobs: "loop_step n s s' \<Longrightarrow> gl_jobs s' = gl_jobs s \<or> job_step {..n} (gl_jobs s) (gl_jobs s')"
proof (induction rule: loop_step.induct)
  case (loop_pushes t s item items)
  then show ?case by (auto simp: loop_defs Let_def intro: job_step.step_begin user_code_loop)
next
  case (loop_call t s c rest)
  then show ?case by (cases c) (auto simp: loop_defs intro: job_step.step_begin)
qed (auto simp: loop_defs intro: job_step.intros)

lemma loop_step_timer: "loop_step n s s' \<Longrightarrow> gl_timer s' = gl_timer s \<or> timer_step (gl_timer s) (gl_timer s')"
proof (induction rule: loop_step.induct)
  case (loop_call t s c rest)
  then show ?case by (cases c) (auto simp: loop_defs intro: timer_reserve)
qed (auto simp: loop_defs Let_def intro: timer_step.intros)

lemma loop_reaches_jobs:
  "reaches (bounded_loop_step n) s s' \<Longrightarrow> reaches (bounded_job_step {..n}) (gl_jobs s) (gl_jobs s')"
proof (induction rule: reaches.induct)
  case (reaches_step s t u)
  then show ?case using loop_step_jobs [of n t u]
    by (auto simp: bounded_loop_step_def bounded_job_step_def intro: reaches.reaches_step)
qed (rule reaches.reaches_refl)

text \<open>So everything proved of the job system holds of the server's loop.\<close>

lemma loop_job_inv: "reaches (bounded_loop_step n) (loop_init tick) s \<Longrightarrow> job_inv {..n} (gl_jobs s)"
  using loop_reaches_jobs [of n "loop_init tick" s] by (auto simp: loop_init_def intro: job_reachable_inv)

section \<open>Timers never fire while the workers keep looping\<close>

text \<open>Some reservation made so far lies in the future: so it is at every moment when some worker has
  called UpdateActor within the last three seconds.\<close>

definition fresh_timer :: "loop_sys \<Rightarrow> bool" where
  "fresh_timer s \<longleftrightarrow> tm_reserved (gl_timer s) = {#} \<or> (\<exists>it\<in>#tm_reserved (gl_timer s). gl_clock s < executeTick it)"

definition prompt_step :: "nat \<Rightarrow> loop_sys \<Rightarrow> loop_sys \<Rightarrow> bool" where
  "prompt_step n s s' \<longleftrightarrow> loop_step n s s' \<and> fresh_timer s'"

text \<open>The calls and the reserved timers of one kind.\<close>

fun call_job :: "job_call \<Rightarrow> loop_job" where
  "call_job (DoAsyncToss q job) = job"
| "call_job (DoTimer tickAfter q job) = job"
| "call_job (ReserveAt tick tickAfter q job) = job"

definition timers_of :: "loop_job \<Rightarrow> loop_sys \<Rightarrow> nat" where
  "timers_of job s = size (filter_mset (\<lambda>it. ti_job it = job) (mset (tm_items (gl_timer s))))"

definition calls_of :: "loop_job \<Rightarrow> job_call list \<Rightarrow> nat" where
  "calls_of job cs = count_list (map call_job cs) job"

definition timers_waiting :: "loop_sys \<Rightarrow> bool" where
  "timers_waiting s \<longleftrightarrow> tm_pushed (gl_timer s) = [] \<and> items_sorted (tm_items (gl_timer s))
     \<and> mset (tm_items (gl_timer s)) = tm_reserved (gl_timer s)
     \<and> (\<forall>t its. tm_pc (gl_timer s) t = DistPush its \<longrightarrow> its = [])
     \<and> (\<forall>t now. tm_pc (gl_timer s) t = DistCollect now \<or> gl_pc s t = LoopEnter now \<longrightarrow> now \<le> gl_clock s)"

definition held_jobs :: "'j worker \<Rightarrow> 'j set" where
  "held_jobs w = (case wk_push w of PushLink q job po p \<Rightarrow> {job} | _ \<Rightarrow> {})
     \<union> (case wk_exec w of ExecPop q b \<Rightarrow> set b | ExecRun q b k \<Rightarrow> set b | _ \<Rightarrow> {})"

fun tosses_empty :: "job_call \<Rightarrow> bool" where
  "tosses_empty (DoAsyncToss q job) = (job = Empty)"
| "tosses_empty _ = True"

definition only_empty :: "loop_sys \<Rightarrow> bool" where
  "only_empty s \<longleftrightarrow> (\<forall>t. held_jobs (worker_of t s) \<subseteq> {Empty})
     \<and> (\<forall>q. set (js_jobs (gl_jobs s) q) \<subseteq> {Empty} \<and> set (js_ran (gl_jobs s) q) \<subseteq> {Empty})
     \<and> (\<forall>t. list_all tosses_empty (gl_calls s t))"

definition own_call :: "nat \<Rightarrow> job_call \<Rightarrow> bool" where
  "own_call u c \<longleftrightarrow> (\<forall>t. call_job c = UpdateActorJob t \<longrightarrow> t = u)"

definition rounds_inv :: "loop_sys \<Rightarrow> bool" where
  "rounds_inv s \<longleftrightarrow> (\<forall>t. timers_of (UpdateActorJob t) s + calls_of (UpdateActorJob t) (gl_calls s t) = gl_rounds s t)
     \<and> (\<forall>u. list_all (own_call u) (gl_calls s u))"

lemma collect_nothing:
  assumes "timers_waiting s" and "fresh_timer s" and "tm_pc (gl_timer s) t = DistCollect now"
  shows "due_items now (tm_items (gl_timer s)) = ([], tm_items (gl_timer s))"
proof (cases "tm_reserved (gl_timer s) = {#}")
  case True
  then have "tm_items (gl_timer s) = []" using assms(1) by (simp add: timers_waiting_def)
  then show ?thesis by (simp add: due_items_def)
next
  case False
  then obtain it where it: "it \<in># tm_reserved (gl_timer s)" "gl_clock s < executeTick it" using assms(2) by (auto simp: fresh_timer_def)
  have "now \<le> gl_clock s" using assms(1,3) unfolding timers_waiting_def by blast
  then have "now < executeTick it" using it(2) by (rule order_le_less_trans)
  moreover have "it \<in> set (tm_items (gl_timer s))" using it(1) assms(1) by (metis timers_waiting_def set_mset_mset)
  moreover have "items_sorted (tm_items (gl_timer s))" using assms(1) by (simp add: timers_waiting_def)
  ultimately show ?thesis using due_items_cases(1) by blast
qed

lemma waiting_step:
  assumes "loop_step n s s'" and "fresh_timer s" and "timers_waiting s"
  shows "timers_waiting s'"
  using assms
proof (induction rule: loop_step.induct)
  case (loop_time s now)
  then show ?case by (fastforce simp: timers_waiting_def)
next
  case (loop_collects t s now)
  then show ?case using collect_nothing [OF loop_collects(5,4,3)] by (auto simp: timers_waiting_def dist_collect_def)
next
  case (loop_pushes t s item items)
  then show ?case by (auto simp: timers_waiting_def)
next
  case (loop_call t s c rest)
  then show ?case by (cases c) (auto simp: timers_waiting_def call_step_def Reserve_def Let_def items_push_sorted)
qed (auto simp: timers_waiting_def loop_defs after_work_def dist_enter_def dist_done_def split: if_splits)

lemma only_empty_step:
  assumes "loop_step n s s'" and "timers_waiting s" and "only_empty s"
  shows "only_empty s'"
proof -
  have h: "\<And>t. held_jobs (worker_of t s) \<subseteq> {Empty}" and j: "\<And>q. set (js_jobs (gl_jobs s) q) \<subseteq> {Empty}"
    and r: "\<And>q. set (js_ran (gl_jobs s) q) \<subseteq> {Empty}" and c: "\<And>t. list_all tosses_empty (gl_calls s t)"
    using assms(3) by (auto simp: only_empty_def)
  from assms(1,2) show ?thesis
  proof (cases rule: loop_step.cases)
    case (loop_pushes t item items)
    then show ?thesis using assms(2) by (auto simp: timers_waiting_def)
  next
    case (loop_call t x rest)
    then show ?thesis using h h [of t] j r c c [of t]
      by (cases x) (simp_all add: only_empty_def held_jobs_def call_step_def push_begin_def worker_of_def)
  next
    case (loop_exec_pop t q batch)
    then show ?thesis using h h [of t] j j [of q] r c
      by (cases "js_jobs (gl_jobs s) q") (simp_all add: only_empty_def held_jobs_def exec_pop_def worker_of_def)
  next
    case (loop_run t q job todo k)
    then show ?thesis using h h [of t] j r c
      by (simp add: only_empty_def held_jobs_def run_job_def exec_run_def worker_of_def)
  next
    case (loop_link t q job po p)
    then show ?thesis using h h [of t] j r c by (simp add: only_empty_def held_jobs_def push_link_def worker_of_def)
  next
    case (loop_decide t q po p)
    then show ?thesis using h h [of t] j r c
      by (simp add: only_empty_def held_jobs_def push_decide_def start_execute_def worker_of_def)
  qed (use h j r c in \<open>simp_all add: only_empty_def held_jobs_def loop_defs global_work_def start_execute_def exec_sub_def exec_tick_def
      exec_toss_def UpdateActor_def Let_def split: list.split\<close>)
qed

lemma call_rounds:
  assumes "gl_calls s t = x # rest" and "own_call t x" and "tosses_empty x"
    and "timers_of (UpdateActorJob u) s + calls_of (UpdateActorJob u) (gl_calls s u) = gl_rounds s u"
  shows "timers_of (UpdateActorJob u) (call_step t x rest s)
    + calls_of (UpdateActorJob u) (gl_calls (call_step t x rest s) u) = gl_rounds (call_step t x rest s) u"
proof -
  have "u \<noteq> t \<Longrightarrow> call_job x \<noteq> UpdateActorJob u" using assms(2) by (auto simp: own_call_def)
  then show ?thesis using assms
    by (cases x; cases "u = t") (simp_all add: timers_of_def calls_of_def call_step_def Reserve_def Let_def new_TimerItem_def split: if_splits)
qed

lemma call_owned:
  assumes "gl_calls s t = x # rest" and "\<And>u. list_all (own_call u) (gl_calls s u)"
  shows "list_all (own_call u) (gl_calls (call_step t x rest s) u)"
  using assms(1) assms(2) [of u] by (cases x; cases "u = t") (simp_all add: call_step_def own_call_def)

lemma rounds_step:
  assumes "loop_step n s s'" and "fresh_timer s" and "timers_waiting s" and "only_empty s" and "rounds_inv s"
  shows "rounds_inv s'"
proof -
  have e: "\<And>t. timers_of (UpdateActorJob t) s + calls_of (UpdateActorJob t) (gl_calls s t) = gl_rounds s t"
    and o: "\<And>u. list_all (own_call u) (gl_calls s u)"
    using assms(5) by (auto simp: rounds_inv_def)
  from assms(1) show ?thesis
  proof (cases rule: loop_step.cases)
    case (loop_collects t now)
    then show ?thesis using collect_nothing [OF assms(3,2) loop_collects(4)] e o by (simp add: rounds_inv_def timers_of_def dist_collect_def)
  next
    case (loop_pushes t item items)
    then show ?thesis using assms(3) by (auto simp: timers_waiting_def)
  next
    case (loop_actors t)
    then show ?thesis using e e [of t] o by (simp add: rounds_inv_def timers_of_def calls_of_def loop_defs UpdateActor_def own_call_def)
  next
    case (loop_call t x rest)
    have "own_call t x" using o [of t] loop_call by simp
    moreover have "tosses_empty x" using assms(4) loop_call by (auto simp: only_empty_def dest: spec [of _ t])
    ultimately show ?thesis unfolding rounds_inv_def loop_call(1)
      using call_rounds [OF loop_call(4)] e call_owned [OF loop_call(4) o] by blast
  next
    case (loop_run t q job todo k)
    then have "job = Empty" using assms(4) by (auto simp: only_empty_def held_jobs_def dest: spec [of _ t])
    then show ?thesis using loop_run e e [of t] o by (simp add: rounds_inv_def timers_of_def calls_of_def run_job_def)
  qed (use e o in \<open>simp_all add: rounds_inv_def timers_of_def loop_defs dist_enter_def dist_done_def\<close>)
qed

theorem prompt_reachable:
  assumes "reaches (prompt_step n) (loop_init tick) s"
  shows "fresh_timer s \<and> timers_waiting s \<and> only_empty s \<and> rounds_inv s"
proof (rule reaches_invariant [OF assms])
  show "fresh_timer (loop_init tick) \<and> timers_waiting (loop_init tick) \<and> only_empty (loop_init tick) \<and> rounds_inv (loop_init tick)"
    by (auto simp: fresh_timer_def timers_waiting_def only_empty_def held_jobs_def own_call_def rounds_inv_def timers_of_def calls_of_def loop_init_def
        timer_init_def job_init_def new_worker_def items_sorted_def UpdateTime_def worker_of_def)
qed (use waiting_step only_empty_step rounds_step in \<open>auto simp: prompt_step_def\<close>)

lemma prompt_no_timer_fires:
  assumes "reaches (prompt_step n) (loop_init tick) s"
  shows "tm_pushed (gl_timer s) = []" and "set (js_ran (gl_jobs s) q) \<subseteq> {Empty}"
    and "gl_calls s t = [] \<Longrightarrow> timers_of (UpdateActorJob t) s = gl_rounds s t"
proof -
  have "timers_waiting s" "only_empty s" "rounds_inv s" using prompt_reachable [OF assms] by simp_all
  then show "tm_pushed (gl_timer s) = []" "set (js_ran (gl_jobs s) q) \<subseteq> {Empty}"
    by (simp_all add: timers_waiting_def only_empty_def)
  assume "gl_calls s t = []"
  then show "timers_of (UpdateActorJob t) s = gl_rounds s t" using \<open>rounds_inv s\<close>
    by (auto simp: rounds_inv_def calls_of_def dest: spec [of _ t])
qed

section \<open>No thread is ever stuck\<close>

text \<open>The next step of a thread: what its code does next, whatever the others do.\<close>

definition exec_next :: "nat \<Rightarrow> loop_job exec_pc \<Rightarrow> loop_sys \<Rightarrow> loop_sys" where
  "exec_next t pc s =
     (case pc of
        ExecPop q batch \<Rightarrow> s\<lparr>gl_jobs := exec_pop t q batch (gl_jobs s)\<rparr>
      | ExecRun q todo k \<Rightarrow> (case todo of job # rest \<Rightarrow> run_job t q job rest k s | [] \<Rightarrow> s\<lparr>gl_jobs := exec_sub t q k (gl_jobs s)\<rparr>)
      | ExecTick q \<Rightarrow> s\<lparr>gl_jobs := exec_tick t q (gl_clock s) (gl_jobs s)\<rparr>
      | ExecToss q \<Rightarrow> s\<lparr>gl_jobs := exec_toss t q (gl_jobs s)\<rparr>
      | ExecNone \<Rightarrow> s)"

definition round_next :: "nat \<Rightarrow> loop_sys \<Rightarrow> loop_sys" where
  "round_next t s =
     (case gl_pc s t of
        LoopTop \<Rightarrow> round_begin t s
      | LoopNow \<Rightarrow> DistributeReservedJobs t s
      | LoopEnter now \<Rightarrow> loop_enter t now s
      | LoopDistribute \<Rightarrow>
          (case tm_pc (gl_timer s) t of
             DistCollect now \<Rightarrow> s\<lparr>gl_timer := dist_collect t now (gl_timer s)\<rparr>
           | DistPush its \<Rightarrow> (case its of item # items \<Rightarrow> loop_push t item items s | [] \<Rightarrow> loop_done t s)
           | DistNone \<Rightarrow> s)
      | LoopWork \<Rightarrow> work_clock t s
      | LoopPop now \<Rightarrow> work_pop t now s
      | LoopActor \<Rightarrow> loop_actor t s)"

definition thread_step :: "nat \<Rightarrow> loop_sys \<Rightarrow> loop_sys" where
  "thread_step t s =
     (case wk_push (worker_of t s) of
        PushLink q job po p \<Rightarrow> s\<lparr>gl_jobs := push_link t q job po p (gl_jobs s)\<rparr>
      | PushDecide q po p \<Rightarrow> s\<lparr>gl_jobs := push_decide t q po p (gl_jobs s)\<rparr>
      | PushNone \<Rightarrow>
          (case gl_calls s t of
             c # rest \<Rightarrow> call_step t c rest s
           | [] \<Rightarrow> if wk_exec (worker_of t s) = ExecNone then round_next t s else exec_next t (wk_exec (worker_of t s)) s))"

text \<open>A thread with calls to make is in its loop or inside a job, and pushes for others to execute; it is
  inside Distribute exactly when its round is.\<close>

definition calling :: "loop_job worker \<Rightarrow> bool" where
  "calling w \<longleftrightarrow> (case wk_exec w of ExecNone \<Rightarrow> True | ExecRun q b k \<Rightarrow> True | _ \<Rightarrow> False)
     \<and> (case wk_push w of PushNone \<Rightarrow> True | PushLink q j po p \<Rightarrow> po | PushDecide q po p \<Rightarrow> po)"

definition thread_inv :: "nat \<Rightarrow> loop_sys \<Rightarrow> bool" where
  "thread_inv t s \<longleftrightarrow> (gl_calls s t \<noteq> [] \<longrightarrow> calling (worker_of t s))
     \<and> (tm_pc (gl_timer s) t = DistNone \<longleftrightarrow> gl_pc s t \<noteq> LoopDistribute)"

lemma thread_step_enabled:
  assumes "t \<le> n" and "thread_inv t s"
  shows "loop_step n s (thread_step t s)"
proof (cases "wk_push (worker_of t s)")
  case push: PushNone
  show ?thesis
  proof (cases "gl_calls s t")
    case calls: Nil
    show ?thesis
    proof (cases "wk_exec (worker_of t s) = ExecNone")
      case True
      then have "in_loop t s" using push calls by (simp add: in_loop_def)
      then show ?thesis using assms push calls True
        by (auto simp: thread_step_def round_next_def thread_inv_def split: loop_pc.split dist_pc.split list.split intro: loop_step.intros)
    next
      case False
      then show ?thesis using assms push calls
        by (auto simp: thread_step_def exec_next_def split: exec_pc.split list.split intro: loop_step.intros)
    qed
  next
    case (Cons c rest)
    then have "user_code (worker_of t s)" using assms(2) push
      by (auto simp: thread_inv_def calling_def user_code_def split: exec_pc.splits)
    then show ?thesis using assms(1) push Cons by (simp add: thread_step_def loop_step.loop_call)
  qed
qed (use assms in \<open>auto simp: thread_step_def intro: loop_step.intros\<close>)

lemma thread_inv_step:
  assumes "loop_step n s s'" and i: "\<And>t. thread_inv t s"
  shows "thread_inv u s'"
proof -
  note defs = thread_inv_def loop_defs Let_def
  from assms(1) show ?thesis
  proof (cases rule: loop_step.cases)
    case (loop_enters t now)
    then show ?thesis using i [of u] by (auto simp: defs dist_enter_def)
  next
    case (loop_collects t now)
    then show ?thesis using i [of u] by (auto simp: defs dist_collect_def split: prod.split)
  next
    case (loop_pushes t item items)
    then show ?thesis using i [of u] by (auto simp: defs dist_push_def push_begin_def)
  next
    case (loop_dones t)
    then show ?thesis using i [of u] by (auto simp: defs dist_done_def)
  next
    case (loop_clock t)
    then show ?thesis using i [of u] by (auto simp: defs after_work_def)
  next
    case (loop_pop t now)
    then show ?thesis using i [of u] by (auto simp: defs after_work_def global_work_def start_execute_def split: list.split)
  next
    case (loop_actors t)
    then show ?thesis using i [of u] by (auto simp: defs calling_def)
  next
    case (loop_call t c rest)
    then show ?thesis using i [of u] by (cases c; cases "u = t") (auto simp: defs calling_def push_begin_def Reserve_def user_code_def)
  next
    case (loop_link t q job po p)
    then show ?thesis using i [of u] by (auto simp: defs push_link_def calling_def)
  next
    case (loop_decide t q po p)
    then show ?thesis using i [of u] by (auto simp: defs push_decide_def start_execute_def calling_def)
  next
    case (loop_exec_pop t q batch)
    then show ?thesis using i [of u] by (auto simp: defs exec_pop_def calling_def split: list.split)
  next
    case (loop_run t q job todo k)
    then show ?thesis using i [of u] by (auto simp: defs exec_run_def calling_def)
  next
    case (loop_sub t q k)
    then show ?thesis using i [of u] by (auto simp: defs exec_sub_def)
  next
    case (loop_tick t q)
    then show ?thesis using i [of u] by (auto simp: defs exec_tick_def calling_def)
  next
    case (loop_toss t q)
    then show ?thesis using i [of u] by (auto simp: defs exec_toss_def calling_def)
  qed (use i [of u] in \<open>auto simp: defs\<close>)
qed

lemma thread_inv_init: "thread_inv t (loop_init tick)"
  by (simp add: thread_inv_def loop_init_def timer_init_def job_init_def new_worker_def worker_of_def calling_def)

lemma loop_thread_inv:
  assumes "reaches (loop_step n) (loop_init tick) s"
  shows "thread_inv t s"
  using reaches_invariant [OF assms, of "\<lambda>s. \<forall>t. thread_inv t s"] thread_inv_init thread_inv_step by blast

text \<open>What a thread has done: where it is in its calls, its job queue, its round and the timer.\<close>

definition progress :: "nat \<Rightarrow> loop_sys \<Rightarrow> loop_job push_pc \<times> job_call list \<times> loop_job exec_pc \<times> loop_pc \<times> loop_job dist_pc" where
  "progress t s = (wk_push (worker_of t s), gl_calls s t, wk_exec (worker_of t s), gl_pc s t, tm_pc (gl_timer s) t)"

lemma call_step_moves: "wk_push (worker_of t s) = PushNone \<Longrightarrow> gl_calls s t = c # rest \<Longrightarrow> progress t (call_step t c rest s) \<noteq> progress t s"
  by (cases c) (auto simp: progress_def call_step_def push_begin_def worker_of_def)

lemma round_next_moves: "thread_inv t s \<Longrightarrow> progress t (round_next t s) \<noteq> progress t s"
  by (cases "gl_pc s t") (auto simp: progress_def round_next_def loop_defs after_work_def dist_collect_def dist_push_def dist_done_def dist_enter_def
      thread_inv_def Let_def push_begin_def split: dist_pc.split list.split prod.split)

lemma exec_next_moves: "wk_exec (worker_of t s) \<noteq> ExecNone \<Longrightarrow> progress t (exec_next t (wk_exec (worker_of t s)) s) \<noteq> progress t s"
  by (cases "wk_exec (worker_of t s)") (auto simp: progress_def exec_next_def worker_of_def exec_pop_def exec_tick_def exec_toss_def exec_sub_def
      run_job_def exec_run_def Let_def split: list.split)

lemma thread_step_moves:
  assumes "thread_inv t s"
  shows "progress t (thread_step t s) \<noteq> progress t s"
proof (cases "wk_push (worker_of t s)")
  case PushNone
  then show ?thesis using round_next_moves [OF assms] exec_next_moves [of t s] call_step_moves [OF PushNone]
    by (auto simp: thread_step_def split: list.split)
qed (auto simp: thread_step_def progress_def push_link_def push_decide_def start_execute_def worker_of_def)

lemma loop_refines:
  assumes "reaches (loop_step n) s s'"
  shows "reaches (job_step {..n}) (gl_jobs s) (gl_jobs s') \<and> reaches timer_step (gl_timer s) (gl_timer s')"
  using assms
proof (induction rule: reaches.induct)
  case (reaches_step s t u)
  then show ?case using loop_step_jobs [OF reaches_step(2)] loop_step_timer [OF reaches_step(2)]
    by (auto intro: reaches.reaches_step)
qed (simp add: reaches.reaches_refl)

lemma one_distributor:
  assumes "reaches (loop_step n) (loop_init tick) s" and "gl_pc s t = LoopDistribute" and "gl_pc s u = LoopDistribute"
  shows "t = u"
proof -
  have "timer_inv (gl_timer s)"
    using loop_refines [OF assms(1)] by (auto simp: loop_init_def intro: timer_reachable)
  moreover have "tm_pc (gl_timer s) t \<noteq> DistNone" "tm_pc (gl_timer s) u \<noteq> DistNone"
    using loop_thread_inv [OF assms(1)] assms(2,3) by (auto simp: thread_inv_def)
  ultimately show ?thesis unfolding timer_inv_def by blast
qed

text \<open>A prompt run given by the threads that move.\<close>

primrec prompt_run :: "nat list \<Rightarrow> loop_sys \<Rightarrow> bool" where
  "prompt_run [] s = True"
| "prompt_run (t # ts) s = (fresh_timer (thread_step t s) \<and> prompt_run ts (thread_step t s))"

lemma prompt_run_reaches:
  assumes "\<And>t. thread_inv t s" and "prompt_run ts s" and "\<forall>t\<in>set ts. t \<le> n"
  shows "reaches (prompt_step n) s (fold thread_step ts s)"
  using assms
proof (induction ts arbitrary: s)
  case (Cons t ts)
  have l: "loop_step n s (thread_step t s)" using thread_step_enabled [OF _ Cons.prems(1)] Cons.prems(3) by simp
  have rest: "reaches (prompt_step n) (thread_step t s) (fold thread_step ts (thread_step t s))"
    using Cons.prems by (intro Cons.IH thread_inv_step [OF l]) simp_all
  have "prompt_step n s (thread_step t s)" using l Cons.prems(2) by (simp add: prompt_step_def)
  then have "reaches (prompt_step n) s (thread_step t s)" by (blast intro: reaches.intros)
  then show ?case using reaches_trans [OF rest] by simp
qed (simp add: reaches_refl)

lemma prompt_loop: "reaches (prompt_step n) s s' \<Longrightarrow> reaches (loop_step n) s s'"
  by (induction rule: reaches.induct) (auto simp: prompt_step_def intro: reaches.intros)

end
