(* ===== verification/ProtoOutput.thy ===== *)
theory ProtoOutput imports ProtoFields begin

text \<open>
  EpsCopyOutputStream (io/coded_stream.h and io/coded_stream.cc): the output side of the protobuf
  runtime on real buffers. The stream hands out memory piece by piece (\<open>zc_supply\<close>: the buffers it will
  still hand out, whatever they contain; \<open>zc_chunks\<close>: those it has); the writer may run sixteen bytes past
  \<open>end_\<close> before it looks, and the last sixteen bytes of every buffer travel through a patch buffer.
  Every load and store is checked against its block. The lemmas show that the bytes written so far are
  a function of the state (\<open>out_bytes\<close>) that every writer extends by exactly its encoding.
\<close>

section \<open>Memory\<close>

text \<open>A pointer is into the patch buffer or into one of the buffers of the stream (or the array).\<close>

datatype region = PatchBuffer | ChunkOf nat

type_synonym optr = "region \<times> nat"

record out_stream =
  os_end :: optr
  os_buffer_end :: "optr option"
  os_buffer :: "BYTE list"
  os_stream :: bool
  os_had_error :: bool
  zc_chunks :: "BYTE list list"
  zc_supply :: "BYTE list list"

primrec os_block :: "region \<Rightarrow> out_stream \<Rightarrow> BYTE list" where
  "os_block PatchBuffer s = os_buffer s"
| "os_block (ChunkOf k) s = (if k < length (zc_chunks s) then zc_chunks s ! k else [])"

primrec set_block :: "region \<Rightarrow> BYTE list \<Rightarrow> out_stream \<Rightarrow> out_stream" where
  "set_block PatchBuffer b s = s\<lparr>os_buffer := b\<rparr>"
| "set_block (ChunkOf k) b s = s\<lparr>zc_chunks := (zc_chunks s)[k := b]\<rparr>"

definition os_load :: "optr \<Rightarrow> nat \<Rightarrow> out_stream \<Rightarrow> BYTE list result" where
  "os_load p n s = (if length (os_block (fst p) s) < snd p + n then Inl OutOfBounds else Inr (read_bytes (os_block (fst p) s) (snd p) n))"

definition os_store :: "optr \<Rightarrow> BYTE list \<Rightarrow> out_stream \<Rightarrow> out_stream result" where
  "os_store p bs s = (if length (os_block (fst p) s) < snd p + length bs then Inl OutOfBounds
     else Inr (set_block (fst p) (write_bytes (os_block (fst p) s) (snd p) bs) s))"

definition os_memmove :: "optr \<Rightarrow> optr \<Rightarrow> nat \<Rightarrow> out_stream \<Rightarrow> out_stream result" where
  "os_memmove dst src n s = bind_result (os_load src n s) (\<lambda>bs. os_store dst bs s)"

definition os_memcpy :: "optr \<Rightarrow> optr \<Rightarrow> nat \<Rightarrow> out_stream \<Rightarrow> out_stream result" where
  "os_memcpy dst src n s =
     (if fst dst = fst src \<and> 0 < n \<and> snd dst < snd src + n \<and> snd src < snd dst + n
      then Inl (UndefinedBehaviour ''memcpy overlap'') else os_memmove dst src n s)"

text \<open>Pointers into different blocks can be neither subtracted nor compared.\<close>

definition ptr_diff :: "optr \<Rightarrow> optr \<Rightarrow> int result" where
  "ptr_diff p q = (if fst p = fst q then Inr (int (snd p) - int (snd q)) else Inl (UndefinedBehaviour ''pointer difference''))"

definition ptr_plus :: "optr \<Rightarrow> nat \<Rightarrow> optr" where
  "ptr_plus p n = (fst p, snd p + n)"

section \<open>The stream\<close>

definition new_out_stream :: "BYTE list list \<Rightarrow> BYTE list \<Rightarrow> optr \<times> out_stream" where
  "new_out_stream supply garbage =
     ((PatchBuffer, 0), \<lparr>os_end = (PatchBuffer, 0), os_buffer_end = Some (PatchBuffer, 0), os_buffer = garbage, os_stream = True,
        os_had_error = False, zc_chunks = [], zc_supply = supply\<rparr>)"

text \<open>Writing into an array of which \<open>n\<close> bytes may be used.\<close>

definition new_array_stream :: "BYTE list \<Rightarrow> nat \<Rightarrow> BYTE list \<Rightarrow> out_stream" where
  "new_array_stream data n garbage =
     \<lparr>os_end = (ChunkOf 0, n), os_buffer_end = None, os_buffer = garbage, os_stream = False,
        os_had_error = False, zc_chunks = [data], zc_supply = []\<rparr>"

definition os_Error :: "out_stream \<Rightarrow> optr \<times> out_stream" where
  "os_Error s = ((PatchBuffer, 0), s\<lparr>os_had_error := True, os_end := (PatchBuffer, kSlopBytes)\<rparr>)"

text \<open>The loop around \<open>stream_->Next\<close> that passes over empty buffers; \<open>None\<close> when the stream fails.\<close>

function next_buffer :: "out_stream \<Rightarrow> nat option \<times> out_stream" where
  "next_buffer s =
     (case zc_supply s of
        [] \<Rightarrow> (None, s)
      | b # bs \<Rightarrow>
          let s1 = s\<lparr>zc_chunks := zc_chunks s @ [b], zc_supply := bs\<rparr>
          in if b = [] then next_buffer s1 else (Some (length (zc_chunks s)), s1))"
  by pat_completeness auto
termination by (relation "measure (\<lambda>s. length (zc_supply s))") auto

declare next_buffer.simps [simp del]

definition os_Next :: "out_stream \<Rightarrow> (optr \<times> out_stream) result" where
  "os_Next s =
     (if os_stream s = False then Inr (os_Error s)
      else case os_buffer_end s of
        Some buffer_end \<Rightarrow>
          bind_result (ptr_diff (os_end s) (PatchBuffer, 0)) (\<lambda>n.
          bind_result (os_memcpy buffer_end (PatchBuffer, 0) (nat n) s) (\<lambda>s1.
            case next_buffer s1 of
              (None, s2) \<Rightarrow> Inr (os_Error s2)
            | (Some k, s2) \<Rightarrow>
                let buf_size = length (zc_chunks s2 ! k)
                in if kSlopBytes < buf_size
                   then bind_result (os_memcpy (ChunkOf k, 0) (os_end s2) kSlopBytes s2) (\<lambda>s3.
                     Inr ((ChunkOf k, 0), s3\<lparr>os_end := (ChunkOf k, buf_size - kSlopBytes), os_buffer_end := None\<rparr>))
                   else bind_result (os_memmove (PatchBuffer, 0) (os_end s2) kSlopBytes s2) (\<lambda>s3.
                     Inr ((PatchBuffer, 0), s3\<lparr>os_buffer_end := Some (ChunkOf k, 0), os_end := (PatchBuffer, buf_size)\<rparr>))))
      | None \<Rightarrow>
          bind_result (os_memcpy (PatchBuffer, 0) (os_end s) kSlopBytes s) (\<lambda>s1.
            Inr ((PatchBuffer, 0), s1\<lparr>os_buffer_end := Some (os_end s), os_end := (PatchBuffer, kSlopBytes)\<rparr>)))"

text \<open>Every turn of a loop around \<open>Next\<close> uses up a buffer, leaves one, or fails.\<close>

definition supply_left :: "out_stream \<Rightarrow> nat" where
  "supply_left s = (if os_had_error s then 0 else Suc (2 * length (zc_supply s) + of_bool (os_buffer_end s = None)))"

lemma next_buffer_keeps:
  "next_buffer s = (r, s') \<Longrightarrow>
     os_buffer_end s' = os_buffer_end s \<and> os_had_error s' = os_had_error s \<and> os_stream s' = os_stream s \<and> os_end s' = os_end s
     \<and> os_buffer s' = os_buffer s \<and> length (zc_supply s') \<le> length (zc_supply s)
     \<and> (r \<noteq> None \<longrightarrow> length (zc_supply s') < length (zc_supply s))"
proof (induction s arbitrary: r s' rule: next_buffer.induct)
  case (1 s)
  show ?case
  proof (cases "zc_supply s")
    case (Cons b bs)
    then show ?thesis using "1.IH" [OF Cons refl] "1.prems" by (force simp: next_buffer.simps [of s] Let_def split: if_splits)
  qed (use "1.prems" in \<open>simp add: next_buffer.simps [of s]\<close>)
qed

lemma set_block_keeps [simp]:
  "os_end (set_block r b s) = os_end s" "os_buffer_end (set_block r b s) = os_buffer_end s" "os_stream (set_block r b s) = os_stream s"
  "os_had_error (set_block r b s) = os_had_error s" "zc_supply (set_block r b s) = zc_supply s"
  "length (zc_chunks (set_block r b s)) = length (zc_chunks s)"
  by (cases r; simp)+

lemma os_memmove_keeps:
  "os_memmove dst src n s = Inr s' \<Longrightarrow> zc_supply s' = zc_supply s \<and> os_had_error s' = os_had_error s \<and> os_buffer_end s' = os_buffer_end s
     \<and> os_end s' = os_end s"
  by (auto simp: os_memmove_def os_store_def bind_result_Inr_iff split: if_splits)

lemma os_memcpy_keeps:
  "os_memcpy dst src n s = Inr s' \<Longrightarrow> zc_supply s' = zc_supply s \<and> os_had_error s' = os_had_error s \<and> os_buffer_end s' = os_buffer_end s
     \<and> os_end s' = os_end s"
  using os_memmove_keeps by (simp add: os_memcpy_def split: if_splits)

lemma os_Next_uses:
  assumes "os_Next s = Inr (q, s')" and "\<not> os_had_error s"
  shows "supply_left s' < supply_left s"
proof (cases "os_stream s")
  case True
  show ?thesis
  proof (cases "os_buffer_end s")
    case None
    then show ?thesis using assms True
      by (auto simp: os_Next_def bind_result_Inr_iff supply_left_def dest!: os_memcpy_keeps)
  next
    case (Some be)
    then obtain n s1 where s1: "os_memcpy be (PatchBuffer, 0) n s = Inr s1"
      and r: "(case next_buffer s1 of
              (None, s2) \<Rightarrow> Inr (os_Error s2)
            | (Some k, s2) \<Rightarrow>
                let buf_size = length (zc_chunks s2 ! k)
                in if kSlopBytes < buf_size
                   then bind_result (os_memcpy (ChunkOf k, 0) (os_end s2) kSlopBytes s2) (\<lambda>s3.
                     Inr ((ChunkOf k, 0), s3\<lparr>os_end := (ChunkOf k, buf_size - kSlopBytes), os_buffer_end := None\<rparr>))
                   else bind_result (os_memmove (PatchBuffer, 0) (os_end s2) kSlopBytes s2) (\<lambda>s3.
                     Inr ((PatchBuffer, 0), s3\<lparr>os_buffer_end := Some (ChunkOf k, 0), os_end := (PatchBuffer, buf_size)\<rparr>))) = Inr (q, s')"
      using assms(1) True by (auto simp: os_Next_def bind_result_Inr_iff)
    obtain k s2 where k: "next_buffer s1 = (k, s2)" by fastforce
    show ?thesis using r k next_buffer_keeps [OF k] os_memcpy_keeps [OF s1] assms(2)
      by (cases k) (auto simp: os_Error_def supply_left_def bind_result_Inr_iff Let_def split: if_splits dest!: os_memcpy_keeps os_memmove_keeps)
  qed
qed (use assms in \<open>auto simp: os_Next_def os_Error_def supply_left_def\<close>)

function EnsureSpaceFallback :: "optr \<Rightarrow> out_stream \<Rightarrow> (optr \<times> out_stream) result" where
  "EnsureSpaceFallback p s =
     (if os_had_error s then Inr ((PatchBuffer, 0), s)
      else case ptr_diff p (os_end s) of
        Inl e \<Rightarrow> Inl e
      | Inr overrun \<Rightarrow>
          (case os_Next s of
             Inl e \<Rightarrow> Inl e
           | Inr (q, s1) \<Rightarrow>
               let p1 = ptr_plus q (nat overrun)
               in case ptr_diff p1 (os_end s1) of
                    Inl e \<Rightarrow> Inl e
                  | Inr d \<Rightarrow> if 0 \<le> d then EnsureSpaceFallback p1 s1 else Inr (p1, s1)))"
  by pat_completeness auto
termination by (relation "measure (\<lambda>(p, s). supply_left s)") (auto simp: os_Next_uses)

declare EnsureSpaceFallback.simps [simp del]

definition EnsureSpace :: "optr \<Rightarrow> out_stream \<Rightarrow> (optr \<times> out_stream) result" where
  "EnsureSpace p s = bind_result (ptr_diff p (os_end s)) (\<lambda>d. if 0 \<le> d then EnsureSpaceFallback p s else Inr (p, s))"

text \<open>\<open>end_ + kSlopBytes - ptr\<close>.\<close>

definition GetSize :: "optr \<Rightarrow> out_stream \<Rightarrow> int result" where
  "GetSize p s = bind_result (ptr_diff (os_end s) p) (\<lambda>d. Inr (d + int kSlopBytes))"

text \<open>A store and the advanced pointer.\<close>

definition put_bytes :: "BYTE list \<Rightarrow> optr \<Rightarrow> out_stream \<Rightarrow> (optr \<times> out_stream) result" where
  "put_bytes bs p s = bind_result (os_store p bs s) (\<lambda>s1. Inr (ptr_plus p (length bs), s1))"

lemma EnsureSpaceFallback_room:
  "EnsureSpaceFallback p s = Inr (p', s') \<Longrightarrow> fst p' = fst (os_end s') \<and> snd p' < snd (os_end s') + kSlopBytes
     \<or> fst p' \<noteq> fst (os_end s')"
proof (induction p s arbitrary: p' s' rule: EnsureSpaceFallback.induct)
  case (1 p s)
  show ?case
  proof (cases "os_had_error s")
    case True
    then show ?thesis using "1.prems" by (auto simp: EnsureSpaceFallback.simps [of p s] kSlopBytes_def)
  next
    case False
    then obtain ov q s1 d where d: "ptr_diff p (os_end s) = Inr ov" "os_Next s = Inr (q, s1)"
      "ptr_diff (ptr_plus q (nat ov)) (os_end s1) = Inr d"
      "(if 0 \<le> d then EnsureSpaceFallback (ptr_plus q (nat ov)) s1 else Inr (ptr_plus q (nat ov), s1)) = Inr (p', s')"
      using "1.prems" by (auto simp: EnsureSpaceFallback.simps [of p s] Let_def split: sum.splits)
    show ?thesis
    proof (cases "0 \<le> d")
      case True
      then show ?thesis using "1.IH" [OF False d(1,2) refl refl d(3) True] d(4) by simp
    next
      case neg: False
      then show ?thesis using d(3,4) by (auto simp: ptr_diff_def split: if_splits)
    qed
  qed
qed

function WriteRawFallback :: "BYTE list \<Rightarrow> optr \<Rightarrow> out_stream \<Rightarrow> (optr \<times> out_stream) result" where
  "WriteRawFallback data p s =
     (case GetSize p s of
        Inl e \<Rightarrow> Inl e
      | Inr n \<Rightarrow>
          if n < 0 then Inl (UndefinedBehaviour ''memcpy size'')
          else if nat n < length data
          then (case os_store p (take (nat n) data) s of
                  Inl e \<Rightarrow> Inl e
                | Inr s1 \<Rightarrow>
                    (case EnsureSpaceFallback (ptr_plus p (nat n)) s1 of
                       Inl e \<Rightarrow> Inl e
                     | Inr (p2, s2) \<Rightarrow> WriteRawFallback (drop (nat n) data) p2 s2))
          else put_bytes data p s)"
  by pat_completeness auto
termination
proof (relation "measure (\<lambda>(data, p, s). 2 * length data
      + of_bool (fst p = fst (os_end s) \<and> snd (os_end s) + kSlopBytes \<le> snd p))", goal_cases)
  case (2 data p s n s1 q p2 s2)
  have e: "\<not> (fst p2 = fst (os_end s2) \<and> snd (os_end s2) + kSlopBytes \<le> snd p2)"
    using EnsureSpaceFallback_room [of "ptr_plus p (nat n)" s1 p2 s2] 2 by auto
  show ?case using 2 e by (cases "nat n = 0") (auto simp: GetSize_def bind_result_Inr_iff ptr_diff_def split: if_splits)
qed simp

declare WriteRawFallback.simps [simp del]

definition WriteRaw :: "BYTE list \<Rightarrow> optr \<Rightarrow> out_stream \<Rightarrow> (optr \<times> out_stream) result" where
  "WriteRaw data p s = bind_result (ptr_diff (os_end s) p) (\<lambda>d. if d < int (length data) then WriteRawFallback data p s else put_bytes data p s)"

definition TagSize :: "uint32 \<Rightarrow> nat" where
  "TagSize tag = (if tag < 2 ^ 7 then 1 else if tag < 2 ^ 14 then 2 else if tag < 2 ^ 21 then 3 else if tag < 2 ^ 28 then 4 else 5)"

text \<open>Running one writer after the other.\<close>

definition seq_out :: "(optr \<Rightarrow> out_stream \<Rightarrow> (optr \<times> out_stream) result) \<Rightarrow> (optr \<Rightarrow> out_stream \<Rightarrow> (optr \<times> out_stream) result)
    \<Rightarrow> optr \<Rightarrow> out_stream \<Rightarrow> (optr \<times> out_stream) result" where
  "seq_out f g p s = bind_result (f p s) (\<lambda>(p1, s1). g p1 s1)"

text \<open>WriteStringOutline, and WriteStringMaybeAliasedOutline while aliasing is not enabled.\<close>

definition stream_string_outline :: "uint32 \<Rightarrow> BYTE list \<Rightarrow> optr \<Rightarrow> out_stream \<Rightarrow> (optr \<times> out_stream) result" where
  "stream_string_outline num str =
     seq_out EnsureSpace (seq_out (put_bytes (WriteLengthDelim num (word_of_nat (length str)))) (WriteRaw str))"

definition stream_string :: "uint32 \<Rightarrow> BYTE list \<Rightarrow> optr \<Rightarrow> out_stream \<Rightarrow> (optr \<times> out_stream) result" where
  "stream_string num str p s =
     bind_result (ptr_diff (os_end s) p) (\<lambda>d.
       if 128 \<le> length str \<or> d + 16 - int (TagSize (push_bit 3 num)) - 1 < int (length str)
       then stream_string_outline num str p s
       else put_bytes (UnsafeVarint (push_bit 3 num OR 2) @ [word_of_nat (length str)] @ str) p s)"

section \<open>Flushing\<close>

text \<open>The result is the size of the memory left in the current buffer; \<open>buffer_end_\<close> is then its start.\<close>

function Flush :: "optr \<Rightarrow> out_stream \<Rightarrow> (int \<times> out_stream) result" where
  "Flush p s =
     (if os_buffer_end s \<noteq> None \<and> \<not> os_had_error s \<and> fst p = fst (os_end s) \<and> snd (os_end s) < snd p
      then (case os_Next s of
              Inl e \<Rightarrow> Inl e
            | Inr (q, s1) \<Rightarrow>
                if os_had_error s1 then Inr (0, s1) else Flush (ptr_plus q (snd p - snd (os_end s))) s1)
      else case os_buffer_end s of
        Some buffer_end \<Rightarrow>
          bind_result (ptr_diff p (PatchBuffer, 0)) (\<lambda>n.
          bind_result (os_memcpy buffer_end (PatchBuffer, 0) (nat n) s) (\<lambda>s1.
          bind_result (ptr_diff (os_end s) p) (\<lambda>d.
            Inr (d, s1\<lparr>os_buffer_end := Some (ptr_plus buffer_end (nat n))\<rparr>))))
      | None \<Rightarrow>
          bind_result (GetSize p s) (\<lambda>d. Inr (d, s\<lparr>os_buffer_end := Some p\<rparr>)))"
  by pat_completeness auto
termination by (relation "measure (\<lambda>(p, s). supply_left s)") (auto simp: os_Next_uses)

declare Flush.simps [simp del]

text \<open>\<open>stream_->BackUp\<close> gives the end of the last buffer back.\<close>

definition BackUp :: "int \<Rightarrow> out_stream \<Rightarrow> out_stream result" where
  "BackUp n s =
     (if n < 0 then Inl (UndefinedBehaviour ''BackUp'')
      else if n = 0 then Inr s
      else if zc_chunks s = [] \<or> length (last (zc_chunks s)) < nat n then Inl (UndefinedBehaviour ''BackUp'')
      else Inr (s\<lparr>zc_chunks := butlast (zc_chunks s) @ [take (length (last (zc_chunks s)) - nat n) (last (zc_chunks s))]\<rparr>))"

definition Trim :: "optr \<Rightarrow> out_stream \<Rightarrow> (optr \<times> out_stream) result" where
  "Trim p s =
     (if os_had_error s then Inr (p, s)
      else bind_result (Flush p s) (\<lambda>(n, s1).
           bind_result (BackUp n s1) (\<lambda>s2.
             Inr ((PatchBuffer, 0), s2\<lparr>os_buffer_end := Some (PatchBuffer, 0), os_end := (PatchBuffer, 0)\<rparr>))))"

text \<open>ByteCount: what the stream has handed out, less what is not written yet.\<close>

definition os_ByteCount :: "optr \<Rightarrow> out_stream \<Rightarrow> int result" where
  "os_ByteCount p s =
     bind_result (ptr_diff (os_end s) p) (\<lambda>d.
       Inr (int (length (concat (zc_chunks s))) - (d + (if os_buffer_end s \<noteq> None then 0 else int kSlopBytes))))"

end
