(* ===== verification/OutputRefinement.thy ===== *)
theory OutputRefinement imports ProtoOutput begin

text \<open>
  EpsCopyOutputStream refines a byte sequence. \<open>out_inv\<close> describes the four shapes of the state (writing
  into an array, into a buffer of the stream, into the patch buffer, and after an error), \<open>out_bytes\<close> is
  the sequence written, \<open>out_space\<close> what the stream can still take. \<open>writes f bs\<close> says that the writer
  \<open>f\<close> appends \<open>bs\<close>, without any access outside its buffers, and fails only when the stream is too short;
  it is closed under composition, so the writers of fields and messages are proved one on another.
\<close>

section \<open>The state\<close>

definition error_mode :: "optr \<Rightarrow> out_stream \<Rightarrow> bool" where
  "error_mode p s \<longleftrightarrow> os_had_error s \<and> fst p = PatchBuffer \<and> fst (os_end s) = PatchBuffer
     \<and> snd (os_end s) \<le> 16 \<and> snd p \<le> snd (os_end s) + 16"

definition array_mode :: "optr \<Rightarrow> out_stream \<Rightarrow> bool" where
  "array_mode p s \<longleftrightarrow> \<not> os_had_error s \<and> \<not> os_stream s \<and> os_buffer_end s = None \<and> zc_supply s = []
     \<and> (\<exists>a n. zc_chunks s = [a] \<and> n \<le> length a \<and> os_end s = (ChunkOf 0, n) \<and> fst p = ChunkOf 0 \<and> snd p \<le> n)"

definition direct_mode :: "optr \<Rightarrow> out_stream \<Rightarrow> bool" where
  "direct_mode p s \<longleftrightarrow> \<not> os_had_error s \<and> os_stream s \<and> os_buffer_end s = None
     \<and> (\<exists>cs c. zc_chunks s = cs @ [c] \<and> 16 < length c \<and> os_end s = (ChunkOf (length cs), length c - 16)
          \<and> fst p = ChunkOf (length cs) \<and> snd p \<le> length c)"

definition patch_mode :: "optr \<Rightarrow> out_stream \<Rightarrow> bool" where
  "patch_mode p s \<longleftrightarrow> \<not> os_had_error s \<and> os_stream s
     \<and> (\<exists>e \<le> 16. os_end s = (PatchBuffer, e) \<and> fst p = PatchBuffer \<and> snd p \<le> e + 16
          \<and> (os_buffer_end s = Some (PatchBuffer, 0) \<and> e = 0
             \<or> (\<exists>cs c off. zc_chunks s = cs @ [c] \<and> os_buffer_end s = Some (ChunkOf (length cs), off) \<and> off + e = length c)))"

definition out_inv :: "optr \<Rightarrow> out_stream \<Rightarrow> bool" where
  "out_inv p s \<longleftrightarrow> length (os_buffer s) = 32 \<and> (error_mode p s \<or> array_mode p s \<or> direct_mode p s \<or> patch_mode p s)"

lemmas mode_defs = error_mode_def array_mode_def direct_mode_def patch_mode_def

text \<open>What has been written: the finished part of the buffers, then the patch buffer.\<close>

definition out_bytes :: "optr \<Rightarrow> out_stream \<Rightarrow> BYTE list" where
  "out_bytes p s =
     (case os_buffer_end s of
        None \<Rightarrow> concat (butlast (zc_chunks s)) @ take (snd p) (last (zc_chunks s))
      | Some (PatchBuffer, off) \<Rightarrow> concat (zc_chunks s) @ take (snd p) (os_buffer s)
      | Some (ChunkOf k, off) \<Rightarrow> concat (butlast (zc_chunks s)) @ take off (last (zc_chunks s)) @ take (snd p) (os_buffer s))"

definition out_space :: "optr \<Rightarrow> out_stream \<Rightarrow> int" where
  "out_space p s = int (snd (os_end s)) + (if os_stream s \<and> os_buffer_end s = None then 16 else 0) - int (snd p)
     + int (sum_list (map length (zc_supply s)))"

text \<open>How far a writer may go before it looks again.\<close>

definition out_bound :: "out_stream \<Rightarrow> nat" where
  "out_bound s = snd (os_end s) + (if os_stream s \<or> os_had_error s then 16 else 0)"

text \<open>The part of an array that does not belong to the message.\<close>

definition out_rest :: "out_stream \<Rightarrow> BYTE list" where
  "out_rest s = drop (snd (os_end s)) (hd (zc_chunks s))"

definition appended :: "BYTE list \<Rightarrow> optr \<Rightarrow> out_stream \<Rightarrow> optr \<Rightarrow> out_stream \<Rightarrow> bool" where
  "appended bs p s p' s' \<longleftrightarrow>
     out_inv p' s' \<and> os_stream s' = os_stream s
     \<and> (os_had_error s \<longrightarrow> os_had_error s')
     \<and> (\<not> os_had_error s' \<longrightarrow> out_bytes p' s' = out_bytes p s @ bs \<and> out_space p' s' = out_space p s - int (length bs)
          \<and> (\<not> os_stream s \<longrightarrow> out_rest s' = out_rest s \<and> os_end s' = os_end s))
     \<and> (os_had_error s' \<longrightarrow> os_had_error s \<or> out_space p s < int (length bs))"

lemma appended_refl: "out_inv p s \<Longrightarrow> appended [] p s p s"
  by (simp add: appended_def)

lemma appended_trans:
  assumes "appended a p s p1 s1" and "appended b p1 s1 p2 s2"
  shows "appended (a @ b) p s p2 s2"
  using assms unfolding appended_def by auto

text \<open>Where the pointer and the end point, in every mode.\<close>

lemma out_inv_regions: "out_inv p s \<Longrightarrow> fst (os_end s) = fst p"
  by (auto simp: out_inv_def mode_defs)

lemma out_inv_diff: "out_inv p s \<Longrightarrow> ptr_diff (os_end s) p = Inr (int (snd (os_end s)) - int (snd p))"
  and out_inv_diff': "out_inv p s \<Longrightarrow> ptr_diff p (os_end s) = Inr (int (snd p) - int (snd (os_end s)))"
  by (simp_all add: ptr_diff_def out_inv_regions)

lemma out_inv_bound: "out_inv p s \<Longrightarrow> snd p \<le> out_bound s"
  by (auto simp: out_inv_def mode_defs out_bound_def)

lemma out_inv_GetSize: "out_inv p s \<Longrightarrow> GetSize p s = Inr (int (snd (os_end s)) + 16 - int (snd p))"
  by (simp add: GetSize_def out_inv_diff kSlopBytes_def)

section \<open>Storing\<close>

lemma take_write_bytes: "off + length bs \<le> length b \<Longrightarrow> take (off + length bs) (write_bytes b off bs) = take off b @ bs"
  by (simp add: write_bytes_def)

lemma drop_write_bytes: "off + length bs \<le> n \<Longrightarrow> off + length bs \<le> length b \<Longrightarrow> drop n (write_bytes b off bs) = drop n b"
  by (simp add: write_bytes_def)

lemma put_bytes_appends:
  assumes inv: "out_inv p s" and room: "snd p + length bs \<le> out_bound s"
  shows "\<exists>s'. put_bytes bs p s = Inr (ptr_plus p (length bs), s') \<and> appended bs p s (ptr_plus p (length bs)) s'"
proof -
  consider (err) "error_mode p s" | (arr) "array_mode p s" | (dir) "direct_mode p s" | (pat) "patch_mode p s"
    using inv by (auto simp: out_inv_def)
  then show ?thesis
  proof cases
    case err
    then show ?thesis using room inv
      by (auto simp: put_bytes_def os_store_def error_mode_def out_bound_def out_inv_def appended_def ptr_plus_def)
  next
    case arr
    then obtain a n where a: "zc_chunks s = [a]" "n \<le> length a" "os_end s = (ChunkOf 0, n)" "fst p = ChunkOf 0" "snd p \<le> n"
      "\<not> os_had_error s" "\<not> os_stream s" "os_buffer_end s = None" "zc_supply s = []" by (auto simp: array_mode_def)
    show ?thesis using a room inv
      by (auto simp: put_bytes_def os_store_def out_bound_def out_inv_def array_mode_def appended_def ptr_plus_def out_bytes_def
          out_space_def out_rest_def take_write_bytes drop_write_bytes)
  next
    case dir
    then obtain cs c where c: "zc_chunks s = cs @ [c]" "16 < length c" "os_end s = (ChunkOf (length cs), length c - 16)"
      "fst p = ChunkOf (length cs)" "snd p \<le> length c" "\<not> os_had_error s" "os_stream s" "os_buffer_end s = None"
      by (auto simp: direct_mode_def)
    show ?thesis using c room inv
      by (auto simp: put_bytes_def os_store_def out_bound_def out_inv_def direct_mode_def appended_def ptr_plus_def out_bytes_def
          out_space_def take_write_bytes list_update_append)
  next
    case pat
    then obtain e where e: "e \<le> 16" "os_end s = (PatchBuffer, e)" "fst p = PatchBuffer" "snd p \<le> e + 16"
      "\<not> os_had_error s" "os_stream s" by (auto simp: patch_mode_def)
    show ?thesis using pat e room inv
      by (auto simp: put_bytes_def os_store_def out_bound_def out_inv_def patch_mode_def appended_def ptr_plus_def out_bytes_def
          out_space_def take_write_bytes split: region.splits)
  qed
qed

section \<open>The next buffer\<close>

lemma next_buffer_None:
  "next_buffer s = (None, s') \<Longrightarrow> s' = s\<lparr>zc_chunks := zc_chunks s @ zc_supply s, zc_supply := []\<rparr> \<and> concat (zc_supply s) = []"
proof (induction s arbitrary: s' rule: next_buffer.induct)
  case (1 s)
  show ?case
  proof (cases "zc_supply s")
    case (Cons b bs)
    then show ?thesis using "1.IH" [OF Cons refl] "1.prems" by (auto simp: next_buffer.simps [of s] Let_def split: if_splits)
  qed (use "1.prems" in \<open>auto simp: next_buffer.simps [of s]\<close>)
qed

lemma next_buffer_Some:
  "next_buffer s = (Some k, s') \<Longrightarrow> \<exists>es b bs. zc_supply s = es @ b # bs \<and> concat es = [] \<and> b \<noteq> [] \<and> k = length (zc_chunks s) + length es
     \<and> s' = s\<lparr>zc_chunks := zc_chunks s @ es @ [b], zc_supply := bs\<rparr>"
proof (induction s arbitrary: s' rule: next_buffer.induct)
  case (1 s)
  show ?case
  proof (cases "zc_supply s")
    case (Cons b bs)
    show ?thesis
    proof (cases "b = []")
      case True
      obtain es b' bs' where i: "bs = es @ b' # bs'" "concat es = []" "b' \<noteq> []" "k = length (zc_chunks s) + 1 + length es"
        "s' = s\<lparr>zc_chunks := zc_chunks s @ [b] @ es @ [b'], zc_supply := bs'\<rparr>"
        using "1.IH" [OF Cons refl True] "1.prems" Cons True by (auto simp: next_buffer.simps [of s] Let_def)
      show ?thesis by (rule exI [of _ "b # es"], rule exI [of _ b'], rule exI [of _ bs']) (use i Cons True in simp)
    next
      case False
      show ?thesis by (rule exI [of _ "[]"], rule exI [of _ b], rule exI [of _ bs]) (use "1.prems" Cons False in \<open>auto simp: next_buffer.simps [of s] Let_def\<close>)
    qed
  qed (use "1.prems" in \<open>simp add: next_buffer.simps [of s]\<close>)
qed

lemma sum_lengths: "sum_list (map length xss) = length (concat xss)"
  by (simp add: length_concat)

definition moved :: "optr \<Rightarrow> out_stream \<Rightarrow> optr \<Rightarrow> out_stream \<Rightarrow> bool" where
  "moved p s p' s' \<longleftrightarrow> out_inv p' s' \<and> os_stream s' = os_stream s
     \<and> (\<not> os_had_error s' \<longrightarrow> os_stream s \<and> out_bytes p' s' = out_bytes p s \<and> out_space p' s' = out_space p s)
     \<and> (os_had_error s' \<longrightarrow> out_space p s = int (snd (os_end s)) - int (snd p))"

text \<open>In the patch buffer: the buffer before it is completed and the sixteen bytes after the end move on.\<close>

lemma next_after_patch:
  assumes st: "os_stream s" "\<not> os_had_error s" and len: "length (os_buffer s) = 32"
    and e: "os_end s = (PatchBuffer, e)" "e \<le> 16" and p: "fst p = PatchBuffer" "e \<le> snd p" "snd p \<le> e + 16"
    and cp: "os_memcpy be (PatchBuffer, 0) e s = Inr s1" and be: "os_buffer_end s = Some be"
    and s1: "s1 = s\<lparr>zc_chunks := cs\<rparr>" and bytes: "out_bytes p s = concat cs @ take (snd p - e) (drop e (os_buffer s))"
  shows "\<exists>q s'. os_Next s = Inr (q, s') \<and> moved p s (ptr_plus q (snd p - e)) s'"
proof -
  obtain r s2 where nb: "next_buffer s1 = (r, s2)" by fastforce
  show ?thesis
  proof (cases r)
    case None
    have n: "s2 = s1\<lparr>zc_chunks := zc_chunks s1 @ zc_supply s1, zc_supply := []\<rparr>" "concat (zc_supply s) = []"
      using next_buffer_None [OF nb [unfolded None]] s1 by simp_all
    have "snd p - e \<le> 32" using p by simp
    then show ?thesis using n nb None st len e p cp be s1
      by (simp add: os_Next_def ptr_diff_def os_Error_def moved_def out_inv_def error_mode_def ptr_plus_def out_space_def sum_lengths
          kSlopBytes_def)
  next
    case (Some k)
    obtain es b bs where n: "zc_supply s = es @ b # bs" "concat es = []" "b \<noteq> []" "k = length cs + length es"
      "s2 = s1\<lparr>zc_chunks := cs @ es @ [b], zc_supply := bs\<rparr>"
      using next_buffer_Some [OF nb [unfolded Some]] s1 by auto
    have k: "(cs @ es @ [b]) ! k = b" "k < length (cs @ es @ [b])" "length cs + length es = k"
      using n(4) by (simp_all add: nth_append)
    let ?slop = "read_bytes (os_buffer s) e 16"
    have slop: "length ?slop = 16" using len e by simp
    have tk: "take (snd p - e) ?slop = take (snd p - e) (drop e (os_buffer s))"
      using p by (simp add: read_bytes_def min_def)
    show ?thesis
    proof (cases "16 < length b")
      case True
      have ld: "os_load (PatchBuffer, e) 16 s2 = Inr ?slop" using n s1 len e by (simp add: os_load_def)
      have st': "os_store (ChunkOf k, 0) ?slop s2 = Inr (s2\<lparr>zc_chunks := (cs @ es) @ [write_bytes b 0 ?slop]\<rparr>)"
        using n k slop True by (simp add: os_store_def list_update_append)
      have w: "take (snd p - e) (write_bytes b 0 ?slop) = take (snd p - e) ?slop"
        using slop p by (simp add: write_bytes_def)
      let ?t = "s2\<lparr>zc_chunks := (cs @ es) @ [write_bytes b 0 ?slop], os_end := (ChunkOf k, length b - 16), os_buffer_end := None\<rparr>"
      have cp2: "os_memcpy (ChunkOf k, 0) (PatchBuffer, e) 16 s2 = Inr (s2\<lparr>zc_chunks := (cs @ es) @ [write_bytes b 0 ?slop]\<rparr>)"
        using ld st' by (simp add: os_memcpy_def os_memmove_def)
      have e2: "os_end s2 = (PatchBuffer, e)" "zc_chunks s2 ! k = b" using n(5) s1 e k(1) by simp_all
      have ev: "os_Next s = Inr ((ChunkOf k, 0), ?t)"
        using st(1) be e cp nb Some cp2 e2 True by (simp add: os_Next_def ptr_diff_def kSlopBytes_def Let_def)
      have "direct_mode (ChunkOf k, snd p - e) ?t"
        unfolding direct_mode_def using True n(5) s1 st k(3) slop p by (simp add: length_append)
      then have "out_inv (ChunkOf k, snd p - e) ?t" using n(5) s1 len by (simp add: out_inv_def)
      moreover have "out_bytes (ChunkOf k, snd p - e) ?t = out_bytes p s"
        using bytes n(2) w tk by (simp add: out_bytes_def butlast_append)
      moreover have "out_space (ChunkOf k, snd p - e) ?t = out_space p s"
        using n(1,2,5) s1 st(1) e be True p by (simp add: out_space_def sum_lengths)
      ultimately show ?thesis using ev n(5) s1 st by (simp add: moved_def ptr_plus_def)
    next
      case False
      have ld: "os_load (PatchBuffer, e) 16 s2 = Inr ?slop" using n s1 len e by (simp add: os_load_def)
      have st': "os_store (PatchBuffer, 0) ?slop s2 = Inr (s2\<lparr>os_buffer := write_bytes (os_buffer s) 0 ?slop\<rparr>)"
        using n slop len s1 by (simp add: os_store_def)
      have w: "take (snd p - e) (write_bytes (os_buffer s) 0 ?slop) = take (snd p - e) ?slop"
        using slop p by (simp add: write_bytes_def)
      let ?t = "s2\<lparr>os_buffer := write_bytes (os_buffer s) 0 ?slop, os_buffer_end := Some (ChunkOf k, 0), os_end := (PatchBuffer, length b)\<rparr>"
      have mv: "os_memmove (PatchBuffer, 0) (PatchBuffer, e) 16 s2 = Inr (s2\<lparr>os_buffer := write_bytes (os_buffer s) 0 ?slop\<rparr>)"
        using ld st' by (simp add: os_memmove_def)
      have e2: "os_end s2 = (PatchBuffer, e)" "zc_chunks s2 ! k = b" using n(5) s1 e k(1) by simp_all
      have ev: "os_Next s = Inr ((PatchBuffer, 0), ?t)"
        using st(1) be e cp nb Some mv e2 False by (simp add: os_Next_def ptr_diff_def kSlopBytes_def Let_def)
      have "patch_mode (PatchBuffer, snd p - e) ?t"
        unfolding patch_mode_def using False n(5) s1 st k(3) p by (simp add: exI [of _ "cs @ es"])
      then have "out_inv (PatchBuffer, snd p - e) ?t" using n(5) s1 len slop by (simp add: out_inv_def)
      moreover have "out_bytes (PatchBuffer, snd p - e) ?t = out_bytes p s"
        using bytes n(2,5) w tk by (simp add: out_bytes_def butlast_append)
      moreover have "out_space (PatchBuffer, snd p - e) ?t = out_space p s"
        using n(1,2,5) s1 st(1) e be p by (simp add: out_space_def sum_lengths)
      ultimately show ?thesis using ev n(5) s1 st by (simp add: moved_def ptr_plus_def)
    qed
  qed
qed

lemma os_Next_moves:
  assumes inv: "out_inv p s" and err: "\<not> os_had_error s" and past: "snd (os_end s) \<le> snd p"
  shows "\<exists>q s'. os_Next s = Inr (q, s') \<and> moved p s (ptr_plus q (snd p - snd (os_end s))) s'"
proof -
  have len: "length (os_buffer s) = 32" using inv by (simp add: out_inv_def)
  consider (arr) "array_mode p s" | (dir) "direct_mode p s" | (pat) "patch_mode p s"
    using inv err by (auto simp: out_inv_def error_mode_def)
  then show ?thesis
  proof cases
    case arr
    then show ?thesis using past len
      by (auto simp: os_Next_def array_mode_def os_Error_def moved_def out_inv_def error_mode_def ptr_plus_def out_space_def kSlopBytes_def)
  next
    case dir
    then obtain cs c where c: "zc_chunks s = cs @ [c]" "16 < length c" "os_end s = (ChunkOf (length cs), length c - 16)"
      "fst p = ChunkOf (length cs)" "snd p \<le> length c" "os_stream s" "os_buffer_end s = None"
      by (auto simp: direct_mode_def)
    let ?slop = "read_bytes c (length c - 16) 16"
    have slop: "length ?slop = 16" using c by simp
    have "?slop = drop (length c - 16) c" by (simp add: read_bytes_def)
    then have "take (length c - 16) c @ take (snd p - (length c - 16)) ?slop = take (snd p) c"
      using past c(3) by (simp flip: take_add)
    moreover have "take (snd p - (length c - 16)) (write_bytes (os_buffer s) 0 ?slop) = take (snd p - (length c - 16)) ?slop"
      using slop c past by (simp add: write_bytes_def)
    moreover have "snd p + 16 - length c \<le> 32" using c by simp
    ultimately show ?thesis using c slop len err past
      by (simp add: os_Next_def os_memcpy_def os_memmove_def os_load_def os_store_def kSlopBytes_def moved_def out_inv_def patch_mode_def
          ptr_plus_def out_bytes_def out_space_def)
  next
    case pat
    then obtain e where e: "e \<le> 16" "os_end s = (PatchBuffer, e)" "fst p = PatchBuffer" "snd p \<le> e + 16" "os_stream s"
      and be: "os_buffer_end s = Some (PatchBuffer, 0) \<and> e = 0
             \<or> (\<exists>cs c off. zc_chunks s = cs @ [c] \<and> os_buffer_end s = Some (ChunkOf (length cs), off) \<and> off + e = length c)"
      by (auto simp: patch_mode_def)
    have tk: "take (snd p) (os_buffer s) = take e (os_buffer s) @ take (snd p - e) (drop e (os_buffer s))"
      using past e by (simp flip: take_add)
    from be show ?thesis
    proof (elim disjE exE conjE)
      assume b: "os_buffer_end s = Some (PatchBuffer, 0)" "e = 0"
      have cp: "os_memcpy (PatchBuffer, 0) (PatchBuffer, 0) e s = Inr (s\<lparr>zc_chunks := zc_chunks s\<rparr>)"
        using b len by (simp add: os_memcpy_def os_memmove_def os_load_def os_store_def read_bytes_def write_bytes_def)
      show ?thesis using next_after_patch [OF e(5) err len e(2,1,3) _ e(4) cp b(1) refl] past e(2) b by (simp add: out_bytes_def)
    next
      fix cs c off assume b: "zc_chunks s = cs @ [c]" "os_buffer_end s = Some (ChunkOf (length cs), off)" "off + e = length c"
      have cp: "os_memcpy (ChunkOf (length cs), off) (PatchBuffer, 0) e s
          = Inr (s\<lparr>zc_chunks := cs @ [write_bytes c off (take e (os_buffer s))]\<rparr>)"
        using b len e by (simp add: os_memcpy_def os_memmove_def os_load_def os_store_def read_bytes_def min_def list_update_append)
      have w: "write_bytes c off (take e (os_buffer s)) = take off c @ take e (os_buffer s)"
        using b len e by (simp add: write_bytes_def min_def)
      show ?thesis using next_after_patch [OF e(5) err len e(2,1,3) _ e(4) cp b(2) refl] past e(2) b tk by (simp add: out_bytes_def w)
    qed
  qed
qed

section \<open>Making space\<close>

text \<open>The sixteen bytes after the pointer may be written; or the stream is exhausted.\<close>

definition ensured :: "optr \<Rightarrow> out_stream \<Rightarrow> optr \<Rightarrow> out_stream \<Rightarrow> bool" where
  "ensured p s p' s' \<longleftrightarrow> out_inv p' s' \<and> os_stream s' = os_stream s \<and> (os_had_error s \<longrightarrow> os_had_error s')
     \<and> (\<not> os_had_error s' \<longrightarrow> os_stream s \<and> out_bytes p' s' = out_bytes p s \<and> out_space p' s' = out_space p s)
     \<and> (os_had_error s' \<longrightarrow> os_had_error s \<or> out_space p s \<le> 0)
     \<and> snd p' + 16 \<le> out_bound s'"

lemma EnsureSpaceFallback_ensures:
  "out_inv p s \<Longrightarrow> os_had_error s \<or> snd (os_end s) \<le> snd p
    \<Longrightarrow> \<exists>p' s'. EnsureSpaceFallback p s = Inr (p', s') \<and> ensured p s p' s'"
proof (induction p s rule: EnsureSpaceFallback.induct)
  case (1 p s)
  note inv = "1.prems"(1)
  show ?case
  proof (cases "os_had_error s")
    case True
    then show ?thesis using inv
      by (auto simp: EnsureSpaceFallback.simps [of p s] ensured_def out_inv_def mode_defs out_bound_def)
  next
    case False
    then have past: "snd (os_end s) \<le> snd p" using "1.prems"(2) by simp
    obtain q s1 where q: "os_Next s = Inr (q, s1)" and mv: "moved p s (ptr_plus q (snd p - snd (os_end s))) s1"
      using os_Next_moves [OF inv False past] by auto
    let ?ov = "int (snd p) - int (snd (os_end s))"
    let ?p1 = "ptr_plus q (nat ?ov)"
    have ov: "nat ?ov = snd p - snd (os_end s)" by simp
    have mv1: "moved p s ?p1 s1" using mv unfolding ov .
    then have inv1: "out_inv ?p1 s1" by (simp add: moved_def)
    note d1 = out_inv_diff' [OF inv1]
    have step: "EnsureSpaceFallback p s = (if 0 \<le> int (snd ?p1) - int (snd (os_end s1)) then EnsureSpaceFallback ?p1 s1 else Inr (?p1, s1))"
      using False q d1 by (simp add: EnsureSpaceFallback.simps [of p s] out_inv_diff' [OF inv] Let_def)
    show ?thesis
    proof (cases "0 \<le> int (snd ?p1) - int (snd (os_end s1))")
      case True
      then obtain p' s' where e: "EnsureSpaceFallback ?p1 s1 = Inr (p', s')" "ensured ?p1 s1 p' s'"
        using "1.IH" [OF False out_inv_diff' [OF inv] q refl refl d1 True inv1] by auto
      have "ensured p s p' s'" using e(2) mv1 past False unfolding ensured_def moved_def by auto
      then show ?thesis using step True e(1) by simp
    next
      case neg: False
      have "out_bound s1 = snd (os_end s1) + 16" using mv1 by (cases "os_had_error s1") (auto simp: moved_def out_bound_def)
      then have "ensured p s ?p1 s1" using mv1 past neg False unfolding ensured_def moved_def by auto
      then show ?thesis using step neg by simp
    qed
  qed
qed

lemma appended_via:
  assumes "appended a p s p1 s1" and "ensured p1 s1 p2 s2" and "appended b p2 s2 p3 s3" and "b \<noteq> []"
  shows "appended (a @ b) p s p3 s3"
proof (cases "os_had_error s3")
  case True
  have "os_had_error s \<or> out_space p s < int (length (a @ b))"
  proof (cases "os_had_error s1")
    case True
    then show ?thesis using assms(1) by (auto simp: appended_def)
  next
    case ok: False
    then have sp: "out_space p1 s1 = out_space p s - int (length a)" using assms(1) by (simp add: appended_def)
    have "out_space p1 s1 \<le> 0 \<or> \<not> os_had_error s2" using assms(2) ok by (auto simp: ensured_def)
    moreover have "out_space p1 s1 < int (length b)" if "\<not> os_had_error s2"
      using that True assms(2,3) by (auto simp: ensured_def appended_def)
    ultimately show ?thesis using sp assms(4) by (cases b) auto
  qed
  then show ?thesis using True assms(1-3) by (simp add: appended_def ensured_def)
next
  case False
  then have ok: "\<not> os_had_error s2" "\<not> os_had_error s1" "\<not> os_had_error s" using assms(1-3) by (auto simp: appended_def ensured_def)
  then show ?thesis using False assms(1-3) by (simp add: appended_def ensured_def)
qed

section \<open>Writers\<close>

definition fits_out :: "nat \<Rightarrow> optr \<Rightarrow> out_stream \<Rightarrow> bool" where
  "fits_out n p s \<longleftrightarrow> os_stream s \<or> os_had_error s \<or> int n \<le> out_space p s"

definition writes :: "(optr \<Rightarrow> out_stream \<Rightarrow> (optr \<times> out_stream) result) \<Rightarrow> BYTE list \<Rightarrow> bool" where
  "writes f bs \<longleftrightarrow> (\<forall>p s. out_inv p s \<longrightarrow> fits_out (length bs) p s \<longrightarrow> (\<exists>p' s'. f p s = Inr (p', s') \<and> appended bs p s p' s'))"

lemma writesD: "writes f bs \<Longrightarrow> out_inv p s \<Longrightarrow> fits_out (length bs) p s \<Longrightarrow> \<exists>p' s'. f p s = Inr (p', s') \<and> appended bs p s p' s'"
  unfolding writes_def by blast

lemma writes_nothing: "writes (\<lambda>p s. Inr (p, s)) []"
  by (simp add: writes_def appended_refl)

lemma seq_out_assoc: "seq_out (seq_out f g) h = seq_out f (seq_out g h)"
  by (auto simp: seq_out_def fun_eq_iff bind_result_assoc intro!: arg_cong2 [where f = bind_result])

lemma writes_seq:
  assumes f: "writes f a" and g: "writes g b"
  shows "writes (seq_out f g) (a @ b)"
  unfolding writes_def
proof (intro allI impI)
  fix p s assume inv: "out_inv p s" and fits: "fits_out (length (a @ b)) p s"
  then have "fits_out (length a) p s" by (auto simp: fits_out_def)
  then obtain p1 s1 where 1: "f p s = Inr (p1, s1)" "appended a p s p1 s1" using writesD [OF f inv] by blast
  then have "out_inv p1 s1" "fits_out (length b) p1 s1" using fits by (auto simp: appended_def fits_out_def)
  then obtain p2 s2 where 2: "g p1 s1 = Inr (p2, s2)" "appended b p1 s1 p2 s2" using writesD [OF g] by blast
  show "\<exists>p' s'. seq_out f g p s = Inr (p', s') \<and> appended (a @ b) p s p' s'"
    using 1 2 appended_trans [OF 1(2) 2(2)] by (simp add: seq_out_def)
qed

lemma writes_if: "(c \<Longrightarrow> writes f a) \<Longrightarrow> (\<not> c \<Longrightarrow> writes g b) \<Longrightarrow> writes (if c then f else g) (if c then a else b)"
  by simp

lemma array_space: "out_inv p s \<Longrightarrow> \<not> os_stream s \<Longrightarrow> \<not> os_had_error s \<Longrightarrow> out_space p s = int (snd (os_end s)) - int (snd p)"
  by (auto simp: out_inv_def mode_defs out_space_def)

lemma writes_put:
  assumes "bs \<noteq> []" and "length bs \<le> 16"
  shows "writes (seq_out EnsureSpace (put_bytes bs)) bs"
  unfolding writes_def
proof (intro allI impI)
  fix p s assume inv: "out_inv p s" and fits: "fits_out (length bs) p s"
  have d: "EnsureSpace p s = (if snd (os_end s) \<le> snd p then EnsureSpaceFallback p s else Inr (p, s))"
    by (simp add: EnsureSpace_def out_inv_diff' [OF inv])
  show "\<exists>p' s'. seq_out EnsureSpace (put_bytes bs) p s = Inr (p', s') \<and> appended bs p s p' s'"
  proof (cases "snd (os_end s) \<le> snd p")
    case True
    then obtain p1 s1 where e: "EnsureSpaceFallback p s = Inr (p1, s1)" "ensured p s p1 s1"
      using EnsureSpaceFallback_ensures [OF inv] by blast
    then have "out_inv p1 s1" "snd p1 + length bs \<le> out_bound s1" using assms(2) by (auto simp: ensured_def)
    then obtain s2 where 2: "put_bytes bs p1 s1 = Inr (ptr_plus p1 (length bs), s2)" "appended bs p1 s1 (ptr_plus p1 (length bs)) s2"
      using put_bytes_appends by blast
    show ?thesis using appended_via [OF appended_refl [OF inv] e(2) 2(2) assms(1)] e(1) 2(1) d True by (simp add: seq_out_def)
  next
    case False
    have "snd p + length bs \<le> out_bound s"
      using False fits assms(2) array_space [OF inv] by (auto simp: fits_out_def out_bound_def)
    then show ?thesis using put_bytes_appends [OF inv] d False by (fastforce simp: seq_out_def)
  qed
qed

lemma WriteRawFallback_appends:
  "out_inv p s \<Longrightarrow> os_stream s \<or> os_had_error s
    \<Longrightarrow> \<exists>p' s'. WriteRawFallback data p s = Inr (p', s') \<and> appended data p s p' s'"
proof (induction data p s rule: WriteRawFallback.induct)
  case (1 data p s)
  note inv = "1.prems"(1)
  have bound: "out_bound s = snd (os_end s) + 16" using "1.prems"(2) by (auto simp: out_bound_def)
  let ?n = "int (snd (os_end s)) + 16 - int (snd p)"
  have n: "0 \<le> ?n" "nat ?n = out_bound s - snd p" using out_inv_bound [OF inv] bound by auto
  note g = out_inv_GetSize [OF inv]
  show ?case
  proof (cases "nat ?n < length data")
    case True
    let ?a = "take (nat ?n) data" and ?b = "drop (nat ?n) data"
    have la: "length ?a = nat ?n" "?b \<noteq> []" "snd p + length ?a \<le> out_bound s" using True n out_inv_bound [OF inv] by auto
    obtain s1 where s1: "put_bytes ?a p s = Inr (ptr_plus p (nat ?n), s1)" "appended ?a p s (ptr_plus p (nat ?n)) s1"
      using put_bytes_appends [OF inv la(3)] la(1) by auto
    then have st: "os_store p ?a s = Inr s1" by (auto simp: put_bytes_def bind_result_Inr_iff)
    then have same: "os_end s1 = os_end s" "os_had_error s1 = os_had_error s" by (auto simp: os_store_def split: if_splits)
    have "os_had_error s1 \<or> snd (os_end s1) \<le> snd (ptr_plus p (nat ?n))" using same n bound by (auto simp: ptr_plus_def)
    then obtain p2 s2 where 2: "EnsureSpaceFallback (ptr_plus p (nat ?n)) s1 = Inr (p2, s2)" "ensured (ptr_plus p (nat ?n)) s1 p2 s2"
      using EnsureSpaceFallback_ensures s1(2) unfolding appended_def by blast
    have inv2: "out_inv p2 s2" "os_stream s2 \<or> os_had_error s2"
      using 2(2) s1(2) "1.prems"(2) by (auto simp: ensured_def appended_def)
    obtain p3 s3 where 3: "WriteRawFallback ?b p2 s2 = Inr (p3, s3)" "appended ?b p2 s2 p3 s3"
      using "1.IH" [OF g _ True st 2(1) refl inv2] n(1) by auto
    have "appended data p s p3 s3" using appended_via [OF s1(2) 2(2) 3(2) la(2)] by simp
    then show ?thesis using 3(1) 2(1) st g n(1) True by (simp add: WriteRawFallback.simps [of data p s])
  next
    case False
    then have "snd p + length data \<le> out_bound s" using n out_inv_bound [OF inv] by auto
    then show ?thesis using put_bytes_appends [OF inv] g n(1) False by (fastforce simp: WriteRawFallback.simps [of data p s])
  qed
qed

lemma writes_raw: "writes (WriteRaw data) data"
  unfolding writes_def
proof (intro allI impI)
  fix p s assume inv: "out_inv p s" and fits: "fits_out (length data) p s"
  show "\<exists>p' s'. WriteRaw data p s = Inr (p', s') \<and> appended data p s p' s'"
  proof (cases "int (snd (os_end s)) - int (snd p) < int (length data)")
    case True
    have "os_stream s \<or> os_had_error s"
    proof (rule ccontr)
      assume "\<not> (os_stream s \<or> os_had_error s)"
      then show False using fits array_space [OF inv] True by (simp add: fits_out_def)
    qed
    then show ?thesis using WriteRawFallback_appends [OF inv] True by (simp add: WriteRaw_def out_inv_diff [OF inv])
  next
    case False
    then have "snd p + length data \<le> out_bound s" by (auto simp: out_bound_def)
    then show ?thesis using put_bytes_appends [OF inv] False by (fastforce simp: WriteRaw_def out_inv_diff [OF inv])
  qed
qed

section \<open>Strings\<close>

lemma tag_bytes_le: "length (UnsafeVarint (push_bit 3 num OR 2 :: uint32)) \<le> TagSize (push_bit 3 num)"
proof -
  have b: "unat (push_bit 3 num OR 2 :: uint32) < 2 ^ (7 * k)" if "push_bit 3 num < (2 :: uint32) ^ (7 * k)" "0 < k" "k < 5" for k
  proof -
    have k: "k = 1 \<or> k = 2 \<or> k = 3 \<or> k = 4" using that by auto
    have "uint (push_bit 3 num :: uint32) < 2 ^ (7 * k)" using that(1) k by (auto simp: word_less_def)
    then have "uint (push_bit 3 num :: uint32) OR 2 < 2 ^ (7 * k)" using k by (intro OR_upper) auto
    then have "int (unat (push_bit 3 num OR 2 :: uint32)) < 2 ^ (7 * k)" by (simp add: uint_or)
    then show ?thesis by (metis of_nat_less_iff of_nat_numeral of_nat_power)
  qed
  have l: "length (UnsafeVarint (push_bit 3 num OR 2 :: uint32)) \<le> k" if "push_bit 3 num < (2 :: uint32) ^ (7 * k)" "0 < k" "k < 5" for k
    using length_UnsafeVarint [of "push_bit 3 num OR 2 :: uint32" k] b [OF that] that(2) by (simp add: power_mult)
  show ?thesis
    using l [of 1] l [of 2] l [of 3] l [of 4] length_UnsafeVarint_32 [of "push_bit 3 num OR 2"] by (simp add: TagSize_def)
qed

lemma length_WriteLengthDelim: "length (WriteLengthDelim num sz) \<le> 16" "WriteLengthDelim num sz \<noteq> []"
  using length_UnsafeVarint_32 [of "push_bit 3 num OR 2"] length_UnsafeVarint_32 [of sz]
  by (simp_all add: WriteLengthDelim_def UnsafeWriteSize_varint UnsafeVarint_nonempty)

theorem writes_string: "writes (stream_string num str) (WriteString fits num str)"
  unfolding writes_def
proof (intro allI impI)
  fix p s assume inv: "out_inv p s" and fits: "fits_out (length (WriteString fits num str)) p s"
  let ?d = "int (snd (os_end s)) - int (snd p)"
  let ?fast = "UnsafeVarint (push_bit 3 num OR 2) @ [word_of_nat (length str)] @ str"
  show "\<exists>p' s'. stream_string num str p s = Inr (p', s') \<and> appended (WriteString fits num str) p s p' s'"
  proof (cases "128 \<le> length str \<or> ?d + 16 - int (TagSize (push_bit 3 num)) - 1 < int (length str)")
    case True
    have "WriteString fits num str = WriteLengthDelim num (word_of_nat (length str)) @ str"
      using WriteString_eq [of fits num str] WriteString_eq [of False num str] by (simp add: WriteString_def WriteStringOutline_def)
    moreover have "writes (stream_string_outline num str) (WriteLengthDelim num (word_of_nat (length str)) @ str)"
      unfolding stream_string_outline_def seq_out_assoc [symmetric]
      by (rule writes_seq [OF writes_put [OF length_WriteLengthDelim(2,1)] writes_raw])
    moreover have "stream_string num str p s = stream_string_outline num str p s"
      unfolding stream_string_def out_inv_diff [OF inv] bind_result.simps if_P [OF True] ..
    ultimately show ?thesis using writesD [OF _ inv] fits by metis
  next
    case False
    have e: "WriteString fits num str = ?fast"
      using WriteString_eq [of fits num str] WriteString_eq [of True num str] False by (simp add: WriteString_def)
    have "snd p + length ?fast \<le> out_bound s"
      using False fits array_space [OF inv] tag_bytes_le [of num] unfolding e by (auto simp: fits_out_def out_bound_def)
    moreover have "stream_string num str p s = put_bytes ?fast p s"
      unfolding stream_string_def out_inv_diff [OF inv] bind_result.simps if_not_P [OF False] ..
    ultimately show ?thesis using put_bytes_appends [OF inv] unfolding e by metis
  qed
qed

section \<open>The end of the stream\<close>

text \<open>Flush brings the pointer into the current buffer, unless the stream is exhausted.\<close>

lemma Flush_moves:
  "out_inv p s \<Longrightarrow> os_stream s \<Longrightarrow> \<not> os_had_error s \<Longrightarrow>
    (\<exists>s'. Flush p s = Inr (0, s') \<and> os_had_error s' \<and> out_space p s < 0)
    \<or> (\<exists>n s'. Flush p s = Inr (int n, s') \<and> \<not> os_had_error s' \<and> os_stream s' \<and> 0 \<le> out_space p s \<and> length (os_buffer s') = 32
         \<and> (n = 0 \<or> zc_chunks s' \<noteq> [] \<and> n \<le> length (last (zc_chunks s')))
         \<and> out_bytes p s = take (length (concat (zc_chunks s')) - n) (concat (zc_chunks s')))"
proof (induction p s rule: Flush.induct)
  case (1 p s)
  note inv = "1.prems"(1) and ok = "1.prems"(2,3)
  let ?past = "os_buffer_end s \<noteq> None \<and> \<not> os_had_error s \<and> fst p = fst (os_end s) \<and> snd (os_end s) < snd p"
  show ?case
  proof (cases ?past)
    case True
    obtain q s1 where q: "os_Next s = Inr (q, s1)" and mv: "moved p s (ptr_plus q (snd p - snd (os_end s))) s1"
      using os_Next_moves [OF inv ok(2)] True by auto
    have step: "Flush p s = (if os_had_error s1 then Inr (0, s1) else Flush (ptr_plus q (snd p - snd (os_end s))) s1)"
      using True q by (simp add: Flush.simps [of p s])
    show ?thesis
    proof (cases "os_had_error s1")
      case e: True
      then have "out_space p s < 0" using mv True by (simp add: moved_def)
      then show ?thesis using step e by simp
    next
      case False
      then have m: "out_inv (ptr_plus q (snd p - snd (os_end s))) s1" "os_stream s1"
        "out_bytes (ptr_plus q (snd p - snd (os_end s))) s1 = out_bytes p s"
        "out_space (ptr_plus q (snd p - snd (os_end s))) s1 = out_space p s" using mv ok by (simp_all add: moved_def)
      show ?thesis using "1.IH" [OF True q refl False m(1,2) False] step False m(3,4) by simp
    qed
  next
    case False
    have np: "\<not> (os_buffer_end s \<noteq> None \<and> snd (os_end s) < snd p)" using False ok out_inv_regions [OF inv] by auto
    have len: "length (os_buffer s) = 32" using inv by (simp add: out_inv_def)
    consider (dir) "direct_mode p s" | (pat) "patch_mode p s" using inv ok by (auto simp: out_inv_def mode_defs)
    then show ?thesis
    proof cases
      case dir
      then obtain cs c where c: "zc_chunks s = cs @ [c]" "16 < length c" "os_end s = (ChunkOf (length cs), length c - 16)"
        "fst p = ChunkOf (length cs)" "snd p \<le> length c" "os_buffer_end s = None" by (auto simp: direct_mode_def)
      have "Flush p s = Inr (int (length c - snd p), s\<lparr>os_buffer_end := Some p\<rparr>)"
        using c by (simp add: Flush.simps [of p s] out_inv_GetSize [OF inv] of_nat_diff)
      moreover have "take (length (concat cs) + length c - (length c - snd p)) (concat cs @ c) = concat cs @ take (snd p) c"
        using c(5) by simp
      ultimately show ?thesis using c ok len
        by (intro disjI2 exI [of _ "length c - snd p"] exI [of _ "s\<lparr>os_buffer_end := Some p\<rparr>"]) (simp add: out_bytes_def out_space_def)
    next
      case pat
      then obtain e where e: "e \<le> 16" "os_end s = (PatchBuffer, e)" "fst p = PatchBuffer" "snd p \<le> e"
        and be: "os_buffer_end s = Some (PatchBuffer, 0) \<and> e = 0
             \<or> (\<exists>cs c off. zc_chunks s = cs @ [c] \<and> os_buffer_end s = Some (ChunkOf (length cs), off) \<and> off + e = length c)"
        using np by (auto simp: patch_mode_def)
      from be show ?thesis
      proof (elim disjE exE conjE)
        assume b: "os_buffer_end s = Some (PatchBuffer, 0)" "e = 0"
        have "Flush p s = Inr (0, s\<lparr>os_buffer_end := Some (PatchBuffer, 0)\<rparr>)"
          using b e len by (simp add: Flush.simps [of p s] ptr_diff_def os_memcpy_def os_memmove_def os_load_def os_store_def read_bytes_def
              write_bytes_def ptr_plus_def)
        then show ?thesis using b e ok len by (simp add: out_bytes_def out_space_def)
      next
        fix cs c off assume b: "zc_chunks s = cs @ [c]" "os_buffer_end s = Some (ChunkOf (length cs), off)" "off + e = length c"
        let ?c = "write_bytes c off (take (snd p) (os_buffer s))"
        have l: "length (take (snd p) (os_buffer s)) = snd p" using len e by simp
        have lc: "length ?c = length c" using b e l by simp
        have "Flush p s = Inr (int (e - snd p), s\<lparr>zc_chunks := cs @ [?c], os_buffer_end := Some (ChunkOf (length cs), off + snd p)\<rparr>)"
          using b e len np by (simp add: Flush.simps [of p s] ptr_diff_def os_memcpy_def os_memmove_def os_load_def os_store_def read_bytes_def
              ptr_plus_def list_update_append of_nat_diff)
        moreover have "take (length (concat cs) + length c - (e - snd p)) (concat cs @ ?c) = concat cs @ take off c @ take (snd p) (os_buffer s)"
        proof -
          have "length (concat cs) + length c - (e - snd p) = length (concat cs) + (off + snd p)" using b e by simp
          then show ?thesis using take_write_bytes [of off "take (snd p) (os_buffer s)" c] b e l by simp
        qed
        moreover have "e - snd p \<le> length c" using b by simp
        ultimately show ?thesis using b e ok len lc
          by (intro disjI2 exI [of _ "e - snd p"] exI [of _ "s\<lparr>zc_chunks := cs @ [?c], os_buffer_end := Some (ChunkOf (length cs), off + snd p)\<rparr>"])
            (simp add: out_bytes_def out_space_def)
      qed
    qed
  qed
qed

theorem Trim_ends:
  assumes inv: "out_inv p s" and ok: "os_stream s"
  shows "\<exists>p' s'. Trim p s = Inr (p', s') \<and> (os_had_error s' \<longleftrightarrow> os_had_error s \<or> out_space p s < 0)
    \<and> (\<not> os_had_error s' \<longrightarrow> concat (zc_chunks s') = out_bytes p s)"
proof (cases "os_had_error s")
  case False
  from Flush_moves [OF inv ok False] consider
      (fail) s' where "Flush p s = Inr (0, s')" "os_had_error s'" "out_space p s < 0"
    | (flushed) n s' where "Flush p s = Inr (int n, s')" "\<not> os_had_error s'" "0 \<le> out_space p s"
      "n = 0 \<or> zc_chunks s' \<noteq> [] \<and> n \<le> length (last (zc_chunks s'))"
      "out_bytes p s = take (length (concat (zc_chunks s')) - n) (concat (zc_chunks s'))" by blast
  then show ?thesis
  proof cases
    case fail
    then show ?thesis using False by (simp add: Trim_def BackUp_def)
  next
    case f: flushed
    show ?thesis
    proof (cases "n = 0")
      case True
      then show ?thesis using f False by (simp add: Trim_def BackUp_def)
    next
      case nz: False
      then obtain cs c where c: "zc_chunks s' = cs @ [c]" "n \<le> length c" using f(4) by (metis append_butlast_last_id last_snoc)
      then have "take (length (concat cs) + length c - n) (concat cs @ c) = concat cs @ take (length c - n) c" by simp
      then show ?thesis using f c nz False by (simp add: Trim_def BackUp_def)
    qed
  qed
qed (simp add: Trim_def)

text \<open>The whole of what a writer appends to a new stream reaches it, if it fits; otherwise the stream fails.\<close>

theorem stream_refines:
  assumes "writes f bs" and "length garbage = 32"
  shows "\<exists>p s. case_prod f (new_out_stream supply garbage) = Inr (p, s) \<and>
    (\<exists>p' s'. Trim p s = Inr (p', s') \<and> (os_had_error s' \<longleftrightarrow> length (concat supply) < length bs)
      \<and> (\<not> os_had_error s' \<longrightarrow> concat (zc_chunks s') = bs))"
proof -
  obtain p0 s0 where n: "new_out_stream supply garbage = (p0, s0)" by fastforce
  have i: "out_inv p0 s0" "os_stream s0" "out_bytes p0 s0 = []" "out_space p0 s0 = int (length (concat supply))" "\<not> os_had_error s0"
    using n assms(2) by (auto simp: new_out_stream_def out_inv_def patch_mode_def out_bytes_def out_space_def sum_lengths)
  then obtain p s where w: "f p0 s0 = Inr (p, s)" "appended bs p0 s0 p s" using writesD [OF assms(1)] by (metis fits_out_def)
  then have a: "out_inv p s" "os_stream s" using i by (simp_all add: appended_def)
  obtain p' s' where t: "Trim p s = Inr (p', s')" "os_had_error s' \<longleftrightarrow> os_had_error s \<or> out_space p s < 0"
    "\<not> os_had_error s' \<longrightarrow> concat (zc_chunks s') = out_bytes p s" using Trim_ends [OF a] by blast
  have "os_had_error s' \<longleftrightarrow> length (concat supply) < length bs"
    using t(2) w(2) i by (cases "os_had_error s") (auto simp: appended_def)
  moreover have "\<not> os_had_error s' \<longrightarrow> concat (zc_chunks s') = bs" using t(2,3) w(2) i by (auto simp: appended_def)
  ultimately show ?thesis using n w t(1) by auto
qed

text \<open>In an array with room for them a writer stores its bytes and nothing else.\<close>

theorem array_refines:
  assumes "writes f bs" and "length garbage = 32" and "length bs \<le> n" and "n \<le> length data"
  shows "\<exists>s. f (ChunkOf 0, 0) (new_array_stream data n garbage) = Inr ((ChunkOf 0, length bs), s) \<and> \<not> os_had_error s
    \<and> (\<exists>a. zc_chunks s = [a] \<and> take (length bs) a = bs \<and> drop n a = drop n data \<and> length a = length data)"
proof -
  let ?s = "new_array_stream data n garbage"
  have i: "out_inv (ChunkOf 0, 0) ?s" "out_bytes (ChunkOf 0, 0) ?s = []" "out_space (ChunkOf 0, 0) ?s = int n" "\<not> os_stream ?s"
    "\<not> os_had_error ?s" "out_rest ?s = drop n data" "os_end ?s = (ChunkOf 0, n)"
    using assms by (auto simp: new_array_stream_def out_inv_def array_mode_def out_bytes_def out_space_def out_rest_def)
  then obtain p s where w: "f (ChunkOf 0, 0) ?s = Inr (p, s)" "appended bs (ChunkOf 0, 0) ?s p s"
    using writesD [OF assms(1) i(1)] assms(3) by (auto simp: fits_out_def)
  have e: "\<not> os_had_error s" using w(2) i assms(3) by (auto simp: appended_def)
  then have a: "array_mode p s" "out_bytes p s = bs" "out_rest s = drop n data" "os_end s = (ChunkOf 0, n)"
    using w(2) i by (auto simp: appended_def out_inv_def error_mode_def direct_mode_def patch_mode_def)
  then obtain b where b: "zc_chunks s = [b]" "n \<le> length b" "fst p = ChunkOf 0" "snd p \<le> n" "os_buffer_end s = None"
    by (auto simp: array_mode_def)
  have "take (snd p) b = bs" using a(2) b by (simp add: out_bytes_def)
  then have "snd p = length bs" "take (length bs) b = bs" using b by auto
  moreover have "drop n b = drop n data" using a(3,4) b by (simp add: out_rest_def)
  moreover have "length b = length data" using \<open>drop n b = drop n data\<close> b(2) assms(4) by (metis length_drop le_add_diff_inverse2)
  ultimately show ?thesis using w(1) e b by (metis prod.collapse)
qed

end
