(* ===== verification/PbOutput.thy ===== *)
theory PbOutput imports OutputRefinement PbChat PbSkill PbList begin

text \<open>
  The serializers of the generated messages on the output stream (Struct.pb.cc, Protocol.pb.cc, the
  unknown fields of wire_format.cc), and the entry points of message_lite.cc that run them: into an array,
  behind a string, and into a ZeroCopyOutputStream. Every serializer \<open>writes\<close> the bytes that
  \<open>InternalSerialize\<close> describes.
\<close>

type_synonym out_writer = "optr \<Rightarrow> out_stream \<Rightarrow> (optr \<times> out_stream) result"

section \<open>Fields\<close>

definition out_nothing :: out_writer where
  "out_nothing p s = Inr (p, s)"

definition put_field :: "BYTE list \<Rightarrow> out_writer" where
  "put_field bs = seq_out EnsureSpace (put_bytes bs)"

primrec stream_unknown_field :: "unknown_field \<Rightarrow> out_writer" where
  "stream_unknown_field (UF_Varint num v) = put_field (WriteUInt64ToArray num v)"
| "stream_unknown_field (UF_Fixed32 num v) = put_field (WriteFixed32ToArray num v)"
| "stream_unknown_field (UF_Fixed64 num v) = put_field (WriteFixed64ToArray num v)"
| "stream_unknown_field (UF_LengthDelimited num str) = seq_out EnsureSpace (stream_string num str)"
| "stream_unknown_field (UF_Group num us) =
     seq_out (put_field (WriteTagToArray num WIRETYPE_START_GROUP))
       (seq_out (foldr seq_out (map stream_unknown_field us) out_nothing) (put_field (WriteTagToArray num WIRETYPE_END_GROUP)))"

definition stream_unknown_fields :: "unknown_field list \<Rightarrow> out_writer" where
  "stream_unknown_fields us = foldr seq_out (map stream_unknown_field us) out_nothing"

definition stream_metadata :: "unknown_field list \<Rightarrow> out_writer" where
  "stream_metadata us = (if us \<noteq> [] then stream_unknown_fields us else out_nothing)"

definition stream_message :: "uint32 \<Rightarrow> nat \<Rightarrow> out_writer \<Rightarrow> out_writer" where
  "stream_message field_number cached_size serialize =
     seq_out (put_field (WriteTagToArray field_number WIRETYPE_LENGTH_DELIMITED @ UnsafeVarint (word_of_nat cached_size :: uint32))) serialize"

section \<open>Messages\<close>

definition SPosition_stream :: "SPosition \<Rightarrow> out_writer" where
  "SPosition_stream m =
     seq_out (if sp_x m \<noteq> 0 then put_field (WriteFloatToArray 1 (sp_x m)) else out_nothing)
    (seq_out (if sp_y m \<noteq> 0 then put_field (WriteFloatToArray 2 (sp_y m)) else out_nothing)
       (stream_metadata (sp_unknown m)))"

definition BigTest_stream :: "BigTest \<Rightarrow> out_writer" where
  "BigTest_stream m =
     seq_out (if bt_a m \<noteq> 0 then put_field (WriteInt64ToArray 1 (bt_a m)) else out_nothing)
    (seq_out (if bt_b m \<noteq> 0 then put_field (WriteInt64ToArray 2 (bt_b m)) else out_nothing)
    (seq_out (if bt_c m \<noteq> 0 then put_field (WriteInt64ToArray 3 (bt_c m)) else out_nothing)
       (stream_metadata (bt_unknown m))))"

definition CSChatRequest_stream :: "CSChatRequest \<Rightarrow> out_writer" where
  "CSChatRequest_stream m =
     seq_out (if cs_name m \<noteq> [] then stream_string 1 (cs_name m) else out_nothing)
    (seq_out (if cs_msg m \<noteq> [] then stream_string 2 (cs_msg m) else out_nothing)
       (stream_metadata (cs_unknown m)))"

definition SCChatResponse_stream :: "SCChatResponse \<Rightarrow> out_writer" where
  "SCChatResponse_stream m =
     seq_out (if sc_name m \<noteq> [] then stream_string 1 (sc_name m) else out_nothing)
    (seq_out (if sc_msg m \<noteq> [] then stream_string 2 (sc_msg m) else out_nothing)
       (stream_metadata (sc_unknown m)))"

definition stream_position :: "uint32 \<Rightarrow> SPosition option \<Rightarrow> out_writer" where
  "stream_position num pos =
     (case pos of None \<Rightarrow> out_nothing | Some q \<Rightarrow> stream_message num (SPosition_ByteSizeLong q) (SPosition_stream q))"

definition CSCircularSectorSkillRequest_stream :: "CSCircularSectorSkillRequest \<Rightarrow> out_writer" where
  "CSCircularSectorSkillRequest_stream m =
     seq_out (if sk_theta m \<noteq> 0 then put_field (WriteFloatToArray 1 (sk_theta m)) else out_nothing)
    (seq_out (if sk_radius m \<noteq> 0 then put_field (WriteFloatToArray 2 (sk_radius m)) else out_nothing)
    (seq_out (stream_position 3 (sk_mypos m))
    (seq_out (stream_position 4 (sk_forward m))
    (seq_out (stream_position 5 (sk_targetpos m))
       (stream_metadata (sk_unknown m))))))"

definition SCCircularSectorSkillResponse_stream :: "SCCircularSectorSkillResponse \<Rightarrow> out_writer" where
  "SCCircularSectorSkillResponse_stream m =
     seq_out (if sr_ishit m then put_field (WriteBoolToArray 1 (sr_ishit m)) else out_nothing) (stream_metadata (sr_unknown m))"

definition stream_list :: "BigTest list \<Rightarrow> out_writer" where
  "stream_list l = foldr seq_out (map (\<lambda>x. stream_message 1 (BigTest_ByteSizeLong x) (BigTest_stream x)) l) out_nothing"

definition CSBigTestRequest_stream :: "CSBigTestRequest \<Rightarrow> out_writer" where
  "CSBigTestRequest_stream m = seq_out (stream_list (cl_list m)) (stream_metadata (cl_unknown m))"

definition SCBigTestResponse_stream :: "SCBigTestResponse \<Rightarrow> out_writer" where
  "SCBigTestResponse_stream m = seq_out (stream_list (sl_list m)) (stream_metadata (sl_unknown m))"

section \<open>Entry points\<close>

definition SerializeToArrayImpl :: "out_writer \<Rightarrow> BYTE list \<Rightarrow> nat \<Rightarrow> BYTE list \<Rightarrow> (optr \<times> out_stream) result" where
  "SerializeToArrayImpl serialize target n garbage = serialize (ChunkOf 0, 0) (new_array_stream target n garbage)"

text \<open>\<open>data\<close> is the memory behind the pointer, \<open>sz\<close> the size the caller passes.\<close>

definition SerializePartialToArray :: "nat \<Rightarrow> out_writer \<Rightarrow> BYTE list \<Rightarrow> int32 \<Rightarrow> BYTE list \<Rightarrow> (bool \<times> BYTE list) result" where
  "SerializePartialToArray byte_size serialize data sz garbage =
     (if INT_MAX < byte_size then Inr (False, data)
      else if sz < int byte_size then Inr (False, data)
      else bind_result (SerializeToArrayImpl serialize data byte_size garbage) (\<lambda>(p, s). Inr (True, hd (zc_chunks s))))"

text \<open>\<open>fresh\<close> is what resizing the string leaves in its new bytes.\<close>

definition AppendPartialToString :: "nat \<Rightarrow> out_writer \<Rightarrow> BYTE list \<Rightarrow> (nat \<Rightarrow> BYTE list) \<Rightarrow> BYTE list \<Rightarrow> (bool \<times> BYTE list) result" where
  "AppendPartialToString byte_size serialize str fresh garbage =
     (if INT_MAX < byte_size then Inr (False, str)
      else bind_result (SerializeToArrayImpl serialize (fresh byte_size) byte_size garbage) (\<lambda>(p, s). Inr (True, str @ hd (zc_chunks s))))"

definition SerializePartialToZeroCopyStream :: "nat \<Rightarrow> out_writer \<Rightarrow> BYTE list list \<Rightarrow> BYTE list \<Rightarrow> (bool \<times> BYTE list list) result" where
  "SerializePartialToZeroCopyStream byte_size serialize supply garbage =
     (if INT_MAX < byte_size then Inr (False, [])
      else case new_out_stream supply garbage of (target, stream) \<Rightarrow>
        bind_result (serialize target stream) (\<lambda>(p, s).
        bind_result (Trim p s) (\<lambda>(p', s'). Inr (\<not> os_had_error s', zc_chunks s'))))"

section \<open>The writers\<close>

lemma writes_out_nothing: "writes out_nothing []"
  using writes_nothing by (simp add: out_nothing_def [abs_def])

lemma writes_ensure:
  assumes f: "writes f bs" and ne: "bs \<noteq> []"
  shows "writes (seq_out EnsureSpace f) bs"
  unfolding writes_def
proof (intro allI impI)
  fix p s assume inv: "out_inv p s" and fits: "fits_out (length bs) p s"
  show "\<exists>p' s'. seq_out EnsureSpace f p s = Inr (p', s') \<and> appended bs p s p' s'"
  proof (cases "snd (os_end s) \<le> snd p")
    case True
    then obtain p1 s1 where e: "EnsureSpaceFallback p s = Inr (p1, s1)" "ensured p s p1 s1"
      using EnsureSpaceFallback_ensures [OF inv] by blast
    then have "out_inv p1 s1" "fits_out (length bs) p1 s1" by (auto simp: ensured_def fits_out_def)
    then obtain p2 s2 where 2: "f p1 s1 = Inr (p2, s2)" "appended bs p1 s1 p2 s2" using writesD [OF f] by blast
    show ?thesis using appended_via [OF appended_refl [OF inv] e(2) 2(2) ne] e(1) 2(1) True
      by (simp add: seq_out_def EnsureSpace_def out_inv_diff' [OF inv])
  next
    case False
    then show ?thesis using writesD [OF f inv fits] by (simp add: seq_out_def EnsureSpace_def out_inv_diff' [OF inv])
  qed
qed

lemma writes_foldr:
  assumes "\<And>x. x \<in> set xs \<Longrightarrow> writes (f x) (b x)"
  shows "writes (foldr seq_out (map f xs) out_nothing) (concat (map b xs))"
  using assms by (induction xs) (simp_all add: writes_out_nothing writes_seq)

lemma WriteTag_nonempty [simp]: "WriteTagToArray num wt \<noteq> []"
  by (simp add: WriteTagToArray_def UnsafeVarint_nonempty)

lemma length_WriteTag_le: "length (WriteTagToArray num wt) \<le> 5"
  by (simp add: WriteTagToArray_def length_UnsafeVarint_32)

lemma writes_field: "bs \<noteq> [] \<Longrightarrow> length bs \<le> 16 \<Longrightarrow> writes (put_field bs) bs"
  unfolding put_field_def by (rule writes_put)

text \<open>Every field other than a string fits into the sixteen bytes.\<close>

lemma field_sizes:
  "length (WriteUInt64ToArray num w) \<le> 16" "length (WriteInt64ToArray num w) \<le> 16" "length (WriteFixed32ToArray num v) \<le> 16"
  "length (WriteFixed64ToArray num w) \<le> 16" "length (WriteFloatToArray num v) \<le> 16" "length (WriteBoolToArray num b) \<le> 16"
  "length (WriteTagToArray num wt) \<le> 16" "length (WriteTagToArray num wt @ UnsafeVarint (v :: uint32)) \<le> 16"
  using length_WriteTag_le [of num WIRETYPE_VARINT] length_WriteTag_le [of num WIRETYPE_FIXED32] length_WriteTag_le [of num WIRETYPE_FIXED64]
    length_WriteTag_le [of num wt] length_UnsafeVarint_64 [of w] length_UnsafeVarint_32 [of v]
    length_UnsafeVarint_32 [of "if b then 1 else 0"]
  by (simp_all add: WriteUInt64ToArray_def WriteInt64ToArray_def WriteFixed32ToArray_def WriteFixed64ToArray_def WriteFloatToArray_def
      WriteBoolToArray_def)

lemma field_nonempty:
  "WriteUInt64ToArray num w \<noteq> []" "WriteInt64ToArray num w \<noteq> []" "WriteFixed32ToArray num v \<noteq> []" "WriteFixed64ToArray num w \<noteq> []"
  "WriteFloatToArray num v \<noteq> []" "WriteBoolToArray num b \<noteq> []" "WriteString fits num str \<noteq> []"
  by (simp_all add: WriteUInt64ToArray_def WriteInt64ToArray_def WriteFixed32ToArray_def WriteFixed64ToArray_def WriteFloatToArray_def
      WriteBoolToArray_def WriteString_eq)

lemma writes_unknown_field: "writes (stream_unknown_field u) (SerializeUnknownField u)"
proof (induction u)
  case (UF_Group num us)
  have "writes (foldr seq_out (map stream_unknown_field us) out_nothing) (concat (map SerializeUnknownField us))"
    by (rule writes_foldr) (rule UF_Group)
  then show ?case by (simp add: writes_seq writes_field field_sizes)
qed (simp_all add: writes_field field_sizes field_nonempty writes_ensure writes_string)

lemma writes_metadata: "writes (stream_metadata us) (serialize_unknown us)"
  unfolding stream_metadata_def serialize_unknown_eq stream_unknown_fields_def InternalSerializeUnknownFieldsToArray_def
  using writes_foldr [of us stream_unknown_field SerializeUnknownField] writes_unknown_field writes_out_nothing by (cases us) auto

lemma writes_message:
  "writes serialize bs \<Longrightarrow> writes (stream_message num n serialize) (InternalWriteMessage num bs n)"
  unfolding stream_message_def InternalWriteMessage_def append_assoc [symmetric]
  by (rule writes_seq [OF writes_field [OF _ field_sizes(8)]]) simp_all

lemma writes_maybe_string: "writes (stream_string num str) (WriteStringMaybeAliased fits num str)"
proof -
  have "WriteStringMaybeAliased fits num str = WriteString fits num str"
    by (simp add: WriteStringMaybeAliased_def WriteString_def WriteStringOutline_def)
  then show ?thesis by (simp add: writes_string)
qed

lemma writes_position: "writes (SPosition_stream m) (SPosition_InternalSerialize m)"
  unfolding SPosition_stream_def SPosition_InternalSerialize_def
  by (intro writes_seq writes_if writes_field writes_metadata writes_out_nothing field_sizes field_nonempty)

lemma writes_bigtest: "writes (BigTest_stream m) (BigTest_InternalSerialize m)"
  unfolding BigTest_stream_def BigTest_InternalSerialize_def
  by (intro writes_seq writes_if writes_field writes_metadata writes_out_nothing field_sizes field_nonempty)

lemma writes_maybe_position: "writes (stream_position num pos) (write_position num pos)"
  by (cases pos) (simp_all add: stream_position_def write_position_def writes_out_nothing writes_message writes_position)

lemma writes_list: "writes (stream_list l) (write_list l)"
  unfolding stream_list_def write_list_def by (rule writes_foldr) (rule writes_message [OF writes_bigtest])

theorem writes_messages:
  "writes (CSChatRequest_stream m1) (CSChatRequest_InternalSerialize m1)"
  "writes (SCChatResponse_stream m2) (SCChatResponse_InternalSerialize m2)"
  "writes (CSCircularSectorSkillRequest_stream m3) (CSCircularSectorSkillRequest_InternalSerialize m3)"
  "writes (SCCircularSectorSkillResponse_stream m4) (SCCircularSectorSkillResponse_InternalSerialize m4)"
  "writes (CSBigTestRequest_stream m5) (CSBigTestRequest_InternalSerialize m5)"
  "writes (SCBigTestResponse_stream m6) (SCBigTestResponse_InternalSerialize m6)"
  unfolding CSChatRequest_stream_def CSChatRequest_InternalSerialize_def SCChatResponse_stream_def SCChatResponse_InternalSerialize_def
    CSCircularSectorSkillRequest_stream_def CSCircularSectorSkillRequest_InternalSerialize_def SCCircularSectorSkillResponse_stream_def
    SCCircularSectorSkillResponse_InternalSerialize_def CSBigTestRequest_stream_def CSBigTestRequest_InternalSerialize_def
    SCBigTestResponse_stream_def SCBigTestResponse_InternalSerialize_def
  by (intro writes_seq writes_if writes_field writes_maybe_string writes_metadata writes_out_nothing writes_maybe_position writes_list
      field_sizes field_nonempty)+

section \<open>The entry points\<close>

theorem zero_copy_stream_written:
  assumes "writes f bs" and "length bs \<le> INT_MAX" and "length garbage = 32"
  shows "\<exists>chunks. SerializePartialToZeroCopyStream (length bs) f supply garbage = Inr (length bs \<le> length (concat supply), chunks)
    \<and> (length bs \<le> length (concat supply) \<longrightarrow> concat chunks = bs)"
proof -
  obtain p s p' s' where "case_prod f (new_out_stream supply garbage) = Inr (p, s)" "Trim p s = Inr (p', s')"
    "os_had_error s' \<longleftrightarrow> length (concat supply) < length bs" "\<not> os_had_error s' \<longrightarrow> concat (zc_chunks s') = bs"
    using stream_refines [OF assms(1,3)] by blast
  then show ?thesis using assms(2) by (auto simp: SerializePartialToZeroCopyStream_def new_out_stream_def not_less)
qed

theorem array_written:
  assumes "writes f bs" and "length bs \<le> INT_MAX" and "length garbage = 32" and "sz \<le> int (length data)"
  shows "SerializePartialToArray (length bs) f data sz garbage
    = Inr (if int (length bs) \<le> sz then (True, bs @ drop (length bs) data) else (False, data))"
proof (cases "int (length bs) \<le> sz")
  case True
  then obtain s a where "f (ChunkOf 0, 0) (new_array_stream data (length bs) garbage) = Inr ((ChunkOf 0, length bs), s)" "zc_chunks s = [a]"
    "take (length bs) a = bs" "drop (length bs) a = drop (length bs) data"
    using array_refines [OF assms(1,3) order_refl, of data] assms(4) by auto
  moreover from this(3,4) have "a = bs @ drop (length bs) data" by (metis append_take_drop_id)
  ultimately show ?thesis using True assms(2) by (simp add: SerializePartialToArray_def SerializeToArrayImpl_def)
qed (use assms(2) in \<open>simp add: SerializePartialToArray_def\<close>)

theorem string_written:
  assumes "writes f bs" and "length bs \<le> INT_MAX" and "length garbage = 32" and "length (fresh (length bs)) = length bs"
  shows "AppendPartialToString (length bs) f str fresh garbage = Inr (True, str @ bs)"
proof -
  obtain s a where "f (ChunkOf 0, 0) (new_array_stream (fresh (length bs)) (length bs) garbage) = Inr ((ChunkOf 0, length bs), s)"
    "zc_chunks s = [a]" "take (length bs) a = bs" "length a = length bs"
    using array_refines [OF assms(1,3) order_refl, of "fresh (length bs)"] assms(4) by auto
  then show ?thesis using assms(2) by (simp add: AppendPartialToString_def SerializeToArrayImpl_def)
qed

text \<open>The serializers of the messages, each with its ByteSizeLong and the bytes it stands for.\<close>

definition message_writer :: "nat \<Rightarrow> out_writer \<Rightarrow> BYTE list \<Rightarrow> bool" where
  "message_writer n f bs \<longleftrightarrow>
     (\<exists>m. n = CSChatRequest_ByteSizeLong m \<and> f = CSChatRequest_stream m \<and> bs = CSChatRequest_InternalSerialize m)
   \<or> (\<exists>m. n = SCChatResponse_ByteSizeLong m \<and> f = SCChatResponse_stream m \<and> bs = SCChatResponse_InternalSerialize m)
   \<or> (\<exists>m. n = CSCircularSectorSkillRequest_ByteSizeLong m \<and> f = CSCircularSectorSkillRequest_stream m
        \<and> bs = CSCircularSectorSkillRequest_InternalSerialize m)
   \<or> (\<exists>m. n = SCCircularSectorSkillResponse_ByteSizeLong m \<and> f = SCCircularSectorSkillResponse_stream m
        \<and> bs = SCCircularSectorSkillResponse_InternalSerialize m)
   \<or> (\<exists>m. n = CSBigTestRequest_ByteSizeLong m \<and> f = CSBigTestRequest_stream m \<and> bs = CSBigTestRequest_InternalSerialize m)
   \<or> (\<exists>m. n = SCBigTestResponse_ByteSizeLong m \<and> f = SCBigTestResponse_stream m \<and> bs = SCBigTestResponse_InternalSerialize m)"

lemma message_writer_writes: "message_writer n f bs \<Longrightarrow> n = length bs \<and> writes f bs"
  unfolding message_writer_def
  by (elim disjE exE conjE)
    (simp_all add: writes_messages cs_chat.bsize sc_chat.bsize cs_skill.bsize sc_skill.bsize cs_bigtest.bsize sc_bigtest.bsize)

text \<open>ByteCount is the number of bytes written so far.\<close>

lemma ByteCount_bytes:
  assumes inv: "out_inv p s" and st: "os_stream s" "\<not> os_had_error s"
  shows "os_ByteCount p s = Inr (int (length (out_bytes p s)))"
proof -
  have len: "length (os_buffer s) = 32" using inv by (simp add: out_inv_def)
  consider (dir) "direct_mode p s" | (pat) "patch_mode p s" using inv st by (auto simp: out_inv_def mode_defs)
  then show ?thesis
    by cases (auto simp: os_ByteCount_def out_inv_diff [OF inv] out_bytes_def direct_mode_def patch_mode_def kSlopBytes_def len of_nat_diff)
qed

end
