(* ===== verification/ChainFunc.thy ===== *)
theory ChainFunc imports JobQueue begin

text \<open>
  ServerCore/ChainFunc.h: a job queue with a value. Make creates the queue and pushes the job that computes
  the value; Chain and ChainAsync push functions on it, which see the value or replace it. The functions run
  as jobs of JobQueue.thy, on any thread. \<open>_returnValue\<close> is null until the job of Make has run, so
  the lemmas show that this job always runs first.
\<close>

section \<open>The chain and its jobs\<close>

text \<open>A function without a result is observed: it is named by a number, and \<open>ch_seen\<close> records what it got.\<close>

datatype 'a chain_job =
    MakeJob "unit \<Rightarrow> 'a"
  | ObserveJob nat
  | UpdateJob "'a \<Rightarrow> 'a"

record 'a chain =
  ch_returnValue :: "'a option"
  ch_seen :: "(nat \<times> 'a) list"

definition new_chain :: "'a chain" where
  "new_chain = \<lparr>ch_returnValue = None, ch_seen = []\<rparr>"

primrec chain_execute :: "'a chain_job \<Rightarrow> 'a chain \<Rightarrow> 'a chain result" where
  "chain_execute (MakeJob fn) c = Inr (c\<lparr>ch_returnValue := Some (fn ())\<rparr>)"
| "chain_execute (ObserveJob k) c =
     (case ch_returnValue c of None \<Rightarrow> Inl NullPointer | Some v \<Rightarrow> Inr (c\<lparr>ch_seen := ch_seen c @ [(k, v)]\<rparr>))"
| "chain_execute (UpdateJob fn) c =
     (case ch_returnValue c of None \<Rightarrow> Inl NullPointer | Some v \<Rightarrow> Inr (c\<lparr>ch_returnValue := Some (fn v)\<rparr>))"

primrec chain_run :: "'a chain_job list \<Rightarrow> 'a chain \<Rightarrow> 'a chain result" where
  "chain_run [] c = Inr c"
| "chain_run (j # js) c = bind_result (chain_execute j c) (chain_run js)"

primrec is_make :: "'a chain_job \<Rightarrow> bool" where
  "is_make (MakeJob fn) = True" | "is_make (ObserveJob k) = False" | "is_make (UpdateJob fn) = False"

section \<open>Make, Chain and ChainAsync\<close>

text \<open>Each begins the push of its job; a new chain is a queue nothing was ever pushed into.\<close>

definition chain_Make :: "nat \<Rightarrow> nat \<Rightarrow> (unit \<Rightarrow> 'a) \<Rightarrow> 'a chain_job job_sys \<Rightarrow> 'a chain_job job_sys" where
  "chain_Make t q fn s = push_begin t q (MakeJob fn) False s"

definition chain_Chain :: "nat \<Rightarrow> nat \<Rightarrow> 'a chain_job \<Rightarrow> 'a chain_job job_sys \<Rightarrow> 'a chain_job job_sys" where
  "chain_Chain t q job s = push_begin t q job False s"

definition chain_ChainAsync :: "nat \<Rightarrow> nat \<Rightarrow> 'a chain_job \<Rightarrow> 'a chain_job job_sys \<Rightarrow> 'a chain_job job_sys" where
  "chain_ChainAsync t q job s = push_begin t q job True s"

text \<open>A caller has the chain only after Make has returned it, when its job is in the queue; all other steps
  are those of the job queues, without new pushes and without ClearJobs.\<close>

inductive chain_step :: "nat set \<Rightarrow> 'a chain_job job_sys \<Rightarrow> 'a chain_job job_sys \<Rightarrow> bool" for ts where
  chain_make: "t \<in> ts \<Longrightarrow> user_code (js_workers s t) \<Longrightarrow> js_linked s q = [] \<Longrightarrow> js_jobCount s q = 0
    \<Longrightarrow> job_bounded ts (chain_Make t q fn s) \<Longrightarrow> chain_step ts s (chain_Make t q fn s)"
| chain_call: "t \<in> ts \<Longrightarrow> user_code (js_workers s t) \<Longrightarrow> js_linked s q \<noteq> [] \<Longrightarrow> \<not> is_make job
    \<Longrightarrow> job_bounded ts (chain_Chain t q job s) \<Longrightarrow> chain_step ts s (chain_Chain t q job s)"
| chain_async: "t \<in> ts \<Longrightarrow> user_code (js_workers s t) \<Longrightarrow> js_linked s q \<noteq> [] \<Longrightarrow> \<not> is_make job
    \<Longrightarrow> job_bounded ts (chain_ChainAsync t q job s) \<Longrightarrow> chain_step ts s (chain_ChainAsync t q job s)"
| chain_job: "job_step ts s s' \<Longrightarrow> job_bounded ts s' \<Longrightarrow> js_lost s' = js_lost s
    \<Longrightarrow> (\<And>t. wk_push (js_workers s t) = PushNone \<Longrightarrow> wk_push (js_workers s' t) = PushNone) \<Longrightarrow> chain_step ts s s'"

lemma chain_is_job_step: "chain_step ts s s' \<Longrightarrow> bounded_job_step ts s s'"
  by (induction rule: chain_step.induct)
    (simp_all add: bounded_job_step_def chain_Make_def chain_Chain_def chain_ChainAsync_def step_begin)

lemma chain_reaches_jobs: "reaches (chain_step ts) s s' \<Longrightarrow> reaches (bounded_job_step ts) s s'"
  by (induction rule: reaches.induct) (blast intro: reaches.intros chain_is_job_step)+

section \<open>The first job\<close>

definition chain_jobs :: "'a chain_job list \<Rightarrow> bool" where
  "chain_jobs js \<longleftrightarrow> (case js of [] \<Rightarrow> True | j # rest \<Rightarrow> is_make j \<and> list_all (\<lambda>k. \<not> is_make k) rest)"

definition chain_inv :: "nat set \<Rightarrow> nat \<Rightarrow> 'a chain_job job_sys \<Rightarrow> bool" where
  "chain_inv ts q s \<longleftrightarrow> chain_jobs (js_linked s q) \<and> (js_linked s q = [] \<longrightarrow> tot ts (linking q) s \<le> 1)
     \<and> (\<forall>t\<in>ts. \<forall>job po p. wk_push (js_workers s t) = PushLink q job po p \<longrightarrow> (is_make job \<longleftrightarrow> js_linked s q = []))"

text \<open>What the steps do to the linked jobs and to the pushes.\<close>

lemma job_step_linked:
  assumes "job_step ts s s'" and "js_lost s' = js_lost s"
    and "\<And>t. wk_push (js_workers s t) = PushNone \<Longrightarrow> wk_push (js_workers s' t) = PushNone"
  shows "(\<exists>t q job po p. t \<in> ts \<and> wk_push (js_workers s t) = PushLink q job po p \<and> s' = push_link t q job po p s)
    \<or> js_linked s' = js_linked s \<and> (\<forall>t q job po p. wk_push (js_workers s' t) = PushLink q job po p \<longleftrightarrow> wk_push (js_workers s t) = PushLink q job po p)"
  using assms
proof (cases rule: job_step.cases)
  case (step_begin t q job pushOnly)
  then show ?thesis using assms(3) [of t] by (simp add: push_begin_def user_code_def)
next
  case (step_clear t q)
  have "js_jobs s q = []" using fun_cong [OF assms(2), of q] step_clear by (simp add: ClearJobs_def)
  then show ?thesis using step_clear by (auto simp: ClearJobs_def fun_eq_iff)
next
  case (step_link t q job pushOnly prevCount)
  then show ?thesis by blast
qed (auto simp: push_decide_def exec_pop_def exec_run_def exec_sub_def exec_tick_def exec_toss_def global_work_def start_execute_def Let_def
    split: list.splits if_splits)

lemma linking_of: "wk_push w = PushLink q job po p \<Longrightarrow> linking q w = 1"
  by (simp add: linking_def)

lemma linking_same:
  assumes "\<And>q job po p. wk_push w' = PushLink q job po p \<longleftrightarrow> wk_push w = PushLink q job po p"
  shows "linking q w' = linking q w"
  using assms [of q] by (cases "wk_push w"; cases "wk_push w'") (auto simp: linking_def)

lemma chain_begin_inv:
  assumes inv: "chain_inv ts q s" and fin: "finite ts" and jinv: "job_inv ts s" and t: "t \<in> ts" "user_code (js_workers s t)"
    and ok: "if is_make job then js_linked s q' = [] \<and> js_jobCount s q' = 0 else js_linked s q' \<noteq> []"
  shows "chain_inv ts q (push_begin t q' job po s)"
proof (cases "q' = q")
  case False
  have "tot ts (linking q) (push_begin t q' job po s) = tot ts (linking q) s"
    using tot_upd [OF fin t(1), of "linking q" "\<lambda>w. w\<lparr>wk_push := PushLink q' job po (js_jobCount s q')\<rparr>"
        "s\<lparr>js_jobCount := (js_jobCount s)(q' := to_int32 (js_jobCount s q' + 1))\<rparr>"] t(2) False
    by (simp add: push_begin_def linking_def user_code_def)
  then show ?thesis using inv False by (auto simp: chain_inv_def push_begin_def)
next
  case True
  have "tot ts (linking q) (push_begin t q' job po s) = Suc (tot ts (linking q) s)"
    using tot_upd [OF fin t(1), of "linking q" "\<lambda>w. w\<lparr>wk_push := PushLink q' job po (js_jobCount s q')\<rparr>"
        "s\<lparr>js_jobCount := (js_jobCount s)(q' := to_int32 (js_jobCount s q' + 1))\<rparr>"] t(2) True
    by (simp add: push_begin_def linking_def user_code_def)
  moreover have "tot ts (linking q) s = 0" if "js_linked s q = []"
    using that ok jinv True by (auto simp: job_inv_def count_inv_def pending_def split: if_splits)
  ultimately show ?thesis using inv ok True by (auto simp: chain_inv_def push_begin_def split: if_splits)
qed

lemma chain_link_inv:
  assumes inv: "chain_inv ts q s" and fin: "finite ts" and t: "t \<in> ts" "wk_push (js_workers s t) = PushLink q' job po p"
  shows "chain_inv ts q (push_link t q' job po p s)"
proof (cases "q' = q")
  case False
  have "tot ts (linking q) (push_link t q' job po p s) = tot ts (linking q) s"
    using tot_upd [OF fin t(1), of "linking q" "\<lambda>w. w\<lparr>wk_push := PushDecide q' po p\<rparr>"
        "s\<lparr>js_jobs := (js_jobs s)(q' := js_jobs s q' @ [job]), js_linked := (js_linked s)(q' := js_linked s q' @ [job])\<rparr>"] t(2) False
    by (simp add: push_link_def linking_def)
  then show ?thesis using inv False by (auto simp: chain_inv_def push_link_def)
next
  case True
  have mk: "is_make job \<longleftrightarrow> js_linked s q = []" using inv t True by (auto simp: chain_inv_def)
  have "chain_jobs (js_linked s q @ [job])"
    using inv mk by (cases "js_linked s q") (auto simp: chain_inv_def chain_jobs_def)
  moreover have "\<not> is_make job'" if u: "u \<in> ts" "u \<noteq> t" "wk_push (js_workers s u) = PushLink q job' po' p'" for u job' po' p'
  proof
    assume "is_make job'"
    then have "js_linked s q = []" using inv u by (auto simp: chain_inv_def)
    then have "tot ts (linking q) s \<le> 1" using inv by (simp add: chain_inv_def)
    then have "linking q (js_workers s u) = 0"
      using tot_unique [OF fin _ t(1) u(1)] u(2) linking_of t(2) True by (metis zero_less_one)
    then show False using linking_of [OF u(3)] by simp
  qed
  ultimately show ?thesis using inv True by (auto simp: chain_inv_def push_link_def)
qed

theorem chain_step_inv:
  assumes "chain_step ts s s'" and "chain_inv ts q s" and "job_inv ts s" and "finite ts"
  shows "chain_inv ts q s'"
  using assms(1)
proof (cases rule: chain_step.cases)
  case (chain_make t q' fn)
  then show ?thesis unfolding chain_Make_def
    using chain_begin_inv [OF assms(2,4,3), of t "MakeJob fn" q' False] by (simp add: chain_Make_def)
next
  case (chain_call t q' job)
  then show ?thesis using chain_begin_inv [OF assms(2,4,3), of t job q' False] by (simp add: chain_Chain_def)
next
  case (chain_async t q' job)
  then show ?thesis using chain_begin_inv [OF assms(2,4,3), of t job q' True] by (simp add: chain_ChainAsync_def)
next
  case chain_job
  have "(\<exists>t q job po p. t \<in> ts \<and> wk_push (js_workers s t) = PushLink q job po p \<and> s' = push_link t q job po p s)
    \<or> js_linked s' = js_linked s \<and> (\<forall>t q job po p. wk_push (js_workers s' t) = PushLink q job po p \<longleftrightarrow> wk_push (js_workers s t) = PushLink q job po p)"
    by (rule job_step_linked) (use chain_job in blast)+
  then show ?thesis
  proof (elim disjE exE conjE)
    fix t q' job po p assume "t \<in> ts" "wk_push (js_workers s t) = PushLink q' job po p" "s' = push_link t q' job po p s"
    then show ?thesis using chain_link_inv [OF assms(2,4)] by simp
  next
    assume l: "js_linked s' = js_linked s"
      "\<forall>t q job po p. wk_push (js_workers s' t) = PushLink q job po p \<longleftrightarrow> wk_push (js_workers s t) = PushLink q job po p"
    have "tot ts (linking q) s' = tot ts (linking q) s" unfolding tot_def
      by (rule sum.cong [OF refl]) (rule linking_same, use l(2) in blast)
    then show ?thesis using assms(2) l by (simp add: chain_inv_def)
  qed
qed

lemma chain_inv_init: "chain_inv ts q job_init"
  by (simp add: chain_inv_def chain_jobs_def job_init_def new_worker_def tot_def linking_def)

lemma chain_reaches_inv:
  assumes "reaches (chain_step ts) job_init s" and "finite ts"
  shows "chain_inv ts q s \<and> job_inv ts s"
  using assms(1)
proof (rule reaches_invariant)
  show "chain_inv ts q job_init \<and> job_inv ts job_init" by (simp add: chain_inv_init job_inv_init)
  fix x y assume "chain_inv ts q x \<and> job_inv ts x" and "chain_step ts x y"
  then show "chain_inv ts q y \<and> job_inv ts y"
    using chain_step_inv job_step_inv chain_is_job_step assms(2) unfolding bounded_job_step_def by blast
qed

section \<open>The value\<close>

text \<open>The functions applied to the value one after the other.\<close>

primrec chain_apply :: "'a chain_job \<Rightarrow> 'a \<Rightarrow> 'a" where
  "chain_apply (MakeJob fn) v = fn ()"
| "chain_apply (ObserveJob k) v = v"
| "chain_apply (UpdateJob fn) v = fn v"

lemma chain_run_values:
  assumes "list_all (\<lambda>k. \<not> is_make k) js" and "ch_returnValue c = Some v"
  shows "\<exists>c'. chain_run js c = Inr c' \<and> ch_returnValue c' = Some (fold chain_apply js v)"
  using assms
proof (induction js arbitrary: c v)
  case (Cons j js)
  then show ?case by (cases j) simp_all
qed simp

theorem chain_runs_in_order:
  assumes "reaches (chain_step ts) job_init s" and "finite ts"
  shows "js_ran s q = [] \<or> (\<exists>fn rest c. js_ran s q = MakeJob fn # rest \<and> chain_run (js_ran s q) new_chain = Inr c
    \<and> ch_returnValue c = Some (fold chain_apply rest (fn ())))"
proof -
  obtain waiting where w: "js_linked s q = js_ran s q @ waiting"
    using ran_in_order chain_reaches_inv [OF assms] by blast
  have ok: "chain_jobs (js_linked s q)" using chain_reaches_inv [OF assms, of q] by (simp add: chain_inv_def)
  show ?thesis
  proof (cases "js_ran s q")
    case (Cons j rest)
    then have j: "is_make j" "list_all (\<lambda>k. \<not> is_make k) rest" using ok w by (auto simp: chain_jobs_def)
    then obtain fn where fn: "j = MakeJob fn" by (cases j) auto
    obtain c where "chain_run rest (new_chain\<lparr>ch_returnValue := Some (fn ())\<rparr>) = Inr c" "ch_returnValue c = Some (fold chain_apply rest (fn ()))"
      using chain_run_values [OF j(2), of "new_chain\<lparr>ch_returnValue := Some (fn ())\<rparr>"] by auto
    then show ?thesis using Cons fn by auto
  qed simp
qed

text \<open>A chain whose function has run, and whose queue is idle again.\<close>

lemma chain_once_reaches: "reaches (chain_step {0, 1}) job_init (ran_once (MakeJob fn))"
proof -
  let ?s1 = "push_begin 0 5 (MakeJob fn) False job_init"
  let ?s2 = "push_link 0 5 (MakeJob fn) False 0 ?s1"
  let ?s3 = "pushed_once (MakeJob fn)"
  let ?s4 = "exec_pop 0 5 [] ?s3"
  let ?s5 = "exec_pop 0 5 [MakeJob fn] ?s4"
  let ?s6 = "exec_run 0 5 (MakeJob fn) [] 1 ?s5"
  note defs = push_begin_def push_link_def push_decide_def start_execute_def job_init_def new_worker_def pushed_once_def
    exec_pop_def exec_run_def exec_sub_def to_int32_id
  have b: "job_bounded {0, 1} ?s1" "job_bounded {0, 1} ?s2" "job_bounded {0, 1} ?s3" "job_bounded {0, 1} ?s4" "job_bounded {0, 1} ?s5"
    "job_bounded {0, 1} ?s6" "job_bounded {0, 1} (ran_once (MakeJob fn))"
    by (simp_all add: job_bounded_def pending_def tot_def part_defs ran_once_def defs)
  have "chain_step {0, 1} job_init ?s1"
    unfolding chain_Make_def [symmetric] by (rule chain_make) (use b in \<open>simp_all add: chain_Make_def user_code_def job_init_def new_worker_def\<close>)
  moreover have "chain_step {0, 1} ?s1 ?s2"
    by (rule chain_job [OF step_link [of 0]]) (use b in \<open>simp_all add: defs split: if_splits\<close>)
  moreover have "chain_step {0, 1} ?s2 ?s3" unfolding pushed_once_def
    by (rule chain_job [OF step_decide [of 0]]) (use b in \<open>simp_all add: defs split: if_splits\<close>)
  moreover have "chain_step {0, 1} ?s3 ?s4"
    by (rule chain_job [OF step_pop [of 0]]) (use b in \<open>simp_all add: defs split: if_splits\<close>)
  moreover have "chain_step {0, 1} ?s4 ?s5"
    by (rule chain_job [OF step_pop [of 0]]) (use b in \<open>simp_all add: defs split: if_splits\<close>)
  moreover have "chain_step {0, 1} ?s5 ?s6"
    by (rule chain_job [OF step_run [of 0]]) (use b in \<open>simp_all add: defs split: if_splits\<close>)
  moreover have "chain_step {0, 1} ?s6 (ran_once (MakeJob fn))" unfolding ran_once_def
    by (rule chain_job [OF step_sub [of 0]]) (use b in \<open>simp_all add: defs ran_once_def split: if_splits\<close>)
  ultimately show ?thesis by (meson reaches.intros)
qed

end
