(* ===== verification/Awaiter.thy ===== *)
theory Awaiter imports JobQueue begin

text \<open>
  ServerCore/Awaiter.h and Awaiter.cpp: the awaitable a coroutine waits on to be resumed as a job of a
  queue. A handle is the number of a suspended coroutine, and the job the lambda of await_suspend makes of
  it is \<open>ResumeJob\<close>; the other jobs of the queue are arbitrary.
\<close>

datatype 'j await_job =
    ResumeJob nat
  | OtherJob 'j

text \<open>The shared pointer to the queue, null or not.\<close>

record Post =
  po_jobQueue :: "nat option"

record Awaiter =
  aw_jobQueue :: "nat option"

definition PostAwait :: "Awaiter \<Rightarrow> Post" where
  "PostAwait a = \<lparr>po_jobQueue = aw_jobQueue a\<rparr>"

definition await_ready :: "Post \<Rightarrow> bool" where
  "await_ready p = False"

definition await_suspend :: "nat \<Rightarrow> Post \<Rightarrow> nat \<Rightarrow> 'j await_job job_sys \<Rightarrow> 'j await_job job_sys" where
  "await_suspend t p handle s =
     (case po_jobQueue p of
        None \<Rightarrow> s
      | Some q \<Rightarrow> push_begin t q (ResumeJob handle) False s)"

text \<open>
  co_await on a Post: a coroutine that is not ready is suspended and its handle given to await_suspend. The
  first component tells whether it goes on without being suspended.
\<close>

definition co_await :: "nat \<Rightarrow> Post \<Rightarrow> nat \<Rightarrow> 'j await_job job_sys \<Rightarrow> bool \<times> 'j await_job job_sys" where
  "co_await t p handle s = (if await_ready p then (True, s) else (False, await_suspend t p handle s))"

text \<open>Awaiting is a step of the thread that runs the coroutine.\<close>

lemma co_await_step:
  assumes "aw_jobQueue a = Some q" and "t \<in> ts" and "user_code (js_workers s t)"
    and "job_bounded ts (push_begin t q (ResumeJob h) False s)"
  shows "bounded_job_step ts s (snd (co_await t (PostAwait a) h s))"
  using assms by (simp add: co_await_def await_ready_def await_suspend_def PostAwait_def bounded_job_step_def step_begin)

text \<open>
  When the threads are idle again after the handle was linked into the queue, the coroutine has been resumed,
  as often as it was linked and after everything that was linked before it.
\<close>

theorem awaited_are_resumed:
  assumes "reaches (bounded_job_step ts) job_init s" and "finite ts" and "js_global s = []"
    and "\<forall>t\<in>ts. wk_push (js_workers s t) = PushNone \<and> wk_exec (js_workers s t) = ExecNone"
    and "js_linked s q = before @ ResumeJob h # later"
  shows "js_ran s q = before @ ResumeJob h # later"
  using quiescent_all_ran [OF assms(2) job_reachable_inv [OF assms(1,2)] assms(3), of q] assms(4,5) by simp

text \<open>With a null queue nothing is pushed, and the suspended coroutine is in no queue that could resume it.\<close>

lemma co_await_null: "aw_jobQueue a = None \<Longrightarrow> co_await t (PostAwait a) h s = (False, s)"
  by (simp add: co_await_def await_ready_def await_suspend_def PostAwait_def)

end
