(* ===== verification/ThreadStart.thy ===== *)
theory ThreadStart imports Lock begin

text \<open>
  ServerCore/ThreadManager.h and ThreadManager.cpp as far as they start threads and number them: the
  constructor, Launch and InitTLS. Thread 0 is the main thread, which creates the manager; the k-th
  thread of \<open>_threads\<close> is \<open>Suc k\<close>. A launched thread runs InitTLS at some later time, so the ids follow
  the order in which the threads start, not the order in which they were launched. The lemmas connect the
  ids with what the locks of Lock.thy need of them.
\<close>

section \<open>Launching\<close>

text \<open>\<open>th_started\<close> records the threads in the order they ran InitTLS.\<close>

record thread_manager =
  th_SThreadId :: uint32
  th_LThreadId :: "nat \<Rightarrow> uint32"
  th_threads :: "nat list"
  th_started :: "nat list"

definition thread_init :: thread_manager where
  "thread_init = \<lparr>th_SThreadId = 1, th_LThreadId = (\<lambda>_. 0), th_threads = [], th_started = []\<rparr>"

text \<open>\<open>LThreadId = SThreadId++\<close> on the atomic counter.\<close>

definition InitTLS :: "nat \<Rightarrow> thread_manager \<Rightarrow> thread_manager" where
  "InitTLS t s = s\<lparr>th_LThreadId := (th_LThreadId s)(t := th_SThreadId s), th_SThreadId := th_SThreadId s + 1,
     th_started := th_started s @ [t]\<rparr>"

definition new_ThreadManager :: thread_manager where
  "new_ThreadManager = InitTLS 0 thread_init"

definition Launch :: "thread_manager \<Rightarrow> thread_manager" where
  "Launch s = s\<lparr>th_threads := th_threads s @ [Suc (length (th_threads s))]\<rparr>"

inductive launch_step :: "thread_manager \<Rightarrow> thread_manager \<Rightarrow> bool" where
  launch_thread: "launch_step s (Launch s)"
| start_thread: "t \<in> set (th_threads s) \<Longrightarrow> t \<notin> set (th_started s) \<Longrightarrow> launch_step s (InitTLS t s)"

section \<open>The ids\<close>

definition launch_inv :: "thread_manager \<Rightarrow> bool" where
  "launch_inv s \<longleftrightarrow> distinct (th_started s) \<and> set (th_started s) \<subseteq> insert 0 (set (th_threads s))
     \<and> th_threads s = map Suc [0..<length (th_threads s)]
     \<and> th_SThreadId s = word_of_nat (Suc (length (th_started s)))
     \<and> (\<forall>i < length (th_started s). th_LThreadId s (th_started s ! i) = word_of_nat (Suc i))
     \<and> 0 \<in> set (th_started s) \<and> (\<forall>t. t \<notin> set (th_started s) \<longrightarrow> th_LThreadId s t = 0)"

lemma launch_inv_new: "launch_inv new_ThreadManager"
  by (simp add: launch_inv_def new_ThreadManager_def thread_init_def InitTLS_def)

lemma launch_inv_step: "launch_step s s' \<Longrightarrow> launch_inv s \<Longrightarrow> launch_inv s'"
proof (induction rule: launch_step.cases)
  case (start_thread t s0)
  then have i: "launch_inv s0" "t \<in> set (th_threads s0)" "t \<notin> set (th_started s0)" by simp_all
  have "th_LThreadId (InitTLS t s0) ((th_started s0 @ [t]) ! i) = word_of_nat (Suc i)" if "i < Suc (length (th_started s0))" for i
  proof (cases "i < length (th_started s0)")
    case True
    moreover have "th_started s0 ! i \<noteq> t" using True i(3) by (metis nth_mem)
    ultimately show ?thesis using i(1) by (simp add: launch_inv_def InitTLS_def nth_append)
  next
    case False
    then have "i = length (th_started s0)" using that by simp
    then show ?thesis using i(1) by (simp add: launch_inv_def InitTLS_def)
  qed
  then have "\<forall>i < length (th_started (InitTLS t s0)). th_LThreadId (InitTLS t s0) (th_started (InitTLS t s0) ! i) = word_of_nat (Suc i)"
    by (simp add: InitTLS_def del: of_nat_Suc)
  moreover have "th_SThreadId (InitTLS t s0) = word_of_nat (Suc (length (th_started (InitTLS t s0))))"
    using i(1) by (simp add: launch_inv_def InitTLS_def)
  moreover have "distinct (th_started (InitTLS t s0))" "set (th_started (InitTLS t s0)) \<subseteq> insert 0 (set (th_threads (InitTLS t s0)))"
    "th_threads (InitTLS t s0) = map Suc [0..<length (th_threads (InitTLS t s0))]" "0 \<in> set (th_started (InitTLS t s0))"
    "\<forall>u. u \<notin> set (th_started (InitTLS t s0)) \<longrightarrow> th_LThreadId (InitTLS t s0) u = 0"
    using i unfolding launch_inv_def by (auto simp: InitTLS_def simp del: of_nat_Suc)
  ultimately show ?case unfolding launch_inv_def using start_thread by blast
qed (auto simp: launch_inv_def Launch_def)

lemma launch_reaches_inv: "reaches launch_step new_ThreadManager s \<Longrightarrow> launch_inv s"
  by (rule reaches_invariant [of launch_step _ _ launch_inv, OF _ launch_inv_new]) (simp_all add: launch_inv_step)

lemma unat_id: "i < 4294967295 \<Longrightarrow> unat (word_of_nat (Suc i) :: uint32) = Suc i"
  by (simp only: unat_of_nat) (simp add: take_bit_nat_eq_self)

lemma started_le: "launch_inv s \<Longrightarrow> length (th_started s) \<le> Suc (length (th_threads s))"
proof -
  assume i: "launch_inv s"
  have "length (th_started s) = card (set (th_started s))" using i by (simp add: launch_inv_def distinct_card)
  also have "\<dots> \<le> card (insert 0 (set (th_threads s)))" using i by (intro card_mono) (auto simp: launch_inv_def)
  also have "\<dots> \<le> Suc (card (set (th_threads s)))" by (simp add: card_insert_if)
  also have "\<dots> \<le> Suc (length (th_threads s))" by (simp add: card_length)
  finally show ?thesis .
qed

text \<open>Up to 65535 threads the ids are what a lock needs.\<close>

lemma ids_good:
  assumes inv: "launch_inv s" and few: "length (th_started s) \<le> 65535"
  shows "good_ids (th_LThreadId s) (set (th_started s))"
proof -
  have id: "unat (th_LThreadId s (th_started s ! i)) = Suc i" if i: "i < length (th_started s)" for i
  proof -
    have "th_LThreadId s (th_started s ! i) = word_of_nat (Suc i)" using inv i unfolding launch_inv_def by blast
    moreover have "i < 4294967295" using i few by simp
    ultimately show ?thesis by (simp only: unat_id)
  qed
  have "inj_on (th_LThreadId s) (set (th_started s))"
  proof (rule inj_onI)
    fix t u assume t: "t \<in> set (th_started s)" "u \<in> set (th_started s)" "th_LThreadId s t = th_LThreadId s u"
    obtain i where i: "i < length (th_started s)" "t = th_started s ! i" using t(1) by (auto simp: in_set_conv_nth)
    obtain j where j: "j < length (th_started s)" "u = th_started s ! j" using t(2) by (auto simp: in_set_conv_nth)
    have "Suc i = Suc j" using arg_cong [OF t(3), of unat] unfolding i(2) j(2) id [OF i(1)] id [OF j(1)] .
    then show "t = u" using i(2) j(2) by simp
  qed
  moreover have "0 < unat (th_LThreadId s t) \<and> unat (th_LThreadId s t) < 65536" if t: "t \<in> set (th_started s)" for t
  proof -
    obtain i where "i < length (th_started s)" "t = th_started s ! i" using t by (auto simp: in_set_conv_nth)
    then show ?thesis using id [of i] few by simp
  qed
  ultimately show ?thesis by (simp add: good_ids_def)
qed

text \<open>The thread with the 65536th id writes an empty flag when it takes a lock.\<close>

lemma id_empty:
  assumes "launch_inv s" and "65535 < length (th_started s)"
  shows "desired_flag (th_LThreadId s (th_started s ! 65535)) = EMPTY_FLAG"
proof -
  have "th_LThreadId s (th_started s ! 65535) = word_of_nat 65536" using assms by (simp add: launch_inv_def)
  then show ?thesis by (simp add: desired_flag_push EMPTY_FLAG_def push_bit_eq_mult)
qed

text \<open>A thread that has not run InitTLS passes for the owner of every free lock.\<close>

lemma unstarted_id: "launch_inv s \<Longrightarrow> t \<notin> set (th_started s) \<Longrightarrow> th_LThreadId s t = lock_thread_id EMPTY_FLAG"
  by (simp add: launch_inv_def lock_thread_id_def EMPTY_FLAG_def)

lemma launched_threads_exclude:
  assumes "reaches launch_step new_ThreadManager m" and "length (th_threads m) < 65535"
    and "reaches (bounded_lock_step (th_LThreadId m) (set (th_started m))) lock_init s"
    and "t \<in> set (th_started m)" and "u \<in> set (th_started m)" and "t \<noteq> u" and "0 < ls_wdepth s t"
  shows "ls_wdepth s u = 0 \<and> ls_rdepth s u = 0"
proof -
  note inv = launch_reaches_inv [OF assms(1)]
  have ids: "good_ids (th_LThreadId m) (set (th_started m))" using ids_good [OF inv] started_le [OF inv] assms(2) by simp
  show ?thesis using lock_exclusive [OF lock_reachable_inv [OF assms(3) ids] assms(4-7)] by blast
qed

text \<open>Two threads, started in the other order than they were launched.\<close>

definition two_started :: thread_manager where
  "two_started = InitTLS 1 (InitTLS 2 (Launch (Launch new_ThreadManager)))"

lemma two_started_reaches: "reaches launch_step new_ThreadManager two_started"
proof -
  have "launch_step new_ThreadManager (Launch new_ThreadManager)"
    "launch_step (Launch new_ThreadManager) (Launch (Launch new_ThreadManager))" by (rule launch_thread)+
  moreover have "launch_step (Launch (Launch new_ThreadManager)) (InitTLS 2 (Launch (Launch new_ThreadManager)))"
    by (rule start_thread) (simp_all add: Launch_def new_ThreadManager_def InitTLS_def thread_init_def)
  moreover have "launch_step (InitTLS 2 (Launch (Launch new_ThreadManager))) two_started"
    unfolding two_started_def by (rule start_thread) (simp_all add: Launch_def new_ThreadManager_def InitTLS_def thread_init_def)
  ultimately show ?thesis by (meson reaches.intros)
qed

end
