(* ===== verification/StrUtils.thy ===== *)
theory StrUtils imports Prelude begin

text \<open>
  ServerCore/StrUtils.h and StrUtils.cpp: case mapping and conversions between narrow and wide strings.
  \<open>wchar_t\<close> has 16 bits and \<open>char\<close> is signed, as with the compiler of the project. The two Win32
  conversions are a parameter, \<open>win_nls\<close>; \<open>nls_documented\<close> states what their documentation says.
\<close>

type_synonym WCHAR = "16 word"

section \<open>Case mapping\<close>

text \<open>\<open>toupper\<close> and \<open>tolower\<close> of the C locale; for an argument that is neither an unsigned char nor EOF
  their behaviour is undefined.\<close>

definition c_toupper :: "int32 \<Rightarrow> int32 result" where
  "c_toupper c = (if c < - 1 \<or> 255 < c then Inl (UndefinedBehaviour ''toupper'')
     else Inr (if 97 \<le> c \<and> c \<le> 122 then c - 32 else c))"

definition c_tolower :: "int32 \<Rightarrow> int32 result" where
  "c_tolower c = (if c < - 1 \<or> 255 < c then Inl (UndefinedBehaviour ''tolower'')
     else Inr (if 65 \<le> c \<and> c \<le> 90 then c + 32 else c))"

text \<open>The loop over the string: each character becomes an int and is converted back.\<close>

primrec map_chars :: "(int32 \<Rightarrow> int32 result) \<Rightarrow> WCHAR list \<Rightarrow> WCHAR list result" where
  "map_chars f [] = Inr []"
| "map_chars f (c # cs) = bind_result (f (uint c)) (\<lambda>d. bind_result (map_chars f cs) (\<lambda>ds. Inr (word_of_int d # ds)))"

definition ToUpper :: "WCHAR list \<Rightarrow> WCHAR list result" where
  "ToUpper str = map_chars c_toupper str"

definition ToLower :: "WCHAR list \<Rightarrow> WCHAR list result" where
  "ToLower str = map_chars c_tolower str"

section \<open>Conversions\<close>

text \<open>\<open>WideCharToMultiByte(CP_ACP, ...)\<close> and \<open>MultiByteToWideChar(CP_UTF8, ...)\<close>: the string up to its
  terminator and the size of the zeroed buffer give the result and the buffer.\<close>

record win_nls =
  nls_narrow :: "WCHAR list \<Rightarrow> nat \<Rightarrow> nat \<times> BYTE list"
  nls_widen :: "BYTE list \<Rightarrow> nat \<Rightarrow> nat \<times> WCHAR list"

definition until_nul :: "'w :: len word list \<Rightarrow> 'w word list" where
  "until_nul s = takeWhile (\<lambda>c. c \<noteq> 0) s"

text \<open>Constructing a string from a buffer reads to the first zero, wherever it is.\<close>

definition buffer_string :: "'w :: len word list \<Rightarrow> 'w word list result" where
  "buffer_string buffer = (if 0 \<in> set buffer then Inr (until_nul buffer) else Inl OutOfBounds)"

text \<open>\<open>wstr.assign(str.begin(), str.end())\<close> converts each char, which is signed.\<close>

definition ToWideStr_string :: "BYTE list \<Rightarrow> WCHAR list" where
  "ToWideStr_string str = map scast str"

definition ToWideStr_chars :: "win_nls \<Rightarrow> BYTE list \<Rightarrow> WCHAR list result" where
  "ToWideStr_chars nls str = (case nls_widen nls (until_nul str) 4096 of (len, buffer) \<Rightarrow> if len = 0 then Inr [] else buffer_string buffer)"

definition ToString_wstring :: "win_nls \<Rightarrow> WCHAR list \<Rightarrow> BYTE list result" where
  "ToString_wstring nls str = (case nls_narrow nls (until_nul str) 4096 of (len, buffer) \<Rightarrow> buffer_string buffer)"

definition ToString_wchars :: "win_nls \<Rightarrow> WCHAR list \<Rightarrow> BYTE list result" where
  "ToString_wchars nls str = (case nls_narrow nls (until_nul str) 4096 of (len, buffer) \<Rightarrow> buffer_string buffer)"

definition ToWideStr_wchars :: "win_nls \<Rightarrow> WCHAR list \<Rightarrow> WCHAR list result" where
  "ToWideStr_wchars nls str = bind_result (ToString_wchars nls str) (\<lambda>s. Inr (ToWideStr_string s))"

definition ToString_chars :: "win_nls \<Rightarrow> BYTE list \<Rightarrow> BYTE list result" where
  "ToString_chars nls str = bind_result (ToWideStr_chars nls str) (ToString_wstring nls)"

section \<open>Case mapping is total on Latin-1 only\<close>

lemma map_chars_Inr:
  assumes "\<And>c. c \<in> set str \<Longrightarrow> f (uint c) = Inr (g (uint c))"
  shows "map_chars f str = Inr (map (\<lambda>c. word_of_int (g (uint c))) str)"
  using assms by (induction str) simp_all

lemma map_chars_fault:
  assumes "c \<in> set str" and "f (uint c) = Inl e"
  shows "\<exists>e'. map_chars f str = Inl e'"
  using assms(1)
proof (induction str)
  case (Cons d str)
  show ?case
  proof (cases "f (uint d)")
    case (Inr x)
    then have "c \<in> set str" using Cons.prems assms(2) by auto
    then show ?thesis using Cons.IH Inr by auto
  qed simp
qed simp

definition upper_char :: "int32 \<Rightarrow> int32" where
  "upper_char c = (if 97 \<le> c \<and> c \<le> 122 then c - 32 else c)"

theorem ToUpper_defined: "(\<exists>r. ToUpper str = Inr r) \<longleftrightarrow> list_all (\<lambda>c. c < 256) str"
proof (cases "list_all (\<lambda>c. c < 256) str")
  case True
  have "c_toupper (uint c) = Inr (upper_char (uint c))" if "c \<in> set str" for c
  proof -
    have "uint c < 256" using that True by (auto simp: list_all_iff word_less_def)
    moreover have "0 \<le> uint c" by simp
    ultimately have "\<not> (uint c < - 1 \<or> 255 < uint c)" by linarith
    then show ?thesis unfolding c_toupper_def upper_char_def by (simp only: if_False)
  qed
  then show ?thesis using True map_chars_Inr [of str c_toupper upper_char] by (simp add: ToUpper_def)
next
  case False
  then obtain c where c: "c \<in> set str" "256 \<le> c" by (auto simp: list_all_iff)
  then have "256 \<le> uint c" by (simp add: word_le_def)
  then have "c_toupper (uint c) = Inl (UndefinedBehaviour ''toupper'')" by (simp add: c_toupper_def)
  then show ?thesis using map_chars_fault [OF c(1), of c_toupper] False by (auto simp: ToUpper_def)
qed

section \<open>Conversions as documented\<close>

text \<open>A conversion that fits the buffer with its terminator is stored there; otherwise the result is zero and
  the buffer holds anything. \<open>narrow\<close> and \<open>wide\<close> are the mappings of the two code pages.\<close>

definition nls_documented :: "(WCHAR list \<Rightarrow> BYTE list) \<Rightarrow> (BYTE list \<Rightarrow> WCHAR list) \<Rightarrow> win_nls \<Rightarrow> bool" where
  "nls_documented narrow wide nls \<longleftrightarrow>
     (\<forall>s n. (0 \<notin> set s \<longrightarrow> 0 \<notin> set (narrow s)) \<and> (if length (narrow s) < n
        then nls_narrow nls s n = (Suc (length (narrow s)), narrow s @ replicate (n - length (narrow s)) 0)
        else fst (nls_narrow nls s n) = 0 \<and> length (snd (nls_narrow nls s n)) = n))
   \<and> (\<forall>s n. (0 \<notin> set s \<longrightarrow> 0 \<notin> set (wide s)) \<and> (if length (wide s) < n
        then nls_widen nls s n = (Suc (length (wide s)), wide s @ replicate (n - length (wide s)) 0)
        else fst (nls_widen nls s n) = 0 \<and> length (snd (nls_widen nls s n)) = n))"

lemma until_nul_zero: "0 \<notin> set (until_nul s)"
  using set_takeWhileD by (fastforce simp: until_nul_def)

lemma buffer_string_zero: "0 \<notin> set s \<Longrightarrow> 0 < n \<Longrightarrow> buffer_string (s @ replicate n 0) = Inr s"
  by (cases n) (auto simp: buffer_string_def until_nul_def takeWhile_append)

theorem ToString_fits:
  assumes "nls_documented narrow wide nls" and "length (narrow (until_nul str)) < 4096"
  shows "ToString_wstring nls str = Inr (narrow (until_nul str))" and "ToString_wchars nls str = Inr (narrow (until_nul str))"
  using assms buffer_string_zero [of "narrow (until_nul str)" "4096 - length (narrow (until_nul str))"] until_nul_zero [of str]
  by (simp_all add: nls_documented_def ToString_wstring_def ToString_wchars_def)

text \<open>ToWideStr of a narrow string tests the result, so a long one becomes empty.\<close>

theorem ToWideStr_documented:
  assumes "nls_documented narrow wide nls"
  shows "ToWideStr_chars nls str = Inr (if length (wide (until_nul str)) < 4096 then wide (until_nul str) else [])"
proof -
  have f: "(0 \<notin> set (until_nul str) \<longrightarrow> 0 \<notin> set (wide (until_nul str))) \<and> (if length (wide (until_nul str)) < 4096
        then nls_widen nls (until_nul str) 4096
          = (Suc (length (wide (until_nul str))), wide (until_nul str) @ replicate (4096 - length (wide (until_nul str))) 0)
        else fst (nls_widen nls (until_nul str) 4096) = 0 \<and> length (snd (nls_widen nls (until_nul str) 4096)) = 4096)"
    using assms unfolding nls_documented_def by blast
  obtain n b where nb: "nls_widen nls (until_nul str) 4096 = (n, b)" by fastforce
  show ?thesis
  proof (cases "length (wide (until_nul str)) < 4096")
    case True
    then show ?thesis using f buffer_string_zero [of "wide (until_nul str)" "4096 - length (wide (until_nul str))"] until_nul_zero [of str]
      by (simp add: ToWideStr_chars_def)
  next
    case False
    then show ?thesis using f nb by (simp add: ToWideStr_chars_def)
  qed
qed

text \<open>ToString does not: what it makes of a long string depends on what is left in the buffer, and without a
  zero in it the read runs past its end.\<close>

theorem ToString_too_long:
  assumes "nls_documented narrow wide nls" and "4096 \<le> length (narrow (until_nul str))"
  shows "ToString_wstring nls str
    = (let buffer = snd (nls_narrow nls (until_nul str) 4096) in if 0 \<in> set buffer then Inr (until_nul buffer) else Inl OutOfBounds)"
  by (simp add: ToString_wstring_def buffer_string_def Let_def split: prod.split)

text \<open>The conversion by assignment is right for ASCII; every other char is extended with its sign.\<close>

lemma scast_byte: "(scast (c :: BYTE) :: WCHAR) = (if bit c 7 then ucast c OR 0xFF00 else ucast c)"
proof -
  have m: "(0xFF00 :: WCHAR) = push_bit 8 (mask 8)" by (simp add: mask_eq_exp_minus_1 push_bit_eq_mult)
  show ?thesis unfolding m
  proof (rule bit_word_eqI)
    fix n assume n: "n < LENGTH(16)"
    have "bit c n \<Longrightarrow> n < 8" using bit_imp_le_length [of c n] by simp
    then show "bit (scast c :: WCHAR) n = bit (if bit c 7 then ucast c OR push_bit 8 (mask 8) else ucast c :: WCHAR) n"
      using n by (cases "n = 7") (auto simp: bit_simps min_def not_less)
  qed
qed

lemma ToWideStr_string_ascii: "list_all (\<lambda>c. \<not> bit c 7) str \<Longrightarrow> ToWideStr_string str = map ucast str"
  by (simp add: ToWideStr_string_def scast_byte list_all_iff)

end
