(* ===== verification/Spec2Isabelle.thy ===== *)
theory Spec2Isabelle imports SessionRIO PacketHandler HandlerTable Lock DeadLockProfiler JobQueue MSPCQueue JobTimer LockFreeStack MemoryPool Dispatch PbChat PbSkill PbList Messages LogManager ServerConfig QuietServer GameLoop PbOutput ChainFunc Awaiter ThreadStart StrUtils begin

text \<open>
  A verification development for MMORPG_Core, a Windows game-server library (src/ServerCore) with a server
  built on it (src/GameServer), the protobuf messages the server exchanges and the vendored runtime code
  these messages and the configuration run through (src/Include). Each theory models the file it
  names, operation by operation; the properties C1 to C40 below state what the components and their
  composition guarantee, and where they do not.

  THE PROGRAM. Main.cpp runs GameServer::Init and Update. Init reads Config.json (ServerConfig, rapidjson),
  starts Winsock and the log, and starts a ServerService: a Listener posts AcceptEx for a number of
  sessions and worker threads wait on a completion port. A completion reaches the session or the listener
  it belongs to (IocpCore::Dispatch). A session receives into a RecvBuffer, cuts the bytes into packets
  (PacketSession::OnRecv) and hands them to PacketHandler, which finds the handler of the protocol number;
  the handler parses a protobuf message. In the other direction PacketHandler::MakeSendBuffer writes a
  message behind a header into a SendBuffer, a piece of a chunk the threads share, and Session::Send queues it
  and keeps at most one WSASend in flight. Work that is not network input is a job of a JobQueue: a queue is
  executed by one thread at a time and handed on through GlobalQueue; JobTimer holds delayed jobs. Below
  these lie a spin lock, a profiler of lock orders, a lock-free stack, a linked queue and a memory pool.

  THEORIES AND SOURCES.
  Prelude: integer types, faults (CRASH, ASSERT_CRASH, null, out of bounds, undefined behaviour) as the left
  side of a sum, byte arrays, reachability.
  Receiving: RecvBuffer (RecvBuffer.h/.cpp), StreamBuffer (its contract, locale stream_buffer, interpreted
  as rb), PacketFraming (PacketHeader and OnRecv of Session.h/.cpp).
  Sending: SendBuffer (chunks, buffers, manager), PacketHandler (MakeSendBuffer), HandlerTable (the
  table, registration, dispatch, the protocol enums of Enum.pb.h/.cc).
  Sessions: Service and Monitor (their state), Session (every handler, over a parameter that answers the
  socket calls), SessionRun (a session over its life: the invariant), SessionRIO (registered I/O), Network
  (Listener.cpp, CreateSession, Start, and all sessions of a server together), Dispatch (IOCP.cpp, RIO
  results), ClientSessions (ClientSession*.cpp).
  The server: GameServer (GameServer::Init with all it calls), GameLoop (the loops of Update and
  _InitWorkerThread as a step relation over the job queues, the timer and the clock), QuietServer (a concrete
  instance), TimeUtils, LogManager, StrUtils, ThreadStart (thread ids).
  Jobs: LockQueue (LockQueue.h, GlobalQueue; locale fifo_queue, interpreted as lq), MSPCQueue
  (MSPCLockFreeQueue.h, interpreted as ms), JobQueue, ChainFunc, Awaiter, JobTimer (locale
  prio_queue for std::priority_queue, interpreted as heap; items are ordered by TimerItem::operator<).
  Threads and memory: Lock, DeadLockProfiler, LockFreeStack, MemoryPool.
  Messages: ProtoWire, ProtoUtf8, ProtoStream, ProtoCodec, ProtoFields (Include/Protobuf: varints and tags,
  UTF-8 tables, the input stream and parse loop, the writers, the kinds of field), ProtoMessage (locale
  message_codec: what a generated message owes the runtime, interpreted for all eight messages), PbStruct,
  PbChat, PbSkill, PbList (Struct.pb.h/.cc and Protocol.pb.h/.cc), Messages (a message in a packet),
  ProtoOutput, OutputRefinement and PbOutput (EpsCopyOutputStream, its refinement of a byte sequence, and
  the serializers on it).
  Configuration: Json, JsonReader (Include/rapidjson document.h and reader.h), JsonText (the grammar of
  RFC 8259, independent of the reader), ServerConfig.

  HOW THE CODE IS MODELLED. Classes are records, enumerations datatypes; unsigned integers are words,
  signed ones int with the wrap-around written out (to_int32). A handler is a function that returns the
  new state or a fault. Code that several threads run is a step relation with one access to shared
  memory per step, for any number of threads; pointers into shared structures are addresses of an explicit
  heap where a claim depends on them (MSPCQueue, LockFreeStack, MemoryPool, SendBuffer). What the
  operating system, Winsock, the file system, the clock, Poco and the Win32 code pages answer is a
  parameter; where the code relies on documented answers they are named hypotheses (io_accepts,
  poco_documented, nls_documented). Ghost fields (js_linked, js_ran, tm_pushed, lm_out, wd_trace and the
  like) only record what happened.

  WHAT THE LEMMAS SHOW. Receiving: framing agrees with cutting the stream at the announced sizes, however
  it arrives. Sessions: the invariant of every handler, the order of sends, one send at a time, and the
  agreement of service, monitor and client set over all sessions. Sending: live buffers are disjoint and
  packets correct. Messages: parsers are total and memory safe, serializing and parsing are inverse, sizes
  agree with encodings, and the output stream delivers them through any buffers. Jobs: one executor
  per queue, order, nothing lost. Timer: conservation, and the consequences of the reversed heap order. Lock,
  stack, queue: exclusion, memory safety, linearizability, and a use after free of the linked queue.

  BOUNDS AND FUEL. Recursions that follow the data end by themselves; the framing loop is a partial
  function, and C2 says when it returns. Message parsers take fuel: MergeFromArray supplies 17 more
  than the bytes of the message (every turn of a loop uses a byte of the message or its 16 bytes of slop),
  and more fuel changes nothing (message_loop_fuel). The JSON reader takes one more than the length of the
  text, and the depth-first search one more than the number of locks; both are proved to suffice.
  Counters: fewer than 2^31 jobs are pending in a queue (job_bounded), fewer than 2^31 sessions are
  created, fewer than 65536 readers hold a lock (lock_bounded). The network model is overlapped I/O; registered
  I/O is in SessionRIO and Dispatch. RAPIDJSON_ASSERT is that of a debug build, a crash. The C++ stack is
  unlimited in the model; GameLoop assumes a clock that never goes back, TimeUtils shows when it does.

  NOT MODELLED, and why. The text of log lines, sockets closed, handles and thread creation are system
  calls without result in the state. MathUtil and SimpleMath compute with binary32 numbers and intrinsics
  of DirectXMath, which is not in the repository, and no theory of floating point is at hand; for the same
  reason the doubles of JSON are a parameter and the floats of messages are raw bits. DBService only calls
  Poco.Data and hiredis, and the server creates none. Task.h holds promise types of coroutines no code defines. Of protobuf, arenas, reflection, descriptors, extensions, maps, packed fields, streams on the
  input side, aliasing, and CodedOutputStream are not reached by the messages of the server; its compiler
  and tests are not part of it. Of rapidjson, the iterative reader, in-situ parsing, other encodings,
  writers, schemas and pointers are not called. spdlog, Poco and hiredis are libraries behind interfaces;
  src/DummyClient is a C# load test.
\<close>


section \<open>Receiving\<close>



text \<open>C2. The framing loop of PacketSession::OnRecv returns exactly when no complete header of the buffer announces size zero; it then reports the packets the byte string is cut into and the bytes they take.\<close>

theorem framing_terminates_iff:
  assumes "length buf < 2 ^ 31"
  shows "(OnRecv buf (int (length buf)) = None \<longleftrightarrow> zero_header_reached buf)
    \<and> (OnRecv buf (int (length buf)) = Some (n, ps) \<longleftrightarrow> (\<exists>r. cuts buf ps r \<and> n = int (length (concat ps))))"
proof -
  have "\<exists>n ps. OnRecv buf (int (length buf)) = Some (n, ps)" if "\<not> zero_header_reached buf"
    using cuts_or_zero [of buf] that OnRecv_Some_iff [OF assms] by blast
  moreover have "OnRecv buf (int (length buf)) \<noteq> Some (n, ps)" if "zero_header_reached buf" for n ps
    using that OnRecv_Some_iff [OF assms] not_cuts_zero by blast
  ultimately show ?thesis
    using OnRecv_Some_iff [OF assms, of n ps] by (metis not_None_eq surj_pair)
qed

lemma framing_terminates_iff_witness: "OnRecv [0, 0, 7, 0] 4 = None"
proof -
  have "zero_header_reached [0, 0, 7, 0 :: BYTE]"
    by (rule zero_here) (simp_all add: partial_frame_def frame_size_def read_header_def read_u16_def sizeof_PacketHeader_def)
  then show ?thesis using framing_terminates_iff [of "[0, 0, 7, 0]"] by simp
qed



section \<open>Sending\<close>

text \<open>C4. Over any sequence of events, the buffers a session has given to WSASend followed by those in its queue are exactly the buffers Send accepted while connected, each once and in order.\<close>

theorem sends_submitted_in_order:
  assumes "new_world self False sv = Inr w" and "run sys evs w = Some (Inr w')"
  shows "submitted (wd_trace w') @ se_sendQueue (wd_self w') = accepted sys evs w"
proof -
  have "session_inv sys w" "history w = []" using new_world_ok [of self sv sys] assms(1) by auto
  then show ?thesis using run_ok [OF _ assms(2)] by (simp add: history_def)
qed

lemma sends_submitted_in_order_witness:
  "\<exists>w w'. new_world 3 False (new_Service Server True 10) = Inr w
    \<and> run quiet_system [EvtConnected, EvtSend [1], EvtSend [2, 7]] w = Some (Inr w')
    \<and> submitted (wd_trace w') @ se_sendQueue (wd_self w') = [[1], [2, 7]]"
proof -
  obtain w where w: "new_world 3 False (new_Service Server True 10) = Inr w" "session_inv quiet_system w" "enabled EvtConnected w"
    using new_world_ok by blast
  obtain w' where w': "run quiet_system [EvtConnected, EvtSend [1], EvtSend [2, 7]] w = Some (Inr w')"
    and a: "accepted quiet_system [EvtConnected, EvtSend [1], EvtSend [2, 7]] w = [[1], [2, 7]]"
    using run_sends [OF quiet_accepts w(2,3)] by blast
  show ?thesis using sends_submitted_in_order [OF w(1) w'] w(1) w' a by auto
qed



section \<open>Locks\<close>

text \<open>C6. In every reachable state of a lock used by threads with distinct ids 1 to 65535, a thread that holds the write lock excludes every other thread from the write and the read lock.\<close>

theorem lock_mutual_exclusion:
  assumes "good_ids tid ts" and "reaches (bounded_lock_step tid ts) lock_init s"
    and "t \<in> ts" and "u \<in> ts" and "t \<noteq> u" and "0 < ls_wdepth s t"
  shows "ls_wdepth s u = 0 \<and> ls_rdepth s u = 0"
  using lock_exclusive [OF lock_reachable_inv [OF assms(2,1)] assms(3-6)] by blast

lemma lock_mutual_exclusion_witness:
  "\<exists>s. reaches (bounded_lock_step (\<lambda>t. word_of_nat (Suc t)) {0, 1}) lock_init s \<and> 0 < ls_wdepth s 0
    \<and> ls_wdepth s 1 = 0 \<and> ls_rdepth s 1 = 0"
proof -
  let ?tid = "\<lambda>t. word_of_nat (Suc t) :: uint32" and ?ts = "{0, 1 :: nat}"
  obtain s where s: "reaches (bounded_lock_step ?tid ?ts) lock_init s" "0 < ls_wdepth s 0"
    using lock_acquired [of 0 ?ts ?tid] by (auto simp: lock_thread_id_def lock_init_def EMPTY_FLAG_def)
  have ids: "good_ids ?tid ?ts" by (auto simp: good_ids_def)
  show ?thesis using lock_mutual_exclusion [OF ids s(1) _ _ _ s(2), of 1] s by auto
qed

text \<open>C7. Whatever the order in which launched threads start, as long as fewer than 65535 are launched their thread ids are distinct and fit the sixteen bits a lock has for them, so that a write lock held by one of them excludes the others; the 65536th thread to start would write an empty flag into a lock it takes.\<close>

theorem thread_ids_suit_locks:
  assumes "reaches launch_step new_ThreadManager m"
  shows "(length (th_threads m) < 65535 \<longrightarrow> good_ids (th_LThreadId m) (set (th_started m))
      \<and> (\<forall>s t u. reaches (bounded_lock_step (th_LThreadId m) (set (th_started m))) lock_init s
          \<longrightarrow> t \<in> set (th_started m) \<longrightarrow> u \<in> set (th_started m) \<longrightarrow> t \<noteq> u \<longrightarrow> 0 < ls_wdepth s t \<longrightarrow> ls_wdepth s u = 0 \<and> ls_rdepth s u = 0))
    \<and> (65535 < length (th_started m) \<longrightarrow> desired_flag (th_LThreadId m (th_started m ! 65535)) = EMPTY_FLAG)"
proof (intro conjI impI allI)
  note inv = launch_reaches_inv [OF assms]
  show "good_ids (th_LThreadId m) (set (th_started m))" if "length (th_threads m) < 65535"
    using ids_good [OF inv] started_le [OF inv] that by simp
  show "desired_flag (th_LThreadId m (th_started m ! 65535)) = EMPTY_FLAG" if "65535 < length (th_started m)"
    by (rule id_empty [OF inv that])
qed (use launched_threads_exclude [OF assms] in blast)+

lemma thread_ids_suit_locks_witness:
  "good_ids (th_LThreadId two_started) {0, 1, 2} \<and> th_LThreadId two_started 2 = 2 \<and> th_LThreadId two_started 1 = 3"
proof -
  have s: "set (th_started two_started) = {0, 1, 2}" "length (th_threads two_started) = 2"
    by (auto simp: two_started_def InitTLS_def Launch_def new_ThreadManager_def thread_init_def)
  have "th_LThreadId two_started 2 = 2 \<and> th_LThreadId two_started 1 = 3"
    by (simp add: two_started_def InitTLS_def Launch_def new_ThreadManager_def thread_init_def)
  then show ?thesis using thread_ids_suit_locks [OF two_started_reaches] s by simp
qed

text \<open>In every reachable state the crash tests of the unlock functions never hit a correct thread: a thread with a read guard finds a non-zero read count, and a thread with a write guard finds one exactly when it still holds a read guard inside.\<close>

theorem lock_unlock_checks:
  assumes "good_ids tid ts" and "reaches (bounded_lock_step tid ts) lock_init s" and "t \<in> ts"
  shows "(0 < ls_rdepth s t \<longrightarrow> read_count (ls_lockFlag s) \<noteq> 0)
    \<and> (0 < ls_wdepth s t \<longrightarrow> (read_count (ls_lockFlag s) \<noteq> 0 \<longleftrightarrow> 0 < ls_rdepth s t))"
  using lock_no_multiple_unlock [OF lock_reachable_inv [OF assms(2,1)] assms(1,3)]
    lock_unlock_order [OF lock_reachable_inv [OF assms(2,1)] assms(1,3)] by blast

lemma lock_unlock_checks_witness:
  "\<exists>s. reaches (bounded_lock_step (\<lambda>t. word_of_nat (Suc t)) {0, 1}) lock_init s \<and> 0 < ls_wdepth s 0
    \<and> (read_count (ls_lockFlag s) \<noteq> 0 \<longleftrightarrow> 0 < ls_rdepth s 0)"
proof -
  let ?tid = "\<lambda>t. word_of_nat (Suc t) :: uint32" and ?ts = "{0, 1 :: nat}"
  obtain s where s: "reaches (bounded_lock_step ?tid ?ts) lock_init s" "0 < ls_wdepth s 0"
    using lock_acquired [of 0 ?ts ?tid] by (auto simp: lock_thread_id_def lock_init_def EMPTY_FLAG_def)
  have ids: "good_ids ?tid ?ts" by (auto simp: good_ids_def)
  show ?thesis using lock_unlock_checks [OF ids s(1), of 0] s by auto
qed

section \<open>The deadlock profiler\<close>





text \<open>After a PushLock that did not crash, PopLock of the same lock restores the stack, and PopLock of any other known lock crashes with INVALID_UNLOCK.\<close>

theorem PushLock_PopLock:
  assumes "profiler_inv stack p" and "PushLock name stack p = Inr (stack', p')"
  shows "PopLock name stack' p' = Inr (stack, p') \<and> profiler_inv stack p'
    \<and> (\<forall>other j. map_of (pf_nameToId p') other = Some j \<and> j \<noteq> hd stack' \<longrightarrow> PopLock other stack' p' = CRASH ''INVALID_UNLOCK'')"
proof -
  obtain lockId where "stack' = lockId # stack" "profiler_inv (lockId # stack) p'" "map_of (pf_nameToId p') name = Some lockId"
    using PushLock_correct [OF assms(1), of name] assms(2) by (auto simp: CRASH_def split: if_splits)
  then show ?thesis using PopLock_top PopLock_other by auto
qed

lemma PushLock_PopLock_witness:
  "\<exists>p'. PushLock 10 [] new_profiler = Inr ([0], p') \<and> PopLock 10 [0] p' = Inr ([], p')"
proof -
  obtain p' where "PushLock 10 [] new_profiler = Inr ([0], p')"
    by (simp add: PushLock_def lock_id_of_def new_profiler_def Let_def)
  then show ?thesis using PushLock_PopLock [OF profiler_inv_new] by blast
qed

section \<open>Outgoing packets\<close>

text \<open>C10. In every state reached by building and releasing packets, MakeSendBuffer of a message of at most 11996 bytes succeeds; the buffer holds exactly the header and the message, is well framed for the receiving loop, and every other live buffer keeps its bytes.\<close>

theorem MakeSendBuffer_correct:
  assumes "reaches packet_step new_send_manager m" and "length payload \<le> 11996"
  shows "\<exists>b m'. MakeSendBuffer t payload pktId m = Inr (b, m') \<and> buffer_bytes m' b = packet_bytes payload pktId
    \<and> well_framed (packet_bytes payload pktId)
    \<and> (\<forall>p \<in> set (sm_live m). buffer_bytes m' (snd p) = buffer_bytes m (snd p))"
proof -
  obtain k where k: "k \<notin> set (map fst (sm_live m))"
    using ex_new_if_finite [OF infinite_UNIV_nat, of "set (map fst (sm_live m))"] by auto
  have "length payload + sizeof_PacketHeader \<le> SEND_BUFFER_CHUNK_SIZE"
    using assms(2) by (simp add: sizeof_PacketHeader_def SEND_BUFFER_CHUNK_SIZE_def)
  from MakeSendBuffer_ok [OF packets_inv [OF assms(1)] this k] well_framed_packet [of payload pktId] assms(2)
  show ?thesis by fastforce
qed

lemma MakeSendBuffer_correct_witness:
  "\<exists>b m'. MakeSendBuffer 0 [1, 2] 7 new_send_manager = Inr (b, m') \<and> buffer_bytes m' b = [6, 0, 7, 0, 1, 2]"
proof -
  have "packet_bytes [1, 2] 7 = [6, 0, 7, 0, 1, 2]"
    by (simp add: packet_bytes_def header_bytes_def u16_bytes_def sizeof_PacketHeader_def)
  then show ?thesis using MakeSendBuffer_correct [OF reaches_refl, of "[1, 2]" 0 7] by auto
qed



text \<open>C12. MakeSendBuffer returns a packet exactly for messages of at most 11996 bytes; for 65532 to 65535 bytes the 16-bit packet size wraps and the message is written beyond its chunk.\<close>

theorem MakeSendBuffer_succeeds_iff:
  assumes "reaches packet_step new_send_manager m"
  shows "((\<exists>r. MakeSendBuffer t payload pktId m = Inr r) \<longleftrightarrow> length payload \<le> 11996)
    \<and> (65532 \<le> length payload \<and> length payload \<le> 65535 \<longrightarrow> MakeSendBuffer t payload pktId m = Inl OutOfBounds)"
  using MakeSendBuffer_Inr_iff [OF packets_inv [OF assms], of t payload pktId] MakeSendBuffer_wraps [OF packets_inv [OF assms]]
  by (simp add: sizeof_PacketHeader_def SEND_BUFFER_CHUNK_SIZE_def)

lemma MakeSendBuffer_succeeds_iff_witness: "MakeSendBuffer 0 (replicate 65533 1) 7 new_send_manager = Inl OutOfBounds"
  using MakeSendBuffer_succeeds_iff [OF reaches_refl, of 0 "replicate 65533 1" 7]
  by (simp only: length_replicate) simp

section \<open>Receive buffer and dispatch\<close>

text \<open>C13. RecvBuffer::Clean keeps the unread bytes and the buffer invariant whenever its two memcpy ranges are disjoint, and afterwards at least the nominal size is free or only the unread bytes are left in front; when the ranges overlap its memcpy is undefined.\<close>

theorem Clean_correct:
  assumes "rb_inv b"
  shows "if DataSize b = 0 \<or> rb_bufferSize b \<le> FreeSize b \<or> DataSize b \<le> rb_readPos b
    then \<exists>b'. Clean b = Inr b' \<and> rb_inv b' \<and> unread b' = unread b
           \<and> (rb_bufferSize b \<le> FreeSize b' \<or> FreeSize b' = rb_capacity b - DataSize b)
    else Clean b = Inl (UndefinedBehaviour ''memcpy overlap'')"
  using Clean_ok [OF assms] Clean_overlap [OF assms] by (auto simp: clean_safe_def)

lemma Clean_correct_witness:
  "Clean \<lparr>rb_capacity = 4, rb_bufferSize = 2, rb_readPos = 1, rb_writePos = 4, rb_buffer = [1, 2, 3, 4]\<rparr>
    = Inl (UndefinedBehaviour ''memcpy overlap'')"
  using Clean_correct [of "\<lparr>rb_capacity = 4, rb_bufferSize = 2, rb_readPos = 1, rb_writePos = 4, rb_buffer = [1, 2, 3, 4]\<rparr>"]
  by (simp add: rb_inv_def DataSize_def FreeSize_def to_int32_id)

text \<open>After a successful RegisterHandler, packets with that id go to the registered handler and every other packet goes where it went before; in the test build a second registration of the id is refused.\<close>

theorem registered_handler_runs:
  assumes "RegisterHandler dev protocol (Some f) h = Inr (True, h')" and "4 \<le> length p"
  shows "HandlePacket h' s p len = (if ph_id (read_header p 0) = protocol then f s p len else HandlePacket h s p len)
    \<and> (dev \<longrightarrow> RegisterHandler True protocol (Some g) h' = Inr (False, h'))"
  using RegisterHandler_dispatch [OF assms] RegisterHandler_duplicate [of protocol f h h' g] assms(1) by auto

lemma registered_handler_runs_witness:
  "\<exists>h'. RegisterHandler True 1 (Some (\<lambda>s p len. Inr (True, s + len))) \<lparr>packetHandler = (\<lambda>_. None), useProtocol = {}\<rparr> = Inr (True, h')
    \<and> HandlePacket h' (5 :: int) [4, 0, 1, 0] 4 = Inr (True, 9)"
proof -
  let ?f = "\<lambda>s p len. Inr (True, s + len) :: (bool \<times> int) result"
  obtain h' where h': "RegisterHandler True 1 (Some ?f) \<lparr>packetHandler = (\<lambda>_. None), useProtocol = {}\<rparr> = Inr (True, h')"
    by (simp add: RegisterHandler_def UINT16_MAX_def Let_def)
  show ?thesis
    using registered_handler_runs [OF h', of "[4, 0, 1, 0]" 5 4] h' by (simp add: read_header_def read_u16_def)
qed

text \<open>After Init every packet with an id below 65535 is rejected through Handle_INVALID, while id 65535 indexes one past the handler table whatever is registered.\<close>

theorem dispatch_without_handler:
  assumes "4 \<le> length p"
  shows "if ph_id (read_header p 0) = 65535 then HandlePacket h s p len = Inl OutOfBounds
    else HandlePacket (PacketHandler_Init dev view_error h) s p len = Inr (False, view_error (ph_id (read_header p 0)) s)"
proof (cases "ph_id (read_header p 0) = 65535")
  case True
  then show ?thesis using HandlePacket_id_65535 [OF assms] by simp
next
  case False
  then have "unat (ph_id (read_header p 0)) \<noteq> unat (65535 :: uint16)" using word_unat_eq_iff by blast
  then have "unat (ph_id (read_header p 0)) < UINT16_MAX"
    using unat_less_16 [of "ph_id (read_header p 0)"] by (simp add: UINT16_MAX_def)
  then show ?thesis using Init_rejects [OF assms] False by simp
qed

lemma dispatch_without_handler_witness:
  "HandlePacket \<lparr>packetHandler = (\<lambda>_. None), useProtocol = {}\<rparr> () [4, 0, 255, 255] 4 = Inl OutOfBounds"
  using dispatch_without_handler [of "[4, 0, 255, 255]" _ "()" 4 False "\<lambda>_ s. s"]
  by (simp add: read_header_def read_u16_def)

section \<open>Messages\<close>

text \<open>C14. A skill request that was serialized is read back exactly, nested positions and unknown fields included, and parsing it into a message that already has content does what MergeFrom does; ByteSizeLong is the number of bytes written.\<close>

theorem skill_request_round_trip:
  assumes "CSCircularSectorSkillRequest_ok default_recursion_limit b"
    and "CSCircularSectorSkillRequest_ByteSizeLong b \<le> INT_MAX - kSlopBytes" and "length slop = kSlopBytes"
  shows "MergeFromArray slop CSCircularSectorSkillRequest_InternalParse (CSCircularSectorSkillRequest_InternalSerialize b) m
      = Parsed (CSCircularSectorSkillRequest_MergeFrom m b)
    \<and> CSCircularSectorSkillRequest_MergeFrom CSCircularSectorSkillRequest_new b = b
    \<and> CSCircularSectorSkillRequest_ByteSizeLong b = length (CSCircularSectorSkillRequest_InternalSerialize b)"
  using cs_skill.parse_serialized [OF assms] cs_skill.bsize
  by (simp add: CSCircularSectorSkillRequest_InternalParse_def CSCircularSectorSkillRequest_copies)

lemma skill_request_round_trip_witness:
  "\<exists>b. sk_mypos b = Some \<lparr>sp_x = 1065353216, sp_y = 0, sp_unknown = [UF_Varint 3 7]\<rparr>
    \<and> MergeFromArray (replicate 16 0) CSCircularSectorSkillRequest_InternalParse (CSCircularSectorSkillRequest_InternalSerialize b)
        CSCircularSectorSkillRequest_new = Parsed b"
proof -
  let ?p = "\<lparr>sp_x = 1065353216, sp_y = 0, sp_unknown = [UF_Varint 3 7]\<rparr>"
  let ?b = "\<lparr>sk_theta = 1, sk_radius = 0, sk_mypos = Some ?p, sk_forward = None, sk_targetpos = None, sk_unknown = []\<rparr>"
  have tag: "uf_tag (UF_Varint 3 7) = 24" by simp
  have "CSCircularSectorSkillRequest_ok default_recursion_limit ?b"
    by (simp add: CSCircularSectorSkillRequest_ok_def position_ok_def SPosition_ok_def uf_fits_def number_ok_def SPosition_known_def
      default_recursion_limit_def)
  moreover have "CSCircularSectorSkillRequest_ByteSizeLong ?b \<le> INT_MAX - kSlopBytes"
    by (simp add: CSCircularSectorSkillRequest_ByteSizeLong_def position_size_def SPosition_ByteSizeLong_def LengthDelimitedSize_def
      InternalSerializeUnknownFieldsToArray_def WriteUInt64ToArray_def WriteTagToArray_def VarintSize32_length UnsafeVarint_last INT_MAX_def kSlopBytes_def)
  ultimately show ?thesis
    using skill_request_round_trip [of ?b "replicate 16 0" CSCircularSectorSkillRequest_new] by (intro exI [of _ ?b]) (simp add: kSlopBytes_def)
qed



text \<open>C16. Whatever bytes a chat request was parsed from, both of its strings are valid UTF-8 and its unknown fields have proper numbers and tags of no known field, so writing it and parsing it again gives the same message.\<close>

theorem parsed_chat_is_well_formed:
  assumes "MergeFromArray slop CSChatRequest_InternalParse input CSChatRequest_new = Parsed m" and "length slop = kSlopBytes"
    and "CSChatRequest_ByteSizeLong m \<le> INT_MAX - kSlopBytes"
  shows "utf8_valid (cs_name m) \<and> utf8_valid (cs_msg m)
    \<and> list_all (\<lambda>u. uf_wf u \<and> uf_depth u \<le> 100 \<and> uf_tag u \<notin> {10, 18}) (cs_unknown m)
    \<and> MergeFromArray slop CSChatRequest_InternalParse (CSChatRequest_InternalSerialize m) CSChatRequest_new = Parsed m"
proof -
  have p: "MergeFromArray slop (message_loop CSChatRequest_field CSChatRequest_add) input CSChatRequest_new = Parsed m"
    using assms(1) by (simp add: CSChatRequest_InternalParse_def)
  have "CSChatRequest_ok default_recursion_limit m"
    by (rule cs_chat.parse_ok [OF p cs_chat.ok_new]) (simp add: default_recursion_limit_def)
  then have "utf8_valid (cs_name m)" "utf8_valid (cs_msg m)"
    "list_all (\<lambda>u. uf_wf u \<and> uf_depth u \<le> 100 \<and> uf_tag u \<notin> {10, 18}) (cs_unknown m)"
    by (auto simp: CSChatRequest_ok_def unknown_ok_def uf_fits_def CSChatRequest_known_def default_recursion_limit_def list_all_iff)
  then show ?thesis using cs_chat.parse_again [OF p assms(3,2)] by (simp add: CSChatRequest_InternalParse_def)
qed

lemma parsed_chat_is_well_formed_witness:
  "\<exists>input m. MergeFromArray (replicate 16 0) CSChatRequest_InternalParse input CSChatRequest_new = Parsed m \<and> cs_name m = [65] \<and> utf8_valid (cs_name m)"
proof -
  let ?m = "\<lparr>cs_name = [65], cs_msg = [], cs_unknown = []\<rparr> :: CSChatRequest"
  have "utf8_valid [65]" unfolding utf8_valid_def by (intro exI [of _ "[65]"]) (simp add: scalar_value_def utf8_encode_def)
  then have ok: "CSChatRequest_ok default_recursion_limit ?m" by (simp add: CSChatRequest_ok_def)
  have size: "CSChatRequest_ByteSizeLong ?m \<le> INT_MAX - kSlopBytes"
    by (simp add: CSChatRequest_ByteSizeLong_def StringSize_length UnsafeVarint_last InternalSerializeUnknownFieldsToArray_def INT_MAX_def kSlopBytes_def)
  have "MergeFromArray (replicate 16 0) CSChatRequest_InternalParse (CSChatRequest_InternalSerialize ?m) CSChatRequest_new = Parsed ?m"
    using cs_chat.parse_serialized [OF ok size, of "replicate 16 0" CSChatRequest_new]
    by (simp add: CSChatRequest_InternalParse_def kSlopBytes_def cs_chat.merge_new)
  then show ?thesis using parsed_chat_is_well_formed [of "replicate 16 0" _ ?m] size by (force simp: kSlopBytes_def)
qed

text \<open>C17. For any byte string and any message to parse into, each of the six message parsers ends in failure or success: it reads no byte outside its buffers, never reaches an impossible case, and does not loop.\<close>

theorem message_parsers_are_total:
  assumes "length slop = kSlopBytes"
  shows "parse_returns (MergeFromArray slop CSChatRequest_InternalParse input m1)
    \<and> parse_returns (MergeFromArray slop SCChatResponse_InternalParse input m2)
    \<and> parse_returns (MergeFromArray slop CSCircularSectorSkillRequest_InternalParse input m3)
    \<and> parse_returns (MergeFromArray slop SCCircularSectorSkillResponse_InternalParse input m4)
    \<and> parse_returns (MergeFromArray slop CSBigTestRequest_InternalParse input m5)
    \<and> parse_returns (MergeFromArray slop SCBigTestResponse_InternalParse input m6)"
  unfolding internal_parse parse_returns_def
  using cs_chat.parse_total [OF assms] sc_chat.parse_total [OF assms] cs_skill.parse_total [OF assms] sc_skill.parse_total [OF assms]
    cs_bigtest.parse_total [OF assms] sc_bigtest.parse_total [OF assms] by blast

lemma message_parsers_are_total_witness:
  "parse_returns (MergeFromArray (replicate 16 0) CSChatRequest_InternalParse [10, 255, 255, 255] CSChatRequest_new)"
  using message_parsers_are_total [of "replicate 16 0"] by (simp add: kSlopBytes_def)

text \<open>C18. Parsing two serialized list requests one after the other gives the elements of both in order, although the loop over the elements does not stop where the first request ends.\<close>

theorem list_messages_concatenate:
  assumes "CSBigTestRequest_ok default_recursion_limit a" and "CSBigTestRequest_ByteSizeLong a \<le> INT_MAX - kSlopBytes"
    and "CSBigTestRequest_ok default_recursion_limit b" and "CSBigTestRequest_ByteSizeLong b \<le> INT_MAX - kSlopBytes" and "length slop = kSlopBytes"
  shows "\<exists>m. MergeFromArray slop CSBigTestRequest_InternalParse (CSBigTestRequest_InternalSerialize a @ CSBigTestRequest_InternalSerialize b) CSBigTestRequest_new = Parsed m
    \<and> cl_list m = cl_list a @ cl_list b \<and> cl_unknown m = cl_unknown a @ cl_unknown b"
  using cs_bigtest.parse_concat [OF assms, of CSBigTestRequest_new]
  by (simp add: CSBigTestRequest_InternalParse_def CSBigTestRequest_copies CSBigTestRequest_MergeFrom_def CSBigTestRequest_new_def Let_def)

lemma list_messages_concatenate_witness:
  "\<exists>a m. cl_list a = [\<lparr>bt_a = 5, bt_b = 0, bt_c = 300, bt_unknown = []\<rparr>]
    \<and> MergeFromArray (replicate 16 0) CSBigTestRequest_InternalParse (CSBigTestRequest_InternalSerialize a @ CSBigTestRequest_InternalSerialize a) CSBigTestRequest_new = Parsed m
    \<and> length (cl_list m) = 2"
proof -
  let ?a = "\<lparr>cl_list = [\<lparr>bt_a = 5, bt_b = 0, bt_c = 300, bt_unknown = []\<rparr>], cl_unknown = []\<rparr> :: CSBigTestRequest"
  have ok: "CSBigTestRequest_ok default_recursion_limit ?a"
    by (simp add: CSBigTestRequest_ok_def list_ok_def BigTest_ok_def default_recursion_limit_def)
  have "length (UnsafeVarint (300 :: uint64)) \<le> 10" "length (size_prefix n) \<le> 5" for n
    by (rule length_UnsafeVarint_64) (rule length_UnsafeVarint_32)
  then have size: "CSBigTestRequest_ByteSizeLong ?a \<le> INT_MAX - kSlopBytes"
    using length_UnsafeVarint_64 [of 5] length_UnsafeVarint_64 [of 300]
      length_UnsafeVarint_32 [of "word_of_nat (BigTest_ByteSizeLong \<lparr>bt_a = 5, bt_b = 0, bt_c = 300, bt_unknown = []\<rparr>)"]
    by (simp add: CSBigTestRequest_ByteSizeLong_def list_ByteSize_def LengthDelimitedSize_def VarintSize32_length BigTest_ByteSizeLong_def
      Int64SizePlusOne_def VarintSizePlusOne InternalSerializeUnknownFieldsToArray_def INT_MAX_def kSlopBytes_def)
  then show ?thesis using list_messages_concatenate [OF ok size ok size, of "replicate 16 0"] by (force simp: kSlopBytes_def)
qed

text \<open>C19. The size computations agree with the encoders for every value: the bit-trick varint sizes with the varint writer, the size of unknown fields with their writer, and ByteSizeLong of each message with the bytes of its serializer.\<close>

theorem sizes_match_encodings:
  "VarintSize32 v = length (UnsafeVarint v) \<and> VarintSize64 w = length (UnsafeVarint w)
   \<and> ComputeUnknownFieldsSize us = length (InternalSerializeUnknownFieldsToArray us)
   \<and> CSChatRequest_ByteSizeLong m1 = length (CSChatRequest_InternalSerialize m1)
   \<and> SCChatResponse_ByteSizeLong m2 = length (SCChatResponse_InternalSerialize m2)
   \<and> CSCircularSectorSkillRequest_ByteSizeLong m3 = length (CSCircularSectorSkillRequest_InternalSerialize m3)
   \<and> SCCircularSectorSkillResponse_ByteSizeLong m4 = length (SCCircularSectorSkillResponse_InternalSerialize m4)
   \<and> CSBigTestRequest_ByteSizeLong m5 = length (CSBigTestRequest_InternalSerialize m5)
   \<and> SCBigTestResponse_ByteSizeLong m6 = length (SCBigTestResponse_InternalSerialize m6)"
  by (intro conjI VarintSize32_length VarintSize64_length ComputeUnknownFieldsSize_length cs_chat.bsize sc_chat.bsize cs_skill.bsize
    sc_skill.bsize cs_bigtest.bsize sc_bigtest.bsize)

text \<open>C20. The serializer of every message, run through EpsCopyOutputStream with its checks only every sixteen bytes and its patch buffer, delivers exactly the bytes of the message: into a stream, whatever the sizes and contents of the buffers it hands out, and reporting failure exactly when those are too small together; into an array of at least that size, leaving the rest of it alone, while a smaller one is refused; and behind a string. No access leaves its buffer.\<close>

theorem messages_reach_their_output:
  assumes "message_writer n serialize bs" and "n \<le> INT_MAX" and "length garbage = 32"
    and "sz \<le> int (length data)" and "\<And>k. length (fresh k) = k"
  shows "(\<exists>chunks. SerializePartialToZeroCopyStream n serialize supply garbage = Inr (n \<le> length (concat supply), chunks)
      \<and> (n \<le> length (concat supply) \<longrightarrow> concat chunks = bs))
    \<and> SerializePartialToArray n serialize data sz garbage = Inr (if int n \<le> sz then (True, bs @ drop n data) else (False, data))
    \<and> AppendPartialToString n serialize str fresh garbage = Inr (True, str @ bs)"
proof -
  have n: "n = length bs" and w: "writes serialize bs" using message_writer_writes [OF assms(1)] by simp_all
  show ?thesis unfolding n using assms(2-5) n
    by (intro conjI zero_copy_stream_written [OF w] array_written [OF w] string_written [OF w]) simp_all
qed

lemma messages_reach_their_output_witness:
  "let m = \<lparr>sk_theta = 7, sk_radius = 9, sk_mypos = Some \<lparr>sp_x = 1, sp_y = 2, sp_unknown = []\<rparr>, sk_forward = None, sk_targetpos = None, sk_unknown = []\<rparr>;
       n = CSCircularSectorSkillRequest_ByteSizeLong m; f = CSCircularSectorSkillRequest_stream m
   in n = 22 \<and> (\<exists>chunks. SerializePartialToZeroCopyStream n f [[1], [], replicate 3 2, replicate 17 3, [4]] (replicate 32 0) = Inr (True, chunks)
         \<and> concat chunks = CSCircularSectorSkillRequest_InternalSerialize m)
     \<and> (\<exists>chunks. SerializePartialToZeroCopyStream n f [[1], replicate 20 3] (replicate 32 0) = Inr (False, chunks))
     \<and> SerializePartialToArray n f (replicate 21 0) 21 (replicate 32 0) = Inr (False, replicate 21 0)"
proof -
  define m where "m = \<lparr>sk_theta = 7, sk_radius = 9, sk_mypos = Some \<lparr>sp_x = 1, sp_y = 2, sp_unknown = []\<rparr>, sk_forward = None,
    sk_targetpos = None, sk_unknown = []\<rparr>"
  let ?n = "CSCircularSectorSkillRequest_ByteSizeLong m" and ?f = "CSCircularSectorSkillRequest_stream m"
  have n: "?n = 22" unfolding m_def by code_simp
  have w: "message_writer ?n ?f (CSCircularSectorSkillRequest_InternalSerialize m)" unfolding message_writer_def by blast
  note out = messages_reach_their_output [OF w, of "replicate 32 0" _ _ "\<lambda>k. replicate k 0"]
  have "\<exists>chunks. SerializePartialToZeroCopyStream ?n ?f [[1], [], replicate 3 2, replicate 17 3, [4]] (replicate 32 0) = Inr (True, chunks)
      \<and> concat chunks = CSCircularSectorSkillRequest_InternalSerialize m"
    using out [of 21 "replicate 21 0" "[[1], [], replicate 3 2, replicate 17 3, [4]]" "[]"] by (simp add: n INT_MAX_def)
  moreover have "\<exists>chunks. SerializePartialToZeroCopyStream ?n ?f [[1], replicate 20 3] (replicate 32 0) = Inr (False, chunks)"
    "SerializePartialToArray ?n ?f (replicate 21 0) 21 (replicate 32 0) = Inr (False, replicate 21 0)"
    using out [of 21 "replicate 21 0" "[[1], replicate 20 3]" "[]"] by (simp_all add: n INT_MAX_def)
  ultimately show ?thesis using n unfolding Let_def m_def [symmetric] by simp
qed

text \<open>C21. The table-driven UTF-8 scanner, with its aligned eight-byte fast paths and at any address of the string, accepts exactly the concatenations of encoded Unicode scalar values, and reports the longest valid prefix of every other string.\<close>

theorem utf8_scan_is_utf8:
  "(IsStructurallyValidUTF8 addr s \<longleftrightarrow> utf8_valid s)
   \<and> UTF8SpnStructurallyValid addr s = Max {n. n \<le> length s \<and> utf8_valid (take n s)}"
proof -
  let ?n = "UTF8SpnStructurallyValid addr s"
  have n: "?n \<le> length s" "utf8_valid (take ?n s)" "m \<le> length s \<Longrightarrow> utf8_valid (take m s) \<Longrightarrow> m \<le> ?n" for m
    using UTF8SpnStructurallyValid_longest [of addr s] not_le by blast+
  have "finite {n. n \<le> length s \<and> utf8_valid (take n s)}" by simp
  then have "Max {n. n \<le> length s \<and> utf8_valid (take n s)} = ?n" by (rule Max_eqI) (use n in auto)
  then show ?thesis by (simp add: IsStructurallyValidUTF8_iff)
qed

section \<open>Registered I/O\<close>

text \<open>With registered I/O, RegisterSend copies the whole send queue into an empty send buffer and posts one RIOSend whose offset and length cover exactly those bytes, in order.\<close>

theorem rio_send_covers_queue:
  assumes "rb_inv (se_sendBuffer (wd_self w))" and "total (se_sendQueue (wd_self w)) \<le> FreeSize (se_sendBuffer (wd_self w))"
    and "unread (se_sendBuffer (wd_self w)) = []" and "io_accepts sys"
  shows "\<exists>b. se_sendBuffer (wd_self (RegisterSend_RIO sys w)) = b \<and> unread b = concat (se_sendQueue (wd_self w))
    \<and> wd_trace (RegisterSend_RIO sys w) = Sys_RIOSend (se_rioSendBufferId (wd_self w))
        (word_of_int (WriteOffset (se_sendBuffer (wd_self w)))) (word_of_int (int (length (unread b)))) # wd_trace w"
  using RegisterSend_RIO_posts [OF assms] by blast

lemma rio_send_covers_queue_witness:
  "\<exists>w. new_world 3 True (new_Service Server True 10) = Inr w
    \<and> unread (se_sendBuffer (wd_self (RegisterSend_RIO quiet_system
        (upd_self (\<lambda>s. s\<lparr>se_sendQueue := [[1, 2], [3]]\<rparr>) w)))) = [1, 2, 3]"
proof -
  obtain s where s: "new_Session 3 = Inr s" "rb_inv (se_sendBuffer s)" "unread (se_sendBuffer s) = []"
    "FreeSize (se_sendBuffer s) = 2 * SEND_BUFFER_SIZE"
    using new_Session_send [of 3] by blast
  then obtain w where w: "new_world 3 True (new_Service Server True 10) = Inr w" "se_sendBuffer (wd_self w) = se_sendBuffer s"
    by (simp add: new_world_def)
  show ?thesis
    using rio_send_covers_queue [of "upd_self (\<lambda>s. s\<lparr>se_sendQueue := [[1, 2], [3]]\<rparr>) w" quiet_system] w s
    by (auto simp: total_def SEND_BUFFER_SIZE_def quiet_accepts)
qed

text \<open>With registered I/O, a send queue larger than the free send buffer disconnects the session, loses the queue, posts no RIOSend, and leaves the send event owning the session although no completion will ever release it.\<close>

theorem rio_overflow_keeps_owner:
  assumes "rb_inv (se_sendBuffer (wd_self w))" and "FreeSize (se_sendBuffer (wd_self w)) < total (se_sendQueue (wd_self w))"
  shows "\<not> se_connected (wd_self (RegisterSend_RIO sys w)) \<and> rio_owner (se_rioSendEvent (wd_self (RegisterSend_RIO sys w)))
    \<and> se_sendQueue (wd_self (RegisterSend_RIO sys w)) = []
    \<and> (\<forall>i off len. Sys_RIOSend i off len \<in> set (wd_trace (RegisterSend_RIO sys w)) \<longrightarrow> Sys_RIOSend i off len \<in> set (wd_trace w))"
  using RegisterSend_RIO_overflow [OF assms] by blast

lemma rio_overflow_keeps_owner_witness:
  "\<exists>w. new_world 3 True (new_Service Server True 10) = Inr w
    \<and> rio_owner (se_rioSendEvent (wd_self (RegisterSend_RIO quiet_system
        (upd_self (\<lambda>s. s\<lparr>se_sendQueue := [replicate 40000 1]\<rparr>) w))))"
proof -
  obtain s where s: "new_Session 3 = Inr s" "rb_inv (se_sendBuffer s)" "FreeSize (se_sendBuffer s) = 2 * SEND_BUFFER_SIZE"
    using new_Session_send [of 3] by blast
  then obtain w where w: "new_world 3 True (new_Service Server True 10) = Inr w" "se_sendBuffer (wd_self w) = se_sendBuffer s"
    by (simp add: new_world_def)
  have big: "total [replicate 40000 (1 :: BYTE)] = 40000" by (simp only: total_def concat.simps append_Nil2 length_replicate of_nat_numeral)
  show ?thesis
    using rio_overflow_keeps_owner [of "upd_self (\<lambda>s. s\<lparr>se_sendQueue := [replicate 40000 1]\<rparr>) w" quiet_system] w s big
    by (auto simp: SEND_BUFFER_SIZE_def)
qed

text \<open>With registered I/O every session that connects for the first time creates its request queue on completion queue 0, however many completion queues the service has, because the work id is assigned only afterwards.\<close>

theorem rio_sessions_share_queue:
  assumes "wd_useRIO w" and "se_hasService (wd_self w)" and "se_workId (wd_self w) = 0"
    and "sv_rioCQEventList (wd_service w) = cq # cqs" and "ProcessConnect sys w = Inr w'"
  shows "rq_queues (wd_trace w') = cq # rq_queues (wd_trace w)"
  by (rule rio_session_queue [OF assms])

lemma rio_sessions_share_queue_witness:
  "\<exists>w w'. new_world 3 True ((new_Service Server True 10)\<lparr>sv_rioCQEventList := [40, 41]\<rparr>) = Inr w
    \<and> ProcessConnect quiet_system w = Inr w' \<and> rq_queues (wd_trace w') = [40]"
proof -
  obtain s where s: "new_Session 3 = Inr s" "se_workId s = 0" using new_Session_ok [of 3] by blast
  then obtain w where w: "new_world 3 True ((new_Service Server True 10)\<lparr>sv_rioCQEventList := [40, 41]\<rparr>) = Inr w"
    "wd_useRIO w" "se_hasService (wd_self w)" "se_workId (wd_self w) = 0" "sv_rioCQEventList (wd_service w) = [40, 41]" "wd_trace w = []"
    by (simp add: new_world_def)
  then obtain w' where "ProcessConnect quiet_system w = Inr w'"
    using ProcessConnect_rio_returns [of w quiet_system] by auto
  then show ?thesis using rio_sessions_share_queue [OF w(2-5)] w by auto
qed

section \<open>Jobs\<close>







text \<open>Once ClearJobs has dropped a job, the queue stays claimed for ever: its job counter is never zero again, so whoever executes it keeps spinning or handing it over.\<close>

theorem cleared_queue_never_idle:
  assumes "reaches (bounded_job_step ts) job_init s" and "finite ts" and "js_jobs s q \<noteq> []"
    and "reaches (bounded_job_step ts) (ClearJobs q s) s'" and "job_bounded ts (ClearJobs q s)"
  shows "q \<in> set (js_global s') \<or> (\<exists>t\<in>ts. 0 < token q (js_workers s' t))"
proof (rule cleared_never_idle [OF assms(2)])
  show "job_inv ts s'"
    using reaches_job_inv [OF assms(4,2)] ClearJobs_inv [OF job_reachable_inv [OF assms(1,2)] assms(5)] by blast
  show "0 < js_lost s' q" using lost_reaches [OF assms(4), of q] assms(3) by (cases "js_jobs s q") (auto simp: ClearJobs_def)
qed

lemma cleared_queue_never_idle_witness:
  "js_jobs (ClearJobs 5 (pushed_once (7 :: nat))) 5 = [] \<and> (\<exists>t\<in>{0, 1}. 0 < token 5 (js_workers (ClearJobs 5 (pushed_once (7 :: nat))) t))"
proof -
  have "5 \<in> set (js_global (ClearJobs 5 (pushed_once (7 :: nat))))
    \<or> (\<exists>t\<in>{0, 1}. 0 < token 5 (js_workers (ClearJobs 5 (pushed_once (7 :: nat))) t))"
    by (rule cleared_queue_never_idle [OF push_once_reaches _ _ reaches_refl])
      (use pushed_once_cleared_bounded in \<open>simp_all add: pushed_once_state\<close>)
  then show ?thesis by (simp add: ClearJobs_def pushed_once_state)
qed

section \<open>Queues, timers and memory\<close>



text \<open>C26. With two producers and a consumer the linked queue reaches a use after free: a producer that has linked its node but not yet advanced the tail leaves the tail on the node the consumer deletes, and the next producer reads it.\<close>

theorem mspc_use_after_free:
  "\<exists>s :: nat mspc_sys. reaches (mspc_conc 0) mspc_init s \<and> mspc_step (mq_pc s 2) (mq_queue s) = Inl (UndefinedBehaviour ''use after free'')"
  using reaches_producer_fault unfolding producer_faults_def .

text \<open>C27. No interleaving of pushes and pops of any number of threads makes the lock-free stack read, write or delete a node that has been deleted, also when the allocator reuses addresses and compare-exchange fails spuriously.\<close>

theorem lock_free_stack_memory_safe:
  assumes "reaches (lf_conc ts) lf_init s" and "finite ts" and "t \<in> ts"
  shows "\<exists>s'. lf_step spur t s = Inr s'"
  by (rule lf_never_faults [OF lf_reachable [OF assms(1,2)] assms(2,3)])

lemma lock_free_stack_memory_safe_witness:
  "\<exists>s'. lf_step True 0 (push_start 0 9 (3 :: nat) lf_init) = Inr s'"
proof (rule lock_free_stack_memory_safe)
  show "reaches (lf_conc {0}) lf_init (push_start 0 9 (3 :: nat) lf_init)"
    by (rule reaches_step, rule reaches_refl, rule lf_push) (simp_all add: lf_init_def)
qed simp_all



text \<open>C29. Under every interleaving one thread at most distributes, and every delayed job ever reserved is in exactly one place: still in the timer, in the batch being distributed, pushed to its queue, or dropped because its queue is gone or the timer was cleared.\<close>

theorem timer_conserves_jobs:
  assumes "reaches timer_step (timer_init alive) s"
  shows "(tm_pc s t \<noteq> DistNone \<longrightarrow> tm_pc s u \<noteq> DistNone \<longrightarrow> t = u)
    \<and> (tm_pc s t = DistPush its \<longrightarrow> tm_reserved s = mset (tm_items s) + mset its + mset (tm_pushed s) + tm_gone s)
    \<and> ((\<forall>v xs. tm_pc s v \<noteq> DistPush xs) \<longrightarrow> tm_reserved s = mset (tm_items s) + mset (tm_pushed s) + tm_gone s)"
  using timer_inv_held [OF timer_reachable [OF assms]] timer_inv_quiet [OF timer_reachable [OF assms]]
    timer_only [OF timer_reachable [OF assms]] by blast

lemma timer_conserves_jobs_witness:
  "tm_reserved (Reserve 10 5 2 ''job'' (timer_init (\<lambda>_. True))) = {#new_TimerItem 10 5 2 ''job''#}"
proof -
  have "reaches timer_step (timer_init (\<lambda>_. True)) (Reserve 10 5 2 ''job'' (timer_init (\<lambda>_. True)))"
    by (rule reaches_step, rule reaches_refl, rule timer_reserve)
  from timer_conserves_jobs [OF this] show ?thesis by (simp add: Reserve_def timer_init_def Let_def)
qed

text \<open>C30. Distribute hands out every delayed job or none: as long as a single job is not due yet, no due job is pushed to its queue; once all are due they are pushed latest first, those of vanished queues left out.\<close>

theorem timer_all_or_nothing:
  assumes "reaches timer_step (timer_init alive) s" and "\<not> tm_distributing s"
  shows "((\<exists>it\<in>set (tm_items s). now < executeTick it) \<longrightarrow> Distribute now s = s)
    \<and> ((\<forall>it\<in>set (tm_items s). executeTick it \<le> now) \<longrightarrow>
        (\<exists>its. mset its = mset (tm_items s) \<and> sorted_wrt (\<lambda>a b. executeTick b \<le> executeTick a) its
          \<and> tm_items (Distribute now s) = [] \<and> tm_pushed (Distribute now s) = tm_pushed s @ filter (\<lambda>it. tm_alive s (ti_owner it)) its))"
proof -
  have "items_sorted (tm_items s)" using timer_reachable [OF assms(1)] by (simp add: timer_inv_def)
  then show ?thesis using Distribute_blocked Distribute_all assms(2) by blast
qed

lemma timer_all_or_nothing_witness:
  "Distribute 20 (Reserve 10 50 2 ''late'' (Reserve 10 5 1 ''due'' (timer_init (\<lambda>_. True))))
    = Reserve 10 50 2 ''late'' (Reserve 10 5 1 ''due'' (timer_init (\<lambda>_. True)))"
proof -
  define s where "s = Reserve 10 50 2 ''late'' (Reserve 10 5 1 ''due'' (timer_init (\<lambda>_. True)))"
  have "reaches timer_step (timer_init (\<lambda>_. True)) s"
    unfolding s_def by (rule reaches_step, rule reaches_step, rule reaches_refl, rule timer_reserve, rule timer_reserve)
  moreover have "\<not> tm_distributing s" "\<exists>it\<in>set (tm_items s). 20 < executeTick it"
    by (simp_all add: s_def Reserve_def new_TimerItem_def timer_init_def Let_def)
  ultimately show ?thesis using timer_all_or_nothing [of _ s 20] unfolding s_def by blast
qed

text \<open>Reserving n objects leaves the pool with at least n free blocks (the larger of n and what it had), destroys only the objects it constructed, and keeps the pool and use counters exact.\<close>

theorem xreserve_grows_pool:
  assumes "mpool_inv p" and "0 \<le> n"
  shows "\<exists>p'. xreserve n v p = Inr p' \<and> mp_objs p' = mp_objs p \<and> length (mp_pools p') = max (length (mp_pools p)) (nat n)
    \<and> GetPoolSize p' = to_int32 (int (length (mp_pools p'))) \<and> GetUsingCount p' = to_int32 (int (card (dom (mp_objs p'))))"
  using xreserve_ok [OF assms, of v] by (auto simp: mpool_inv_def GetPoolSize_def GetUsingCount_def)

lemma xreserve_grows_pool_witness:
  "\<exists>p'. xreserve 100 CHR ''x'' new_MemoryPool = Inr p' \<and> length (mp_pools p') = 100 \<and> GetPoolSize p' = 100"
  using xreserve_grows_pool [OF mpool_inv_new, of 100 "CHR ''x''"] by (auto simp: new_MemoryPool_def to_int32_id)

section \<open>Logging\<close>

text \<open>C31. In every interleaving of callers and the log thread, the records written from each of the four queues are a prefix of those queued there, in order and without duplicates, spdlog has been given exactly those records, and the log thread on its own always gets to a state in which everything queued so far is written.\<close>

theorem logs_reach_their_sinks:
  assumes "reaches log_step (log_started made) s" and "idx < LogMax"
  shows "(\<exists>queued. picks direct idx (lm_pushed s) = picks direct idx (lm_written s) @ queued)
    \<and> lm_out s = log_outputs (lm_offset s) (lm_logger s) (lm_written s)
    \<and> (\<exists>s'. reaches worker_step s s' \<and> lm_pushed s' = lm_pushed s
         \<and> picks direct idx (lm_written s') = picks direct idx (lm_pushed s))"
proof -
  have inv: "log_inv s" using log_inv_reaches [OF assms(1)] .
  obtain Q s' where s': "all_queues \<subseteq> Q" "cleared Q s s'" "lm_worker s' = Sleeping"
    using worker_catches_up [OF inv launched [OF assms(1)]] by blast
  have "reaches worker_step s s'" "lm_pushed s' = lm_pushed s" using s'(2) by (simp_all add: cleared_def)
  moreover have "picks direct idx (lm_pushed s') = picks direct idx (lm_written s')"
    using caught_up [OF inv s'(1,2,3) assms(2)] .
  moreover have "\<exists>queued. picks direct idx (lm_pushed s) = picks direct idx (lm_written s) @ queued"
    using inv unfolding log_inv_def log_balance_def by blast
  ultimately show ?thesis using inv by (auto simp: log_inv_def)
qed

lemma logs_reach_their_sinks_witness:
  "\<exists>s s'. reaches log_step (log_started None) s \<and> picks True FileLog (lm_pushed s) = [\<lparr>lg_lv = Error, lg_time = 5, lg_log = ''x''\<rparr>]
     \<and> reaches worker_step s s' \<and> picks True FileLog (lm_written s') = [\<lparr>lg_lv = Error, lg_time = 5, lg_log = ''x''\<rparr>]"
proof -
  define l where "l = \<lparr>lg_lv = Error, lg_time = 5, lg_log = ''x''\<rparr>"
  define s where "s = logged 0 False True l (log_started None)"
  have s: "reaches log_step (log_started None) s" unfolding s_def by (rule logged_reaches [OF reaches_refl]) (simp add: log_started_defs)
  have p: "picks True FileLog (lm_pushed s) = [l]" by (simp add: s_def logged_effect l_def log_started_defs)
  show ?thesis using logs_reach_their_sinks [OF s, of FileLog True] s p unfolding l_def [symmetric]
    by (auto simp: FileLog_def LogMax_def)
qed

text \<open>When the LogManager is destroyed while its thread sleeps, every queued Info and Warning record is written, but no queued Error record ever is.\<close>

theorem log_shutdown_loses_errors:
  assumes "reaches log_step (log_started made) s" and "lm_worker s = Sleeping" and "idx < LogMax"
  shows "picks False idx (lm_written (destroy_LogManager s)) = picks False idx (lm_pushed s)
    \<and> picks True idx (lm_written (destroy_LogManager s)) @ lm_directLogs s idx = picks True idx (lm_pushed s)"
  using destroyed [OF log_inv_reaches [OF assms(1)] assms(2,3)] .

lemma log_shutdown_loses_errors_witness:
  "\<exists>s. reaches log_step (log_started None) s \<and> picks True FileLog (lm_pushed s) = [\<lparr>lg_lv = Error, lg_time = 5, lg_log = ''x''\<rparr>]
     \<and> picks True FileLog (lm_written (destroy_LogManager s)) = []"
proof -
  define l where "l = \<lparr>lg_lv = Error, lg_time = 5, lg_log = ''x''\<rparr>"
  obtain t where t: "reaches log_step (log_started None) t" "lm_worker t = Sleeping" "lm_pushed t = []"
      "lm_directLogs t FileLog = []" "lm_callers t 0 = CallerIdle"
    using fresh_sleeping by blast
  define s where "s = logged 0 False True l t"
  have s: "reaches log_step (log_started None) s" unfolding s_def by (rule logged_reaches [OF t(1,5)])
  have q: "lm_worker s = Sleeping" "picks True FileLog (lm_pushed s) = [l]" "lm_directLogs s FileLog = [l]"
    using t by (simp_all add: s_def logged_effect l_def)
  show ?thesis using log_shutdown_loses_errors [OF s q(1), of FileLog] s q(2,3) unfolding l_def [symmetric]
    by (auto simp: FileLog_def LogMax_def)
qed

section \<open>Configuration\<close>

text \<open>C32. From a Config.json that is any JSON text of the modelled grammar (numbers without fraction or exponent; white space, escapes and member order as the standard allows) whose Main object has a process name, a thread count and the RIO switch, and whose optional GameDB and Redis objects have theirs, ReadConfig returns true with exactly these values in the configuration and leaves absent sections alone.\<close>

theorem config_text_is_read:
  fixes ops :: "'d double_ops" and ms :: "'d members"
  assumes "json_text (JObject ms) t" and "spaces w" and "spaces w'"
    and "main_says ms name threads rio" and "db_says ms db" and "redis_says ms redis"
  shows "ReadConfig ops (Contents (w @ t @ w')) c = Inr (True, set_redis redis (set_db db
    (c\<lparr>cf_processName := c_str name, cf_clientServiceThreadCount := threads, cf_useRIO := rio\<rparr>)))"
  using ReadConfig_document [OF JsonParse_text [OF assms(1-3)] assms(4-6)] by simp

lemma config_text_is_read_witness:
  "ReadConfig no_doubles (Contents ([10] @ (bytes_of ''{\"Main\":{\"ProcessName\":\"G\", \"ThreadCount\":8,\"UseRIO\":true }}'') @ [])) new_ServerConfig
    = Inr (True, new_ServerConfig\<lparr>cf_processName := bytes_of ''G'', cf_clientServiceThreadCount := 8, cf_useRIO := True\<rparr>)"
proof -
  let ?mm = "[(bytes_of ''ProcessName'', JString (bytes_of ''G'')), (bytes_of ''ThreadCount'', JUint 8), (bytes_of ''UseRIO'', JBool True)] :: unit members"
  have ks: "json_chars (bytes_of s) (bytes_of s)" if "s \<in> {''Main'', ''ProcessName'', ''ThreadCount'', ''UseRIO'', ''G''}" for s
    using that by (intro plain_chars) (auto simp: bytes_of_def)
  have n: "json_text (JUint 8 :: unit json) [56]" using text_int [of 8] by (simp add: json_int_def int_text_def decimal.simps)
  have g: "json_text (JString (bytes_of ''G'') :: unit json) (34 # bytes_of ''G'' @ [34])" by (rule text_string [OF ks]) simp
  have sp: "spaces []" "spaces [32]" by (simp_all add: spaces_def)
  have m3: "members_text [(bytes_of ''UseRIO'', JBool True :: unit json)] (34 # bytes_of ''UseRIO'' @ 34 # [] @ 58 # [] @ bytes_of ''true'' @ [32] @ [125])"
    by (rule members_last [OF ks sp(1) sp(1) text_true sp(2)]) simp
  have m: "members_text ?mm (34 # bytes_of ''ProcessName'' @ 34 # [] @ 58 # [] @ (34 # bytes_of ''G'' @ [34]) @ [] @ 44 # [32] @
      (34 # bytes_of ''ThreadCount'' @ 34 # [] @ 58 # [] @ [56] @ [] @ 44 # [] @ (34 # bytes_of ''UseRIO'' @ 34 # [] @ 58 # [] @ bytes_of ''true'' @ [32] @ [125])))"
    by (intro members_more ks sp g n m3) simp_all
  have d: "json_text (JObject [(bytes_of ''Main'', JObject ?mm)]) (bytes_of ''{\"Main\":{\"ProcessName\":\"G\", \"ThreadCount\":8,\"UseRIO\":true }}'')"
    using text_object [OF sp(1) members_last [OF ks [of "''Main''"] sp(1) sp(1) text_object [OF sp(1) m] sp(1)]] by (simp add: bytes_of_def)
  show ?thesis
    using config_text_is_read [OF d, of "[10]" "[]" "bytes_of ''G''" 8 True None None no_doubles new_ServerConfig]
    by (simp add: spaces_def main_says_def db_says_def redis_says_def member_is_def int_member_def DoFindMember_def bytes_of_def
        json_int_def set_db_def set_redis_def c_str_def)
qed

text \<open>ReadConfig returns false exactly when Config.json is missing or unreadable, without touching the configuration; a file that is no JSON text ends the process in an assertion instead, because the result of the parse is not tested, and no other failure exists.\<close>

theorem config_errors:
  shows "(ReadConfig ops cfg c = Inr (False, c') \<longleftrightarrow> (cfg = Missing \<or> cfg = Unreadable) \<and> c' = c)
    \<and> (JsonParse ops bs = Some (Inl e) \<longrightarrow> ReadConfig ops (Contents bs) c = Inl assert_failed)
    \<and> (ReadConfig ops cfg c = Inl f \<longrightarrow> f = assert_failed)"
  using ReadConfig_asserting [of ops cfg c] ReadConfig_false [of ops cfg c c'] ReadConfig_malformed [of ops bs e c]
  by (auto simp: asserting_def simp del: split_paired_All)

lemma config_errors_witness:
  "ReadConfig no_doubles (Contents [123, 125, 125]) new_ServerConfig = Inl assert_failed"
proof -
  have "JsonParse no_doubles [123, 125, 125] = Some (Inl (kParseErrorDocumentRootNotSingular, 2))" by code_simp
  then show ?thesis using config_errors [of no_doubles] by blast
qed

text \<open>C33. The JSON reader inverts the grammar of the standard: whatever a value without fractional numbers is written as (any white space, any escape for a character, any member order), JsonParse reads back exactly that value; and on arbitrary bytes it always stops, with a document or with an error code and an offset.\<close>

theorem json_texts_parse:
  fixes ops :: "'d double_ops" and v :: "'d json"
  shows "(json_text v t \<longrightarrow> spaces w \<longrightarrow> spaces w' \<longrightarrow> JsonParse ops (w @ t @ w') = Some (Inr v))
    \<and> (\<exists>r. JsonParse ops bs = Some r)"
  using JsonParse_text JsonParse_total by blast

lemma json_texts_parse_witness:
  "JsonParse no_doubles (([32] @ [91, 55, 44, 32, 34, 0x5C, 0x75, 0x30, 0x30, 0x34, 0x31, 34, 93] @ []) :: BYTE list)
    = Some (Inr (JArray [JUint 7, JString [0x41]]))"
proof -
  have h: "hex4 65 [0x30, 0x30, 0x34, 0x31]" using hex4.intros [of 48 0 48 0 52 4 49 1] by (simp add: hex_value_def)
  have c: "json_chars [0x41] [0x5C, 0x75, 0x30, 0x30, 0x34, 0x31]" using chars_unit [OF chars_end h] by (simp add: utf8_of_def)
  have t: "json_text (JString [0x41] :: unit json) [34, 0x5C, 0x75, 0x30, 0x30, 0x34, 0x31, 34]" using text_string [OF c] by simp
  have n: "json_text (JUint 7 :: unit json) [55]" using text_int [of 7] by (simp add: json_int_def int_text_def decimal.simps)
  have sp: "spaces []" "spaces [32]" by (simp_all add: spaces_def)
  have "json_text (JArray [JUint 7, JString [0x41] :: unit json]) [91, 55, 44, 32, 34, 0x5C, 0x75, 0x30, 0x30, 0x34, 0x31, 34, 93]"
    using text_array [OF sp(1) elements_more [OF n sp elements_last [OF t sp(1)]]] by simp
  then show ?thesis using json_texts_parse sp by blast
qed

section \<open>Accepting connections\<close>

text \<open>C34. RegisterAccept returns exactly when some session it is going to create ends the recursion (AcceptEx takes it, or it cannot be registered with the port); it then leaves the accept event posted with a fresh session, or has dereferenced the null session of a failed registration.\<close>

theorem accept_posts_or_recurses:
  "((\<exists>r. RegisterAccept ao e nw = Some r) \<longleftrightarrow> (\<exists>n. nw_created nw \<le> n \<and> accept_ends ao n))
   \<and> (RegisterAccept ao e nw = Some (Inr nw') \<longrightarrow> accept_posted e nw nw')
   \<and> (RegisterAccept ao e nw = Some (Inl f) \<longrightarrow> f = NullPointer)"
  using RegisterAccept_returns_iff [of ao e nw] RegisterAccept_result [of ao e nw] by (auto simp: accept_result_def)

lemma accept_posts_or_recurses_witness:
  "\<exists>r. RegisterAccept quiet_os 0 (new_network (new_Service Server True 2)) = Some r"
  using accept_posts_or_recurses [of quiet_os 0 "new_network (new_Service Server True 2)"]
  by (auto simp: accept_ends_def quiet_os_def new_network_def)

text \<open>C35. After StartAccept and through any interleaving of accepts and events of all sessions, the session set of the service, its session counter and the connect counter of the monitor all describe exactly the sessions between OnConnected and OnDisconnected, and every accept slot stays posted with a session of its own that is not connected yet.\<close>

theorem server_counts_agree:
  assumes "StartAccept ao True (new_network (new_Service Server f n)) = Some (Inr (True, nw0))" and "nw_created nw0 < 2 ^ 31"
    and "reaches (net_step ao sys) nw0 nw"
  shows "sv_sessions (nw_service nw) = live nw \<and> sv_sessionCount (nw_service nw) = int (card (live nw))
    \<and> mo_connectCount (nw_monitor nw) = int (card (live nw)) \<and> nw_posted nw = {..<nat n}
    \<and> (\<forall>e < nat n. \<exists>i. nw_accept nw e = Some i \<and> i \<notin> live nw \<and> (\<forall>e' < nat n. nw_accept nw e' = Some i \<longrightarrow> e' = e))"
proof -
  have inv: "net_inv sys nw0" "nw_posted nw0 = {..<nat n}" using StartAccept_inv [OF assms(1,2), of sys] by simp_all
  have now: "sessions_inv sys nw" "counts_inv nw" "slots_inv nw" "nw_posted nw = {..<nat n}"
    using net_reachable [OF assms(3) inv(1)] inv(2) by (simp_all add: net_inv_def)
  then have "\<exists>i. nw_accept nw e = Some i \<and> i \<notin> live nw \<and> (\<forall>e' < nat n. nw_accept nw e' = Some i \<longrightarrow> e' = e)" if "e < nat n" for e
    using that unfolding slots_inv_def live_def by (metis (mono_tags, lifting) lessThan_iff mem_Collect_eq)
  then show ?thesis using now unfolding counts_inv_def by blast
qed

lemma server_counts_agree_witness:
  "\<exists>nw0 nw. StartAccept quiet_os True (new_network (new_Service Server True 2)) = Some (Inr (True, nw0))
    \<and> net_step quiet_os quiet_system nw0 nw \<and> nw_posted nw = {..<2} \<and> sv_sessionCount (nw_service nw) = int (card (live nw))"
proof -
  obtain nw0 where nw0: "StartAccept quiet_os True (new_network (new_Service Server True 2)) = Some (Inr (True, nw0))" "nw_created nw0 = 2"
    using quiet_started by blast
  obtain nw where step: "net_step quiet_os quiet_system nw0 nw" using quiet_first_client [OF nw0] by blast
  have "nw_created nw0 < 2 ^ 31" using nw0(2) by simp
  moreover have "reaches (net_step quiet_os quiet_system) nw0 nw" by (rule reaches_step, rule reaches_refl, rule step)
  ultimately show ?thesis using server_counts_agree [OF nw0(1)] nw0(1) step by auto
qed

text \<open>C36. While the server runs, each session calls OnConnected at most once and OnDisconnected only after it and at most once, and the client set that ClientSessionManager has made of these calls is exactly the session set of the service.\<close>

theorem clients_are_sessions:
  assumes "StartAccept ao True (new_network (new_Service Server f n)) = Some (Inr (True, nw0))" and "nw_created nw0 < 2 ^ 31"
    and "reaches (net_step ao sys) nw0 nw"
  shows "clients nw = sv_sessions (nw_service nw)
    \<and> connect_calls (nw_trace nw i) \<in> {[], [Cb_OnConnected], [Cb_OnDisconnected, Cb_OnConnected]}"
proof -
  have "net_inv sys nw" "calls_inv nw" using server_calls [OF assms] by blast+
  then show ?thesis using clients_live [of nw] by (simp add: net_inv_def counts_inv_def calls_inv_def)
qed

lemma clients_are_sessions_witness:
  "\<exists>nw0 nw i. net_step quiet_os quiet_system nw0 nw \<and> i \<in> clients nw \<and> i \<in> sv_sessions (nw_service nw)"
proof -
  obtain nw0 where nw0: "StartAccept quiet_os True (new_network (new_Service Server True 2)) = Some (Inr (True, nw0))" "nw_created nw0 = 2"
    using quiet_started by blast
  obtain nw i where step: "net_step quiet_os quiet_system nw0 nw" "i \<in> live nw" using quiet_first_client [OF nw0] by blast
  have bnd: "nw_created nw0 < 2 ^ 31" using nw0(2) by simp
  have r: "reaches (net_step quiet_os quiet_system) nw0 nw" by (rule reaches_step, rule reaches_refl, rule step(1))
  have "clients nw = live nw" using server_calls [OF nw0(1) bnd r] clients_live by blast
  then have "i \<in> clients nw \<and> i \<in> sv_sessions (nw_service nw)" using clients_are_sessions [OF nw0(1) bnd r] step(2) by metis
  then show ?thesis using step(1) by blast
qed

text \<open>C37. Broadcast of a message of at most 11996 bytes, in any order of the client set and at any time of the running server, succeeds and appends exactly one packet with this message to what every still connected client has been sent or is to be sent, and nothing to any other session; the invariants of network and send buffers survive.\<close>

theorem broadcast_reaches_clients:
  assumes "StartAccept ao True (new_network (new_Service Server f n)) = Some (Inr (True, nw0))" and "nw_created nw0 < 2 ^ 31"
    and "reaches (net_step ao sys) nw0 nw" and "reaches packet_step new_send_manager m"
    and "set order = clients nw" and "distinct order" and "length pkt \<le> 11996"
  shows "\<exists>nw' m'. Broadcast sys t protocol pkt order (nw, m) = Inr (nw', m') \<and> net_inv sys nw' \<and> manager_inv m' \<and> clients nw' = clients nw
    \<and> (\<forall>i. client_history nw' i = client_history nw i @ (if i \<in> clients nw \<and> client_connected nw i then [packet_bytes pkt protocol] else []))"
proof -
  have inv: "net_inv sys nw" "calls_inv nw" using server_calls [OF assms(1-3)] by blast+
  have order: "set order \<subseteq> live nw" using assms(5) clients_live [OF inv(2)] by simp
  show ?thesis
    using Broadcast_ok [OF inv packets_inv [OF assms(4)] order assms(6,7), of t protocol] clients_live inv(2) assms(5) by metis
qed

lemma broadcast_reaches_clients_witness:
  "\<exists>nw i nw' m'. Broadcast quiet_system 0 7 [1, 2] (sorted_list_of_set (clients nw)) (nw, new_send_manager) = Inr (nw', m')
    \<and> client_history nw' i = client_history nw i @ [packet_bytes [1, 2] 7]"
proof -
  obtain nw0 where nw0: "StartAccept quiet_os True (new_network (new_Service Server True 2)) = Some (Inr (True, nw0))" "nw_created nw0 = 2"
    using quiet_started by blast
  obtain nw i where step: "net_step quiet_os quiet_system nw0 nw" "i \<in> live nw" "client_connected nw i" using quiet_first_client [OF nw0] by blast
  have bnd: "nw_created nw0 < 2 ^ 31" using nw0(2) by simp
  have r: "reaches (net_step quiet_os quiet_system) nw0 nw" by (rule reaches_step, rule reaches_refl, rule step(1))
  have inv: "net_inv quiet_system nw" "clients nw = live nw" using server_calls [OF nw0(1) bnd r] clients_live by blast+
  then have c: "finite (clients nw)" "i \<in> clients nw" using step(2) live_card by (auto simp: net_inv_def)
  have order: "set (sorted_list_of_set (clients nw)) = clients nw" "distinct (sorted_list_of_set (clients nw))" using c(1) by simp_all
  have "length [1, 2 :: BYTE] \<le> 11996" by simp
  from broadcast_reaches_clients [OF nw0(1) bnd r reaches_refl order this, of 0 7]
  obtain nw' m' where b: "Broadcast quiet_system 0 7 [1, 2] (sorted_list_of_set (clients nw)) (nw, new_send_manager) = Inr (nw', m')"
    "\<forall>i. client_history nw' i = client_history nw i @ (if i \<in> clients nw \<and> client_connected nw i then [packet_bytes [1, 2] 7] else [])"
    by blast
  have "client_history nw' i = client_history nw i @ [packet_bytes [1, 2] 7]" using b(2) c(2) step(3) by simp
  then show ?thesis using b(1) by blast
qed

section \<open>The loop of the server\<close>



text \<open>C39. As long as some reserved timer lies in the future (which every worker that loops within three seconds brings about, by reserving UpdateActor for three seconds later in each round), no timer is ever handed out: neither the report of UpdateTime nor any reserved UpdateActor runs, only empty jobs do, and each worker leaves one more timer in the heap with every round.\<close>

theorem timers_never_fire:
  assumes "reaches (prompt_step n) (loop_init tick) s"
  shows "tm_pushed (gl_timer s) = [] \<and> set (js_ran (gl_jobs s) q) \<subseteq> {Empty}
    \<and> (gl_calls s t = [] \<longrightarrow> timers_of (UpdateActorJob t) s = gl_rounds s t)"
  using prompt_no_timer_fires [OF assms] by blast

lemma timers_never_fire_witness:
  "let s = fold thread_step (replicate 2 0 @ replicate 33 1) (loop_init 5000) in
    gl_rounds s 1 = 2 \<and> timers_of (UpdateActorJob 1) s = 2 \<and> tm_pushed (gl_timer s) = []"
proof -
  define s where "s = fold thread_step (replicate 2 0 @ replicate 33 1) (loop_init 5000)"
  have p: "prompt_run (replicate 2 0 @ replicate 33 1) (loop_init 5000)" by code_simp
  have r: "reaches (prompt_step 1) (loop_init 5000) s" unfolding s_def by (rule prompt_run_reaches [OF thread_inv_init p]) auto
  have "gl_rounds s 1 = 2 \<and> gl_calls s 1 = []" unfolding s_def by code_simp
  then show ?thesis unfolding Let_def s_def [symmetric] using timers_never_fire [OF r, of _ 1] by simp
qed

section \<open>Time\<close>

text \<open>GetTick64 counts the milliseconds of the process for 2^31 milliseconds (24.8 days) and never goes back in that time; from then on it stands still one millisecond before the start, earlier than everything it has returned before.\<close>

theorem ticks_stop_after_25_days:
  assumes "startTick \<noteq> 0" and "unat startTick + 2147483648 < 18446744073709551616" and "e < 2147483648"
  shows "unat (GetTick64 startTick e) = unat startTick + e
    \<and> (e \<le> e' \<and> e' < 2147483648 \<longrightarrow> GetTick64 startTick e \<le> GetTick64 startTick e')
    \<and> (2147483648 \<le> e' \<longrightarrow> GetTick64 startTick e' = startTick - 1 \<and> GetTick64 startTick e' < GetTick64 startTick e)"
  using unat_GetTick64 [of e startTick] GetTick64_monotone [of e e' startTick] GetTick64_goes_back [of e e' startTick]
    GetTick64_stops [of e' startTick] assms
  by simp

lemma ticks_stop_after_25_days_witness:
  "GetTick64 1700000000000 2147483648 < GetTick64 1700000000000 0"
proof -
  have "(1700000000000 :: uint64) \<noteq> 0" "unat (1700000000000 :: uint64) + 2147483648 < 18446744073709551616" "(0 :: nat) < 2147483648" by simp_all
  from ticks_stop_after_25_days [OF this, of 2147483648]
  have "2147483648 \<le> (2147483648 :: nat) \<longrightarrow> GetTick64 1700000000000 2147483648 < GetTick64 1700000000000 0" by blast
  then show ?thesis by (rule mp) (rule order_refl)
qed

text \<open>With Poco as documented, the two conversions between ticks and DateTime are inverse, but GetPocoTime shows one second for every millisecond since the start, because AddMicroseconds passes milliseconds where Timespan takes seconds.\<close>

theorem poco_times:
  assumes "poco_documented p" and "uint tick * 1000 \<le> last_microsecond" and "elapsed \<le> 2147483"
    and "0 \<le> pc_timestamp p (tu_startTime tu)" and "pc_timestamp p (tu_startTime tu) + int elapsed * 1000000 \<le> last_microsecond"
  shows "PocoTimeToTick p (TickToPocoTime p tick) = tick
    \<and> pc_timestamp p (GetPocoTime p tu elapsed) = pc_timestamp p (tu_startTime tu) + int elapsed * 1000000"
  using tick_round_trip [OF assms(1,2)] GetPocoTime_runs_fast [OF assms(1,3-5)] by simp

lemma poco_times_witness:
  "let p = \<lparr>pc_timestamp = (\<lambda>d. d), pc_DateTime = (\<lambda>ts. ts), pc_plus = (+), pc_Timespan = (\<lambda>sec usec. sec * 1000000 + usec)\<rparr>
   in GetPocoTime p (TimeUtils_Init p 1000) 5 = 5001000"
  using poco_times [of "\<lparr>pc_timestamp = (\<lambda>d. d), pc_DateTime = (\<lambda>ts. ts), pc_plus = (+), pc_Timespan = (\<lambda>sec usec. sec * 1000000 + usec)\<rparr>"
      0 5 "TimeUtils_Init \<lparr>pc_timestamp = (\<lambda>d. d), pc_DateTime = (\<lambda>ts. ts), pc_plus = (+), pc_Timespan = (\<lambda>sec usec. sec * 1000000 + usec)\<rparr> 1000"]
  by (simp add: poco_documented_def last_microsecond_def TimeUtils_Init_def)

section \<open>Starting the server\<close>

text \<open>C40. The three outcomes of GameServer::Init: true, and then the configuration is that of the file, 100 accept slots are posted with fresh sessions, no client is connected, as many workers as configured run, with registered I/O each has a valid completion queue, and the job pool holds 100000 free blocks; false only without a readable Config.json or when a completion queue cannot be made; and a fault only by an assertion on the configuration, one of ASSERT_CRASH, or the null session of a failed registration.\<close>

theorem server_init:
  shows "(GameServer_Init ops cfg os made new_GameServer = Some (Inr (True, gs)) \<and> nw_created (gs_network gs) < 2 ^ 31
      \<longrightarrow> server_ready sys gs \<and> ReadConfig ops cfg new_ServerConfig = Inr (True, gs_config gs))
    \<and> (GameServer_Init ops cfg os made new_GameServer = Some (Inr (False, gs)) \<longrightarrow> cfg = Missing \<or> cfg = Unreadable
      \<or> GetUseRIO (gs_config gs) \<and> (\<exists>j < nat (GetClientServiceCount (gs_config gs)). so_cq os j = RIO_INVALID_CQ \<or> \<not> so_notify os j))
    \<and> (GameServer_Init ops cfg os made new_GameServer = Some (Inl f) \<longrightarrow> f \<in> {assert_failed, Crash ''ASSERT_CRASH'', NullPointer})"
  using Init_ready(1) [of ops cfg os made gs sys] Init_ready(2) [of ops cfg os made gs] Init_false [of ops cfg os made gs] Init_fault [of ops cfg os made f] by blast

lemma server_init_witness:
  "\<exists>gs. GameServer_Init no_doubles (Contents Config_json) quiet_server_os None new_GameServer = Some (Inr (True, gs))
    \<and> gs_workers gs = 8 \<and> nw_posted (gs_network gs) = {..<100} \<and> length (sv_rioCQEventList (nw_service (gs_network gs))) = 8"
proof -
  obtain gs where gs: "GameServer_Init no_doubles (Contents Config_json) quiet_server_os None new_GameServer = Some (Inr (True, gs))"
    "nw_created (gs_network gs) = 100" "gs_config gs = shipped"
    using quiet_init by blast
  have "server_ready quiet_system gs"
    using server_init [of no_doubles "Contents Config_json" quiet_server_os None gs quiet_system] gs(1,2) by simp
  then show ?thesis using gs(1,3)
    by (auto simp: server_ready_def shipped_def GetClientServiceCount_def GetUseRIO_def split: if_splits)
qed

end
